(* ===== verification/Prelude.thy ===== *)
theory Prelude
  imports Main "HOL-Library.Word" "HOL-Library.Signed_Division"
begin

text \<open>
  Shared vocabulary of the development: the type synonyms of the program's identifiers, the
  named theorem collections, C++ machine-integer conversions on \<open>int\<close>, and a model of
  \<open>std::map\<close> (an association list sorted by key) with the interface the components rely on.
\<close>

section \<open>Names and collections\<close>

type_synonym thread_id = int
type_synonym task_id = int
type_synonym nanos = int
type_synonym byte = "8 word"

named_theorems map_simps \<open>equations of the ordered map operations\<close>
named_theorems wrap_simps \<open>machine-integer conversions that are the identity in range\<close>

section \<open>Machine integers on int\<close>

text \<open>
  A conversion to a C++ integer type keeps the value modulo a power of two. The signed ones
  are two's complement.
\<close>

definition s32 :: "int \<Rightarrow> int" where
  "s32 x = (x + 2 ^ 31) mod 2 ^ 32 - 2 ^ 31"

definition s64 :: "int \<Rightarrow> int" where
  "s64 x = (x + 2 ^ 63) mod 2 ^ 64 - 2 ^ 63"

definition u32 :: "int \<Rightarrow> int" where
  "u32 x = x mod 2 ^ 32"

definition LONG_MAX :: int where
  "LONG_MAX = 2 ^ 63 - 1"

definition LONG_MIN :: int where
  "LONG_MIN = - (2 ^ 63)"

lemma s32_id [wrap_simps]: "- (2 ^ 31) \<le> x \<Longrightarrow> x < 2 ^ 31 \<Longrightarrow> s32 x = x"
  by (simp add: s32_def)

lemma s64_id [wrap_simps]: "- (2 ^ 63) \<le> x \<Longrightarrow> x < 2 ^ 63 \<Longrightarrow> s64 x = x"
  by (simp add: s64_def)

lemma u32_id [wrap_simps]: "0 \<le> x \<Longrightarrow> x < 2 ^ 32 \<Longrightarrow> u32 x = x"
  by (simp add: u32_def)

lemma s32_range: "- (2 ^ 31) \<le> s32 x \<and> s32 x < 2 ^ 31"
proof -
  have "0 \<le> (x + 2 ^ 31) mod 2 ^ 32" "(x + 2 ^ 31) mod 2 ^ 32 < 2 ^ 32"
    by (rule pos_mod_sign pos_mod_bound, simp)+
  then show ?thesis by (simp add: s32_def)
qed

text \<open>C++ division truncates towards zero; for a positive divisor it is expressed with \<open>div\<close>.\<close>

lemma sdiv_pos: "0 < (b::int) \<Longrightarrow> a sdiv b = (if 0 \<le> a then a div b else - ((- a) div b))"
  by (auto simp: signed_divide_int_def sgn_if)

lemma smod_pos: "0 < (b::int) \<Longrightarrow> a smod b = (if 0 \<le> a then a mod b else - ((- a) mod b))"
  by (auto simp: signed_modulo_int_def signed_divide_int_def sgn_if
      minus_mult_div_eq_mod [symmetric] algebra_simps)

text \<open>The idiom \<open>(y >= 0 ? y : y - (k - 1)) / k\<close> of the date code is floor division.\<close>

lemma sdiv_floor: "0 < (k::int) \<Longrightarrow> (if 0 \<le> y then y else y - (k - 1)) sdiv k = y div k"
proof (cases "0 \<le> y")
  case False
  assume k: "0 < k"
  have "- ((- (y - (k - 1))) div k) = y div k"
  proof -
    have y: "y = k * (y div k) + y mod k" by simp
    have r: "0 \<le> y mod k" "y mod k < k" using k by simp_all
    have "- (y - (k - 1)) = k * (- (y div k)) + (k - 1 - y mod k)"
      using y by (simp add: algebra_simps)
    moreover have "0 \<le> k - 1 - y mod k" "k - 1 - y mod k < k" using r by simp_all
    ultimately have "(- (y - (k - 1))) div k = - (y div k)"
      using k by (metis (no_types, lifting) div_pos_pos_trivial div_mult_self4 less_irrefl add_0_right)
    then show ?thesis by simp
  qed
  with False k show ?thesis by (simp add: sdiv_pos)
qed (simp add: sdiv_pos)

section \<open>Ordered maps (std::map)\<close>

text \<open>
  \<open>std::map\<close> iterates in increasing key order; the order is observable where an iteration
  has side effects. The model is the list of entries in iteration order.
\<close>

type_synonym ('k, 'v) omap = "('k \<times> 'v) list"

definition om_ok :: "('k::linorder, 'v) omap \<Rightarrow> bool" where
  "om_ok m \<longleftrightarrow> sorted_wrt (<) (map fst m)"

definition om_keys :: "('k, 'v) omap \<Rightarrow> 'k list" where
  "om_keys m = map fst m"

definition om_find :: "('k, 'v) omap \<Rightarrow> 'k \<Rightarrow> 'v option" where
  "om_find m k = map_of m k"

text \<open>\<open>emplace\<close> inserts only when the key is absent.\<close>

fun om_emplace :: "'k::linorder \<Rightarrow> 'v \<Rightarrow> ('k, 'v) omap \<Rightarrow> ('k, 'v) omap" where
  "om_emplace k v [] = [(k, v)]"
| "om_emplace k v ((k', v') # m) =
     (if k < k' then (k, v) # (k', v') # m
      else if k = k' then (k', v') # m
      else (k', v') # om_emplace k v m)"

text \<open>Assignment through an iterator: the entry with key \<open>k\<close>, when there is one.\<close>

definition om_set :: "'k \<Rightarrow> 'v \<Rightarrow> ('k, 'v) omap \<Rightarrow> ('k, 'v) omap" where
  "om_set k v m = map (\<lambda>(k', v'). (k', if k' = k then v else v')) m"

definition om_erase :: "'k \<Rightarrow> ('k, 'v) omap \<Rightarrow> ('k, 'v) omap" where
  "om_erase k m = filter (\<lambda>(k', _). k' \<noteq> k) m"

text \<open>A loop \<open>for (auto& [k, v] : m)\<close> whose body only changes the entry it visits.\<close>

definition om_map :: "('k \<Rightarrow> 'v \<Rightarrow> 'w) \<Rightarrow> ('k, 'v) omap \<Rightarrow> ('k, 'w) omap" where
  "om_map f m = map (\<lambda>(k, v). (k, f k v)) m"

lemma om_find_Nil [simp]: "om_find [] k = None"
  by (simp add: om_find_def)

lemma om_find_Cons [simp]: "om_find ((k', v) # m) k = (if k = k' then Some v else om_find m k)"
  by (auto simp: om_find_def)

lemma om_find_None_iff: "om_find m k = None \<longleftrightarrow> k \<notin> set (om_keys m)"
  by (auto simp: om_find_def om_keys_def map_of_eq_None_iff)

lemma om_find_Some_key: "om_find m k = Some v \<Longrightarrow> k \<in> set (om_keys m)"
  by (metis om_find_None_iff option.distinct(1))

lemma om_key_find: "k \<in> set (om_keys m) \<longleftrightarrow> (\<exists>v. om_find m k = Some v)"
  using om_find_None_iff [of m k] by auto

lemma om_ok_distinct: "om_ok m \<Longrightarrow> distinct (om_keys m)"
  using strict_sorted_iff by (auto simp: om_ok_def om_keys_def)

lemma om_find_in_set: "om_find m k = Some v \<Longrightarrow> (k, v) \<in> set m"
  by (simp add: om_find_def map_of_SomeD)

lemma om_find_iff: "om_ok m \<Longrightarrow> om_find m k = Some v \<longleftrightarrow> (k, v) \<in> set m"
  using om_ok_distinct [of m] by (auto simp: om_find_def om_keys_def)

lemma om_find_emplace [map_simps]:
  "om_ok m \<Longrightarrow> om_find (om_emplace k v m) k' =
     (if k' = k then (case om_find m k of None \<Rightarrow> Some v | Some w \<Rightarrow> Some w) else om_find m k')"
proof (induction m)
  case (Cons e m)
  obtain a b where e: "e = (a, b)" by fastforce
  have ok: "om_ok m" and lt: "\<forall>x\<in>set (om_keys m). a < x"
    using Cons.prems by (auto simp: om_ok_def om_keys_def e)
  have "k < a \<Longrightarrow> om_find m k = None"
    using lt by (auto simp: om_find_None_iff)
  then show ?case
    using Cons.IH ok by (auto simp: e)
qed simp

lemma om_keys_emplace: "set (om_keys (om_emplace k v m)) = insert k (set (om_keys m))"
  by (induction k v m rule: om_emplace.induct) (auto simp: om_keys_def)

lemma om_ok_emplace [map_simps]: "om_ok m \<Longrightarrow> om_ok (om_emplace k v m)"
proof (induction k v m rule: om_emplace.induct)
  case (2 k v k' v' m)
  have ok: "om_ok m" and lt: "\<forall>x\<in>set (om_keys m). k' < x"
    using "2.prems" by (auto simp: om_ok_def om_keys_def)
  then show ?case
    using 2 om_keys_emplace [of k v m]
    by (auto simp: om_ok_def om_keys_def intro: less_trans)
qed (simp add: om_ok_def)

lemma om_find_set [map_simps]:
  "om_find (om_set k v m) k' =
     (if k' = k then (case om_find m k of None \<Rightarrow> None | Some _ \<Rightarrow> Some v) else om_find m k')"
  by (induction m) (auto simp: om_set_def split: option.splits if_splits)

lemma om_keys_set [simp]: "om_keys (om_set k v m) = om_keys m"
  by (induction m) (auto simp: om_set_def om_keys_def)

lemma om_ok_set [map_simps]: "om_ok (om_set k v m) = om_ok m"
  using om_keys_set [of k v m] by (simp add: om_ok_def om_keys_def)

lemma om_find_erase [map_simps]:
  "om_find (om_erase k m) k' = (if k' = k then None else om_find m k')"
  by (induction m) (auto simp: om_erase_def)

lemma om_ok_erase [map_simps]: "om_ok m \<Longrightarrow> om_ok (om_erase k m)"
  by (induction m) (auto simp: om_ok_def om_erase_def)

lemma om_keys_erase [map_simps]: "set (om_keys (om_erase k m)) = set (om_keys m) - {k}"
  by (auto simp: om_keys_def om_erase_def)

lemma om_find_map [map_simps]: "om_find (om_map f m) k = map_option (f k) (om_find m k)"
  by (induction m) (auto simp: om_map_def)

lemma om_keys_map [simp]: "om_keys (om_map f m) = om_keys m"
  by (induction m) (auto simp: om_map_def om_keys_def)

lemma om_ok_map [map_simps]: "om_ok (om_map f m) = om_ok m"
  using om_keys_map [of f m] by (simp add: om_ok_def om_keys_def)

text \<open>
  The contract of an ordered map, as the clients of \<open>std::map\<close> use it: an entry that is
  assigned or erased leaves every other entry alone.
\<close>

locale ordered_map =
  fixes ok :: "'m \<Rightarrow> bool"
    and find :: "'m \<Rightarrow> 'k \<Rightarrow> 'v option"
    and emplace :: "'k \<Rightarrow> 'v \<Rightarrow> 'm \<Rightarrow> 'm"
    and assign :: "'k \<Rightarrow> 'v \<Rightarrow> 'm \<Rightarrow> 'm"
    and erase :: "'k \<Rightarrow> 'm \<Rightarrow> 'm"
  assumes find_emplace: "ok m \<Longrightarrow> find (emplace k v m) k' =
      (if k' = k then (case find m k of None \<Rightarrow> Some v | Some w \<Rightarrow> Some w) else find m k')"
    and find_assign: "ok m \<Longrightarrow> find (assign k v m) k' =
      (if k' = k then (case find m k of None \<Rightarrow> None | Some _ \<Rightarrow> Some v) else find m k')"
    and find_erase: "ok m \<Longrightarrow> find (erase k m) k' = (if k' = k then None else find m k')"
    and ok_emplace: "ok m \<Longrightarrow> ok (emplace k v m)"
    and ok_assign: "ok m \<Longrightarrow> ok (assign k v m)"
    and ok_erase: "ok m \<Longrightarrow> ok (erase k m)"
begin

lemma upsert_find:
  "ok m \<Longrightarrow> find (assign k v (emplace k w m)) k' = (if k' = k then Some v else find m k')"
  by (simp add: find_assign find_emplace ok_emplace split: option.splits)

lemma upsert_ok: "ok m \<Longrightarrow> ok (assign k v (emplace k w m))"
  by (simp add: ok_assign ok_emplace)

lemma erase_fold_find:
  "ok m \<Longrightarrow> find (fold erase ks m) k = (if k \<in> set ks then None else find m k)"
  by (induction ks arbitrary: m) (auto simp: find_erase ok_erase)

end

interpretation om: ordered_map om_ok om_find om_emplace om_set om_erase
  by unfold_locales (auto simp: map_simps)

lemmas om_upsert = om.upsert_find om.upsert_ok

end
