(* ===== verification/TaskPriority.thy ===== *)
theory TaskPriority
  imports Prelude
begin

text \<open>
  The task priority service (\<^verbatim>\<open>TaskPriorityJni.cpp\<close>) and the comparison of threads by
  priority (class \<^verbatim>\<open>thread_priority\<close> of \<^verbatim>\<open>SparkResourceAdaptorJni.cpp\<close>).
  The two static variables of the service are the record \<open>task_priorities\<close>; each call takes
  the mutex for its whole body, so a call is one state transformation.
\<close>

section \<open>The service\<close>

record task_priorities =
  next_task_priority :: int
  attempt_priorities :: "task_id \<rightharpoonup> int"

definition init_priorities :: task_priorities where
  "init_priorities = \<lparr>next_task_priority = LONG_MAX - 1, attempt_priorities = Map.empty\<rparr>"

definition get_task_priority :: "task_id \<Rightarrow> task_priorities \<Rightarrow> int \<times> task_priorities" where
  "get_task_priority attempt_id st =
     (if attempt_id = -1 then (LONG_MAX, st)
      else case attempt_priorities st attempt_id of
             Some p \<Rightarrow> (p, st)
           | None \<Rightarrow>
               let priority = next_task_priority st
               in (priority, st\<lparr>next_task_priority := s64 (priority - 1),
                               attempt_priorities := (attempt_priorities st)(attempt_id \<mapsto> priority)\<rparr>))"

definition priority_task_done :: "task_id \<Rightarrow> task_priorities \<Rightarrow> task_priorities" where
  "priority_task_done attempt_id st =
     (if attempt_id = -1 then st
      else st\<lparr>attempt_priorities := (attempt_priorities st)(attempt_id := None)\<rparr>)"

datatype priority_request = Get_Priority task_id | Task_Done task_id

fun priority_call :: "priority_request \<Rightarrow> task_priorities \<Rightarrow> task_priorities" where
  "priority_call (Get_Priority a) st = snd (get_task_priority a st)"
| "priority_call (Task_Done a) st = priority_task_done a st"

section \<open>Comparing threads\<close>

datatype thread_priority = Thread_Priority (task_priority: int) (priority_thread: thread_id)

definition make_thread_priority ::
  "task_id \<Rightarrow> thread_id \<Rightarrow> task_priorities \<Rightarrow> thread_priority \<times> task_priorities" where
  "make_thread_priority tsk_id t_id st =
     (case get_task_priority tsk_id st of (p, st') \<Rightarrow> (Thread_Priority p t_id, st'))"

definition thread_priority_less :: "thread_priority \<Rightarrow> thread_priority \<Rightarrow> bool" where
  "thread_priority_less a b \<longleftrightarrow>
     (if task_priority a < task_priority b then True
      else if task_priority a = task_priority b then priority_thread a < priority_thread b
      else False)"

instantiation thread_priority :: linorder
begin

definition less_thread_priority :: "thread_priority \<Rightarrow> thread_priority \<Rightarrow> bool" where
  "less_thread_priority a b \<longleftrightarrow> thread_priority_less a b"

definition less_eq_thread_priority :: "thread_priority \<Rightarrow> thread_priority \<Rightarrow> bool" where
  "less_eq_thread_priority a b \<longleftrightarrow> a < b \<or> a = b"

instance
proof
  fix x y z :: thread_priority
  show "x < y \<longleftrightarrow> x \<le> y \<and> \<not> y \<le> x"
    by (auto simp: less_thread_priority_def thread_priority_less_def less_eq_thread_priority_def split: if_splits)
  show "x \<le> x"
    by (simp add: less_eq_thread_priority_def)
  show "x \<le> y \<Longrightarrow> y \<le> z \<Longrightarrow> x \<le> z"
    by (auto simp: less_thread_priority_def thread_priority_less_def less_eq_thread_priority_def split: if_splits)
  show "x \<le> y \<Longrightarrow> y \<le> x \<Longrightarrow> x = y"
    by (auto simp: less_thread_priority_def thread_priority_less_def less_eq_thread_priority_def split: if_splits)
  show "x \<le> y \<or> y \<le> x"
    by (cases x; cases y)
      (auto simp: less_thread_priority_def thread_priority_less_def less_eq_thread_priority_def)
qed

end

section \<open>Invariant of the service\<close>

text \<open>
  Live tasks have distinct priorities, all above the next one to be handed out and below the
  priority reserved for threads that work for no task.
\<close>

definition priorities_ok :: "task_priorities \<Rightarrow> bool" where
  "priorities_ok st \<longleftrightarrow>
     LONG_MIN \<le> next_task_priority st \<and> next_task_priority st \<le> LONG_MAX - 1 \<and>
     attempt_priorities st (-1) = None \<and>
     (\<forall>a p. attempt_priorities st a = Some p \<longrightarrow> next_task_priority st < p \<and> p \<le> LONG_MAX - 1) \<and>
     (\<forall>a b p. attempt_priorities st a = Some p \<longrightarrow> attempt_priorities st b = Some p \<longrightarrow> a = b)"

text \<open>How many more tasks can be registered before the counter wraps.\<close>

definition priorities_left :: "task_priorities \<Rightarrow> int" where
  "priorities_left st = next_task_priority st - LONG_MIN"

lemma get_priority_wrap [simp]:
  "priorities_ok st \<Longrightarrow> 0 < priorities_left st \<Longrightarrow>
     s64 (next_task_priority st - 1) = next_task_priority st - 1"
  by (rule s64_id) (auto simp: priorities_ok_def priorities_left_def LONG_MAX_def LONG_MIN_def)

lemma init_priorities_ok: "priorities_ok init_priorities"
  by (simp add: priorities_ok_def init_priorities_def LONG_MAX_def LONG_MIN_def)

lemma get_task_priority_ok:
  assumes "priorities_ok st" and "0 < priorities_left st"
  shows "priorities_ok (snd (get_task_priority a st))"
proof (cases "a = -1 \<or> attempt_priorities st a \<noteq> None")
  case True
  then show ?thesis using assms(1) by (auto simp: get_task_priority_def)
next
  case False
  then show ?thesis
    using assms unfolding priorities_ok_def priorities_left_def
    by (auto simp: get_task_priority_def Let_def s64_id LONG_MAX_def LONG_MIN_def; fastforce)
qed

lemma priority_task_done_ok: "priorities_ok st \<Longrightarrow> priorities_ok (priority_task_done a st)"
  unfolding priorities_ok_def priority_task_done_def by auto

lemma priorities_left_get:
  "priorities_ok st \<Longrightarrow> 0 < priorities_left st \<Longrightarrow>
     priorities_left st - 1 \<le> priorities_left (snd (get_task_priority a st))"
  by (auto simp: get_task_priority_def Let_def priorities_left_def split: option.splits)

lemma priorities_left_done [simp]: "priorities_left (priority_task_done a st) = priorities_left st"
  by (simp add: priorities_left_def priority_task_done_def)

lemma priority_call_ok:
  assumes "priorities_ok st" and "0 < priorities_left st"
  shows "priorities_ok (priority_call c st) \<and>
         priorities_left st - 1 \<le> priorities_left (priority_call c st)"
  using assms
  by (cases c) (simp_all add: get_task_priority_ok priority_task_done_ok priorities_left_get)

lemma priority_calls_ok:
  "priorities_ok st \<Longrightarrow> int (length cs) < priorities_left st \<Longrightarrow>
     priorities_ok (fold priority_call cs st) \<and>
     priorities_left st - int (length cs) \<le> priorities_left (fold priority_call cs st)"
proof (induction cs arbitrary: st)
  case (Cons c cs)
  have st': "priorities_ok (priority_call c st)"
    "priorities_left st - 1 \<le> priorities_left (priority_call c st)"
    using priority_call_ok [of st c] Cons.prems by auto
  then show ?case
    using Cons.IH [of "priority_call c st"] Cons.prems by auto
qed simp

section \<open>The contract of the service\<close>

text \<open>
  What the resource adaptor relies on: asking twice gives the same answer, asking for one task
  does not change another task's answer, and two live tasks never share a priority.
\<close>

locale priority_service =
  fixes ok :: "'s \<Rightarrow> bool"
    and get :: "task_id \<Rightarrow> 's \<Rightarrow> int \<times> 's"
    and live :: "'s \<Rightarrow> task_id \<Rightarrow> bool"
  assumes get_live: "ok st \<Longrightarrow> a \<noteq> -1 \<Longrightarrow> live (snd (get a st)) a"
    and live_mono: "ok st \<Longrightarrow> live st b \<Longrightarrow> live (snd (get a st)) b"
    and get_stable: "ok st \<Longrightarrow> live st b \<or> b = -1 \<Longrightarrow> fst (get b (snd (get a st))) = fst (get b st)"
    and get_same: "ok st \<Longrightarrow> fst (get a (snd (get a st))) = fst (get a st)"
    and get_inj: "ok st \<Longrightarrow> live st a \<or> a = -1 \<Longrightarrow> live st b \<or> b = -1 \<Longrightarrow>
       fst (get a st) = fst (get b st) \<Longrightarrow> a = b"
    and get_top: "ok st \<Longrightarrow> live st a \<Longrightarrow> fst (get a st) < fst (get (-1) st)"
begin

text \<open>Threads of two live tasks are ordered by their tasks, whatever their thread ids.\<close>

lemma different_tasks_ordered:
  assumes "ok st" "live st a" "live st b" "a \<noteq> b"
  shows "Thread_Priority (fst (get a st)) t < Thread_Priority (fst (get b st)) u \<longleftrightarrow>
         fst (get a st) < fst (get b st)"
  using get_inj [OF assms(1)] assms(2-4) by (auto simp: less_thread_priority_def thread_priority_less_def)

lemma pool_thread_on_top:
  assumes "ok st" "live st a"
  shows "Thread_Priority (fst (get a st)) t < Thread_Priority (fst (get (-1) st)) u"
  using get_top [OF assms] by (simp add: less_thread_priority_def thread_priority_less_def)

end

text \<open>
  The laws hold of the service as long as the counter has not run out: \<open>2 ^ 64\<close> minus two
  registrations fit.
\<close>

interpretation tps: priority_service
  "\<lambda>st. priorities_ok st \<and> 0 < priorities_left st" get_task_priority
  "\<lambda>st a. attempt_priorities st a \<noteq> None"
proof (unfold_locales, goal_cases)
  case (1 st a)
  then show ?case by (auto simp: get_task_priority_def Let_def split: option.splits)
next
  case (2 st b a)
  then show ?case by (auto simp: get_task_priority_def Let_def split: option.splits)
next
  case (3 st b a)
  then show ?case
    by (auto simp: get_task_priority_def Let_def priorities_ok_def split: option.splits)
next
  case (4 st a)
  then show ?case by (auto simp: get_task_priority_def Let_def split: option.splits)
next
  case (5 st a b)
  then show ?case
    unfolding priorities_ok_def get_task_priority_def Let_def
    by (auto split: option.splits if_splits)
next
  case (6 st a)
  then show ?case
    unfolding priorities_ok_def get_task_priority_def Let_def
    by (auto split: option.splits if_splits)
qed

section \<open>Properties\<close>

text \<open>
  C7: After any run of fewer than \<open>2 ^ 64 - 2\<close> calls, starting from the initial state, the live
  tasks have pairwise distinct priorities, all strictly below the priority of threads that
  belong to no task, and a task that is not registered yet gets a priority strictly below every
  live one: tasks that came first win.
\<close>

theorem first_come_first_served:
  assumes "int (length calls) < 2 ^ 64 - 2"
    and "attempt_priorities (fold priority_call calls init_priorities) a \<noteq> None"
    and "b \<noteq> a" and "b \<noteq> -1"
  defines "st \<equiv> fold priority_call calls init_priorities"
  shows "fst (get_task_priority a st) < fst (get_task_priority (-1) st) \<and>
         fst (get_task_priority b st) \<noteq> fst (get_task_priority a st) \<and>
         (attempt_priorities st b = None \<longrightarrow>
            fst (get_task_priority b st) < fst (get_task_priority a st))"
proof -
  have "int (length calls) < priorities_left init_priorities"
    using assms(1) by (simp add: priorities_left_def init_priorities_def LONG_MAX_def LONG_MIN_def)
  from priority_calls_ok [OF init_priorities_ok this]
  have ok: "priorities_ok st" "0 < priorities_left st"
    using assms(1)
    by (auto simp: st_def priorities_left_def init_priorities_def LONG_MAX_def LONG_MIN_def)
  have live: "attempt_priorities st a \<noteq> None"
    using assms(2) by (simp add: st_def)
  have new: "attempt_priorities st b = None \<Longrightarrow>
           fst (get_task_priority b st) < fst (get_task_priority a st)"
    using ok(1) live assms(3,4) unfolding priorities_ok_def get_task_priority_def Let_def
    by (auto split: option.splits if_splits)
  have "fst (get_task_priority b st) \<noteq> fst (get_task_priority a st)"
    using tps.get_inj [of st b a] ok live assms(3) new by (cases "attempt_priorities st b") auto
  with new tps.get_top [of st a] ok live show ?thesis by blast
qed

theorem first_come_first_served_witness:
  "fst (get_task_priority 9 (fold priority_call [Get_Priority 7, Get_Priority 8] init_priorities))
     < fst (get_task_priority 7 (fold priority_call [Get_Priority 7, Get_Priority 8] init_priorities))"
  using first_come_first_served [of "[Get_Priority 7, Get_Priority 8]" 7 9]
  by (simp add: get_task_priority_def init_priorities_def Let_def)

end
