(* ===== verification/ThreadState.thy ===== *)
theory ThreadState
  imports TaskPriority
begin

text \<open>
  The per-thread state of the resource adaptor (\<^verbatim>\<open>SparkResourceAdaptorJni.cpp\<close>): the states
  of the out-of-memory state machine, the metrics, the injected failures, and the class
  \<^verbatim>\<open>full_thread_state\<close> with its time keeping. Counters and times are unbounded integers.
  The steady clock is a sequence of readings; each \<^verbatim>\<open>now()\<close> consumes one.
\<close>

section \<open>States and exceptions\<close>

datatype thread_state =
    UNKNOWN
  | THREAD_RUNNING
  | THREAD_ALLOC
  | THREAD_ALLOC_FREE
  | THREAD_BLOCKED
  | THREAD_BUFN_THROW
  | THREAD_BUFN_WAIT
  | THREAD_BUFN
  | THREAD_SPLIT_THROW
  | THREAD_REMOVE_THROW

fun thread_state_as_int :: "thread_state \<Rightarrow> int" where
  "thread_state_as_int UNKNOWN = -1"
| "thread_state_as_int THREAD_RUNNING = 0"
| "thread_state_as_int THREAD_ALLOC = 1"
| "thread_state_as_int THREAD_ALLOC_FREE = 2"
| "thread_state_as_int THREAD_BLOCKED = 3"
| "thread_state_as_int THREAD_BUFN_THROW = 4"
| "thread_state_as_int THREAD_BUFN_WAIT = 5"
| "thread_state_as_int THREAD_BUFN = 6"
| "thread_state_as_int THREAD_SPLIT_THROW = 7"
| "thread_state_as_int THREAD_REMOVE_THROW = 8"

text \<open>
  The exceptions: the two C++ ones (with the fixed part of their message), the Java classes
  thrown through JNI, the two that the wrapped resource raises, and the use of an iterator that
  is no longer valid, which C++ leaves undefined.
\<close>

datatype cpp_exception =
    Runtime_Error string
  | Invalid_Argument string
  | GPU_RETRY_OOM
  | GPU_SPLIT_AND_RETRY_OOM
  | CPU_RETRY_OOM
  | CPU_SPLIT_AND_RETRY_OOM
  | OOM_ERROR
  | CUDF_EXCEPTION
  | Rmm_Out_Of_Memory
  | Other_Exception
  | Undefined_Behaviour

definition is_blocked :: "thread_state \<Rightarrow> bool" where
  "is_blocked st = (case st of THREAD_BLOCKED \<Rightarrow> True | THREAD_BUFN \<Rightarrow> True | _ \<Rightarrow> False)"

lemma is_blocked_iff: "is_blocked st \<longleftrightarrow> st = THREAD_BLOCKED \<or> st = THREAD_BUFN"
  by (cases st) (simp_all add: is_blocked_def)

section \<open>Metrics\<close>

record task_metrics =
  num_times_retry_throw :: int
  num_times_split_retry_throw :: int
  time_blocked_nanos :: nanos
  time_lost_nanos :: nanos
  time_lost_or_blocked :: nanos
  gpu_max_memory_allocated :: int
  gpu_memory_active_footprint :: int
  gpu_memory_max_footprint :: int

definition new_metrics :: task_metrics where
  "new_metrics = \<lparr>num_times_retry_throw = 0, num_times_split_retry_throw = 0,
     time_blocked_nanos = 0, time_lost_nanos = 0, time_lost_or_blocked = 0,
     gpu_max_memory_allocated = 0, gpu_memory_active_footprint = 0, gpu_memory_max_footprint = 0\<rparr>"

definition metrics_add :: "task_metrics \<Rightarrow> task_metrics \<Rightarrow> task_metrics" where
  "metrics_add this other = this\<lparr>
     num_times_retry_throw := num_times_retry_throw this + num_times_retry_throw other,
     num_times_split_retry_throw :=
       num_times_split_retry_throw this + num_times_split_retry_throw other,
     time_blocked_nanos := time_blocked_nanos this + time_blocked_nanos other,
     time_lost_nanos := time_lost_nanos this + time_lost_nanos other,
     time_lost_or_blocked := time_lost_or_blocked this + time_lost_or_blocked other,
     gpu_max_memory_allocated :=
       max (gpu_max_memory_allocated this) (gpu_max_memory_allocated other),
     gpu_memory_max_footprint := gpu_memory_max_footprint this + gpu_memory_max_footprint other,
     gpu_memory_active_footprint :=
       gpu_memory_active_footprint this + gpu_memory_active_footprint other\<rparr>"

definition metrics_clear :: "task_metrics \<Rightarrow> task_metrics" where
  "metrics_clear m = m\<lparr>num_times_retry_throw := 0, num_times_split_retry_throw := 0,
     time_blocked_nanos := 0, time_lost_nanos := 0, time_lost_or_blocked := 0,
     gpu_max_memory_allocated := 0, gpu_memory_max_footprint := 0,
     gpu_memory_active_footprint := 0\<rparr>"

text \<open>\<open>take_from\<close> returns both metrics: the accumulated one and the cleared source.\<close>

definition metrics_take_from :: "task_metrics \<Rightarrow> task_metrics \<Rightarrow> task_metrics \<times> task_metrics" where
  "metrics_take_from this other = (metrics_add this other, metrics_clear other)"

section \<open>Injected failures\<close>

datatype oom_type = OOM_CPU_OR_GPU | OOM_CPU | OOM_GPU

record oom_state_type =
  hit_count :: int
  skip_count :: int
  oom_filter :: oom_type

definition new_oom_state :: oom_state_type where
  "new_oom_state = \<lparr>hit_count = 0, skip_count = 0, oom_filter = OOM_CPU_OR_GPU\<rparr>"

definition oom_init :: "int \<Rightarrow> int \<Rightarrow> int \<Rightarrow> oom_state_type \<Rightarrow> cpp_exception + oom_state_type" where
  "oom_init num_ooms skip oom_type_id this =
     (if num_ooms < 0 then Inl (Invalid_Argument ''num_ooms cannot be negative'')
      else if skip < 0 then Inl (Invalid_Argument ''skip_count cannot be negative'')
      else if oom_type_id < 0 \<or> oom_type_id > 2 then
        Inl (Invalid_Argument ''oom_filter must be between 0 and 2'')
      else Inr (this\<lparr>hit_count := num_ooms, skip_count := skip,
                  oom_filter := (if oom_type_id = 0 then OOM_CPU_OR_GPU
                                 else if oom_type_id = 1 then OOM_CPU else OOM_GPU)\<rparr>))"

definition oom_matches :: "oom_state_type \<Rightarrow> bool \<Rightarrow> bool" where
  "oom_matches this is_for_cpu \<longleftrightarrow>
     oom_filter this = OOM_CPU_OR_GPU \<or> (is_for_cpu \<and> oom_filter this = OOM_CPU) \<or>
     (\<not> is_for_cpu \<and> oom_filter this = OOM_GPU)"

section \<open>The state of a thread\<close>

record steady_clock =
  readings :: "nat \<Rightarrow> nanos"
  reads :: nat

definition now :: "steady_clock \<Rightarrow> nanos \<times> steady_clock" where
  "now c = (readings c (reads c), c\<lparr>reads := Suc (reads c)\<rparr>)"

text \<open>
  \<open>pool_task_ids\<close> is an unordered set of task ids, a list without duplicates here. The
  condition variable \<open>wake_condition\<close> is the flag \<open>notified\<close>: a wait clears it, a notification
  sets it.
\<close>

record full_thread_state =
  state :: thread_state
  thread_id :: thread_id
  task_id :: task_id
  is_for_shuffle :: bool
  pool_task_ids :: "task_id list"
  is_cpu_alloc :: bool
  pool_blocked :: bool
  is_retry_alloc_before_bufn :: bool
  retry_oom :: oom_state_type
  split_and_retry_oom :: oom_state_type
  cudf_exception_injected :: int
  num_times_retried :: int
  retry_start_or_block_end :: nanos
  is_in_retry :: bool
  time_retry_running_nanos :: nanos
  block_start :: nanos
  is_in_spilling :: bool
  metrics :: task_metrics
  notified :: bool

definition new_thread_state :: "thread_state \<Rightarrow> thread_id \<Rightarrow> task_id \<Rightarrow> full_thread_state" where
  "new_thread_state st t_id tsk_id =
     \<lparr>state = st, thread_id = t_id, task_id = tsk_id, is_for_shuffle = False, pool_task_ids = [],
      is_cpu_alloc = False, pool_blocked = False, is_retry_alloc_before_bufn = False,
      retry_oom = new_oom_state, split_and_retry_oom = new_oom_state,
      cudf_exception_injected = 0, num_times_retried = 0, retry_start_or_block_end = 0,
      is_in_retry = False, time_retry_running_nanos = 0, block_start = 0,
      is_in_spilling = False, metrics = new_metrics, notified = False\<rparr>"

definition transition_to ::
  "thread_state \<Rightarrow> full_thread_state \<Rightarrow> cpp_exception + full_thread_state" where
  "transition_to new_state t =
     (if new_state = UNKNOWN then
        Inl (Runtime_Error ''Going to UNKNOWN state should delete the thread state'')
      else Inr (t\<lparr>state := new_state\<rparr>))"

definition record_and_reset_pending_retry_time ::
  "full_thread_state \<times> steady_clock \<Rightarrow> full_thread_state \<times> steady_clock" where
  "record_and_reset_pending_retry_time tc =
     (case tc of (t, c) \<Rightarrow>
        if is_in_retry t then
          let (end_time, c') = now c in
          (t\<lparr>time_retry_running_nanos :=
               time_retry_running_nanos t + (end_time - retry_start_or_block_end t),
             retry_start_or_block_end := end_time\<rparr>, c')
        else (t, c))"

definition record_failed_retry_time ::
  "full_thread_state \<times> steady_clock \<Rightarrow> full_thread_state \<times> steady_clock" where
  "record_failed_retry_time tc =
     (case tc of (t, c) \<Rightarrow>
        if is_in_retry t then
          let (t', c') = record_and_reset_pending_retry_time (t, c);
              lost = time_retry_running_nanos t';
              m = metrics t'
          in (t'\<lparr>metrics := m\<lparr>time_lost_nanos := time_lost_nanos m + lost,
                              time_lost_or_blocked := time_lost_or_blocked m + lost\<rparr>,
                time_retry_running_nanos := 0\<rparr>, c')
        else (t, c))"

definition before_block ::
  "full_thread_state \<times> steady_clock \<Rightarrow> full_thread_state \<times> steady_clock" where
  "before_block tc =
     (case tc of (t, c) \<Rightarrow>
        let (start, c') = now c
        in record_and_reset_pending_retry_time (t\<lparr>block_start := start\<rparr>, c'))"

definition currently_blocked_for ::
  "full_thread_state \<Rightarrow> steady_clock \<Rightarrow> nanos \<times> steady_clock" where
  "currently_blocked_for t c =
     (if state t = THREAD_BLOCKED \<or> state t = THREAD_BUFN then
        let (end_time, c') = now c in (end_time - block_start t, c')
      else (0, c))"

definition after_block ::
  "full_thread_state \<times> steady_clock \<Rightarrow> full_thread_state \<times> steady_clock" where
  "after_block tc =
     (case tc of (t, c) \<Rightarrow>
        let (end_time, c') = now c;
            amount = end_time - block_start t;
            m = metrics t;
            t' = t\<lparr>metrics := m\<lparr>time_blocked_nanos := time_blocked_nanos m + amount,
                                 time_lost_or_blocked := time_lost_or_blocked m + amount\<rparr>\<rparr>
        in (if is_in_retry t' then t'\<lparr>retry_start_or_block_end := end_time\<rparr> else t', c'))"

definition reset_retry_state ::
  "bool \<Rightarrow> full_thread_state \<times> steady_clock \<Rightarrow> full_thread_state \<times> steady_clock" where
  "reset_retry_state in_retry tc =
     (case tc of (t, c) \<Rightarrow>
        let t0 = t\<lparr>time_retry_running_nanos := 0\<rparr> in
        if in_retry then
          let (start, c') = now c
          in (t0\<lparr>retry_start_or_block_end := start, is_in_retry := in_retry\<rparr>, c')
        else (t0\<lparr>is_in_retry := in_retry\<rparr>, c))"

text \<open>
  The priority of a thread: a pool thread that is not for shuffle counts as its lowest task.
  Asking for a priority may register the task with the priority service.
\<close>

definition thread_priority_of ::
  "full_thread_state \<Rightarrow> task_priorities \<Rightarrow> thread_priority \<times> task_priorities" where
  "thread_priority_of t ps =
     (if task_id t < 0 \<and> \<not> is_for_shuffle t then
        (case pool_task_ids t of
           [] \<Rightarrow> make_thread_priority (-1) (thread_id t) ps
         | p # rest \<Rightarrow> make_thread_priority (fold min rest p) (thread_id t) ps)
      else make_thread_priority (task_id t) (thread_id t) ps)"

section \<open>What the time keeping leaves alone\<close>

text \<open>
  The bookkeeping of times never touches what the state machine reads: \<open>core t\<close> is a thread's
  state without its clocks and metrics.
\<close>

definition core :: "full_thread_state \<Rightarrow> full_thread_state" where
  "core t = t\<lparr>retry_start_or_block_end := 0, time_retry_running_nanos := 0, block_start := 0,
              is_in_retry := False, metrics := new_metrics\<rparr>"

lemma core_record_pending: "core (fst (record_and_reset_pending_retry_time tc)) = core (fst tc)"
  by (simp add: record_and_reset_pending_retry_time_def core_def now_def split: prod.splits)

lemma core_record_failed: "core (fst (record_failed_retry_time tc)) = core (fst tc)"
  by (simp add: record_failed_retry_time_def record_and_reset_pending_retry_time_def core_def
      now_def Let_def split: prod.splits)

lemma core_before_block: "core (fst (before_block tc)) = core (fst tc)"
  by (simp add: before_block_def record_and_reset_pending_retry_time_def core_def now_def
      split: prod.splits)

lemma core_after_block: "core (fst (after_block tc)) = core (fst tc)"
  by (simp add: after_block_def core_def now_def Let_def split: prod.splits)

lemma core_reset_retry: "core (fst (reset_retry_state b tc)) = core (fst tc)"
  by (simp add: reset_retry_state_def core_def now_def Let_def split: prod.splits)

lemmas core_time = core_record_pending core_record_failed core_before_block core_after_block
  core_reset_retry

lemma core_eqD:
  assumes "core t = core u"
  shows "state t = state u" "thread_id t = thread_id u" "task_id t = task_id u"
    "is_for_shuffle t = is_for_shuffle u" "pool_task_ids t = pool_task_ids u"
    "is_cpu_alloc t = is_cpu_alloc u" "pool_blocked t = pool_blocked u"
    "is_retry_alloc_before_bufn t = is_retry_alloc_before_bufn u"
    "num_times_retried t = num_times_retried u" "notified t = notified u"
    "retry_oom t = retry_oom u" "split_and_retry_oom t = split_and_retry_oom u"
    "cudf_exception_injected t = cudf_exception_injected u"
    "is_in_spilling t = is_in_spilling u"
  using assms unfolding core_def by (cases t; cases u; simp)+

lemmas time_fields [simp] =
  core_time [THEN core_eqD(1)] core_time [THEN core_eqD(2)] core_time [THEN core_eqD(3)]
  core_time [THEN core_eqD(4)] core_time [THEN core_eqD(5)] core_time [THEN core_eqD(6)]
  core_time [THEN core_eqD(7)] core_time [THEN core_eqD(8)] core_time [THEN core_eqD(9)]
  core_time [THEN core_eqD(10)] core_time [THEN core_eqD(11)] core_time [THEN core_eqD(12)]
  core_time [THEN core_eqD(13)] core_time [THEN core_eqD(14)]

section \<open>Metrics are a commutative accumulation\<close>

lemma metrics_add_new [simp]: "metrics_add new_metrics m = m\<lparr>gpu_max_memory_allocated :=
    max 0 (gpu_max_memory_allocated m)\<rparr>"
  by (simp add: metrics_add_def new_metrics_def)

lemma metrics_clear_new [simp]: "metrics_clear m = new_metrics"
  by (cases m) (simp add: metrics_clear_def new_metrics_def)

lemma metrics_add_commute: "metrics_add a b = metrics_add b a"
  by (simp add: metrics_add_def max.commute)

lemma metrics_add_assoc: "metrics_add (metrics_add a b) c = metrics_add a (metrics_add b c)"
  by (simp add: metrics_add_def max.assoc)

end
