(* ===== verification/Adaptor.thy ===== *)
theory Adaptor
  imports ThreadState
begin

text \<open>
  The resource adaptor itself (class \<^verbatim>\<open>spark_resource_adaptor\<close> of
  \<^verbatim>\<open>SparkResourceAdaptorJni.cpp\<close>): its state as the record \<open>adaptor\<close> and one definition per
  method. Every method holds \<^verbatim>\<open>state_mutex\<close>, so a method is a state transformation; a method
  that waits on a condition variable ends with the outcome \<open>Wait\<close> and goes on in a later step
  (\<open>resume_block\<close>). A throw keeps the changes made before it. The transition log that the code
  writes to its logger is the list \<open>transitions\<close>, newest first. \<^verbatim>\<open>std::set\<close> is a sorted list.
\<close>

section \<open>State\<close>

text \<open>
  The last field is not logged by the code: whether the condition variable of the entry had been
  notified. It tells what became of a thread that waits on the condition variable of an erased entry.
\<close>

record logged_transition =
  op_thread :: thread_id
  op_task :: task_id
  from_state :: thread_state
  to_state :: thread_state
  woken :: bool

record adaptor =
  threads :: "(thread_id, full_thread_state) omap"
  task_to_threads :: "(task_id, thread_id list) omap"
  gpu_memory_allocated_bytes :: int
  task_to_metrics :: "(task_id, task_metrics) omap"
  shutting_down :: bool
  jvm_attached :: bool
  priorities :: task_priorities
  clock :: steady_clock
  transitions :: "logged_transition list"
  removed_threads :: "thread_id list"

datatype 'a outcome = Ret 'a | Throw cpp_exception | Wait | Out_Of_Fuel

definition new_adaptor :: "bool \<Rightarrow> task_priorities \<Rightarrow> steady_clock \<Rightarrow> adaptor" where
  "new_adaptor attached ps c =
     \<lparr>threads = [], task_to_threads = [], gpu_memory_allocated_bytes = 0, task_to_metrics = [],
      shutting_down = False, jvm_attached = attached, priorities = ps, clock = c,
      transitions = [], removed_threads = []\<rparr>"

definition find_thread :: "adaptor \<Rightarrow> thread_id \<Rightarrow> full_thread_state option" where
  "find_thread s tid = om_find (threads s) tid"

definition put_thread :: "thread_id \<Rightarrow> full_thread_state \<Rightarrow> adaptor \<Rightarrow> adaptor" where
  "put_thread tid t s = s\<lparr>threads := om_set tid t (threads s)\<rparr>"

definition modify_thread ::
  "thread_id \<Rightarrow> (full_thread_state \<Rightarrow> full_thread_state) \<Rightarrow> adaptor \<Rightarrow> adaptor" where
  "modify_thread tid f s =
     (case find_thread s tid of None \<Rightarrow> s | Some t \<Rightarrow> put_thread tid (f t) s)"

text \<open>A thread's method that reads the clock.\<close>

definition timed_thread ::
  "thread_id \<Rightarrow> (full_thread_state \<times> steady_clock \<Rightarrow> full_thread_state \<times> steady_clock) \<Rightarrow>
   adaptor \<Rightarrow> adaptor" where
  "timed_thread tid f s =
     (case find_thread s tid of
        None \<Rightarrow> s
      | Some t \<Rightarrow> put_thread tid (fst (f (t, clock s))) (s\<lparr>clock := snd (f (t, clock s))\<rparr>))"

definition notify_thread :: "thread_id \<Rightarrow> adaptor \<Rightarrow> adaptor" where
  "notify_thread tid = modify_thread tid (\<lambda>t. t\<lparr>notified := True\<rparr>)"

definition log_transition ::
  "thread_id \<Rightarrow> task_id \<Rightarrow> thread_state \<Rightarrow> thread_state \<Rightarrow> adaptor \<Rightarrow> adaptor" where
  "log_transition tid tsk st st' s =
     s\<lparr>transitions :=
         \<lparr>op_thread = tid, op_task = tsk, from_state = st, to_state = st',
          woken = (case find_thread s tid of None \<Rightarrow> False | Some t \<Rightarrow> notified t)\<rparr>
           # transitions s\<rparr>"

text \<open>
  Every call passes a constant state other than \<open>UNKNOWN\<close>, so the exception of
  \<open>transition_to\<close> never leaves \<open>transition\<close>.
\<close>

definition transition :: "thread_id \<Rightarrow> thread_state \<Rightarrow> adaptor \<Rightarrow> adaptor" where
  "transition tid new_state s =
     (case find_thread s tid of
        None \<Rightarrow> s
      | Some t \<Rightarrow>
          (case transition_to new_state t of
             Inl _ \<Rightarrow> s
           | Inr t' \<Rightarrow> log_transition tid (task_id t) (state t) new_state (put_thread tid t' s)))"

text \<open>Logging the transition to \<open>UNKNOWN\<close> and erasing the entry go together.\<close>

definition forget_thread :: "thread_id \<Rightarrow> adaptor \<Rightarrow> adaptor" where
  "forget_thread tid s =
     (case find_thread s tid of
        None \<Rightarrow> s
      | Some t \<Rightarrow>
          (log_transition tid (task_id t) (state t) UNKNOWN s)\<lparr>threads := om_erase tid (threads s)\<rparr>)"

section \<open>Metrics\<close>

definition task_metrics_of :: "adaptor \<Rightarrow> task_id \<Rightarrow> task_metrics" where
  "task_metrics_of s tsk =
     (case om_find (task_to_metrics s) tsk of None \<Rightarrow> new_metrics | Some m \<Rightarrow> m)"

definition add_task_metrics :: "task_metrics \<Rightarrow> task_id \<Rightarrow> adaptor \<Rightarrow> adaptor" where
  "add_task_metrics m tsk s =
     s\<lparr>task_to_metrics := om_set tsk (metrics_add (task_metrics_of s tsk) m)
                            (om_emplace tsk new_metrics (task_to_metrics s))\<rparr>"

definition checkpoint_metrics :: "thread_id \<Rightarrow> adaptor \<Rightarrow> adaptor" where
  "checkpoint_metrics tid s =
     (case find_thread s tid of
        None \<Rightarrow> s
      | Some t \<Rightarrow>
          if task_id t < 0 then
            put_thread tid (t\<lparr>metrics := metrics_clear (metrics t)\<rparr>)
              (fold (add_task_metrics (metrics t)) (pool_task_ids t) s)
          else
            put_thread tid (t\<lparr>metrics := metrics_clear (metrics t)\<rparr>)
              (add_task_metrics (metrics t) (task_id t) s))"

definition get_metric :: "task_id \<Rightarrow> (task_metrics \<Rightarrow> int) \<Rightarrow> adaptor \<Rightarrow> int" where
  "get_metric tsk metric s =
     (case om_find (task_to_threads s) tsk of
        None \<Rightarrow> 0
      | Some tids \<Rightarrow>
          sum_list (map (\<lambda>tid. case find_thread s tid of None \<Rightarrow> 0 | Some t \<Rightarrow> metric (metrics t)) tids))
     + (case om_find (task_to_metrics s) tsk of None \<Rightarrow> 0 | Some m \<Rightarrow> metric m)"

text \<open>Reading and resetting one metric of a thread, and of a task.\<close>

definition take_thread_metric ::
  "(task_metrics \<Rightarrow> int) \<Rightarrow> (task_metrics \<Rightarrow> task_metrics) \<Rightarrow> thread_id \<Rightarrow>
   int \<times> adaptor \<Rightarrow> int \<times> adaptor" where
  "take_thread_metric metric reset tid rs =
     (case rs of (ret, s) \<Rightarrow>
        (case find_thread s tid of
           None \<Rightarrow> (ret, s)
         | Some t \<Rightarrow> (ret + metric (metrics t),
                      put_thread tid (t\<lparr>metrics := reset (metrics t)\<rparr>) s)))"

definition take_task_metric ::
  "(task_metrics \<Rightarrow> int) \<Rightarrow> (task_metrics \<Rightarrow> task_metrics) \<Rightarrow> task_id \<Rightarrow>
   int \<times> adaptor \<Rightarrow> int \<times> adaptor" where
  "take_task_metric metric reset tsk rs =
     (case rs of (ret, s) \<Rightarrow>
        (case om_find (task_to_metrics s) tsk of
           None \<Rightarrow> (ret, s)
         | Some m \<Rightarrow> (ret + metric m,
                      s\<lparr>task_to_metrics := om_set tsk (reset m) (task_to_metrics s)\<rparr>)))"

definition get_and_reset_metric ::
  "task_id \<Rightarrow> (task_metrics \<Rightarrow> int) \<Rightarrow> (task_metrics \<Rightarrow> task_metrics) \<Rightarrow> adaptor \<Rightarrow> int \<times> adaptor" where
  "get_and_reset_metric tsk metric reset s =
     take_task_metric metric reset tsk
       (case om_find (task_to_threads s) tsk of
          None \<Rightarrow> (0, s)
        | Some tids \<Rightarrow> fold (take_thread_metric metric reset) tids (0, s))"

definition get_and_reset_num_retry :: "task_id \<Rightarrow> adaptor \<Rightarrow> int \<times> adaptor" where
  "get_and_reset_num_retry tsk =
     get_and_reset_metric tsk num_times_retry_throw (\<lambda>m. m\<lparr>num_times_retry_throw := 0\<rparr>)"

definition get_and_reset_num_split_retry :: "task_id \<Rightarrow> adaptor \<Rightarrow> int \<times> adaptor" where
  "get_and_reset_num_split_retry tsk =
     get_and_reset_metric tsk num_times_split_retry_throw (\<lambda>m. m\<lparr>num_times_split_retry_throw := 0\<rparr>)"

definition get_and_reset_block_time :: "task_id \<Rightarrow> adaptor \<Rightarrow> int \<times> adaptor" where
  "get_and_reset_block_time tsk =
     get_and_reset_metric tsk time_blocked_nanos (\<lambda>m. m\<lparr>time_blocked_nanos := 0\<rparr>)"

definition get_and_reset_lost_time :: "task_id \<Rightarrow> adaptor \<Rightarrow> int \<times> adaptor" where
  "get_and_reset_lost_time tsk =
     get_and_reset_metric tsk time_lost_nanos (\<lambda>m. m\<lparr>time_lost_nanos := 0\<rparr>)"

definition get_and_reset_gpu_max_memory_allocated :: "task_id \<Rightarrow> adaptor \<Rightarrow> int \<times> adaptor" where
  "get_and_reset_gpu_max_memory_allocated tsk =
     get_and_reset_metric tsk gpu_max_memory_allocated (\<lambda>m. m\<lparr>gpu_max_memory_allocated := 0\<rparr>)"

definition get_max_gpu_task_memory :: "task_id \<Rightarrow> adaptor \<Rightarrow> int" where
  "get_max_gpu_task_memory tsk = get_metric tsk gpu_memory_max_footprint"

definition remove_task_metrics :: "task_id \<Rightarrow> adaptor \<Rightarrow> adaptor" where
  "remove_task_metrics tsk s = s\<lparr>task_to_metrics := om_erase tsk (task_to_metrics s)\<rparr>"

definition get_total_blocked_or_lost :: "task_id \<Rightarrow> adaptor \<Rightarrow> int \<times> adaptor" where
  "get_total_blocked_or_lost tsk s =
     (let (ret, c) =
        (case om_find (task_to_threads s) tsk of
           None \<Rightarrow> (0, clock s)
         | Some tids \<Rightarrow>
             fold (\<lambda>tid (ret, c).
                 case find_thread s tid of
                   None \<Rightarrow> (ret, c)
                 | Some t \<Rightarrow>
                     (case currently_blocked_for t c of
                        (blocked, c') \<Rightarrow> (ret + blocked + time_lost_or_blocked (metrics t), c')))
               tids (0, clock s));
          total = (case om_find (task_to_metrics s) tsk of
                     None \<Rightarrow> ret | Some m \<Rightarrow> ret + time_lost_or_blocked m)
      in (total, s\<lparr>clock := c\<rparr>))"

section \<open>Throwing\<close>

text \<open>\<open>check_before_oom\<close> is the watchdog: the exception it raises, if any, and the new state.\<close>

definition check_before_oom :: "thread_id \<Rightarrow> adaptor \<Rightarrow> cpp_exception option \<times> adaptor" where
  "check_before_oom tid s =
     (case find_thread s tid of
        None \<Rightarrow> (None, s)
      | Some t \<Rightarrow>
          if num_times_retried t + 1 > 500 then
            (Some OOM_ERROR, timed_thread tid record_failed_retry_time s)
          else (None, put_thread tid (t\<lparr>num_times_retried := num_times_retried t + 1\<rparr>) s))"

definition is_cpu_thread :: "thread_id \<Rightarrow> adaptor \<Rightarrow> bool" where
  "is_cpu_thread tid s = (case find_thread s tid of None \<Rightarrow> False | Some t \<Rightarrow> is_cpu_alloc t)"

definition throw_retry_oom :: "thread_id \<Rightarrow> adaptor \<Rightarrow> cpp_exception \<times> adaptor" where
  "throw_retry_oom tid s =
     (let s1 = modify_thread tid (\<lambda>t. t\<lparr>metrics := (metrics t)\<lparr>num_times_retry_throw :=
                   num_times_retry_throw (metrics t) + 1\<rparr>\<rparr>) s
      in case check_before_oom tid s1 of
           (Some e, s2) \<Rightarrow> (e, s2)
         | (None, s2) \<Rightarrow>
             (if is_cpu_thread tid s2 then CPU_RETRY_OOM else GPU_RETRY_OOM,
              timed_thread tid record_failed_retry_time s2))"

definition throw_split_and_retry_oom :: "thread_id \<Rightarrow> adaptor \<Rightarrow> cpp_exception \<times> adaptor" where
  "throw_split_and_retry_oom tid s =
     (let s1 = modify_thread tid (\<lambda>t. t\<lparr>metrics := (metrics t)\<lparr>num_times_split_retry_throw :=
                   num_times_split_retry_throw (metrics t) + 1\<rparr>\<rparr>) s
      in case check_before_oom tid s1 of
           (Some e, s2) \<Rightarrow> (e, s2)
         | (None, s2) \<Rightarrow>
             (if is_cpu_thread tid s2 then CPU_SPLIT_AND_RETRY_OOM else GPU_SPLIT_AND_RETRY_OOM,
              timed_thread tid record_failed_retry_time s2))"

section \<open>Choosing a thread by priority\<close>

text \<open>
  The three scans of \<open>threads\<close> for the lowest or highest priority thread. \<open>better new best\<close> is
  the comparison that replaces the candidate; each priority is asked of the service in
  iteration order.
\<close>

fun scan_threads ::
  "(full_thread_state \<Rightarrow> bool) \<Rightarrow> (thread_priority \<Rightarrow> thread_priority \<Rightarrow> bool) \<Rightarrow>
   (thread_id, full_thread_state) omap \<Rightarrow> (thread_id \<times> thread_priority) option \<Rightarrow> task_priorities \<Rightarrow>
   (thread_id \<times> thread_priority) option \<times> task_priorities" where
  "scan_threads P better [] best ps = (best, ps)"
| "scan_threads P better ((tid, t) # ts) best ps =
     (if P t then
        (case thread_priority_of t ps of
           (current, ps') \<Rightarrow>
             scan_threads P better ts
               (case best of
                  None \<Rightarrow> Some (tid, current)
                | Some (_, b) \<Rightarrow> if better current b then Some (tid, current) else best) ps')
      else scan_threads P better ts best ps)"

definition wake_next_highest_priority_blocked :: "bool \<Rightarrow> adaptor \<Rightarrow> adaptor" where
  "wake_next_highest_priority_blocked is_for_cpu s =
     (case scan_threads (\<lambda>t. state t = THREAD_BLOCKED \<and> is_for_cpu = is_cpu_alloc t)
             (\<lambda>current to_wake. to_wake < current) (threads s) None (priorities s) of
        (best, ps) \<Rightarrow>
          let s1 = s\<lparr>priorities := ps\<rparr> in
          (case best of
             None \<Rightarrow> s1
           | Some (tid, _) \<Rightarrow> notify_thread tid (transition tid THREAD_RUNNING s1)))"

definition wake_up_threads_after_task_finishes :: "adaptor \<Rightarrow> adaptor" where
  "wake_up_threads_after_task_finishes s =
     (let wake = (\<lambda>P s. fold (\<lambda>tid s. case find_thread s tid of
                               None \<Rightarrow> s
                             | Some t \<Rightarrow> if P (state t)
                                 then notify_thread tid (transition tid THREAD_RUNNING s) else s)
                          (om_keys (threads s)) s);
          are_any_tasks_just_blocked = (\<exists>(tid, t) \<in> set (threads s). state t = THREAD_BLOCKED);
          s1 = wake (\<lambda>st. st = THREAD_BLOCKED) s
      in if are_any_tasks_just_blocked then s1
         else wake (\<lambda>st. st \<in> {THREAD_BUFN, THREAD_BUFN_THROW, THREAD_BUFN_WAIT}) s1)"

section \<open>Removing a thread\<close>

definition remove_thread_association ::
  "thread_id \<Rightarrow> task_id \<Rightarrow> adaptor \<Rightarrow> bool \<times> adaptor" where
  "remove_thread_association tid remove_task_id s =
     (case find_thread s tid of
        None \<Rightarrow> (False, s)
      | Some t0 \<Rightarrow>
          let s1 = checkpoint_metrics tid s;
              s2 = (if remove_task_id \<ge> 0 \<and> task_id t0 < 0 then
                      modify_thread tid
                        (\<lambda>t. t\<lparr>pool_task_ids := removeAll remove_task_id (pool_task_ids t)\<rparr>) s1
                    else s1);
              pool_empty = removeAll remove_task_id (pool_task_ids t0) = [];
              thread_should_be_removed =
                (if remove_task_id < 0 then True
                 else if task_id t0 \<ge> 0 then task_id t0 = remove_task_id
                 else pool_empty)
          in if \<not> thread_should_be_removed then (False, s2)
             else
               let s3 = (if jvm_attached s2
                         then s2\<lparr>removed_threads := tid # removed_threads s2\<rparr> else s2);
                   s4 = (if remove_task_id \<ge> 0 then
                           (case om_find (task_to_threads s3) remove_task_id of
                              None \<Rightarrow> s3
                            | Some tids \<Rightarrow> s3\<lparr>task_to_threads :=
                                om_set remove_task_id (removeAll tid tids) (task_to_threads s3)\<rparr>)
                         else s3)
               in if is_blocked (state t0) then
                    (False, notify_thread tid (transition tid THREAD_REMOVE_THROW s4))
                  else (state t0 = THREAD_RUNNING, forget_thread tid s4))"

definition remove_thread_association_public ::
  "thread_id \<Rightarrow> task_id \<Rightarrow> adaptor \<Rightarrow> adaptor" where
  "remove_thread_association_public tid tsk s =
     (case remove_thread_association tid tsk s of
        (ret, s1) \<Rightarrow> if ret then wake_up_threads_after_task_finishes s1 else s1)"

section \<open>Deadlock detection\<close>

definition is_thread_bufn_or_above :: "full_thread_state \<Rightarrow> thread_id set option \<Rightarrow> bool" where
  "is_thread_bufn_or_above t java_blocked_thread_ids =
     (if pool_blocked t then True
      else case state t of
             THREAD_BLOCKED \<Rightarrow> False
           | THREAD_BUFN \<Rightarrow> True
           | _ \<Rightarrow> (case java_blocked_thread_ids of
                     None \<Rightarrow> False
                   | Some ids \<Rightarrow> thread_id t \<in> ids))"

record deadlock_info =
  pool_bufn_task_thread_count :: "(task_id, int) omap"
  pool_task_thread_count :: "(task_id, int) omap"
  bufn_task_ids :: "task_id list"
  all_task_ids :: "task_id list"
  blocked_task_ids :: "task_id list"

definition no_deadlock_info :: deadlock_info where
  "no_deadlock_info = \<lparr>pool_bufn_task_thread_count = [], pool_task_thread_count = [],
     bufn_task_ids = [], all_task_ids = [], blocked_task_ids = []\<rparr>"

definition count_task :: "task_id \<Rightarrow> (task_id, int) omap \<Rightarrow> (task_id, int) omap" where
  "count_task tsk m =
     (case om_find m tsk of
        None \<Rightarrow> om_emplace tsk 1 m
      | Some n \<Rightarrow> om_set tsk (n + 1) m)"

text \<open>First pass of \<open>is_in_deadlock\<close>: a dedicated task thread.\<close>

definition dedicated_pass ::
  "thread_id set option \<Rightarrow> full_thread_state \<Rightarrow> deadlock_info \<Rightarrow> deadlock_info" where
  "dedicated_pass java t i =
     (if task_id t \<ge> 0 then
        let is_bufn_plus = is_thread_bufn_or_above t java;
            i1 = i\<lparr>all_task_ids := List.insert (task_id t) (all_task_ids i)\<rparr>;
            i2 = (if is_bufn_plus
                  then i1\<lparr>bufn_task_ids := List.insert (task_id t) (bufn_task_ids i1)\<rparr> else i1)
        in if is_bufn_plus \<or> state t = THREAD_BLOCKED
           then i2\<lparr>blocked_task_ids := List.insert (task_id t) (blocked_task_ids i2)\<rparr> else i2
      else i)"

text \<open>Second pass: a pool thread.\<close>

definition pool_pass ::
  "thread_id set option \<Rightarrow> full_thread_state \<Rightarrow> deadlock_info \<Rightarrow> deadlock_info" where
  "pool_pass java t i =
     (if task_id t < 0 then
        let i1 = i\<lparr>pool_task_thread_count := fold count_task (pool_task_ids t) (pool_task_thread_count i)\<rparr>;
            is_bufn_plus = is_thread_bufn_or_above t java;
            i2 = (if is_bufn_plus
                  then i1\<lparr>pool_bufn_task_thread_count :=
                            fold count_task (pool_task_ids t) (pool_bufn_task_thread_count i1)\<rparr>
                  else i1)
        in if \<not> is_bufn_plus \<and> state t \<noteq> THREAD_BLOCKED
           then i2\<lparr>blocked_task_ids := fold removeAll (pool_task_ids t) (blocked_task_ids i2)\<rparr> else i2
      else i)"

definition is_in_deadlock :: "adaptor \<Rightarrow> thread_id set option \<Rightarrow> bool \<times> deadlock_info" where
  "is_in_deadlock s java =
     (let i1 = fold (dedicated_pass java) (map snd (threads s)) no_deadlock_info;
          i2 = fold (pool_pass java) (map snd (threads s)) i1
      in (length (all_task_ids i2) = length (blocked_task_ids i2) \<and> all_task_ids i2 \<noteq> [], i2))"

text \<open>The tasks whose pool threads are all blocked until further notice.\<close>

definition add_pool_bufn_tasks :: "deadlock_info \<Rightarrow> task_id list" where
  "add_pool_bufn_tasks i =
     fold (\<lambda>(tsk, bufn_count) ids.
             case om_find (pool_task_thread_count i) tsk of
               None \<Rightarrow> ids
             | Some n \<Rightarrow> if n \<le> bufn_count then List.insert tsk ids else ids)
       (pool_bufn_task_thread_count i) (bufn_task_ids i)"

text \<open>The lowest priority blocked thread is rolled back, or retried when it is the only one.\<close>

definition roll_back_lowest_blocked :: "adaptor \<Rightarrow> adaptor" where
  "roll_back_lowest_blocked s =
     (case scan_threads (\<lambda>t. state t = THREAD_BLOCKED) (\<lambda>current to_bufn. current < to_bufn)
             (threads s) None (priorities s) of
        (best, ps) \<Rightarrow>
          let s1 = s\<lparr>priorities := ps\<rparr>;
              blocked_thread_count =
                length (filter (\<lambda>(tid, t). state t = THREAD_BLOCKED) (threads s))
          in (case best of
                None \<Rightarrow> s1
              | Some (_, to_bufn) \<Rightarrow>
                  let tid = priority_thread to_bufn in
                  (case find_thread s1 tid of
                     None \<Rightarrow> s1
                   | Some t \<Rightarrow>
                       if blocked_thread_count = 1 then
                         notify_thread tid (transition tid THREAD_RUNNING
                           (put_thread tid (t\<lparr>is_retry_alloc_before_bufn := True\<rparr>) s1))
                       else notify_thread tid (transition tid THREAD_BUFN_THROW s1))))"

text \<open>The highest priority thread that is blocked until further notice splits its input.\<close>

definition split_highest_bufn :: "adaptor \<Rightarrow> adaptor" where
  "split_highest_bufn s =
     (case scan_threads (\<lambda>t. state t = THREAD_BUFN) (\<lambda>current to_wake. to_wake < current)
             (threads s) None (priorities s) of
        (best, ps) \<Rightarrow>
          let s1 = s\<lparr>priorities := ps\<rparr>;
              tid = (case best of None \<Rightarrow> -1 | Some (_, to_wake) \<Rightarrow> priority_thread to_wake)
          in (case find_thread s1 tid of
                None \<Rightarrow> s1
              | Some _ \<Rightarrow> notify_thread tid (transition tid THREAD_SPLIT_THROW s1)))"

definition check_and_update_for_bufn :: "thread_id set option \<Rightarrow> adaptor \<Rightarrow> adaptor" where
  "check_and_update_for_bufn java s =
     (case is_in_deadlock s java of
        (need_to_break_deadlock, i) \<Rightarrow>
          if need_to_break_deadlock then
            let s1 = roll_back_lowest_blocked s;
                all_bufn = (length (all_task_ids i) = length (add_pool_bufn_tasks i))
            in if all_bufn then split_highest_bufn s1 else s1
          else s)"

definition check_and_update_for_bufn_state_machine_only :: "adaptor \<Rightarrow> adaptor" where
  "check_and_update_for_bufn_state_machine_only = check_and_update_for_bufn None"

definition check_and_break_deadlocks :: "thread_id set \<Rightarrow> adaptor \<Rightarrow> adaptor" where
  "check_and_break_deadlocks java_blocked_thread_ids =
     check_and_update_for_bufn (Some java_blocked_thread_ids)"

end
