(* ===== verification/AdaptorOps.thy ===== *)
theory AdaptorOps
  imports Adaptor
begin

text \<open>
  The allocation protocol and the public interface of the resource adaptor: waiting until a
  thread may go on, what happens before and after an allocation and on a free, the calls that
  register and unregister threads, and the interleaving of all of them as a step relation.
\<close>

section \<open>Blocking\<close>

definition start_wait :: "thread_id \<Rightarrow> adaptor \<Rightarrow> adaptor" where
  "start_wait tid s = modify_thread tid (\<lambda>t. t\<lparr>notified := False\<rparr>) (timed_thread tid before_block s)"

text \<open>
  The loop of \<open>block_thread_until_ready\<close> up to its next wait. The loop goes round without
  waiting only out of \<open>THREAD_BUFN_WAIT\<close>; \<open>block_fuel\<close> rounds are enough
  (\<open>block_loop_enough_fuel\<close>).
\<close>

definition thread_is_blocked :: "thread_id \<Rightarrow> adaptor \<Rightarrow> bool" where
  "thread_is_blocked tid s =
     (case find_thread s tid of None \<Rightarrow> False | Some t \<Rightarrow> is_blocked (state t))"

definition block_fuel :: nat where
  "block_fuel = 3"

fun block_loop :: "nat \<Rightarrow> thread_id \<Rightarrow> adaptor \<Rightarrow> unit outcome \<times> adaptor" where
  "block_loop 0 tid s = (Out_Of_Fuel, s)"
| "block_loop (Suc n) tid s =
     (case find_thread s tid of
        None \<Rightarrow> (Ret (), s)
      | Some t \<Rightarrow>
          (case state t of
             THREAD_BLOCKED \<Rightarrow> (Wait, start_wait tid s)
           | THREAD_BUFN \<Rightarrow> (Wait, start_wait tid s)
           | THREAD_BUFN_THROW \<Rightarrow>
               (case throw_retry_oom tid
                       (timed_thread tid record_failed_retry_time (transition tid THREAD_BUFN_WAIT s)) of
                  (e, s1) \<Rightarrow> (Throw e, s1))
           | THREAD_BUFN_WAIT \<Rightarrow>
               (let s1 = check_and_update_for_bufn_state_machine_only (transition tid THREAD_BUFN s)
                in if thread_is_blocked tid s1
                   then (Wait, start_wait tid s1)
                   else block_loop n tid s1)
           | THREAD_SPLIT_THROW \<Rightarrow>
               (case throw_split_and_retry_oom tid
                       (timed_thread tid record_failed_retry_time (transition tid THREAD_RUNNING s)) of
                  (e, s1) \<Rightarrow> (Throw e, s1))
           | THREAD_REMOVE_THROW \<Rightarrow>
               (Throw (Runtime_Error ''thread removed while blocked''), forget_thread tid s)
           | _ \<Rightarrow> (Ret (), s)))"

definition block_thread_until_ready :: "thread_id \<Rightarrow> adaptor \<Rightarrow> unit outcome \<times> adaptor" where
  "block_thread_until_ready tid s = block_loop block_fuel tid s"

text \<open>
  A waiting thread wakes up: it waits again while it is still blocked; when its entry is gone the
  code uses the end iterator.
\<close>

definition resume_block :: "thread_id \<Rightarrow> adaptor \<Rightarrow> unit outcome \<times> adaptor" where
  "resume_block tid s =
     (case find_thread s tid of
        None \<Rightarrow> (Throw Undefined_Behaviour, s)
      | Some t \<Rightarrow>
          if is_blocked (state t) then (Wait, put_thread tid (t\<lparr>notified := False\<rparr>) s)
          else block_loop block_fuel tid (timed_thread tid after_block s))"

section \<open>Before and after an allocation\<close>

definition inject_retry_oom :: "thread_id \<Rightarrow> bool \<Rightarrow> adaptor \<Rightarrow> cpp_exception option \<times> adaptor" where
  "inject_retry_oom tid is_for_cpu s =
     (case find_thread s tid of
        None \<Rightarrow> (None, s)
      | Some t \<Rightarrow>
          let o1 = retry_oom t; m = metrics t in
          if oom_matches o1 is_for_cpu then
            if skip_count o1 > 0 then
              (None, put_thread tid (t\<lparr>retry_oom := o1\<lparr>skip_count := skip_count o1 - 1\<rparr>\<rparr>) s)
            else if hit_count o1 > 0 then
              (Some (if is_for_cpu then CPU_RETRY_OOM else GPU_RETRY_OOM),
               timed_thread tid record_failed_retry_time
                 (put_thread tid (t\<lparr>retry_oom := o1\<lparr>hit_count := hit_count o1 - 1\<rparr>,
                    metrics := m\<lparr>num_times_retry_throw := num_times_retry_throw m + 1\<rparr>\<rparr>) s))
            else (None, s)
          else (None, s))"

definition inject_cudf_exception :: "thread_id \<Rightarrow> adaptor \<Rightarrow> cpp_exception option \<times> adaptor" where
  "inject_cudf_exception tid s =
     (case find_thread s tid of
        None \<Rightarrow> (None, s)
      | Some t \<Rightarrow>
          if cudf_exception_injected t > 0 then
            (Some CUDF_EXCEPTION,
             timed_thread tid record_failed_retry_time
               (put_thread tid (t\<lparr>cudf_exception_injected := cudf_exception_injected t - 1\<rparr>) s))
          else (None, s))"

definition inject_split_and_retry_oom ::
  "thread_id \<Rightarrow> bool \<Rightarrow> adaptor \<Rightarrow> cpp_exception option \<times> adaptor" where
  "inject_split_and_retry_oom tid is_for_cpu s =
     (case find_thread s tid of
        None \<Rightarrow> (None, s)
      | Some t \<Rightarrow>
          let o1 = split_and_retry_oom t; m = metrics t in
          if oom_matches o1 is_for_cpu then
            if skip_count o1 > 0 then
              (None, put_thread tid (t\<lparr>split_and_retry_oom := o1\<lparr>skip_count := skip_count o1 - 1\<rparr>\<rparr>) s)
            else if hit_count o1 > 0 then
              (Some (if is_for_cpu then CPU_SPLIT_AND_RETRY_OOM else GPU_SPLIT_AND_RETRY_OOM),
               timed_thread tid record_failed_retry_time
                 (put_thread tid (t\<lparr>split_and_retry_oom := o1\<lparr>hit_count := hit_count o1 - 1\<rparr>,
                    metrics := m\<lparr>num_times_split_retry_throw :=
                                   num_times_split_retry_throw m + 1\<rparr>\<rparr>) s))
            else (None, s)
          else (None, s))"

text \<open>The injected failures, in the order the code looks at them.\<close>

definition throw_injected :: "thread_id \<Rightarrow> bool \<Rightarrow> adaptor \<Rightarrow> cpp_exception option \<times> adaptor" where
  "throw_injected tid is_for_cpu s =
     (case inject_retry_oom tid is_for_cpu s of
        (Some e, s1) \<Rightarrow> (Some e, s1)
      | (None, s1) \<Rightarrow>
          (case inject_cudf_exception tid s1 of
             (Some e, s2) \<Rightarrow> (Some e, s2)
           | (None, s2) \<Rightarrow> inject_split_and_retry_oom tid is_for_cpu s2))"

text \<open>The end of \<open>pre_alloc_core\<close>, once the thread may go on.\<close>

definition pre_alloc_finish :: "thread_id \<Rightarrow> bool \<Rightarrow> adaptor \<Rightarrow> bool outcome \<times> adaptor" where
  "pre_alloc_finish tid is_for_cpu s =
     (case find_thread s tid of
        None \<Rightarrow> (Throw Undefined_Behaviour, s)
      | Some t \<Rightarrow>
          if state t = THREAD_RUNNING then
            (Ret False, modify_thread tid (\<lambda>t. t\<lparr>is_cpu_alloc := is_for_cpu\<rparr>)
                          (transition tid THREAD_ALLOC s))
          else (Throw (Invalid_Argument ''in unexpected state pre alloc''), s))"

fun after_block_outcome ::
  "thread_id \<Rightarrow> bool \<Rightarrow> unit outcome \<times> adaptor \<Rightarrow> bool outcome \<times> adaptor" where
  "after_block_outcome tid is_for_cpu (Ret _, s) = pre_alloc_finish tid is_for_cpu s"
| "after_block_outcome tid is_for_cpu (Throw e, s) = (Throw e, s)"
| "after_block_outcome tid is_for_cpu (Wait, s) = (Wait, s)"
| "after_block_outcome tid is_for_cpu (Out_Of_Fuel, s) = (Out_Of_Fuel, s)"

definition pre_alloc_core ::
  "thread_id \<Rightarrow> bool \<Rightarrow> bool \<Rightarrow> adaptor \<Rightarrow> bool outcome \<times> adaptor" where
  "pre_alloc_core tid is_for_cpu blocking s =
     (case find_thread s tid of
        None \<Rightarrow> (Ret False, s)
      | Some t \<Rightarrow>
          if state t = THREAD_ALLOC \<or> state t = THREAD_ALLOC_FREE then
            if is_for_cpu \<and> blocking then
              (Throw (Invalid_Argument ''is trying to do a blocking allocate while already in the state''), s)
            else (Ret True, s)
          else
            (case throw_injected tid is_for_cpu s of
               (Some e, s1) \<Rightarrow> (Throw e, s1)
             | (None, s1) \<Rightarrow>
                 if blocking then
                   after_block_outcome tid is_for_cpu (block_thread_until_ready tid s1)
                 else pre_alloc_finish tid is_for_cpu s1))"

definition resume_pre_alloc :: "thread_id \<Rightarrow> bool \<Rightarrow> adaptor \<Rightarrow> bool outcome \<times> adaptor" where
  "resume_pre_alloc tid is_for_cpu s = after_block_outcome tid is_for_cpu (resume_block tid s)"

text \<open>The bookkeeping of a successful GPU allocation.\<close>

definition record_gpu_alloc :: "thread_id \<Rightarrow> int \<Rightarrow> adaptor \<Rightarrow> adaptor" where
  "record_gpu_alloc tid num_bytes s =
     (case find_thread s tid of
        None \<Rightarrow> s
      | Some t \<Rightarrow>
          let m = metrics t;
              m1 = (if is_in_spilling t then m
                    else let active = gpu_memory_active_footprint m + num_bytes in
                         m\<lparr>gpu_memory_active_footprint := active,
                           gpu_memory_max_footprint := max active (gpu_memory_max_footprint m)\<rparr>);
              allocated = gpu_memory_allocated_bytes s + num_bytes
          in put_thread tid (t\<lparr>metrics := m1\<lparr>gpu_max_memory_allocated :=
                                  max (gpu_max_memory_allocated m1) allocated\<rparr>\<rparr>)
               (s\<lparr>gpu_memory_allocated_bytes := allocated\<rparr>))"

definition post_alloc_success_core ::
  "thread_id \<Rightarrow> bool \<Rightarrow> bool \<Rightarrow> int \<Rightarrow> adaptor \<Rightarrow> unit outcome \<times> adaptor" where
  "post_alloc_success_core tid is_for_cpu was_recursive num_bytes s =
     (case find_thread s tid of
        None \<Rightarrow> (Ret (), s)
      | Some t \<Rightarrow>
          if was_recursive then (Ret (), s)
          else
            let s1 = put_thread tid (t\<lparr>is_retry_alloc_before_bufn := False\<rparr>) s in
            if state t = THREAD_ALLOC \<or> state t = THREAD_ALLOC_FREE then
              if is_cpu_alloc t \<noteq> is_for_cpu then
                (Throw (Invalid_Argument ''has a mismatch on CPU vs GPU post alloc''), s1)
              else
                let s2 = modify_thread tid (\<lambda>t. t\<lparr>is_cpu_alloc := False\<rparr>)
                           (transition tid THREAD_RUNNING s1);
                    s3 = (if is_for_cpu then s2 else record_gpu_alloc tid num_bytes s2)
                in (Ret (), wake_next_highest_priority_blocked is_for_cpu s3)
            else (Ret (), wake_next_highest_priority_blocked is_for_cpu s1))"

definition post_alloc_failed_core ::
  "thread_id \<Rightarrow> bool \<Rightarrow> bool \<Rightarrow> bool \<Rightarrow> bool \<Rightarrow> adaptor \<Rightarrow> bool outcome \<times> adaptor" where
  "post_alloc_failed_core tid is_for_cpu is_oom blocking was_recursive s =
     (case find_thread s tid of
        None \<Rightarrow> (Ret False, check_and_update_for_bufn_state_machine_only s)
      | Some t \<Rightarrow>
          if was_recursive then (Ret False, check_and_update_for_bufn_state_machine_only s)
          else if is_cpu_alloc t \<noteq> is_for_cpu then
            (Throw (Invalid_Argument ''has a mismatch on CPU vs GPU post alloc''), s)
          else if state t = THREAD_ALLOC_FREE then
            (Ret True, check_and_update_for_bufn_state_machine_only (transition tid THREAD_RUNNING s))
          else if state t = THREAD_ALLOC then
            let s1 =
              (if is_oom \<and> is_retry_alloc_before_bufn t then
                 notify_thread tid (transition tid THREAD_BUFN_THROW
                   (put_thread tid (t\<lparr>is_retry_alloc_before_bufn := False\<rparr>) s))
               else if is_oom \<and> blocking then
                 transition tid THREAD_BLOCKED
                   (put_thread tid (t\<lparr>is_retry_alloc_before_bufn := False\<rparr>) s)
               else transition tid THREAD_RUNNING s)
            in (Ret True, check_and_update_for_bufn_state_machine_only s1)
          else (Throw (Runtime_Error ''Internal error: unexpected state after alloc failed''), s))"

text \<open>A free: its bookkeeping, the mark on every thread that is allocating, and a wake-up.\<close>

definition record_gpu_dealloc :: "thread_id \<Rightarrow> bool \<Rightarrow> int \<Rightarrow> adaptor \<Rightarrow> adaptor" where
  "record_gpu_dealloc tid is_for_cpu num_bytes s =
     (case find_thread s tid of
        None \<Rightarrow> s
      | Some t \<Rightarrow>
          if is_for_cpu then s
          else
            let m = metrics t;
                t' = (if is_in_spilling t then t
                      else t\<lparr>metrics := m\<lparr>gpu_memory_active_footprint :=
                               gpu_memory_active_footprint m - num_bytes\<rparr>\<rparr>)
            in put_thread tid t'
                 (s\<lparr>gpu_memory_allocated_bytes := gpu_memory_allocated_bytes s - num_bytes\<rparr>))"

definition mark_alloc_free :: "thread_id \<Rightarrow> bool \<Rightarrow> adaptor \<Rightarrow> adaptor" where
  "mark_alloc_free tid is_for_cpu s =
     fold (\<lambda>k s. case find_thread s k of
                   None \<Rightarrow> s
                 | Some t \<Rightarrow>
                     if thread_id t \<noteq> tid \<and> state t = THREAD_ALLOC \<and> is_for_cpu = is_cpu_alloc t
                     then transition k THREAD_ALLOC_FREE s else s)
       (om_keys (threads s)) s"

definition dealloc_core :: "thread_id \<Rightarrow> bool \<Rightarrow> int \<Rightarrow> adaptor \<Rightarrow> adaptor" where
  "dealloc_core tid is_for_cpu num_bytes s =
     wake_next_highest_priority_blocked is_for_cpu
       (mark_alloc_free tid is_for_cpu (record_gpu_dealloc tid is_for_cpu num_bytes s))"

definition do_deallocate :: "thread_id \<Rightarrow> int \<Rightarrow> adaptor \<Rightarrow> adaptor" where
  "do_deallocate tid num_bytes s = (if num_bytes > 0 then dealloc_core tid False num_bytes s else s)"

section \<open>Registering and unregistering\<close>

definition associate_thread :: "thread_id \<Rightarrow> task_id \<Rightarrow> adaptor \<Rightarrow> adaptor" where
  "associate_thread tid tsk s =
     s\<lparr>task_to_threads :=
         (case om_find (task_to_threads s) tsk of
            None \<Rightarrow> om_emplace tsk [tid] (task_to_threads s)
          | Some tids \<Rightarrow> om_set tsk (insort_insert tid tids) (task_to_threads s))\<rparr>"

definition start_dedicated_task_thread ::
  "thread_id \<Rightarrow> task_id \<Rightarrow> adaptor \<Rightarrow> unit outcome \<times> adaptor" where
  "start_dedicated_task_thread tid tsk s =
     (if shutting_down s then (Throw (Runtime_Error ''spark_resource_adaptor is shutting down''), s)
      else
        let s1 = (case find_thread s tid of
                    None \<Rightarrow> s
                  | Some t \<Rightarrow> if task_id t \<ge> 0 \<and> task_id t \<noteq> tsk
                              then snd (remove_thread_association tid (task_id t) s) else s)
        in case find_thread s1 tid of
             Some t \<Rightarrow>
               if state t = THREAD_REMOVE_THROW then
                 (Throw (Invalid_Argument ''A thread is shutting down''), s1)
               else if task_id t \<noteq> tsk then
                 (Throw (Invalid_Argument ''A thread can only be dedicated to a single task.''), s1)
               else (Ret (), associate_thread tid tsk s1)
           | None \<Rightarrow>
               (Ret (), log_transition tid tsk UNKNOWN THREAD_RUNNING
                  (associate_thread tid tsk
                     (s1\<lparr>threads := om_emplace tid (new_thread_state THREAD_RUNNING tid tsk)
                                      (threads s1)\<rparr>))))"

text \<open>Adding the tasks of a pool thread, once its entry exists.\<close>

definition add_pool_tasks :: "thread_id \<Rightarrow> task_id list \<Rightarrow> adaptor \<Rightarrow> adaptor" where
  "add_pool_tasks tid task_ids s =
     modify_thread tid (\<lambda>t. t\<lparr>pool_task_ids := fold List.insert task_ids (pool_task_ids t)\<rparr>)
       (checkpoint_metrics tid s)"

definition pool_thread_working_on_tasks ::
  "bool \<Rightarrow> thread_id \<Rightarrow> task_id list \<Rightarrow> adaptor \<Rightarrow> unit outcome \<times> adaptor" where
  "pool_thread_working_on_tasks for_shuffle tid task_ids s =
     (if shutting_down s then (Throw (Runtime_Error ''spark_resource_adaptor is shutting down''), s)
      else
        case find_thread s tid of
          None \<Rightarrow>
            (Ret (), add_pool_tasks tid task_ids
               (log_transition tid (-1) UNKNOWN THREAD_RUNNING
                  (s\<lparr>threads := om_emplace tid
                       ((new_thread_state THREAD_RUNNING tid (-1))\<lparr>is_for_shuffle := for_shuffle\<rparr>)
                       (threads s)\<rparr>)))
        | Some t \<Rightarrow>
            if task_id t \<noteq> -1 then
              (Throw (Invalid_Argument ''the thread is associated with a non-pool task already''), s)
            else if state t = THREAD_REMOVE_THROW then
              (Throw (Invalid_Argument ''the thread is in the process of shutting down.''), s)
            else if is_for_shuffle t \<noteq> for_shuffle then
              (Throw (Invalid_Argument ''we cannot change it while there are active tasks''), s)
            else (Ret (), add_pool_tasks tid task_ids s))"

definition pool_thread_finished_for_tasks ::
  "thread_id \<Rightarrow> task_id list \<Rightarrow> adaptor \<Rightarrow> unit outcome \<times> adaptor" where
  "pool_thread_finished_for_tasks tid task_ids s =
     (if shutting_down s then (Throw (Runtime_Error ''spark_resource_adaptor is shutting down''), s)
      else
        case find_thread s tid of
          None \<Rightarrow> (Ret (), s)
        | Some t \<Rightarrow>
            let s1 = modify_thread tid
                       (\<lambda>t. t\<lparr>pool_task_ids := fold removeAll task_ids (pool_task_ids t)\<rparr>)
                       (checkpoint_metrics tid s)
            in if fold removeAll task_ids (pool_task_ids t) = []
               then (Ret (), remove_thread_association_public tid (-1) s1)
               else (Ret (), s1))"

text \<open>
  \<open>task_done\<close> visits the threads in an unspecified order; the model visits them by id. A pool
  thread loses the task before its metrics are saved.
\<close>

definition drop_pool_task :: "task_id \<Rightarrow> thread_id \<Rightarrow> bool \<times> adaptor \<Rightarrow> bool \<times> adaptor" where
  "drop_pool_task tsk tid bs =
     (case bs of (run_checks, s) \<Rightarrow>
        (case find_thread s tid of
           None \<Rightarrow> (run_checks, s)
         | Some t \<Rightarrow>
             if tsk \<in> set (pool_task_ids t) then
               let left = removeAll tsk (pool_task_ids t);
                   s1 = put_thread tid (t\<lparr>pool_task_ids := left\<rparr>) s
               in if left = [] then
                    (case remove_thread_association tid tsk s1 of
                       (b, s2) \<Rightarrow> (b \<or> run_checks, s2))
                  else (run_checks, s1)
             else (run_checks, s)))"

definition drop_dedicated_thread :: "task_id \<Rightarrow> thread_id \<Rightarrow> bool \<times> adaptor \<Rightarrow> bool \<times> adaptor" where
  "drop_dedicated_thread tsk tid bs =
     (case bs of (run_checks, s) \<Rightarrow>
        (case remove_thread_association tid tsk s of (b, s1) \<Rightarrow> (b \<or> run_checks, s1)))"

definition task_done :: "task_id \<Rightarrow> adaptor \<Rightarrow> adaptor" where
  "task_done tsk s =
     (let r1 = (case om_find (task_to_threads s) tsk of
                  None \<Rightarrow> (False, s)
                | Some tids \<Rightarrow> fold (drop_dedicated_thread tsk) tids (False, s));
          r2 = fold (drop_pool_task tsk) (om_keys (threads (snd r1))) r1;
          s3 = (if fst r2 then wake_up_threads_after_task_finishes (snd r2) else snd r2)
      in s3\<lparr>task_to_threads := om_erase tsk (task_to_threads s3)\<rparr>)"

definition waiting_on_pool_status_changed ::
  "thread_id \<Rightarrow> bool \<Rightarrow> adaptor \<Rightarrow> unit outcome \<times> adaptor" where
  "waiting_on_pool_status_changed tid blocked s =
     (case find_thread s tid of
        None \<Rightarrow> (Throw (Invalid_Argument ''is not a dedicated task thread''), s)
      | Some t \<Rightarrow>
          if task_id t < 0 then (Throw (Invalid_Argument ''is not a dedicated task thread''), s)
          else (Ret (), put_thread tid (t\<lparr>pool_blocked := blocked\<rparr>) s))"

definition submitting_to_pool :: "thread_id \<Rightarrow> adaptor \<Rightarrow> unit outcome \<times> adaptor" where
  "submitting_to_pool tid = waiting_on_pool_status_changed tid True"

definition waiting_on_pool :: "thread_id \<Rightarrow> adaptor \<Rightarrow> unit outcome \<times> adaptor" where
  "waiting_on_pool tid = waiting_on_pool_status_changed tid True"

definition done_waiting_on_pool :: "thread_id \<Rightarrow> adaptor \<Rightarrow> unit outcome \<times> adaptor" where
  "done_waiting_on_pool tid = waiting_on_pool_status_changed tid False"

text \<open>
  \<open>all_done\<close>: the first critical section marks every thread; the second one waits, for at most a
  second, until the predicate \<open>all_done_wait_over\<close> holds.
\<close>

definition all_done_mark :: "adaptor \<Rightarrow> adaptor" where
  "all_done_mark s =
     (fold (\<lambda>tid s. snd (remove_thread_association tid (-1) s)) (om_keys (threads s)) s)
       \<lparr>shutting_down := True\<rparr>"

definition all_done_wait_over :: "adaptor \<Rightarrow> bool" where
  "all_done_wait_over s \<longleftrightarrow> threads s \<noteq> []"

section \<open>Small operations\<close>

definition start_retry_block :: "thread_id \<Rightarrow> adaptor \<Rightarrow> adaptor" where
  "start_retry_block tid = timed_thread tid (reset_retry_state True)"

definition end_retry_block :: "thread_id \<Rightarrow> adaptor \<Rightarrow> adaptor" where
  "end_retry_block tid = timed_thread tid (reset_retry_state False)"

definition is_working_on_task_as_pool_thread :: "thread_id \<Rightarrow> adaptor \<Rightarrow> bool" where
  "is_working_on_task_as_pool_thread tid s =
     (case find_thread s tid of None \<Rightarrow> False | Some t \<Rightarrow> pool_task_ids t \<noteq> [])"

definition force_retry_oom ::
  "thread_id \<Rightarrow> int \<Rightarrow> int \<Rightarrow> int \<Rightarrow> adaptor \<Rightarrow> unit outcome \<times> adaptor" where
  "force_retry_oom tid num_ooms filter_id skip s =
     (case find_thread s tid of
        None \<Rightarrow> (Throw (Invalid_Argument ''the thread is not associated with any task/shuffle''), s)
      | Some t \<Rightarrow>
          (case oom_init num_ooms skip filter_id (retry_oom t) of
             Inl e \<Rightarrow> (Throw e, s)
           | Inr o1 \<Rightarrow> (Ret (), put_thread tid (t\<lparr>retry_oom := o1\<rparr>) s)))"

definition force_split_and_retry_oom ::
  "thread_id \<Rightarrow> int \<Rightarrow> int \<Rightarrow> int \<Rightarrow> adaptor \<Rightarrow> unit outcome \<times> adaptor" where
  "force_split_and_retry_oom tid num_ooms filter_id skip s =
     (case find_thread s tid of
        None \<Rightarrow> (Throw (Invalid_Argument ''the thread is not associated with any task/shuffle''), s)
      | Some t \<Rightarrow>
          (case oom_init num_ooms skip filter_id (split_and_retry_oom t) of
             Inl e \<Rightarrow> (Throw e, s)
           | Inr o1 \<Rightarrow> (Ret (), put_thread tid (t\<lparr>split_and_retry_oom := o1\<rparr>) s)))"

definition force_cudf_exception :: "thread_id \<Rightarrow> int \<Rightarrow> adaptor \<Rightarrow> unit outcome \<times> adaptor" where
  "force_cudf_exception tid num_times s =
     (case find_thread s tid of
        None \<Rightarrow> (Throw (Invalid_Argument ''the thread is not associated with any task/shuffle''), s)
      | Some t \<Rightarrow> (Ret (), put_thread tid (t\<lparr>cudf_exception_injected := num_times\<rparr>) s))"

definition spill_range_start :: "thread_id \<Rightarrow> adaptor \<Rightarrow> adaptor" where
  "spill_range_start tid = modify_thread tid (\<lambda>t. t\<lparr>is_in_spilling := True\<rparr>)"

definition spill_range_done :: "thread_id \<Rightarrow> adaptor \<Rightarrow> adaptor" where
  "spill_range_done tid = modify_thread tid (\<lambda>t. t\<lparr>is_in_spilling := False\<rparr>)"

definition get_thread_state_as_int :: "thread_id \<Rightarrow> adaptor \<Rightarrow> int" where
  "get_thread_state_as_int tid s =
     (case find_thread s tid of None \<Rightarrow> -1 | Some t \<Rightarrow> thread_state_as_int (state t))"

section \<open>Calls and frames\<close>

text \<open>
  The calls that never wait, as one type: the caller is the thread that makes the call, the other
  arguments are those of the JNI functions. Only the new state matters for the interleaving.
\<close>

datatype api_call =
    Start_Dedicated thread_id task_id
  | Pool_Working bool thread_id "task_id list"
  | Pool_Finished thread_id "task_id list"
  | Remove_Association thread_id task_id
  | Task_Finished task_id
  | Submitting_To_Pool thread_id
  | Waiting_On_Pool thread_id
  | Done_Waiting_On_Pool thread_id
  | Start_Retry_Block thread_id
  | End_Retry_Block thread_id
  | Force_Retry thread_id int int int
  | Force_Split thread_id int int int
  | Force_Cudf thread_id int
  | Read_Num_Retry task_id
  | Read_Num_Split_Retry task_id
  | Read_Block_Time task_id
  | Read_Lost_Time task_id
  | Read_Gpu_Max_Memory task_id
  | Read_Total_Blocked task_id
  | Remove_Metrics task_id
  | Break_Deadlocks "thread_id set"
  | Cpu_Post_Success bool int
  | Cpu_Post_Failed bool bool bool
  | Cpu_Dealloc int
  | Gpu_Dealloc int
  | Spill_Start
  | Spill_Done
  | All_Done

fun exec_call :: "thread_id \<Rightarrow> api_call \<Rightarrow> adaptor \<Rightarrow> adaptor" where
  "exec_call me (Start_Dedicated tid tsk) s = snd (start_dedicated_task_thread tid tsk s)"
| "exec_call me (Pool_Working sh tid tsks) s = snd (pool_thread_working_on_tasks sh tid tsks s)"
| "exec_call me (Pool_Finished tid tsks) s = snd (pool_thread_finished_for_tasks tid tsks s)"
| "exec_call me (Remove_Association tid tsk) s = remove_thread_association_public tid tsk s"
| "exec_call me (Task_Finished tsk) s = task_done tsk s"
| "exec_call me (Submitting_To_Pool tid) s = snd (submitting_to_pool tid s)"
| "exec_call me (Waiting_On_Pool tid) s = snd (waiting_on_pool tid s)"
| "exec_call me (Done_Waiting_On_Pool tid) s = snd (done_waiting_on_pool tid s)"
| "exec_call me (Start_Retry_Block tid) s = start_retry_block tid s"
| "exec_call me (End_Retry_Block tid) s = end_retry_block tid s"
| "exec_call me (Force_Retry tid n f k) s = snd (force_retry_oom tid n f k s)"
| "exec_call me (Force_Split tid n f k) s = snd (force_split_and_retry_oom tid n f k s)"
| "exec_call me (Force_Cudf tid n) s = snd (force_cudf_exception tid n s)"
| "exec_call me (Read_Num_Retry tsk) s = snd (get_and_reset_num_retry tsk s)"
| "exec_call me (Read_Num_Split_Retry tsk) s = snd (get_and_reset_num_split_retry tsk s)"
| "exec_call me (Read_Block_Time tsk) s = snd (get_and_reset_block_time tsk s)"
| "exec_call me (Read_Lost_Time tsk) s = snd (get_and_reset_lost_time tsk s)"
| "exec_call me (Read_Gpu_Max_Memory tsk) s = snd (get_and_reset_gpu_max_memory_allocated tsk s)"
| "exec_call me (Read_Total_Blocked tsk) s = snd (get_total_blocked_or_lost tsk s)"
| "exec_call me (Remove_Metrics tsk) s = remove_task_metrics tsk s"
| "exec_call me (Break_Deadlocks ids) s = check_and_break_deadlocks ids s"
| "exec_call me (Cpu_Post_Success rec n) s = snd (post_alloc_success_core me True rec n s)"
| "exec_call me (Cpu_Post_Failed oom blk rec) s = snd (post_alloc_failed_core me True oom blk rec s)"
| "exec_call me (Cpu_Dealloc n) s = dealloc_core me True n s"
| "exec_call me (Gpu_Dealloc n) s = do_deallocate me n s"
| "exec_call me Spill_Start s = spill_range_start me s"
| "exec_call me Spill_Done s = spill_range_done me s"
| "exec_call me All_Done s = all_done_mark s"

text \<open>
  Where a thread is inside the adaptor. A thread inside the wrapped resource (\<open>Allocating\<close>) may
  call the adaptor again, when a failed allocation makes the resource spill, so a thread has a
  stack of frames. \<open>Alloc_Loop\<close> is the head of the loop of \<open>do_allocate\<close>.
\<close>

datatype frame =
    Alloc_Loop int
  | Alloc_Wait int
  | Allocating bool int
  | Block_Wait
  | Cpu_Wait

text \<open>
  \<open>since\<close> is not state of the code: how often the entry of a thread had been erased when the thread last
  did a step. A later erasure destroys the condition variable that a waiting thread waits on.
\<close>

record sys =
  ad :: adaptor
  frames :: "thread_id \<Rightarrow> frame list"
  since :: "thread_id \<Rightarrow> nat"

fun can_call :: "frame list \<Rightarrow> bool" where
  "can_call [] = True"
| "can_call (Allocating _ _ # _) = True"
| "can_call _ = False"

fun is_waiting :: "frame list \<Rightarrow> bool" where
  "is_waiting (Alloc_Wait _ # _) = True"
| "is_waiting (Block_Wait # _) = True"
| "is_waiting (Cpu_Wait # _) = True"
| "is_waiting _ = False"

fun push_if_wait :: "frame \<Rightarrow> 'a outcome \<Rightarrow> frame list \<Rightarrow> frame list" where
  "push_if_wait f Wait fs = f # fs"
| "push_if_wait f _ fs = fs"

text \<open>\<open>do_allocate\<close> after \<open>pre_alloc\<close>: allocate, wait, or leave with the exception.\<close>

fun after_pre_alloc :: "int \<Rightarrow> bool outcome \<Rightarrow> frame list \<Rightarrow> frame list" where
  "after_pre_alloc n (Ret likely_spill) fs = Allocating likely_spill n # fs"
| "after_pre_alloc n Wait fs = Alloc_Wait n # fs"
| "after_pre_alloc n _ fs = fs"

text \<open>\<open>do_allocate\<close> after a failed allocation: go round again or rethrow.\<close>

fun after_alloc_oom :: "int \<Rightarrow> bool outcome \<Rightarrow> frame list \<Rightarrow> frame list" where
  "after_alloc_oom n (Ret True) fs = Alloc_Loop n # fs"
| "after_alloc_oom n _ fs = fs"

end
