(* ===== verification/AdaptorInv.thy ===== *)
theory AdaptorInv
  imports AdaptorOps
begin

text \<open>
  The invariant of the resource adaptor and its preservation by every critical section: the
  entries of the thread map are well formed, the transition log is a path of the state
  machine that ends in the current states, and a thread that leaves a blocked state is
  notified. The relation \<open>step_ok\<close> collects the three and composes.
\<close>

section \<open>The state machine\<close>

text \<open>
  The edges of the diagram \<^verbatim>\<open>docs/img/memory_state_machine.png\<close> of \<^verbatim>\<open>docs/memory_management.md\<close>, with the edges
  to \<open>UNKNOWN\<close> from every state that is not blocked, which the text adds.
\<close>

fun documented :: "thread_state \<Rightarrow> thread_state \<Rightarrow> bool" where
  "documented UNKNOWN b = (b = THREAD_RUNNING)"
| "documented THREAD_RUNNING b = (b \<in> {UNKNOWN, THREAD_ALLOC})"
| "documented THREAD_ALLOC b = (b \<in> {UNKNOWN, THREAD_ALLOC_FREE, THREAD_BLOCKED, THREAD_RUNNING})"
| "documented THREAD_ALLOC_FREE b = (b \<in> {UNKNOWN, THREAD_ALLOC, THREAD_RUNNING})"
| "documented THREAD_BLOCKED b = (b \<in> {THREAD_BUFN_THROW, THREAD_REMOVE_THROW, THREAD_RUNNING})"
| "documented THREAD_BUFN_THROW b = (b \<in> {UNKNOWN, THREAD_BUFN_WAIT, THREAD_RUNNING})"
| "documented THREAD_BUFN_WAIT b = (b \<in> {UNKNOWN, THREAD_BUFN, THREAD_RUNNING})"
| "documented THREAD_BUFN b = (b \<in> {THREAD_SPLIT_THROW, THREAD_REMOVE_THROW, THREAD_RUNNING})"
| "documented THREAD_SPLIT_THROW b = (b \<in> {UNKNOWN, THREAD_RUNNING})"
| "documented THREAD_REMOVE_THROW b = (b = UNKNOWN)"

text \<open>
  The edges that the code takes: one that is not in the diagram, from \<open>THREAD_ALLOC\<close> to
  \<open>THREAD_BUFN_THROW\<close>, when the retry of the last thread to block fails again; and not the one from
  \<open>THREAD_ALLOC_FREE\<close> back to \<open>THREAD_ALLOC\<close>.
\<close>

fun edge :: "thread_state \<Rightarrow> thread_state \<Rightarrow> bool" where
  "edge UNKNOWN b = (b = THREAD_RUNNING)"
| "edge THREAD_RUNNING b = (b \<in> {UNKNOWN, THREAD_ALLOC})"
| "edge THREAD_ALLOC b =
     (b \<in> {UNKNOWN, THREAD_RUNNING, THREAD_ALLOC_FREE, THREAD_BLOCKED, THREAD_BUFN_THROW})"
| "edge THREAD_ALLOC_FREE b = (b \<in> {UNKNOWN, THREAD_RUNNING})"
| "edge THREAD_BLOCKED b = (b \<in> {THREAD_RUNNING, THREAD_BUFN_THROW, THREAD_REMOVE_THROW})"
| "edge THREAD_BUFN_THROW b = (b \<in> {UNKNOWN, THREAD_RUNNING, THREAD_BUFN_WAIT})"
| "edge THREAD_BUFN_WAIT b = (b \<in> {UNKNOWN, THREAD_RUNNING, THREAD_BUFN})"
| "edge THREAD_BUFN b = (b \<in> {THREAD_RUNNING, THREAD_SPLIT_THROW, THREAD_REMOVE_THROW})"
| "edge THREAD_SPLIT_THROW b = (b \<in> {UNKNOWN, THREAD_RUNNING})"
| "edge THREAD_REMOVE_THROW b = (b = UNKNOWN)"

text \<open>The state a log ends in, for one thread, and the logs that are paths of the machine.\<close>

fun logged_state :: "logged_transition list \<Rightarrow> thread_id \<Rightarrow> thread_state" where
  "logged_state [] tid = UNKNOWN"
| "logged_state (e # es) tid = (if op_thread e = tid then to_state e else logged_state es tid)"

fun legal_log :: "logged_transition list \<Rightarrow> bool" where
  "legal_log [] = True"
| "legal_log (e # es) =
     (from_state e = logged_state es (op_thread e) \<and> edge (from_state e) (to_state e) \<and> legal_log es)"

definition state_of :: "adaptor \<Rightarrow> thread_id \<Rightarrow> thread_state" where
  "state_of s tid = (case find_thread s tid of None \<Rightarrow> UNKNOWN | Some t \<Rightarrow> state t)"

definition thread_ok :: "thread_id \<Rightarrow> full_thread_state \<Rightarrow> bool" where
  "thread_ok tid t \<longleftrightarrow>
     thread_id t = tid \<and> tid \<noteq> -1 \<and> state t \<noteq> UNKNOWN \<and>
     (task_id t \<ge> 0 \<longrightarrow> pool_task_ids t = []) \<and> distinct (pool_task_ids t) \<and>
     0 \<le> num_times_retried t \<and> num_times_retried t \<le> 500"

definition adaptor_inv :: "adaptor \<Rightarrow> bool" where
  "adaptor_inv s \<longleftrightarrow> om_ok (threads s) \<and> (\<forall>tid t. find_thread s tid = Some t \<longrightarrow> thread_ok tid t) \<and>
     legal_log (transitions s) \<and> (\<forall>tid. logged_state (transitions s) tid = state_of s tid)"

section \<open>Wake-ups\<close>

text \<open>A waiting thread will not be missed: it is still blocked, or its notification is pending.\<close>

definition alert :: "adaptor \<Rightarrow> thread_id \<Rightarrow> bool" where
  "alert s tid \<longleftrightarrow> (\<exists>t. find_thread s tid = Some t \<and> (is_blocked (state t) \<or> notified t))"

text \<open>
  The entries of a thread that have been erased, newest first: whether their condition variables
  had been notified; and how many there are.
\<close>

definition erasures :: "adaptor \<Rightarrow> thread_id \<Rightarrow> bool list" where
  "erasures s tid = map woken (filter (\<lambda>e. op_thread e = tid \<and> to_state e = UNKNOWN) (transitions s))"

definition forgets :: "adaptor \<Rightarrow> thread_id \<Rightarrow> nat" where
  "forgets s tid = length (erasures s tid)"

text \<open>
  What waits on a thread's entry will be woken: the entry stays alert, or it is erased, and then it
  was notified before.
\<close>

definition roused :: "adaptor \<Rightarrow> thread_id \<Rightarrow> bool list \<Rightarrow> bool" where
  "roused s tid new \<longleftrightarrow> (if new = [] then alert s tid else last new)"

definition keeps_alert :: "adaptor \<Rightarrow> adaptor \<Rightarrow> bool" where
  "keeps_alert s s' \<longleftrightarrow>
     (\<forall>tid. \<exists>new. erasures s' tid = new @ erasures s tid \<and> (alert s tid \<longrightarrow> roused s' tid new))"

definition step_ok :: "adaptor \<Rightarrow> adaptor \<Rightarrow> bool" where
  "step_ok s s' \<longleftrightarrow> (adaptor_inv s \<longrightarrow> adaptor_inv s' \<and> keeps_alert s s')"

lemma keeps_alert_same:
  assumes "\<And>tid. erasures s' tid = erasures s tid" "\<And>tid. alert s tid \<Longrightarrow> alert s' tid"
  shows "keeps_alert s s'"
  unfolding keeps_alert_def by (intro allI exI [of _ "[]"]) (simp add: assms roused_def)

lemma keeps_alert_refl [simp]: "keeps_alert s s"
  by (rule keeps_alert_same) simp_all

lemma roused_keeps:
  assumes "keeps_alert s t" "erasures s tid = new @ old" "roused s tid new"
  shows "\<exists>new'. erasures t tid = new' @ old \<and> roused t tid new'"
proof -
  obtain more where "erasures t tid = more @ erasures s tid" "alert s tid \<longrightarrow> roused t tid more"
    using assms(1) by (auto simp: keeps_alert_def)
  then show ?thesis using assms(2,3) by (intro exI [of _ "more @ new"]) (auto simp: roused_def split: if_splits)
qed

lemma keeps_alert_trans: "keeps_alert s t \<Longrightarrow> keeps_alert t u \<Longrightarrow> keeps_alert s u"
  unfolding keeps_alert_def [of s] using roused_keeps [of t u]
  by (metis append.assoc append_same_eq keeps_alert_def)

lemma step_ok_refl [simp]: "step_ok s s"
  by (simp add: step_ok_def)

lemma step_ok_trans: "step_ok s t \<Longrightarrow> step_ok t u \<Longrightarrow> step_ok s u"
  unfolding step_ok_def by (blast intro: keeps_alert_trans)

text \<open>Composition when the second half needs the invariant of the first.\<close>

lemma step_ok_then: "step_ok s t \<Longrightarrow> (adaptor_inv t \<Longrightarrow> step_ok t u) \<Longrightarrow> step_ok s u"
  unfolding step_ok_def by (blast intro: keeps_alert_trans)

lemma step_ok_assume: "(adaptor_inv s \<Longrightarrow> step_ok s t) \<Longrightarrow> step_ok s t"
  unfolding step_ok_def by blast

lemma step_ok_inv: "step_ok s t \<Longrightarrow> adaptor_inv s \<Longrightarrow> adaptor_inv t"
  by (simp add: step_ok_def)

lemma step_ok_fold:
  "(\<And>x s. x \<in> set xs \<Longrightarrow> step_ok s (f x s)) \<Longrightarrow> step_ok s (fold f xs s)"
proof (induction xs arbitrary: s)
  case (Cons x xs)
  have "step_ok s (f x s)" using Cons.prems by simp
  moreover have "step_ok (f x s) (fold f xs (f x s))"
    using Cons.IH Cons.prems by simp
  ultimately show ?case by (simp add: step_ok_trans)
qed simp

section \<open>The primitives\<close>

lemma find_put [simp]:
  "find_thread (put_thread k t s) tid =
     (if tid = k then (case find_thread s k of None \<Rightarrow> None | Some _ \<Rightarrow> Some t)
      else find_thread s tid)"
  by (simp add: find_thread_def put_thread_def om_find_set)

lemma find_modify:
  "find_thread (modify_thread k f s) tid =
     (if tid = k then map_option f (find_thread s k) else find_thread s tid)"
  by (auto simp: modify_thread_def split: option.splits)

lemma put_fields [simp]:
  "transitions (put_thread k t s) = transitions s"
  "task_to_threads (put_thread k t s) = task_to_threads s"
  "task_to_metrics (put_thread k t s) = task_to_metrics s"
  "priorities (put_thread k t s) = priorities s"
  "om_keys (threads (put_thread k t s)) = om_keys (threads s)"
  "shutting_down (put_thread k t s) = shutting_down s"
  by (simp_all add: put_thread_def)

lemma find_thread_upd [simp]:
  "find_thread (s\<lparr>clock := c\<rparr>) = find_thread s"
  "find_thread (s\<lparr>priorities := p\<rparr>) = find_thread s"
  "find_thread (s\<lparr>task_to_metrics := m\<rparr>) = find_thread s"
  "find_thread (s\<lparr>task_to_threads := tt\<rparr>) = find_thread s"
  "find_thread (s\<lparr>gpu_memory_allocated_bytes := g\<rparr>) = find_thread s"
  "find_thread (s\<lparr>removed_threads := r\<rparr>) = find_thread s"
  "find_thread (s\<lparr>shutting_down := b\<rparr>) = find_thread s"
  by (auto simp: find_thread_def)

lemma inv_thread: "adaptor_inv s \<Longrightarrow> find_thread s tid = Some t \<Longrightarrow> thread_ok tid t"
  by (simp add: adaptor_inv_def)

lemma state_of_find: "find_thread s tid = Some t \<Longrightarrow> state_of s tid = state t"
  by (simp add: state_of_def)

text \<open>Changes that the state machine does not see.\<close>

lemma step_ok_same:
  assumes "threads s' = threads s" and "transitions s' = transitions s"
  shows "step_ok s s'"
proof -
  have "find_thread s' = find_thread s" using assms(1) by (auto simp: find_thread_def)
  then show ?thesis
    using assms by (auto simp: step_ok_def adaptor_inv_def alert_def erasures_def state_of_def intro!: keeps_alert_same)
qed

lemma inv_put:
  assumes "adaptor_inv s" "find_thread s k = Some t" "state t' = state t" "thread_ok k t'"
  shows "adaptor_inv (put_thread k t' s)"
proof -
  have "state_of (put_thread k t' s) = state_of s"
    using assms(2,3) by (auto simp: state_of_def split: option.splits)
  then show ?thesis
    using assms by (auto simp: adaptor_inv_def put_thread_def om_ok_set find_thread_def om_find_set)
qed

lemma step_ok_put:
  assumes "find_thread s k = Some t" "state t' = state t"
    and "thread_ok k t \<Longrightarrow> thread_ok k t'"
    and "notified t \<Longrightarrow> notified t' \<or> is_blocked (state t)"
  shows "step_ok s (put_thread k t' s)"
  using assms inv_put [of s k t t'] inv_thread [of s k t]
  by (auto simp: step_ok_def alert_def erasures_def intro!: keeps_alert_same split: option.splits)

lemma step_ok_modify:
  assumes "\<And>t. find_thread s k = Some t \<Longrightarrow> state (f t) = state t"
    and "\<And>t. find_thread s k = Some t \<Longrightarrow> thread_ok k t \<Longrightarrow> thread_ok k (f t)"
    and "\<And>t. find_thread s k = Some t \<Longrightarrow> notified t \<Longrightarrow> notified (f t) \<or> is_blocked (state t)"
  shows "step_ok s (modify_thread k f s)"
  using assms by (auto simp: modify_thread_def intro!: step_ok_put split: option.splits)

lemma find_timed:
  "find_thread (timed_thread k f s) tid =
     (if tid = k then map_option (\<lambda>t. fst (f (t, clock s))) (find_thread s k)
      else find_thread s tid)"
  by (auto simp: timed_thread_def split: option.splits)

lemma step_ok_timed:
  assumes "\<And>t c. core (fst (f (t, c))) = core t"
  shows "step_ok s (timed_thread k f s)"
proof (cases "find_thread s k")
  case None
  then show ?thesis by (simp add: timed_thread_def)
next
  case (Some t)
  let ?t' = "fst (f (t, clock s))"
  have same: "core ?t' = core t" by (rule assms)
  have "step_ok s (s\<lparr>clock := snd (f (t, clock s))\<rparr>)" by (rule step_ok_same) simp_all
  moreover have "step_ok (s\<lparr>clock := snd (f (t, clock s))\<rparr>)
      (put_thread k ?t' (s\<lparr>clock := snd (f (t, clock s))\<rparr>))"
    using Some core_eqD [OF same] by (intro step_ok_put [of _ _ t]) (auto simp: thread_ok_def)
  ultimately show ?thesis using Some by (simp add: timed_thread_def step_ok_trans)
qed

lemma find_log [simp]: "find_thread (log_transition k tsk a b s) = find_thread s"
  by (auto simp: find_thread_def log_transition_def)

lemma find_transition:
  "find_thread (transition k new s) tid =
     (if tid = k \<and> new \<noteq> UNKNOWN then map_option (\<lambda>t. t\<lparr>state := new\<rparr>) (find_thread s k)
      else find_thread s tid)"
  by (auto simp: transition_def transition_to_def split: option.splits)

lemma transition_log:
  assumes "find_thread s k = Some t" "new \<noteq> UNKNOWN"
  shows "transitions (transition k new s) =
    \<lparr>op_thread = k, op_task = task_id t, from_state = state t, to_state = new, woken = notified t\<rparr> # transitions s"
  using assms by (simp add: transition_def transition_to_def log_transition_def)

lemma inv_transition:
  assumes "adaptor_inv s" "find_thread s k = Some t" "edge (state t) new" "new \<noteq> UNKNOWN"
  shows "adaptor_inv (transition k new s)"
proof -
  have ok: "om_ok (threads (transition k new s))"
    using assms(1,2,4)
    by (simp add: adaptor_inv_def transition_def transition_to_def log_transition_def put_thread_def om_ok_set)
  have st: "state_of (transition k new s) tid = (if tid = k then new else state_of s tid)" for tid
    using assms(2,4) by (simp add: state_of_def find_transition)
  have "thread_ok tid u" if "find_thread (transition k new s) tid = Some u" for tid u
    using that assms by (auto simp: find_transition thread_ok_def adaptor_inv_def split: if_splits)
  then show ?thesis
    using assms ok st by (simp add: adaptor_inv_def transition_log state_of_find)
qed

text \<open>A transition that does not leave a blocked state, or one with a notification.\<close>

lemma step_ok_transition:
  assumes "find_thread s k = Some t" "edge (state t) new" "new \<noteq> UNKNOWN"
    and "is_blocked (state t) \<Longrightarrow> is_blocked new"
  shows "step_ok s (transition k new s)"
  using assms inv_transition [of s k t new]
  by (auto simp: step_ok_def alert_def erasures_def transition_log find_transition
      intro!: keeps_alert_same split: if_splits)

lemma find_notify:
  "find_thread (notify_thread k s) tid =
     (if tid = k then map_option (\<lambda>t. t\<lparr>notified := True\<rparr>) (find_thread s k) else find_thread s tid)"
  by (simp add: notify_thread_def find_modify)

lemma modify_transitions [simp]: "transitions (modify_thread k f s) = transitions s"
  by (simp add: modify_thread_def split: option.splits)

lemma step_ok_wake:
  assumes "find_thread s k = Some t" "edge (state t) new" "new \<noteq> UNKNOWN"
  shows "step_ok s (notify_thread k (transition k new s))"
proof (rule step_ok_assume)
  assume "adaptor_inv s"
  let ?s1 = "transition k new s"
  have i1: "adaptor_inv ?s1" by (rule inv_transition [OF \<open>adaptor_inv s\<close> assms])
  have "step_ok ?s1 (notify_thread k ?s1)"
    unfolding notify_thread_def by (rule step_ok_modify) (auto simp: thread_ok_def)
  then have i2: "adaptor_inv (notify_thread k ?s1)" using i1 by (rule step_ok_inv)
  have "keeps_alert s (notify_thread k ?s1)"
    using assms
    by (auto simp: alert_def erasures_def find_modify find_transition
        transition_log notify_thread_def intro!: keeps_alert_same)
  with i2 show "step_ok s (notify_thread k ?s1)" by (simp add: step_ok_def)
qed

lemma find_forget:
  "find_thread (forget_thread k s) tid = (if tid = k then None else find_thread s tid)"
  by (auto simp: forget_thread_def find_thread_def om_find_erase log_transition_def
      split: option.splits)

lemma forget_log:
  "find_thread s k = Some t \<Longrightarrow> transitions (forget_thread k s) =
    \<lparr>op_thread = k, op_task = task_id t, from_state = state t, to_state = UNKNOWN, woken = notified t\<rparr>
      # transitions s"
  by (simp add: forget_thread_def log_transition_def)

lemma step_ok_forget:
  assumes "find_thread s k = Some t" "edge (state t) UNKNOWN"
  shows "step_ok s (forget_thread k s)"
proof -
  have "adaptor_inv (forget_thread k s)" if "adaptor_inv s"
  proof -
    have "om_ok (threads (forget_thread k s))"
      using that assms(1) by (simp add: adaptor_inv_def forget_thread_def om_ok_erase)
    moreover have "state_of (forget_thread k s) tid = (if tid = k then UNKNOWN else state_of s tid)"
      for tid by (simp add: state_of_def find_forget)
    ultimately show ?thesis
      using that assms by (auto simp: adaptor_inv_def forget_log find_forget state_of_find split: if_splits)
  qed
  moreover have "keeps_alert s (forget_thread k s)"
  proof -
    have "erasures (forget_thread k s) tid = (if tid = k then [notified t] else []) @ erasures s tid" for tid
      using assms(1) by (simp add: erasures_def forget_log)
    moreover have "\<not> is_blocked (state t)" using assms(2) by (cases "state t") (simp_all add: is_blocked_iff)
    ultimately show ?thesis using assms(1)
      unfolding keeps_alert_def by (intro allI exI conjI) (auto simp: alert_def roused_def find_forget)
  qed
  ultimately show ?thesis by (simp add: step_ok_def)
qed

text \<open>A new entry in the thread map.\<close>

lemma step_ok_register:
  assumes "find_thread s k = None" "thread_ok k t" "state t = THREAD_RUNNING"
    and "transitions s' = \<lparr>op_thread = k, op_task = tsk, from_state = UNKNOWN,
           to_state = THREAD_RUNNING, woken = b\<rparr> # transitions s"
    and "threads s' = om_emplace k t (threads s)"
  shows "step_ok s s'"
proof -
  have find: "find_thread s' tid = (if tid = k then Some t else find_thread s tid)"
    if "adaptor_inv s" for tid
    using that assms(1,5) by (simp add: find_thread_def om_find_emplace adaptor_inv_def)
  have "adaptor_inv s'" if "adaptor_inv s"
  proof -
    have "om_ok (threads s')" using that assms(5) by (simp add: adaptor_inv_def om_ok_emplace)
    moreover have "state_of s' tid = (if tid = k then THREAD_RUNNING else state_of s tid)" for tid
      using find [OF that] assms(3) by (simp add: state_of_def)
    moreover have "state_of s k = UNKNOWN" using assms(1) by (simp add: state_of_def)
    ultimately show ?thesis
      using that assms(2,4) find [OF that] by (auto simp: adaptor_inv_def split: if_splits)
  qed
  moreover have "keeps_alert s s'" if "adaptor_inv s"
    using assms(1,4) find [OF that]
    by (auto simp: alert_def erasures_def intro!: keeps_alert_same)
  ultimately show ?thesis by (simp add: step_ok_def)
qed

section \<open>Every critical section\<close>

text \<open>Metrics and clocks.\<close>

lemma threads_add_task_metrics [simp]:
  "threads (add_task_metrics m tsk s) = threads s"
  "transitions (add_task_metrics m tsk s) = transitions s"
  "task_to_threads (add_task_metrics m tsk s) = task_to_threads s"
  by (simp_all add: add_task_metrics_def)

lemma threads_fold_metrics [simp]:
  "threads (fold (add_task_metrics m) tsks s) = threads s"
  "transitions (fold (add_task_metrics m) tsks s) = transitions s"
  "task_to_threads (fold (add_task_metrics m) tsks s) = task_to_threads s"
  by (induction tsks arbitrary: s) simp_all

lemma find_checkpoint:
  "find_thread (checkpoint_metrics k s) tid =
     (if tid = k then map_option (\<lambda>t. t\<lparr>metrics := new_metrics\<rparr>) (find_thread s k)
      else find_thread s tid)"
  by (auto simp: checkpoint_metrics_def put_thread_def find_thread_def om_find_set
      split: option.splits)

lemma step_ok_checkpoint: "step_ok s (checkpoint_metrics k s)"
proof (cases "find_thread s k")
  case None
  then show ?thesis by (simp add: checkpoint_metrics_def)
next
  case (Some t)
  have "step_ok s (put_thread k (t\<lparr>metrics := new_metrics\<rparr>) u)"
    if "threads u = threads s" "transitions u = transitions s" for u
  proof -
    have "find_thread u k = Some t" using that Some by (simp add: find_thread_def)
    then have "step_ok u (put_thread k (t\<lparr>metrics := new_metrics\<rparr>) u)"
      by (rule step_ok_put) (auto simp: thread_ok_def)
    moreover have "step_ok s u" using that by (rule step_ok_same)
    ultimately show ?thesis by (blast intro: step_ok_trans)
  qed
  then show ?thesis using Some by (simp add: checkpoint_metrics_def)
qed

lemma step_ok_take_thread_metric: "step_ok (snd rs) (snd (take_thread_metric metric reset tid rs))"
  by (auto simp: take_thread_metric_def thread_ok_def intro!: step_ok_put
      split: option.splits prod.splits)

lemma step_ok_take_thread_metrics:
  "step_ok (snd rs) (snd (fold (take_thread_metric metric reset) tids rs))"
proof (induction tids arbitrary: rs)
  case (Cons tid tids)
  show ?case
    using step_ok_trans [OF step_ok_take_thread_metric Cons.IH] by simp
qed simp

lemma step_ok_take_task_metric: "step_ok (snd rs) (snd (take_task_metric metric reset tsk rs))"
  by (auto simp: take_task_metric_def intro!: step_ok_same split: option.splits prod.splits)

lemma step_ok_reset_metric: "step_ok s (snd (get_and_reset_metric tsk metric reset s))"
  unfolding get_and_reset_metric_def
  using step_ok_trans [OF step_ok_take_thread_metrics [of "(0, s)"] step_ok_take_task_metric]
    step_ok_take_task_metric [of "(0, s)"]
  by (auto split: option.splits)

lemma step_ok_record_failed: "step_ok s (timed_thread k record_failed_retry_time s)"
  by (rule step_ok_timed) (simp add: core_record_failed)

lemma step_ok_before_block: "step_ok s (timed_thread k before_block s)"
  by (rule step_ok_timed) (simp add: core_before_block)

lemma step_ok_after_block: "step_ok s (timed_thread k after_block s)"
  by (rule step_ok_timed) (simp add: core_after_block)

lemma step_ok_reset_retry: "step_ok s (timed_thread k (reset_retry_state b) s)"
  by (rule step_ok_timed) (simp add: core_reset_retry)

text \<open>Throwing.\<close>

lemma step_ok_check_before_oom: "step_ok s (snd (check_before_oom k s))"
  by (auto simp: check_before_oom_def thread_ok_def step_ok_record_failed
      intro!: step_ok_put split: option.splits)

lemma step_ok_throw_retry: "step_ok s (snd (throw_retry_oom k s))"
proof -
  let ?s1 = "modify_thread k (\<lambda>t. t\<lparr>metrics := (metrics t)\<lparr>num_times_retry_throw :=
                   num_times_retry_throw (metrics t) + 1\<rparr>\<rparr>) s"
  have "step_ok s ?s1" by (rule step_ok_modify) (auto simp: thread_ok_def)
  moreover have "step_ok ?s1 (snd (check_before_oom k ?s1))" by (rule step_ok_check_before_oom)
  ultimately have "step_ok s (snd (check_before_oom k ?s1))" by (rule step_ok_trans)
  then show ?thesis
    by (auto simp: throw_retry_oom_def Let_def split: prod.splits option.splits
        intro: step_ok_trans [OF _ step_ok_record_failed])
qed

lemma step_ok_throw_split: "step_ok s (snd (throw_split_and_retry_oom k s))"
proof -
  let ?s1 = "modify_thread k (\<lambda>t. t\<lparr>metrics := (metrics t)\<lparr>num_times_split_retry_throw :=
                   num_times_split_retry_throw (metrics t) + 1\<rparr>\<rparr>) s"
  have "step_ok s ?s1" by (rule step_ok_modify) (auto simp: thread_ok_def)
  moreover have "step_ok ?s1 (snd (check_before_oom k ?s1))" by (rule step_ok_check_before_oom)
  ultimately have "step_ok s (snd (check_before_oom k ?s1))" by (rule step_ok_trans)
  then show ?thesis
    by (auto simp: throw_split_and_retry_oom_def Let_def split: prod.splits option.splits
        intro: step_ok_trans [OF _ step_ok_record_failed])
qed

text \<open>Scans.\<close>

lemma thread_priority_of_thread [simp]:
  "priority_thread (fst (thread_priority_of t ps)) = thread_id t"
  by (auto simp: thread_priority_of_def make_thread_priority_def split: list.splits prod.splits)

lemma scan_threads_found:
  assumes "scan_threads P better ts best ps = (Some (k, p), ps')"
  shows "best = Some (k, p) \<or> (\<exists>t. (k, t) \<in> set ts \<and> P t \<and> priority_thread p = thread_id t)"
  using assms
proof (induction ts arbitrary: best ps)
  case (Cons kt ts)
  obtain tid t where kt: "kt = (tid, t)" by fastforce
  obtain cur ps1 where cur: "thread_priority_of t ps = (cur, ps1)" by fastforce
  have thread: "priority_thread cur = thread_id t"
    using thread_priority_of_thread [of t ps] cur by simp
  show ?case
  proof (cases "P t")
    case False
    then show ?thesis using Cons.IH [of best ps] Cons.prems kt by auto
  next
    case True
    let ?best = "case best of None \<Rightarrow> Some (tid, cur)
                 | Some (_, b) \<Rightarrow> if better cur b then Some (tid, cur) else best"
    have "?best = Some (k, p) \<or> (\<exists>t. (k, t) \<in> set ts \<and> P t \<and> priority_thread p = thread_id t)"
      using Cons.IH [of ?best ps1] Cons.prems kt cur True by simp
    moreover have "?best = Some (tid, cur) \<or> ?best = best"
      by (simp split: option.split prod.split)
    ultimately consider "best = Some (k, p)" | "tid = k" "cur = p"
      | "\<exists>t. (k, t) \<in> set ts \<and> P t \<and> priority_thread p = thread_id t"
      by (metis option.inject prod.inject)
    then show ?thesis
    proof cases
      case 2
      then show ?thesis using kt True thread by auto
    qed (use kt in auto)
  qed
qed simp

lemma scan_threads_find:
  assumes "adaptor_inv s" "scan_threads P better (threads s) None ps = (Some (k, p), ps')"
  obtains t where "find_thread s k = Some t" "P t" "priority_thread p = k"
proof -
  from scan_threads_found [OF assms(2)] obtain t
    where t: "(k, t) \<in> set (threads s)" "P t" "priority_thread p = thread_id t" by auto
  have "find_thread s k = Some t"
    using assms(1) t(1) by (simp add: adaptor_inv_def find_thread_def om_find_iff)
  moreover from this have "thread_id t = k" using inv_thread [OF assms(1)] by (simp add: thread_ok_def)
  ultimately show ?thesis using that t by simp
qed

lemma step_ok_priorities: "step_ok s (s\<lparr>priorities := ps\<rparr>)"
  by (rule step_ok_same) simp_all

lemma step_ok_wake_next: "step_ok s (wake_next_highest_priority_blocked is_for_cpu s)"
proof (rule step_ok_assume)
  assume "adaptor_inv s"
  obtain best ps where scan: "scan_threads (\<lambda>t. state t = THREAD_BLOCKED \<and> is_for_cpu = is_cpu_alloc t)
      (\<lambda>current to_wake. to_wake < current) (threads s) None (priorities s) = (best, ps)"
    by fastforce
  show "step_ok s (wake_next_highest_priority_blocked is_for_cpu s)"
  proof (cases best)
    case None
    with scan show ?thesis
      by (simp add: wake_next_highest_priority_blocked_def step_ok_priorities)
  next
    case (Some kp)
    obtain k p where kp: "kp = (k, p)" by fastforce
    from scan have "scan_threads (\<lambda>t. state t = THREAD_BLOCKED \<and> is_for_cpu = is_cpu_alloc t)
      (\<lambda>current to_wake. to_wake < current) (threads s) None (priorities s) = (Some (k, p), ps)"
      using Some kp by simp
    then obtain t where t: "find_thread s k = Some t" "state t = THREAD_BLOCKED"
      by (rule scan_threads_find [OF \<open>adaptor_inv s\<close>]) simp
    have "step_ok (s\<lparr>priorities := ps\<rparr>)
        (notify_thread k (transition k THREAD_RUNNING (s\<lparr>priorities := ps\<rparr>)))"
      using t by (intro step_ok_wake [of _ _ t]) simp_all
    then show ?thesis
      using scan Some kp
      by (simp add: wake_next_highest_priority_blocked_def step_ok_trans [OF step_ok_priorities])
  qed
qed

lemma step_ok_wake_if:
  assumes "\<And>st. P st \<Longrightarrow> edge st THREAD_RUNNING"
  shows "step_ok s (fold (\<lambda>tid s. case find_thread s tid of None \<Rightarrow> s
      | Some t \<Rightarrow> if P (state t) then notify_thread tid (transition tid THREAD_RUNNING s) else s) ks s)"
  by (rule step_ok_fold) (auto split: option.splits intro: step_ok_wake assms)

lemma step_ok_wake_up_all: "step_ok s (wake_up_threads_after_task_finishes s)"
  unfolding wake_up_threads_after_task_finishes_def Let_def
  by (auto intro!: step_ok_wake_if step_ok_trans [OF step_ok_wake_if step_ok_wake_if])

text \<open>Removing a thread.\<close>

lemma edge_remove [simp]:
  "is_blocked st \<Longrightarrow> edge st THREAD_REMOVE_THROW"
  "\<not> is_blocked st \<Longrightarrow> st \<noteq> UNKNOWN \<Longrightarrow> edge st UNKNOWN"
  by (cases st; simp add: is_blocked_def)+

lemma step_ok_drop_pool:
  "step_ok s (modify_thread k (\<lambda>t. t\<lparr>pool_task_ids := removeAll tsk (pool_task_ids t)\<rparr>) s)"
  by (rule step_ok_modify) (auto simp: thread_ok_def distinct_removeAll)

lemma step_ok_remove: "step_ok s (snd (remove_thread_association k tsk s))"
proof (cases "find_thread s k")
  case None
  then show ?thesis by (simp add: remove_thread_association_def)
next
  case (Some t0)
  let ?s1 = "checkpoint_metrics k s"
  let ?s2 = "if tsk \<ge> 0 \<and> task_id t0 < 0
             then modify_thread k (\<lambda>t. t\<lparr>pool_task_ids := removeAll tsk (pool_task_ids t)\<rparr>) ?s1
             else ?s1"
  have ok2: "step_ok s ?s2"
    using step_ok_trans [OF step_ok_checkpoint step_ok_drop_pool] step_ok_checkpoint by simp
  have find2: "\<exists>t. find_thread ?s2 k = Some t \<and> state t = state t0"
    using Some by (auto simp: find_checkpoint find_modify)
  have last: "step_ok s (if is_blocked (state t0)
      then notify_thread k (transition k THREAD_REMOVE_THROW u) else forget_thread k u)"
    if "threads u = threads ?s2" "transitions u = transitions ?s2" for u
  proof (rule step_ok_then [of _ u])
    show "step_ok s u" using ok2 step_ok_same [OF that] by (rule step_ok_trans)
    assume "adaptor_inv u"
    from find2 that(1) obtain t where "find_thread u k = Some t" "state t = state t0"
      by (auto simp: find_thread_def)
    moreover from this have "state t0 \<noteq> UNKNOWN"
      using inv_thread [OF \<open>adaptor_inv u\<close>] by (auto simp: thread_ok_def)
    ultimately show "step_ok u (if is_blocked (state t0)
        then notify_thread k (transition k THREAD_REMOVE_THROW u) else forget_thread k u)"
      by (auto intro: step_ok_wake step_ok_forget)
  qed
  show ?thesis
    using ok2 last Some
    by (auto simp: remove_thread_association_def Let_def split: option.splits if_splits)
qed

lemma step_ok_remove_public: "step_ok s (remove_thread_association_public k tsk s)"
  using step_ok_remove [of s k tsk] step_ok_trans [OF step_ok_remove step_ok_wake_up_all]
  by (auto simp: remove_thread_association_public_def split: prod.splits) (metis snd_conv)

text \<open>Breaking a deadlock.\<close>

lemma step_ok_roll_back: "step_ok s (roll_back_lowest_blocked s)"
proof (rule step_ok_assume)
  assume "adaptor_inv s"
  obtain best ps where scan: "scan_threads (\<lambda>t. state t = THREAD_BLOCKED)
      (\<lambda>current to_bufn. current < to_bufn) (threads s) None (priorities s) = (best, ps)"
    by fastforce
  let ?s1 = "s\<lparr>priorities := ps\<rparr>"
  show "step_ok s (roll_back_lowest_blocked s)"
  proof (cases best)
    case None
    with scan show ?thesis by (simp add: roll_back_lowest_blocked_def step_ok_priorities)
  next
    case (Some kp)
    obtain k p where kp: "kp = (k, p)" by fastforce
    from scan have "scan_threads (\<lambda>t. state t = THREAD_BLOCKED)
        (\<lambda>current to_bufn. current < to_bufn) (threads s) None (priorities s) = (Some (k, p), ps)"
      using Some kp by simp
    then obtain t where t: "find_thread s k = Some t" "state t = THREAD_BLOCKED"
      and p: "priority_thread p = k"
      by (rule scan_threads_find [OF \<open>adaptor_inv s\<close>]) simp
    have "step_ok ?s1 (notify_thread k (transition k THREAD_BUFN_THROW ?s1))"
      using t by (intro step_ok_wake [of _ _ t]) simp_all
    moreover
    let ?s2 = "put_thread k (t\<lparr>is_retry_alloc_before_bufn := True\<rparr>) ?s1"
    have "step_ok ?s1 ?s2"
      using t by (intro step_ok_put [of _ _ t]) (auto simp: thread_ok_def)
    moreover have "step_ok ?s2 (notify_thread k (transition k THREAD_RUNNING ?s2))"
      using t by (intro step_ok_wake [of _ _ "t\<lparr>is_retry_alloc_before_bufn := True\<rparr>"]) simp_all
    ultimately show ?thesis
      using scan Some kp t p step_ok_priorities [of s ps]
      by (auto simp: roll_back_lowest_blocked_def Let_def intro: step_ok_trans)
  qed
qed

lemma find_thread_no_thread [simp]: "adaptor_inv s \<Longrightarrow> find_thread s (-1) = None"
  using inv_thread [of s "-1"] by (cases "find_thread s (-1)") (auto simp: thread_ok_def)

lemma step_ok_split: "step_ok s (split_highest_bufn s)"
proof (rule step_ok_assume)
  assume "adaptor_inv s"
  obtain best ps where scan: "scan_threads (\<lambda>t. state t = THREAD_BUFN)
      (\<lambda>current to_wake. to_wake < current) (threads s) None (priorities s) = (best, ps)"
    by fastforce
  show "step_ok s (split_highest_bufn s)"
  proof (cases best)
    case None
    with scan \<open>adaptor_inv s\<close> show ?thesis
      by (simp add: split_highest_bufn_def step_ok_priorities)
  next
    case (Some kp)
    obtain k p where kp: "kp = (k, p)" by fastforce
    from scan have "scan_threads (\<lambda>t. state t = THREAD_BUFN)
        (\<lambda>current to_wake. to_wake < current) (threads s) None (priorities s) = (Some (k, p), ps)"
      using Some kp by simp
    then obtain t where t: "find_thread s k = Some t" "state t = THREAD_BUFN"
      and p: "priority_thread p = k"
      by (rule scan_threads_find [OF \<open>adaptor_inv s\<close>]) simp
    have "step_ok (s\<lparr>priorities := ps\<rparr>)
        (notify_thread k (transition k THREAD_SPLIT_THROW (s\<lparr>priorities := ps\<rparr>)))"
      using t by (intro step_ok_wake [of _ _ t]) simp_all
    then show ?thesis
      using scan Some kp t p
      by (simp add: split_highest_bufn_def step_ok_trans [OF step_ok_priorities])
  qed
qed

lemma step_ok_bufn: "step_ok s (check_and_update_for_bufn java s)"
  using step_ok_roll_back step_ok_trans [OF step_ok_roll_back step_ok_split]
  by (auto simp: check_and_update_for_bufn_def Let_def split: prod.splits)

lemma step_ok_bufn_only: "step_ok s (check_and_update_for_bufn_state_machine_only s)"
  by (simp add: check_and_update_for_bufn_state_machine_only_def step_ok_bufn)

text \<open>Blocking.\<close>

lemma find_start_wait:
  "find_thread (start_wait k s) k =
     map_option (\<lambda>t. (fst (before_block (t, clock s)))\<lparr>notified := False\<rparr>) (find_thread s k)"
  by (simp add: start_wait_def find_modify find_timed option.map_comp comp_def)

lemma step_ok_start_wait:
  assumes "find_thread s k = Some t" "is_blocked (state t)"
  shows "step_ok s (start_wait k s)"
  unfolding start_wait_def
proof (rule step_ok_trans [OF step_ok_before_block], rule step_ok_modify)
  fix u
  assume "find_thread (timed_thread k before_block s) k = Some u"
  then have "core u = core t" using assms(1) by (auto simp: find_timed core_before_block)
  then show "notified (u\<lparr>notified := False\<rparr>) \<or> is_blocked (state u)"
    using assms(2) core_eqD [of u t] by simp
qed (auto simp: thread_ok_def)

lemma step_ok_bufn_throw:
  assumes "find_thread s k = Some t" "state t = THREAD_BUFN_THROW"
  shows "step_ok s (snd (throw_retry_oom k
           (timed_thread k record_failed_retry_time (transition k THREAD_BUFN_WAIT s))))"
proof -
  have "step_ok s (transition k THREAD_BUFN_WAIT s)"
    using assms by (intro step_ok_transition) (auto simp: is_blocked_def)
  then show ?thesis
    by (rule step_ok_trans [OF step_ok_trans [OF _ step_ok_record_failed] step_ok_throw_retry])
qed

lemma step_ok_split_throw:
  assumes "find_thread s k = Some t" "state t = THREAD_SPLIT_THROW"
  shows "step_ok s (snd (throw_split_and_retry_oom k
           (timed_thread k record_failed_retry_time (transition k THREAD_RUNNING s))))"
proof -
  have "step_ok s (transition k THREAD_RUNNING s)"
    using assms by (intro step_ok_transition) (auto simp: is_blocked_def)
  then show ?thesis
    by (rule step_ok_trans [OF step_ok_trans [OF _ step_ok_record_failed] step_ok_throw_split])
qed

lemma step_ok_to_bufn:
  assumes "find_thread s k = Some t" "state t = THREAD_BUFN_WAIT"
  shows "step_ok s (check_and_update_for_bufn_state_machine_only (transition k THREAD_BUFN s))"
  by (rule step_ok_trans [OF step_ok_transition step_ok_bufn_only])
     (use assms in \<open>auto simp: is_blocked_def\<close>)

lemma thread_is_blockedE:
  assumes "thread_is_blocked k s"
  obtains t where "find_thread s k = Some t" "is_blocked (state t)"
  using assms by (auto simp: thread_is_blocked_def split: option.splits)

lemma step_ok_start_wait_if: "thread_is_blocked k s \<Longrightarrow> step_ok s (start_wait k s)"
  by (erule thread_is_blockedE) (rule step_ok_start_wait)

lemma step_ok_block_loop: "step_ok s (snd (block_loop n k s))"
proof (induction n arbitrary: s)
  case (Suc n)
  show ?case
  proof (cases "find_thread s k")
    case (Some t)
    show ?thesis
    proof (cases "state t")
      case THREAD_BUFN_WAIT
      let ?s1 = "check_and_update_for_bufn_state_machine_only (transition k THREAD_BUFN s)"
      have "step_ok s ?s1" using Some THREAD_BUFN_WAIT by (rule step_ok_to_bufn)
      moreover have "step_ok ?s1 (snd (if thread_is_blocked k ?s1
          then (Wait, start_wait k ?s1) else block_loop n k ?s1))"
        using Suc.IH step_ok_start_wait_if by simp
      ultimately have "step_ok s (snd (if thread_is_blocked k ?s1
          then (Wait, start_wait k ?s1) else block_loop n k ?s1))" by (rule step_ok_trans)
      then show ?thesis using Some THREAD_BUFN_WAIT by (simp add: Let_def)
    qed (use Some step_ok_bufn_throw step_ok_split_throw step_ok_start_wait [OF Some]
             step_ok_forget [OF Some] in
         \<open>simp_all add: is_blocked_def case_prod_beta\<close>)
  qed simp
qed simp

lemma step_ok_block: "step_ok s (snd (block_thread_until_ready k s))"
  by (simp add: block_thread_until_ready_def step_ok_block_loop)

lemma step_ok_resume_block: "step_ok s (snd (resume_block k s))"
  by (auto simp: resume_block_def thread_ok_def
      intro!: step_ok_put step_ok_trans [OF step_ok_after_block step_ok_block_loop]
      split: option.splits)

text \<open>Before and after an allocation.\<close>

lemma step_ok_put_then_failed:
  assumes "find_thread s k = Some t" "state t' = state t"
    and "thread_ok k t \<Longrightarrow> thread_ok k t'" and "notified t' = notified t"
  shows "step_ok s (timed_thread k record_failed_retry_time (put_thread k t' s))"
  using step_ok_trans [OF step_ok_put step_ok_record_failed] assms by simp

lemma step_ok_inject_retry: "step_ok s (snd (inject_retry_oom k cpu s))"
  by (auto simp: inject_retry_oom_def Let_def thread_ok_def
      intro!: step_ok_put step_ok_put_then_failed split: option.splits)

lemma step_ok_inject_cudf: "step_ok s (snd (inject_cudf_exception k s))"
  by (auto simp: inject_cudf_exception_def thread_ok_def
      intro!: step_ok_put_then_failed split: option.splits)

lemma step_ok_inject_split: "step_ok s (snd (inject_split_and_retry_oom k cpu s))"
  by (auto simp: inject_split_and_retry_oom_def Let_def thread_ok_def
      intro!: step_ok_put step_ok_put_then_failed split: option.splits)

lemma step_ok_throw_injected: "step_ok s (snd (throw_injected k cpu s))"
proof -
  obtain e1 s1 where r: "inject_retry_oom k cpu s = (e1, s1)" by fastforce
  obtain e2 s2 where c: "inject_cudf_exception k s1 = (e2, s2)" by fastforce
  have ok1: "step_ok s s1" using step_ok_inject_retry [of s k cpu] r by simp
  have ok2: "step_ok s s2" using step_ok_trans [OF ok1] step_ok_inject_cudf [of s1 k] c by simp
  have "step_ok s (snd (inject_split_and_retry_oom k cpu s2))"
    using ok2 step_ok_inject_split by (rule step_ok_trans)
  then show ?thesis
    using r c ok1 ok2 by (cases e1; cases e2) (simp_all add: throw_injected_def)
qed

lemma step_ok_pre_alloc_finish: "step_ok s (snd (pre_alloc_finish k cpu s))"
proof (cases "find_thread s k")
  case (Some t)
  show ?thesis
  proof (cases "state t = THREAD_RUNNING")
    case True
    have "step_ok s (transition k THREAD_ALLOC s)"
      using Some True by (intro step_ok_transition) (auto simp: is_blocked_def)
    moreover have "step_ok u (modify_thread k (\<lambda>t. t\<lparr>is_cpu_alloc := cpu\<rparr>) u)" for u
      by (rule step_ok_modify) (auto simp: thread_ok_def)
    ultimately show ?thesis
      using Some True by (auto simp: pre_alloc_finish_def intro: step_ok_trans)
  qed (use Some in \<open>simp add: pre_alloc_finish_def\<close>)
qed (simp add: pre_alloc_finish_def)

lemma step_ok_after_block_outcome: "step_ok (snd r) (snd (after_block_outcome k cpu r))"
  by (cases "(k, cpu, r)" rule: after_block_outcome.cases) (auto simp: step_ok_pre_alloc_finish)

lemma step_ok_pre_alloc: "step_ok s (snd (pre_alloc_core k cpu blocking s))"
proof -
  obtain e s1 where inj: "throw_injected k cpu s = (e, s1)" by fastforce
  have ok: "step_ok s s1" using step_ok_throw_injected [of s k cpu] inj by simp
  have "step_ok s (snd (after_block_outcome k cpu (block_thread_until_ready k s1)))"
    by (rule step_ok_trans [OF step_ok_trans [OF ok step_ok_block] step_ok_after_block_outcome])
  moreover have "step_ok s (snd (pre_alloc_finish k cpu s1))"
    by (rule step_ok_trans [OF ok step_ok_pre_alloc_finish])
  ultimately show ?thesis
    using inj ok by (auto simp: pre_alloc_core_def split: option.splits)
qed

lemma step_ok_resume_pre_alloc: "step_ok s (snd (resume_pre_alloc k cpu s))"
  unfolding resume_pre_alloc_def
  by (rule step_ok_trans [OF step_ok_resume_block step_ok_after_block_outcome])

lemma step_ok_put_gpu:
  assumes "find_thread s k = Some t" "state t' = state t"
    and "thread_ok k t \<Longrightarrow> thread_ok k t'" "notified t' = notified t"
  shows "step_ok s (put_thread k t' (s\<lparr>gpu_memory_allocated_bytes := g\<rparr>))"
proof (rule step_ok_trans)
  show "step_ok s (s\<lparr>gpu_memory_allocated_bytes := g\<rparr>)"
    by (rule step_ok_same) simp_all
  show "step_ok (s\<lparr>gpu_memory_allocated_bytes := g\<rparr>)
      (put_thread k t' (s\<lparr>gpu_memory_allocated_bytes := g\<rparr>))"
    using assms by (intro step_ok_put [of _ _ t]) auto
qed

lemma step_ok_record_gpu: "step_ok s (record_gpu_alloc k n s)"
  by (auto simp: record_gpu_alloc_def Let_def thread_ok_def intro!: step_ok_put_gpu
      split: option.splits)

lemma step_ok_post_success: "step_ok s (snd (post_alloc_success_core k cpu rec n s))"
proof (cases "find_thread s k")
  case (Some t)
  let ?s1 = "put_thread k (t\<lparr>is_retry_alloc_before_bufn := False\<rparr>) s"
  let ?s2 = "modify_thread k (\<lambda>t. t\<lparr>is_cpu_alloc := False\<rparr>) (transition k THREAD_RUNNING ?s1)"
  have ok1: "step_ok s ?s1"
    using Some by (intro step_ok_put [of _ _ t]) (auto simp: thread_ok_def)
  have ok2: "step_ok s (if cpu then ?s2 else record_gpu_alloc k n ?s2)"
    if "state t = THREAD_ALLOC \<or> state t = THREAD_ALLOC_FREE"
  proof -
    have "step_ok ?s1 (transition k THREAD_RUNNING ?s1)"
      using Some that
      by (intro step_ok_transition [of _ _ "t\<lparr>is_retry_alloc_before_bufn := False\<rparr>"])
         (auto simp: is_blocked_def)
    moreover have "step_ok u (modify_thread k (\<lambda>t. t\<lparr>is_cpu_alloc := False\<rparr>) u)" for u
      by (rule step_ok_modify) (auto simp: thread_ok_def)
    ultimately have "step_ok s ?s2" using ok1 by (blast intro: step_ok_trans)
    then show ?thesis using step_ok_trans [OF _ step_ok_record_gpu] by simp
  qed
  show ?thesis
    using Some ok1 step_ok_trans [OF ok1 step_ok_wake_next] step_ok_trans [OF ok2 step_ok_wake_next]
    by (auto simp: post_alloc_success_core_def Let_def)
qed (simp add: post_alloc_success_core_def)

lemma step_ok_post_failed:
  "step_ok s (snd (post_alloc_failed_core k cpu oom blocking rec s))"
proof (cases "find_thread s k")
  case None
  then show ?thesis by (simp add: post_alloc_failed_core_def step_ok_bufn_only)
next
  case (Some t)
  let ?t = "t\<lparr>is_retry_alloc_before_bufn := False\<rparr>"
  let ?s1 = "put_thread k ?t s"
  have put: "step_ok s ?s1"
    using Some by (intro step_ok_put [of _ _ t]) (auto simp: thread_ok_def)
  have run: "step_ok s (transition k THREAD_RUNNING s)"
    if "state t = THREAD_ALLOC \<or> state t = THREAD_ALLOC_FREE"
    using Some that by (intro step_ok_transition) (auto simp: is_blocked_def)
  have thr: "step_ok s (notify_thread k (transition k THREAD_BUFN_THROW ?s1))"
    if "state t = THREAD_ALLOC"
    using Some that by (intro step_ok_trans [OF put] step_ok_wake [of _ _ ?t]) auto
  have blk: "step_ok s (transition k THREAD_BLOCKED ?s1)" if "state t = THREAD_ALLOC"
    using Some that
    by (intro step_ok_trans [OF put] step_ok_transition [of _ _ ?t]) (auto simp: is_blocked_def)
  show ?thesis
    using Some run thr blk step_ok_bufn_only
    by (auto simp: post_alloc_failed_core_def Let_def intro: step_ok_trans)
qed

lemma step_ok_record_dealloc: "step_ok s (record_gpu_dealloc k cpu n s)"
  by (auto simp: record_gpu_dealloc_def Let_def thread_ok_def intro!: step_ok_put_gpu
      split: option.splits)

lemma step_ok_mark_alloc_free: "step_ok s (mark_alloc_free k cpu s)"
  unfolding mark_alloc_free_def
  by (rule step_ok_fold) (auto split: option.splits intro!: step_ok_transition simp: is_blocked_def)

lemma step_ok_dealloc: "step_ok s (dealloc_core k cpu n s)"
  unfolding dealloc_core_def
  by (rule step_ok_trans [OF step_ok_trans [OF step_ok_record_dealloc step_ok_mark_alloc_free]
        step_ok_wake_next])

lemma step_ok_do_deallocate: "step_ok s (do_deallocate k n s)"
  by (simp add: do_deallocate_def step_ok_dealloc)

text \<open>Registering and unregistering.\<close>

lemma step_ok_associate: "step_ok s (associate_thread k tsk s)"
  by (rule step_ok_same) (simp_all add: associate_thread_def)

lemma thread_ok_new [simp]:
  "k \<noteq> -1 \<Longrightarrow> thread_ok k (new_thread_state THREAD_RUNNING k tsk)"
  by (simp add: thread_ok_def new_thread_state_def)

lemma step_ok_start_dedicated:
  assumes "k \<noteq> -1"
  shows "step_ok s (snd (start_dedicated_task_thread k tsk s))"
proof -
  let ?s1 = "case find_thread s k of None \<Rightarrow> s
             | Some t \<Rightarrow> if task_id t \<ge> 0 \<and> task_id t \<noteq> tsk
                         then snd (remove_thread_association k (task_id t) s) else s"
  have ok1: "step_ok s ?s1" using step_ok_remove by (auto split: option.splits)
  have "step_ok u (log_transition k tsk UNKNOWN THREAD_RUNNING (associate_thread k tsk
      (u\<lparr>threads := om_emplace k (new_thread_state THREAD_RUNNING k tsk) (threads u)\<rparr>)))"
    if "find_thread u k = None" for u
    using that assms
    by (intro step_ok_register [where k = k and tsk = tsk])
       (auto simp: log_transition_def associate_thread_def new_thread_state_def thread_ok_def)
  then have reg: "find_thread ?s1 k = None \<Longrightarrow>
      step_ok s (log_transition k tsk UNKNOWN THREAD_RUNNING (associate_thread k tsk
        (?s1\<lparr>threads := om_emplace k (new_thread_state THREAD_RUNNING k tsk) (threads ?s1)\<rparr>)))"
    by (rule step_ok_trans [OF ok1])
  have assoc: "step_ok s (associate_thread k tsk ?s1)" by (rule step_ok_trans [OF ok1 step_ok_associate])
  show ?thesis
    unfolding start_dedicated_task_thread_def Let_def
    using ok1 reg assoc by (cases "find_thread ?s1 k") auto
qed

lemma distinct_fold_insert: "distinct ys \<Longrightarrow> distinct (fold List.insert xs ys)"
  by (induction xs arbitrary: ys) simp_all

lemma step_ok_add_pool_tasks:
  assumes "\<And>t. find_thread s k = Some t \<Longrightarrow> task_id t < 0"
  shows "step_ok s (add_pool_tasks k tsks s)"
  unfolding add_pool_tasks_def
  by (rule step_ok_trans [OF step_ok_checkpoint step_ok_modify])
     (use assms in \<open>auto simp: thread_ok_def find_checkpoint distinct_fold_insert\<close>)

lemma step_ok_pool_working:
  assumes "k \<noteq> -1"
  shows "step_ok s (snd (pool_thread_working_on_tasks sh k tsks s))"
proof (cases "find_thread s k")
  case None
  let ?t = "(new_thread_state THREAD_RUNNING k (-1))\<lparr>is_for_shuffle := sh\<rparr>"
  let ?s1 = "log_transition k (-1) UNKNOWN THREAD_RUNNING
               (s\<lparr>threads := om_emplace k ?t (threads s)\<rparr>)"
  have reg: "step_ok s ?s1"
    using None assms
    by (intro step_ok_register [where k = k and tsk = "-1" and t = ?t])
       (auto simp: log_transition_def new_thread_state_def thread_ok_def)
  have add: "step_ok ?s1 (add_pool_tasks k tsks ?s1)" if "adaptor_inv s"
  proof (rule step_ok_add_pool_tasks)
    have "find_thread ?s1 k = Some ?t"
      using None that by (simp add: find_thread_def om_find_emplace log_transition_def adaptor_inv_def)
    then show "task_id t < 0" if "find_thread ?s1 k = Some t" for t
      using that by (auto simp: new_thread_state_def)
  qed
  have "step_ok s (add_pool_tasks k tsks ?s1)"
    by (rule step_ok_assume) (rule step_ok_trans [OF reg add])
  then show ?thesis using None by (simp add: pool_thread_working_on_tasks_def)
qed (auto simp: pool_thread_working_on_tasks_def intro: step_ok_add_pool_tasks)

lemma set_fold_removeAll [simp]: "set (fold removeAll xs ys) = set ys - set xs"
  by (induction xs arbitrary: ys) auto

lemma distinct_fold_removeAll: "distinct ys \<Longrightarrow> distinct (fold removeAll xs ys)"
  by (induction xs arbitrary: ys) (simp_all add: distinct_removeAll)

lemma fold_removeAll_Nil [simp]: "fold removeAll xs [] = []"
  by (induction xs) simp_all

lemma step_ok_pool_finished: "step_ok s (snd (pool_thread_finished_for_tasks k tsks s))"
proof -
  let ?s1 = "modify_thread k (\<lambda>t. t\<lparr>pool_task_ids := fold removeAll tsks (pool_task_ids t)\<rparr>)
               (checkpoint_metrics k s)"
  have "step_ok s ?s1"
    by (rule step_ok_trans [OF step_ok_checkpoint step_ok_modify])
       (auto simp: thread_ok_def distinct_fold_removeAll)
  then show ?thesis
    using step_ok_trans [OF _ step_ok_remove_public]
    by (auto simp: pool_thread_finished_for_tasks_def Let_def split: option.splits)
qed

lemma step_ok_fold_pair:
  assumes "\<And>x bs. step_ok (snd bs) (snd (f x bs))"
  shows "step_ok (snd bs) (snd (fold f xs bs))"
proof (induction xs arbitrary: bs)
  case (Cons x xs)
  show ?case using step_ok_trans [OF assms Cons.IH] by simp
qed simp

lemma step_ok_drop_dedicated: "step_ok (snd bs) (snd (drop_dedicated_thread tsk k bs))"
  using step_ok_remove [of "snd bs" k tsk] by (auto simp: drop_dedicated_thread_def split: prod.splits)

lemma step_ok_drop_pool_task: "step_ok (snd bs) (snd (drop_pool_task tsk k bs))"
proof (cases "find_thread (snd bs) k")
  case (Some t)
  let ?s1 = "put_thread k (t\<lparr>pool_task_ids := removeAll tsk (pool_task_ids t)\<rparr>) (snd bs)"
  have "step_ok (snd bs) ?s1"
    using Some by (intro step_ok_put [of _ _ t]) (auto simp: thread_ok_def distinct_removeAll)
  then show ?thesis
    using Some step_ok_trans [OF _ step_ok_remove, of "snd bs" ?s1 k tsk]
    by (auto simp: drop_pool_task_def Let_def split: prod.splits)
qed (auto simp: drop_pool_task_def split: prod.splits)

lemma step_ok_task_done: "step_ok s (task_done tsk s)"
proof -
  let ?r1 = "case om_find (task_to_threads s) tsk of None \<Rightarrow> (False, s)
             | Some tids \<Rightarrow> fold (drop_dedicated_thread tsk) tids (False, s)"
  let ?r2 = "fold (drop_pool_task tsk) (om_keys (threads (snd ?r1))) ?r1"
  have "step_ok s (snd ?r1)"
    using step_ok_fold_pair [of "drop_dedicated_thread tsk" "(False, s)", OF step_ok_drop_dedicated]
    by (simp split: option.split)
  then have ok2: "step_ok s (snd ?r2)"
    by (rule step_ok_trans) (rule step_ok_fold_pair [OF step_ok_drop_pool_task])
  then have "step_ok s (if fst ?r2 then wake_up_threads_after_task_finishes (snd ?r2) else snd ?r2)"
    using step_ok_trans [OF ok2 step_ok_wake_up_all] by simp
  moreover have "step_ok u (u\<lparr>task_to_threads := om_erase tsk (task_to_threads u)\<rparr>)" for u
    by (rule step_ok_same) simp_all
  ultimately show ?thesis unfolding task_done_def Let_def by (rule step_ok_trans)
qed

lemma step_ok_all_done: "step_ok s (all_done_mark s)"
proof -
  let ?s1 = "fold (\<lambda>tid s. snd (remove_thread_association tid (-1) s)) (om_keys (threads s)) s"
  have "step_ok s ?s1" by (rule step_ok_fold) (rule step_ok_remove)
  moreover have "step_ok u (u\<lparr>shutting_down := True\<rparr>)" for u by (rule step_ok_same) simp_all
  ultimately show ?thesis unfolding all_done_mark_def by (rule step_ok_trans)
qed

text \<open>The small operations, and then every call. A thread id is a \<^verbatim>\<open>pthread_self\<close>, never -1.\<close>

lemma step_ok_pool_status: "step_ok s (snd (waiting_on_pool_status_changed k b s))"
  by (auto simp: waiting_on_pool_status_changed_def thread_ok_def intro!: step_ok_put
      split: option.splits)

lemma step_ok_force_retry: "step_ok s (snd (force_retry_oom k n f sk s))"
  by (auto simp: force_retry_oom_def thread_ok_def intro!: step_ok_put
      split: option.splits sum.splits)

lemma step_ok_force_split: "step_ok s (snd (force_split_and_retry_oom k n f sk s))"
  by (auto simp: force_split_and_retry_oom_def thread_ok_def intro!: step_ok_put
      split: option.splits sum.splits)

lemma step_ok_force_cudf: "step_ok s (snd (force_cudf_exception k n s))"
  by (auto simp: force_cudf_exception_def thread_ok_def intro!: step_ok_put split: option.splits)

lemma step_ok_spill: "step_ok s (spill_range_start k s)" "step_ok s (spill_range_done k s)"
  unfolding spill_range_start_def spill_range_done_def
  by (rule step_ok_modify; auto simp: thread_ok_def)+

lemma step_ok_total_blocked: "step_ok s (snd (get_total_blocked_or_lost tsk s))"
  by (rule step_ok_same) (simp_all add: get_total_blocked_or_lost_def Let_def case_prod_beta)

lemma step_ok_remove_metrics: "step_ok s (remove_task_metrics tsk s)"
  by (rule step_ok_same) (simp_all add: remove_task_metrics_def)

lemmas step_ok_ops =
  step_ok_start_dedicated step_ok_pool_working step_ok_pool_finished step_ok_remove_public
  step_ok_task_done step_ok_pool_status step_ok_reset_retry step_ok_force_retry step_ok_force_split
  step_ok_force_cudf step_ok_reset_metric step_ok_total_blocked step_ok_remove_metrics step_ok_bufn
  step_ok_post_success step_ok_post_failed step_ok_dealloc step_ok_do_deallocate step_ok_spill
  step_ok_all_done

fun valid_call :: "api_call \<Rightarrow> bool" where
  "valid_call (Start_Dedicated tid _) = (tid \<noteq> -1)"
| "valid_call (Pool_Working _ tid _) = (tid \<noteq> -1)"
| "valid_call _ = True"

lemma step_ok_exec_call: "valid_call c \<Longrightarrow> step_ok s (exec_call me c s)"
  by (cases c)
     (simp_all add: step_ok_ops submitting_to_pool_def waiting_on_pool_def done_waiting_on_pool_def
        start_retry_block_def end_retry_block_def get_and_reset_num_retry_def
        get_and_reset_num_split_retry_def get_and_reset_block_time_def get_and_reset_lost_time_def
        get_and_reset_gpu_max_memory_allocated_def check_and_break_deadlocks_def)

end
