(* ===== verification/AdaptorSys.thy ===== *)
theory AdaptorSys
  imports AdaptorInv
begin

text \<open>
  The resource adaptor as a concurrent system: any number of threads call it in any order, wait
  on their condition variables, wake up (also spuriously) and allocate, with the critical
  sections as atomic steps. Holds the reachable states and what is true of all of them.
\<close>

section \<open>The steps\<close>

text \<open>
  \<open>api\<close> is a call that never waits, of any thread that is not inside the adaptor itself. The other rules follow \<open>do_allocate\<close>, the
  public \<open>block_thread_until_ready\<close> and \<open>cpu_prealloc\<close>; what the wrapped resource answers is free.
  A waiting thread may resume at any time.
\<close>

definition with_frames :: "thread_id \<Rightarrow> frame list \<Rightarrow> adaptor \<Rightarrow> sys \<Rightarrow> sys" where
  "with_frames me fs s \<sigma> =
     \<lparr>ad = s, frames = (frames \<sigma>)(me := fs), since = (since \<sigma>)(me := forgets s me)\<rparr>"

definition alloc_begin :: "thread_id \<Rightarrow> int \<Rightarrow> frame list \<Rightarrow> sys \<Rightarrow> sys" where
  "alloc_begin me n fs \<sigma> =
     (case pre_alloc_core me False True (ad \<sigma>) of
        (r, s) \<Rightarrow> with_frames me (after_pre_alloc n r fs) s \<sigma>)"

definition alloc_resume :: "thread_id \<Rightarrow> int \<Rightarrow> frame list \<Rightarrow> sys \<Rightarrow> sys" where
  "alloc_resume me n fs \<sigma> =
     (case resume_pre_alloc me False (ad \<sigma>) of
        (r, s) \<Rightarrow> with_frames me (after_pre_alloc n r fs) s \<sigma>)"

text \<open>
  An exception of \<open>post_alloc_success\<close> is caught by the handler for every other exception, which
  reports a failed allocation and rethrows.
\<close>

definition alloc_success :: "thread_id \<Rightarrow> bool \<Rightarrow> int \<Rightarrow> frame list \<Rightarrow> sys \<Rightarrow> sys" where
  "alloc_success me likely_spill n fs \<sigma> =
     (case post_alloc_success_core me False likely_spill n (ad \<sigma>) of
        (Throw e, s) \<Rightarrow>
          with_frames me fs (snd (post_alloc_failed_core me False False True likely_spill s)) \<sigma>
      | (_, s) \<Rightarrow> with_frames me fs s \<sigma>)"

definition alloc_oom :: "thread_id \<Rightarrow> bool \<Rightarrow> int \<Rightarrow> frame list \<Rightarrow> sys \<Rightarrow> sys" where
  "alloc_oom me likely_spill n fs \<sigma> =
     (case post_alloc_failed_core me False True True likely_spill (ad \<sigma>) of
        (r, s) \<Rightarrow> with_frames me (after_alloc_oom n r fs) s \<sigma>)"

definition alloc_error :: "thread_id \<Rightarrow> bool \<Rightarrow> frame list \<Rightarrow> sys \<Rightarrow> sys" where
  "alloc_error me likely_spill fs \<sigma> =
     with_frames me fs (snd (post_alloc_failed_core me False False True likely_spill (ad \<sigma>))) \<sigma>"

definition block_begin :: "thread_id \<Rightarrow> frame list \<Rightarrow> sys \<Rightarrow> sys" where
  "block_begin me fs \<sigma> =
     (case block_thread_until_ready me (ad \<sigma>) of
        (r, s) \<Rightarrow> with_frames me (push_if_wait Block_Wait r fs) s \<sigma>)"

definition block_resume :: "thread_id \<Rightarrow> frame list \<Rightarrow> sys \<Rightarrow> sys" where
  "block_resume me fs \<sigma> =
     (case resume_block me (ad \<sigma>) of
        (r, s) \<Rightarrow> with_frames me (push_if_wait Block_Wait r fs) s \<sigma>)"

definition cpu_prealloc :: "thread_id \<Rightarrow> bool \<Rightarrow> frame list \<Rightarrow> sys \<Rightarrow> sys" where
  "cpu_prealloc me blocking fs \<sigma> =
     (case pre_alloc_core me True blocking (ad \<sigma>) of
        (r, s) \<Rightarrow> with_frames me (push_if_wait Cpu_Wait r fs) s \<sigma>)"

definition cpu_resume :: "thread_id \<Rightarrow> frame list \<Rightarrow> sys \<Rightarrow> sys" where
  "cpu_resume me fs \<sigma> =
     (case resume_pre_alloc me True (ad \<sigma>) of
        (r, s) \<Rightarrow> with_frames me (push_if_wait Cpu_Wait r fs) s \<sigma>)"

inductive sys_step :: "sys \<Rightarrow> sys \<Rightarrow> bool" where
  api: "valid_call c \<Longrightarrow> can_call (frames \<sigma> me) \<Longrightarrow> sys_step \<sigma> (\<sigma>\<lparr>ad := exec_call me c (ad \<sigma>)\<rparr>)"
| alloc: "can_call (frames \<sigma> me) \<Longrightarrow> sys_step \<sigma> (alloc_begin me n (frames \<sigma> me) \<sigma>)"
| again: "frames \<sigma> me = Alloc_Loop n # fs \<Longrightarrow> sys_step \<sigma> (alloc_begin me n fs \<sigma>)"
| resume: "frames \<sigma> me = Alloc_Wait n # fs \<Longrightarrow> sys_step \<sigma> (alloc_resume me n fs \<sigma>)"
| success: "frames \<sigma> me = Allocating spill n # fs \<Longrightarrow> sys_step \<sigma> (alloc_success me spill n fs \<sigma>)"
| oom: "frames \<sigma> me = Allocating spill n # fs \<Longrightarrow> sys_step \<sigma> (alloc_oom me spill n fs \<sigma>)"
| failure: "frames \<sigma> me = Allocating spill n # fs \<Longrightarrow> sys_step \<sigma> (alloc_error me spill fs \<sigma>)"
| block: "can_call (frames \<sigma> me) \<Longrightarrow> sys_step \<sigma> (block_begin me (frames \<sigma> me) \<sigma>)"
| unblock: "frames \<sigma> me = Block_Wait # fs \<Longrightarrow> sys_step \<sigma> (block_resume me fs \<sigma>)"
| cpu: "can_call (frames \<sigma> me) \<Longrightarrow> sys_step \<sigma> (cpu_prealloc me blocking (frames \<sigma> me) \<sigma>)"
| cpu_unblock: "frames \<sigma> me = Cpu_Wait # fs \<Longrightarrow> sys_step \<sigma> (cpu_resume me fs \<sigma>)"

definition sys_init :: "sys \<Rightarrow> bool" where
  "sys_init \<sigma> \<longleftrightarrow> (\<exists>attached ps c. ad \<sigma> = new_adaptor attached ps c) \<and> frames \<sigma> = (\<lambda>_. [])"

definition sys_reachable :: "sys \<Rightarrow> bool" where
  "sys_reachable \<sigma> \<longleftrightarrow> (\<exists>\<sigma>0. sys_init \<sigma>0 \<and> sys_step\<^sup>*\<^sup>* \<sigma>0 \<sigma>)"

section \<open>A thread that waits is blocked\<close>

lemma alert_blocked: "thread_is_blocked k s \<Longrightarrow> alert s k"
  by (auto simp: thread_is_blocked_def alert_def split: option.splits)

lemma start_wait_blocked:
  assumes "thread_is_blocked k s"
  shows "thread_is_blocked k (start_wait k s)"
proof -
  from assms obtain t where t: "find_thread s k = Some t" "is_blocked (state t)"
    by (rule thread_is_blockedE)
  have "state (fst (before_block (t, clock s))) = state t"
    using core_eqD [OF core_before_block] by simp
  with t show ?thesis by (simp add: thread_is_blocked_def find_start_wait)
qed

lemma block_loop_wait: "block_loop n k s = (Wait, s') \<Longrightarrow> thread_is_blocked k s'"
proof (induction n arbitrary: s)
  case (Suc n)
  show ?case
  proof (cases "find_thread s k")
    case (Some t)
    then have "thread_is_blocked k s" if "is_blocked (state t)"
      using that by (simp add: thread_is_blocked_def)
    then show ?thesis
      using Suc.prems Some Suc.IH start_wait_blocked
      by (cases "state t") (auto simp: Let_def is_blocked_def case_prod_beta split: if_splits)
  qed (use Suc.prems in simp)
qed simp

lemma resume_block_wait: "resume_block k s = (Wait, s') \<Longrightarrow> thread_is_blocked k s'"
  by (auto simp: resume_block_def thread_is_blocked_def [of k "put_thread _ _ _"]
      split: option.splits if_splits dest: block_loop_wait)

lemma pre_alloc_finish_no_wait: "fst (pre_alloc_finish k cpu s) \<noteq> Wait"
  by (simp add: pre_alloc_finish_def split: option.split)

lemma after_block_outcome_wait:
  "after_block_outcome k cpu r = (Wait, s') \<Longrightarrow> r = (Wait, s')"
  using pre_alloc_finish_no_wait [of k cpu "snd r"]
  by (cases "(k, cpu, r)" rule: after_block_outcome.cases) auto

lemma pre_alloc_wait: "pre_alloc_core k cpu blocking s = (Wait, s') \<Longrightarrow> thread_is_blocked k s'"
  using pre_alloc_finish_no_wait [of k cpu]
  by (auto simp: pre_alloc_core_def block_thread_until_ready_def
      split: option.splits if_splits prod.splits dest!: after_block_outcome_wait dest: block_loop_wait)
     (metis fst_conv)+

lemma resume_pre_alloc_wait: "resume_pre_alloc k cpu s = (Wait, s') \<Longrightarrow> thread_is_blocked k s'"
  by (auto simp: resume_pre_alloc_def dest!: after_block_outcome_wait resume_block_wait)

section \<open>The invariant of the system\<close>

text \<open>A frame is only pushed on a stack that can make calls.\<close>

fun frames_ok :: "frame list \<Rightarrow> bool" where
  "frames_ok [] = True"
| "frames_ok (f # fs) = (can_call fs \<and> frames_ok fs)"

text \<open>
  No wake-up is lost: the entry that a thread waits on is blocked or notified, or it was notified when
  it was erased.
\<close>

definition woken_later :: "sys \<Rightarrow> thread_id \<Rightarrow> bool" where
  "woken_later \<sigma> w \<longleftrightarrow>
     (\<exists>new old. erasures (ad \<sigma>) w = new @ old \<and> length old = since \<sigma> w \<and> roused (ad \<sigma>) w new)"

definition sys_inv :: "sys \<Rightarrow> bool" where
  "sys_inv \<sigma> \<longleftrightarrow> adaptor_inv (ad \<sigma>) \<and>
     (\<forall>w. frames_ok (frames \<sigma> w) \<and> (is_waiting (frames \<sigma> w) \<longrightarrow> woken_later \<sigma> w))"

lemma woken_later_keeps:
  assumes "woken_later \<sigma> w" "keeps_alert (ad \<sigma>) (ad \<sigma>')" "since \<sigma>' w = since \<sigma> w"
  shows "woken_later \<sigma>' w"
proof -
  obtain new old where "erasures (ad \<sigma>) w = new @ old" "length old = since \<sigma> w" "roused (ad \<sigma>) w new"
    using assms(1) by (auto simp: woken_later_def)
  then show ?thesis using roused_keeps [OF assms(2), of w new old] assms(3) unfolding woken_later_def by auto
qed

lemma woken_later_start: "thread_is_blocked me s \<Longrightarrow> woken_later (with_frames me fs s \<sigma>) me"
  using alert_blocked [of me s] unfolding woken_later_def
  by (intro exI [of _ "[]"] exI [of _ "erasures s me"]) (simp add: with_frames_def forgets_def roused_def)

lemma sys_inv_init: "sys_init \<sigma> \<Longrightarrow> sys_inv \<sigma>"
  by (auto simp: sys_init_def sys_inv_def adaptor_inv_def new_adaptor_def find_thread_def state_of_def
      om_ok_def om_keys_def)

text \<open>A step of one thread: it waits only when blocked.\<close>

lemma sys_inv_with_frames:
  assumes "sys_inv \<sigma>" "step_ok (ad \<sigma>) s"
    and "frames_ok fs" "is_waiting fs \<Longrightarrow> thread_is_blocked me s"
  shows "sys_inv (with_frames me fs s \<sigma>)"
proof -
  have k: "adaptor_inv s" "keeps_alert (ad \<sigma>) s" using assms(1,2) by (auto simp: sys_inv_def step_ok_def)
  have old: "woken_later (with_frames me fs s \<sigma>) w" if "w \<noteq> me" "is_waiting (frames \<sigma> w)" for w
  proof (rule woken_later_keeps)
    show "woken_later \<sigma> w" using assms(1) that by (simp add: sys_inv_def)
    show "keeps_alert (ad \<sigma>) (ad (with_frames me fs s \<sigma>))" using k(2) by (simp add: with_frames_def)
    show "since (with_frames me fs s \<sigma>) w = since \<sigma> w" using that by (simp add: with_frames_def)
  qed
  have fr: "ad (with_frames me fs s \<sigma>) = s" "frames (with_frames me fs s \<sigma>) w = (if w = me then fs else frames \<sigma> w)" for w
    by (simp_all add: with_frames_def)
  show ?thesis unfolding sys_inv_def fr
  proof (intro conjI allI impI k)
    fix w
    show "frames_ok (if w = me then fs else frames \<sigma> w)" using assms(1,3) by (simp add: sys_inv_def)
    assume "is_waiting (if w = me then fs else frames \<sigma> w)"
    then show "woken_later (with_frames me fs s \<sigma>) w"
      using old [of w] woken_later_start [OF assms(4), where \<sigma> = \<sigma> and fs = fs] by (cases "w = me") auto
  qed
qed

lemma is_waiting_can_call [simp]: "can_call fs \<Longrightarrow> \<not> is_waiting fs"
  by (cases fs rule: can_call.cases) auto

lemma push_if_wait_frames [simp]:
  assumes "can_call fs" "frames_ok fs"
  shows "frames_ok (push_if_wait f r fs)" "is_waiting (push_if_wait f r fs) \<Longrightarrow> r = Wait"
  using assms by (cases r; simp)+

lemma after_pre_alloc_frames [simp]:
  assumes "can_call fs" "frames_ok fs"
  shows "frames_ok (after_pre_alloc n r fs)" "is_waiting (after_pre_alloc n r fs) \<Longrightarrow> r = Wait"
  using assms by (cases r; simp)+

lemma after_alloc_oom_frames [simp]:
  assumes "can_call fs" "frames_ok fs"
  shows "frames_ok (after_alloc_oom n r fs)" "\<not> is_waiting (after_alloc_oom n r fs)"
  using assms by (cases "(n, r, fs)" rule: after_alloc_oom.cases; simp)+

text \<open>Preservation, rule by rule.\<close>

lemma sys_inv_alloc_begin:
  assumes "sys_inv \<sigma>" "can_call fs" "frames_ok fs"
  shows "sys_inv (alloc_begin me n fs \<sigma>)"
proof -
  obtain r s where rs: "pre_alloc_core me False True (ad \<sigma>) = (r, s)" by fastforce
  show ?thesis
    using sys_inv_with_frames [OF assms(1), where s = s and me = me and fs = "after_pre_alloc n r fs"] rs assms
      step_ok_pre_alloc [of "ad \<sigma>" me False True]
      pre_alloc_wait [of me False True "ad \<sigma>" s]
    by (auto simp: alloc_begin_def)
qed

lemma sys_inv_alloc_resume:
  assumes "sys_inv \<sigma>" "can_call fs" "frames_ok fs"
  shows "sys_inv (alloc_resume me n fs \<sigma>)"
proof -
  obtain r s where rs: "resume_pre_alloc me False (ad \<sigma>) = (r, s)" by fastforce
  show ?thesis
    using sys_inv_with_frames [OF assms(1), where s = s and me = me and fs = "after_pre_alloc n r fs"] rs assms
      step_ok_resume_pre_alloc [of "ad \<sigma>" me False]
      resume_pre_alloc_wait [of me False "ad \<sigma>" s]
    by (auto simp: alloc_resume_def)
qed

lemma sys_inv_alloc_success:
  assumes "sys_inv \<sigma>" "can_call fs" "frames_ok fs"
  shows "sys_inv (alloc_success me spill n fs \<sigma>)"
proof -
  obtain r s where rs: "post_alloc_success_core me False spill n (ad \<sigma>) = (r, s)" by fastforce
  have ok: "step_ok (ad \<sigma>) s" using step_ok_post_success [of "ad \<sigma>" me False spill n] rs by simp
  have "sys_inv (with_frames me fs s \<sigma>)"
    using assms ok by (intro sys_inv_with_frames) auto
  moreover have
    "sys_inv (with_frames me fs (snd (post_alloc_failed_core me False False True spill s)) \<sigma>)"
    using assms step_ok_trans [OF ok step_ok_post_failed] by (intro sys_inv_with_frames) auto
  ultimately show ?thesis using rs by (auto simp: alloc_success_def split: outcome.split)
qed

lemma sys_inv_alloc_oom:
  assumes "sys_inv \<sigma>" "can_call fs" "frames_ok fs"
  shows "sys_inv (alloc_oom me spill n fs \<sigma>)"
  using assms
  by (auto simp: alloc_oom_def case_prod_beta step_ok_post_failed intro!: sys_inv_with_frames)

lemma sys_inv_alloc_error:
  assumes "sys_inv \<sigma>" "can_call fs" "frames_ok fs"
  shows "sys_inv (alloc_error me spill fs \<sigma>)"
  using assms by (auto simp: alloc_error_def step_ok_post_failed intro!: sys_inv_with_frames)

lemma sys_inv_block_begin:
  assumes "sys_inv \<sigma>" "can_call fs" "frames_ok fs"
  shows "sys_inv (block_begin me fs \<sigma>)"
proof -
  obtain r s where rs: "block_thread_until_ready me (ad \<sigma>) = (r, s)" by fastforce
  show ?thesis
    using sys_inv_with_frames [OF assms(1), where s = s and me = me and fs = "push_if_wait Block_Wait r fs"] rs assms
      step_ok_block [of "ad \<sigma>" me]
      block_loop_wait [of block_fuel me "ad \<sigma>" s]
    by (auto simp: block_begin_def block_thread_until_ready_def)
qed

lemma sys_inv_block_resume:
  assumes "sys_inv \<sigma>" "can_call fs" "frames_ok fs"
  shows "sys_inv (block_resume me fs \<sigma>)"
proof -
  obtain r s where rs: "resume_block me (ad \<sigma>) = (r, s)" by fastforce
  show ?thesis
    using sys_inv_with_frames [OF assms(1), where s = s and me = me and fs = "push_if_wait Block_Wait r fs"] rs assms
      step_ok_resume_block [of "ad \<sigma>" me]
      resume_block_wait [of me "ad \<sigma>" s]
    by (auto simp: block_resume_def)
qed

lemma sys_inv_cpu_prealloc:
  assumes "sys_inv \<sigma>" "can_call fs" "frames_ok fs"
  shows "sys_inv (cpu_prealloc me blocking fs \<sigma>)"
proof -
  obtain r s where rs: "pre_alloc_core me True blocking (ad \<sigma>) = (r, s)" by fastforce
  show ?thesis
    using sys_inv_with_frames [OF assms(1), where s = s and me = me and fs = "push_if_wait Cpu_Wait r fs"] rs assms
      step_ok_pre_alloc [of "ad \<sigma>" me True blocking]
      pre_alloc_wait [of me True blocking "ad \<sigma>" s]
    by (auto simp: cpu_prealloc_def)
qed

lemma sys_inv_cpu_resume:
  assumes "sys_inv \<sigma>" "can_call fs" "frames_ok fs"
  shows "sys_inv (cpu_resume me fs \<sigma>)"
proof -
  obtain r s where rs: "resume_pre_alloc me True (ad \<sigma>) = (r, s)" by fastforce
  show ?thesis
    using sys_inv_with_frames [OF assms(1), where s = s and me = me and fs = "push_if_wait Cpu_Wait r fs"] rs assms
      step_ok_resume_pre_alloc [of "ad \<sigma>" me True]
      resume_pre_alloc_wait [of me True "ad \<sigma>" s]
    by (auto simp: cpu_resume_def)
qed

lemma sys_inv_frames: "sys_inv \<sigma> \<Longrightarrow> frames_ok (frames \<sigma> w)"
  by (simp add: sys_inv_def)

lemma sys_inv_frames_tl: "sys_inv \<sigma> \<Longrightarrow> frames \<sigma> w = f # fs \<Longrightarrow> can_call fs \<and> frames_ok fs"
  using sys_inv_frames [of \<sigma> w] by simp

lemma sys_inv_step: "sys_step \<sigma> \<sigma>' \<Longrightarrow> sys_inv \<sigma> \<Longrightarrow> sys_inv \<sigma>'"
proof (induction rule: sys_step.induct)
  case (api c \<sigma> me)
  have k: "adaptor_inv (exec_call me c (ad \<sigma>))" "keeps_alert (ad \<sigma>) (exec_call me c (ad \<sigma>))"
    using step_ok_exec_call [OF api.hyps(1), of "ad \<sigma>" me] api.prems by (simp_all add: sys_inv_def step_ok_def)
  have "woken_later (\<sigma>\<lparr>ad := exec_call me c (ad \<sigma>)\<rparr>) w" if "is_waiting (frames \<sigma> w)" for w
    by (rule woken_later_keeps [of \<sigma>]) (use api.prems that k(2) in \<open>simp_all add: sys_inv_def\<close>)
  then show ?case using api.prems k(1) by (simp add: sys_inv_def)
qed (auto dest: sys_inv_frames sys_inv_frames_tl
       intro!: sys_inv_alloc_begin sys_inv_alloc_resume sys_inv_alloc_success sys_inv_alloc_oom
         sys_inv_alloc_error sys_inv_block_begin sys_inv_block_resume sys_inv_cpu_prealloc
         sys_inv_cpu_resume)

text \<open>Invariants of a transition system, in general and of the adaptor.\<close>

locale inductive_invariant =
  fixes initial :: "'s \<Rightarrow> bool" and step :: "'s \<Rightarrow> 's \<Rightarrow> bool" and I :: "'s \<Rightarrow> bool"
  assumes initial_ok: "initial \<sigma> \<Longrightarrow> I \<sigma>"
    and preserved: "step \<sigma> \<sigma>' \<Longrightarrow> I \<sigma> \<Longrightarrow> I \<sigma>'"
begin

lemma steps_ok: "step\<^sup>*\<^sup>* \<sigma> \<sigma>' \<Longrightarrow> I \<sigma> \<Longrightarrow> I \<sigma>'"
  by (induction rule: rtranclp_induct) (auto intro: preserved)

lemma always: "initial \<sigma> \<Longrightarrow> step\<^sup>*\<^sup>* \<sigma> \<sigma>' \<Longrightarrow> I \<sigma>'"
  by (blast intro: steps_ok initial_ok)

end

interpretation sra: inductive_invariant sys_init sys_step sys_inv
  by unfold_locales (fact sys_inv_init, fact sys_inv_step)

lemma reachable_inv: "sys_reachable \<sigma> \<Longrightarrow> sys_inv \<sigma>"
  by (auto simp: sys_reachable_def intro: sra.always)

end
