(* ===== verification/AdaptorChoice.thy ===== *)
theory AdaptorChoice
  imports AdaptorSys
begin

text \<open>
  Which thread the adaptor picks when it wakes, rolls back or splits one, and when it decides
  that the tasks are deadlocked: the scans and passes of the code against declarative
  descriptions.
\<close>

section \<open>Priorities do not change while they are compared\<close>

definition asked_task :: "full_thread_state \<Rightarrow> task_id" where
  "asked_task t =
     (if task_id t < 0 \<and> \<not> is_for_shuffle t
      then (case pool_task_ids t of [] \<Rightarrow> -1 | p # rest \<Rightarrow> fold min rest p) else task_id t)"

definition prio :: "task_priorities \<Rightarrow> full_thread_state \<Rightarrow> thread_priority" where
  "prio ps t = fst (thread_priority_of t ps)"

definition settled :: "task_priorities \<Rightarrow> full_thread_state \<Rightarrow> bool" where
  "settled ps t \<longleftrightarrow> asked_task t = -1 \<or> attempt_priorities ps (asked_task t) \<noteq> None"

lemma thread_priority_of_eq:
  "thread_priority_of t ps =
     (Thread_Priority (fst (get_task_priority (asked_task t) ps)) (thread_id t),
      snd (get_task_priority (asked_task t) ps))"
  by (simp add: thread_priority_of_def asked_task_def make_thread_priority_def case_prod_beta
      split: list.split)

lemma settled_ask: "settled (snd (thread_priority_of t ps)) t"
  by (auto simp: settled_def thread_priority_of_eq get_task_priority_def Let_def split: option.split)

lemma prio_ask: "prio (snd (thread_priority_of t ps)) t = prio ps t"
  by (auto simp: prio_def thread_priority_of_eq get_task_priority_def Let_def split: option.split)

lemma settled_mono:
  assumes "settled ps u"
  shows "settled (snd (thread_priority_of t ps)) u \<and>
         prio (snd (thread_priority_of t ps)) u = prio ps u"
  using assms
  by (auto simp: settled_def prio_def thread_priority_of_eq get_task_priority_def Let_def
      split: option.splits)

section \<open>The scans find the best thread\<close>

text \<open>
  A comparison that never prefers a thread over itself and whose complement is transitive, as
  both comparisons of the code are.
\<close>

locale preference =
  fixes better :: "thread_priority \<Rightarrow> thread_priority \<Rightarrow> bool"
  assumes asym: "better a b \<Longrightarrow> \<not> better b a"
    and neg_trans: "\<not> better a b \<Longrightarrow> \<not> better b c \<Longrightarrow> \<not> better a c"
begin

lemma irrefl: "\<not> better a a"
  using asym by blast

lemma scan_settled:
  assumes "scan_threads P better ts best ps = (best', ps')"
  shows "(settled ps u \<longrightarrow> settled ps' u \<and> prio ps' u = prio ps u) \<and>
         ((k, u) \<in> set ts \<longrightarrow> P u \<longrightarrow> settled ps' u)"
  using assms
proof (induction ts arbitrary: best ps)
  case (Cons kt ts)
  obtain k' t where kt: "kt = (k', t)" by fastforce
  show ?case
  proof (cases "P t")
    case False
    then show ?thesis using Cons.IH [of best ps] Cons.prems kt by auto
  next
    case True
    let ?ps = "snd (thread_priority_of t ps)"
    from Cons.prems True kt obtain b where "scan_threads P better ts b ?ps = (best', ps')"
      by (auto simp: case_prod_beta)
    from Cons.IH [OF this] settled_mono [of ps u t] settled_ask [of t ps] kt
    show ?thesis by auto
  qed
qed simp

lemma scan_best:
  assumes "scan_threads P better ts best ps = (best', ps')"
    and "\<And>k p. best = Some (k, p) \<Longrightarrow> \<exists>t. Q k t \<and> settled ps t \<and> p = prio ps t"
    and "\<And>k t. (k, t) \<in> set ts \<Longrightarrow> P t \<Longrightarrow> Q k t"
  shows "(best' = None \<longrightarrow> best = None \<and> (\<forall>(k, t) \<in> set ts. \<not> P t)) \<and>
         (\<forall>k p. best' = Some (k, p) \<longrightarrow>
            (\<exists>t. Q k t \<and> settled ps' t \<and> p = prio ps' t) \<and>
            (\<forall>(k, t) \<in> set ts. P t \<longrightarrow> \<not> better (prio ps' t) p) \<and>
            (\<forall>k q. best = Some (k, q) \<longrightarrow> \<not> better q p))"
  using assms
proof (induction ts arbitrary: best ps)
  case Nil
  then show ?case using irrefl by fastforce
next
  case (Cons kt ts)
  obtain k' t where kt: "kt = (k', t)" by fastforce
  show ?case
  proof (cases "P t")
    case False
    then show ?thesis using Cons.IH [of best ps] Cons.prems kt by auto
  next
    case True
    let ?ps = "snd (thread_priority_of t ps)" and ?p = "prio ps t"
    define b where "b = (case best of None \<Rightarrow> Some (k', ?p)
              | Some (_, q) \<Rightarrow> if better ?p q then Some (k', ?p) else best)"
    have scan: "scan_threads P better ts b ?ps = (best', ps')"
      using Cons.prems(1) True kt unfolding prio_def b_def by (simp add: case_prod_beta)
    have b_cases: "b = Some (k', ?p) \<or> b = best" by (simp add: b_def split: option.split prod.split)
    have new: "\<exists>t. Q k t \<and> settled ?ps t \<and> p = prio ?ps t" if "b = Some (k, p)" for k p
    proof (cases "best = Some (k, p)")
      case True
      from Cons.prems(2) [OF True] obtain u where "Q k u" "settled ps u" "p = prio ps u" by blast
      with settled_mono [of ps u t] show ?thesis by auto
    next
      case False
      then have "k = k' \<and> p = ?p" using that b_cases by auto
      then show ?thesis
        using Cons.prems(3) [of k' t] \<open>P t\<close> kt settled_ask [of t ps] prio_ask [of t ps]
        by (intro exI [of _ t]) simp
    qed
    have rest: "(k, t) \<in> set ts \<Longrightarrow> P t \<Longrightarrow> Q k t" for k t using Cons.prems(3) by simp
    note IH = Cons.IH [OF scan new rest]
    have tprio: "prio ps' t = ?p"
      using scan_settled [OF scan, of t] settled_ask [of t ps] prio_ask [of t ps] by simp
    obtain kb pb where b: "b = Some (kb, pb)" "\<not> better ?p pb"
      and bb: "\<And>k q. best = Some (k, q) \<Longrightarrow> \<not> better q pb"
    proof (cases best)
      case None
      then show ?thesis using that irrefl by (simp add: b_def)
    next
      case (Some kq)
      obtain k q where "kq = (k, q)" by fastforce
      then show ?thesis using that Some irrefl asym by (cases "better ?p q") (auto simp: b_def)
    qed
    have none: "best' \<noteq> None" using IH b(1) by blast
    have "(\<exists>t. Q k t \<and> settled ps' t \<and> p = prio ps' t) \<and>
        (\<forall>(k, t) \<in> set ts. P t \<longrightarrow> \<not> better (prio ps' t) p) \<and> \<not> better ?p p \<and>
        (\<forall>k q. best = Some (k, q) \<longrightarrow> \<not> better q p)" if "best' = Some (k, p)" for k p
    proof -
      have "\<not> better pb p" using IH that b(1) by blast
      then show ?thesis using IH that neg_trans [OF b(2)] neg_trans [OF bb] by blast
    qed
    with none tprio kt show ?thesis by auto
  qed
qed

lemma scan_pick:
  assumes "scan_threads P better ts None ps = (best, ps')"
  shows "best = None \<Longrightarrow> (k, t) \<in> set ts \<Longrightarrow> \<not> P t"
    and "best = Some (k, p) \<Longrightarrow> \<exists>t. (k, t) \<in> set ts \<and> P t \<and> p = prio ps' t"
    and "best = Some (k, p) \<Longrightarrow> (k', u) \<in> set ts \<Longrightarrow> P u \<Longrightarrow> \<not> better (prio ps' u) p"
proof -
  define Q where "Q = (\<lambda>k t. (k, t) \<in> set ts \<and> P t)"
  have "(best = None \<longrightarrow> (None :: (thread_id \<times> thread_priority) option) = None \<and>
           (\<forall>(k, t) \<in> set ts. \<not> P t)) \<and>
         (\<forall>k p. best = Some (k, p) \<longrightarrow>
            (\<exists>t. Q k t \<and> settled ps' t \<and> p = prio ps' t) \<and>
            (\<forall>(k, t) \<in> set ts. P t \<longrightarrow> \<not> better (prio ps' t) p) \<and>
            (\<forall>k q. (None :: (thread_id \<times> thread_priority) option) = Some (k, q) \<longrightarrow> \<not> better q p))"
    by (rule scan_best [OF assms]) (simp_all add: Q_def)
  then show "best = None \<Longrightarrow> (k, t) \<in> set ts \<Longrightarrow> \<not> P t"
    and "best = Some (k, p) \<Longrightarrow> \<exists>t. (k, t) \<in> set ts \<and> P t \<and> p = prio ps' t"
    and "best = Some (k, p) \<Longrightarrow> (k', u) \<in> set ts \<Longrightarrow> P u \<Longrightarrow> \<not> better (prio ps' u) p"
    by (auto simp: Q_def)
qed

end

interpretation lowest: preference "\<lambda>current to_bufn. current < to_bufn"
  by unfold_locales auto

interpretation highest: preference "\<lambda>current to_wake. to_wake < (current :: thread_priority)"
  by unfold_locales auto

text \<open>Both scans on the adaptor's thread map.\<close>

lemma inv_member: "adaptor_inv s \<Longrightarrow> (k, t) \<in> set (threads s) \<longleftrightarrow> find_thread s k = Some t"
  by (simp add: adaptor_inv_def find_thread_def om_find_iff)

lemma prio_thread: "adaptor_inv s \<Longrightarrow> find_thread s k = Some t \<Longrightarrow> priority_thread (prio ps t) = k"
  using inv_thread [of s k t] by (simp add: prio_def thread_ok_def)

definition highest_among ::
  "(full_thread_state \<Rightarrow> bool) \<Rightarrow> adaptor \<Rightarrow> task_priorities \<Rightarrow> thread_id \<Rightarrow> bool" where
  "highest_among P s ps k \<longleftrightarrow>
     (\<exists>t. find_thread s k = Some t \<and> P t \<and>
          (\<forall>k' u. find_thread s k' = Some u \<longrightarrow> P u \<longrightarrow> prio ps u \<le> prio ps t))"

definition lowest_among ::
  "(full_thread_state \<Rightarrow> bool) \<Rightarrow> adaptor \<Rightarrow> task_priorities \<Rightarrow> thread_id \<Rightarrow> bool" where
  "lowest_among P s ps k \<longleftrightarrow>
     (\<exists>t. find_thread s k = Some t \<and> P t \<and>
          (\<forall>k' u. find_thread s k' = Some u \<longrightarrow> P u \<longrightarrow> prio ps t \<le> prio ps u))"

definition none_among :: "(full_thread_state \<Rightarrow> bool) \<Rightarrow> adaptor \<Rightarrow> bool" where
  "none_among P s \<longleftrightarrow> (\<forall>k t. find_thread s k = Some t \<longrightarrow> \<not> P t)"

lemma scan_highest:
  assumes "adaptor_inv s"
    and "scan_threads P (\<lambda>current to_wake. to_wake < current) (threads s) None (priorities s) = (best, ps)"
  shows "best = None \<Longrightarrow> none_among P s"
    and "best = Some (k, p) \<Longrightarrow> highest_among P s ps k \<and> priority_thread p = k"
proof -
  note mem = inv_member [OF assms(1)] and pick = highest.scan_pick [OF assms(2)]
  show "none_among P s" if "best = None"
    using pick(1) [OF that] by (simp add: none_among_def mem)
  assume k: "best = Some (k, p)"
  from pick(2) [OF k] obtain t where t: "find_thread s k = Some t" "P t" "p = prio ps t"
    by (auto simp: mem)
  moreover have "\<not> p < prio ps u" if "find_thread s k' = Some u" "P u" for k' u
    using pick(3) [OF k] that by (simp add: mem)
  ultimately show "highest_among P s ps k \<and> priority_thread p = k"
    using prio_thread [OF assms(1) t(1)] by (auto simp: highest_among_def not_less)
qed

lemma scan_lowest:
  assumes "adaptor_inv s"
    and "scan_threads P (\<lambda>current to_bufn. current < to_bufn) (threads s) None (priorities s) = (best, ps)"
  shows "best = None \<Longrightarrow> none_among P s"
    and "best = Some (k, p) \<Longrightarrow> lowest_among P s ps k \<and> priority_thread p = k"
proof -
  note mem = inv_member [OF assms(1)] and pick = lowest.scan_pick [OF assms(2)]
  show "none_among P s" if "best = None"
    using pick(1) [OF that] by (simp add: none_among_def mem)
  assume k: "best = Some (k, p)"
  from pick(2) [OF k] obtain t where t: "find_thread s k = Some t" "P t" "p = prio ps t"
    by (auto simp: mem)
  moreover have "\<not> prio ps u < p" if "find_thread s k' = Some u" "P u" for k' u
    using pick(3) [OF k] that by (simp add: mem)
  ultimately show "lowest_among P s ps k \<and> priority_thread p = k"
    using prio_thread [OF assms(1) t(1)] by (auto simp: lowest_among_def not_less)
qed

text \<open>What each operation does with the thread it picks.\<close>

lemma wake_next_cases:
  assumes "adaptor_inv s"
  obtains (none) ps where "none_among (\<lambda>t. state t = THREAD_BLOCKED \<and> cpu = is_cpu_alloc t) s"
      "wake_next_highest_priority_blocked cpu s = s\<lparr>priorities := ps\<rparr>"
  | (some) ps k where "highest_among (\<lambda>t. state t = THREAD_BLOCKED \<and> cpu = is_cpu_alloc t) s ps k"
      "wake_next_highest_priority_blocked cpu s =
         notify_thread k (transition k THREAD_RUNNING (s\<lparr>priorities := ps\<rparr>))"
proof -
  obtain best ps where scan: "scan_threads (\<lambda>t. state t = THREAD_BLOCKED \<and> cpu = is_cpu_alloc t)
      (\<lambda>current to_wake. to_wake < current) (threads s) None (priorities s) = (best, ps)"
    by fastforce
  note choice = scan_highest [OF assms scan] and def = wake_next_highest_priority_blocked_def
  show thesis
  proof (cases best)
    case None
    then show thesis using none choice(1) scan by (simp add: def)
  next
    case (Some kp)
    then show thesis using some choice(2) scan by (cases kp) (simp add: def)
  qed
qed

lemma split_cases:
  assumes "adaptor_inv s"
  obtains (none) ps where "none_among (\<lambda>t. state t = THREAD_BUFN) s"
      "split_highest_bufn s = s\<lparr>priorities := ps\<rparr>"
  | (some) ps k where "highest_among (\<lambda>t. state t = THREAD_BUFN) s ps k"
      "split_highest_bufn s = notify_thread k (transition k THREAD_SPLIT_THROW (s\<lparr>priorities := ps\<rparr>))"
proof -
  obtain best ps where scan: "scan_threads (\<lambda>t. state t = THREAD_BUFN)
      (\<lambda>current to_wake. to_wake < current) (threads s) None (priorities s) = (best, ps)"
    by fastforce
  note choice = scan_highest [OF assms scan]
  show thesis
  proof (cases best)
    case None
    then show thesis using none choice(1) scan assms by (simp add: split_highest_bufn_def)
  next
    case (Some kp)
    then obtain k p where kp: "best = Some (k, p)" by (cases kp) simp
    with choice(2) have high: "highest_among (\<lambda>t. state t = THREAD_BUFN) s ps k"
      and p: "priority_thread p = k" by auto
    then obtain t where "find_thread s k = Some t" by (auto simp: highest_among_def)
    with some high p kp scan show thesis by (simp add: split_highest_bufn_def)
  qed
qed

definition blocked_count :: "adaptor \<Rightarrow> nat" where
  "blocked_count s = length (filter (\<lambda>(tid, t). state t = THREAD_BLOCKED) (threads s))"

lemma roll_back_cases:
  assumes "adaptor_inv s"
  obtains (none) ps where "none_among (\<lambda>t. state t = THREAD_BLOCKED) s"
      "roll_back_lowest_blocked s = s\<lparr>priorities := ps\<rparr>"
  | (some) ps k where "lowest_among (\<lambda>t. state t = THREAD_BLOCKED) s ps k"
      "roll_back_lowest_blocked s =
         (if blocked_count s = 1
          then notify_thread k (transition k THREAD_RUNNING
                 (modify_thread k (\<lambda>t. t\<lparr>is_retry_alloc_before_bufn := True\<rparr>) (s\<lparr>priorities := ps\<rparr>)))
          else notify_thread k (transition k THREAD_BUFN_THROW (s\<lparr>priorities := ps\<rparr>)))"
proof -
  obtain best ps where scan: "scan_threads (\<lambda>t. state t = THREAD_BLOCKED)
      (\<lambda>current to_bufn. current < to_bufn) (threads s) None (priorities s) = (best, ps)"
    by fastforce
  note choice = scan_lowest [OF assms scan]
  show thesis
  proof (cases best)
    case None
    then show thesis using none choice(1) scan by (simp add: roll_back_lowest_blocked_def)
  next
    case (Some kp)
    then obtain k p where kp: "best = Some (k, p)" by (cases kp) simp
    with choice(2) have low: "lowest_among (\<lambda>t. state t = THREAD_BLOCKED) s ps k"
      and p: "priority_thread p = k" by auto
    then obtain t where "find_thread s k = Some t" by (auto simp: lowest_among_def)
    with some low p kp scan show thesis
      by (simp add: roll_back_lowest_blocked_def Let_def blocked_count_def modify_thread_def)
  qed
qed

section \<open>The waiting loop ends\<close>

lemma bufn_state_after:
  assumes "adaptor_inv s" "find_thread s k = Some t" "state t = THREAD_BUFN"
  shows "\<exists>t'. find_thread (check_and_update_for_bufn java s) k = Some t' \<and>
              state t' \<in> {THREAD_BUFN, THREAD_SPLIT_THROW}"
proof -
  have rb: "find_thread (roll_back_lowest_blocked s) k = Some t"
    using assms(2,3)
    by (cases rule: roll_back_cases [OF assms(1)])
       (auto simp: lowest_among_def find_notify find_transition find_modify)
  have "adaptor_inv (roll_back_lowest_blocked s)"
    using step_ok_roll_back assms(1) by (rule step_ok_inv)
  then have "\<exists>t'. find_thread (split_highest_bufn (roll_back_lowest_blocked s)) k = Some t' \<and>
      state t' \<in> {THREAD_BUFN, THREAD_SPLIT_THROW}"
    using rb assms(3)
    by (cases rule: split_cases) (auto simp: find_notify find_transition)
  with rb assms(3) show ?thesis
    by (auto simp: check_and_update_for_bufn_def Let_def case_prod_beta assms(2))
qed

lemma block_loop_enough_fuel:
  assumes "adaptor_inv s"
  shows "fst (block_loop (Suc (Suc n)) k s) \<noteq> Out_Of_Fuel"
proof (cases "find_thread s k")
  case (Some t)
  show ?thesis
  proof (cases "state t")
    case THREAD_BUFN_WAIT
    let ?s0 = "transition k THREAD_BUFN s"
    let ?s1 = "check_and_update_for_bufn None ?s0"
    have "adaptor_inv ?s0" using assms Some THREAD_BUFN_WAIT by (intro inv_transition) auto
    moreover have "find_thread ?s0 k = Some (t\<lparr>state := THREAD_BUFN\<rparr>)"
      using Some by (simp add: find_transition)
    ultimately obtain t' where t': "find_thread ?s1 k = Some t'"
      "state t' \<in> {THREAD_BUFN, THREAD_SPLIT_THROW}"
      using bufn_state_after [of ?s0 k "t\<lparr>state := THREAD_BUFN\<rparr>" None] by auto
    then have "fst (block_loop (Suc n) k ?s1) \<noteq> Out_Of_Fuel"
      by (auto simp: case_prod_beta)
    then show ?thesis
      using Some THREAD_BUFN_WAIT
      by (simp add: Let_def check_and_update_for_bufn_state_machine_only_def del: block_loop.simps
          add: block_loop.simps(2) [of "Suc n"])
  qed (use Some in \<open>simp_all add: case_prod_beta\<close>)
qed simp

lemma block_loop_ret:
  "block_loop n k s = (Ret u, s') \<Longrightarrow> adaptor_inv s \<Longrightarrow>
     s' = s \<and> state_of s k \<in> {UNKNOWN, THREAD_RUNNING, THREAD_ALLOC, THREAD_ALLOC_FREE}"
proof (induction n arbitrary: s)
  case (Suc n)
  show ?case
  proof (cases "find_thread s k")
    case (Some t)
    show ?thesis
    proof (cases "state t = THREAD_BUFN_WAIT")
      case True
      let ?s1 = "check_and_update_for_bufn None (transition k THREAD_BUFN s)"
      have "adaptor_inv (transition k THREAD_BUFN s)" using Suc.prems Some True by (intro inv_transition) auto
      moreover have "find_thread (transition k THREAD_BUFN s) k = Some (t\<lparr>state := THREAD_BUFN\<rparr>)"
        using Some by (simp add: find_transition)
      ultimately obtain t' where t': "find_thread ?s1 k = Some t'"
        "state t' \<in> {THREAD_BUFN, THREAD_SPLIT_THROW}" and i1: "adaptor_inv ?s1"
        using bufn_state_after [of _ k "t\<lparr>state := THREAD_BUFN\<rparr>" None] step_ok_inv [OF step_ok_bufn]
        by fastforce
      have "block_loop n k ?s1 = (Ret u, s')"
        using Suc.prems(1) Some True
        by (simp add: Let_def check_and_update_for_bufn_state_machine_only_def split: if_splits)
      from Suc.IH [OF this i1] t' show ?thesis by (auto simp: state_of_def)
    qed (use Suc.prems Some in \<open>auto simp: state_of_def case_prod_beta split: thread_state.splits\<close>)
  qed (use Suc.prems in \<open>simp add: state_of_def\<close>)
qed simp

lemma block_loop_throw:
  assumes "block_loop (Suc n) k s = (Throw e, s')"
  shows "state_of s k \<in>
           {THREAD_BUFN_THROW, THREAD_BUFN_WAIT, THREAD_SPLIT_THROW, THREAD_REMOVE_THROW}"
proof (cases "find_thread s k")
  case (Some t)
  with assms show ?thesis by (cases "state t") (auto simp: state_of_def)
qed (use assms in simp)

section \<open>Deadlock detection\<close>

text \<open>A thread that cannot go on by itself, as the code judges it.\<close>

definition stuck :: "thread_id set option \<Rightarrow> full_thread_state \<Rightarrow> bool" where
  "stuck java t \<longleftrightarrow> is_thread_bufn_or_above t java \<or> state t = THREAD_BLOCKED"

definition dedicated_tasks :: "full_thread_state list \<Rightarrow> task_id set" where
  "dedicated_tasks ts = task_id ` {t \<in> set ts. task_id t \<ge> 0}"

lemma dedicated_tasks_Cons:
  "dedicated_tasks (t # ts) = (if task_id t \<ge> 0 then insert (task_id t) (dedicated_tasks ts)
                               else dedicated_tasks ts)"
  by (auto simp: dedicated_tasks_def)

lemma dedicated_pass_fields:
  "set (all_task_ids (dedicated_pass java t i)) = set (all_task_ids i) \<union> (if task_id t \<ge> 0 then {task_id t} else {})"
  "set (blocked_task_ids (dedicated_pass java t i)) =
     set (blocked_task_ids i) \<union> (if task_id t \<ge> 0 \<and> stuck java t then {task_id t} else {})"
  "set (bufn_task_ids (dedicated_pass java t i)) =
     set (bufn_task_ids i) \<union>
       (if task_id t \<ge> 0 \<and> is_thread_bufn_or_above t java then {task_id t} else {})"
  "distinct (all_task_ids i) \<Longrightarrow> distinct (all_task_ids (dedicated_pass java t i))"
  "distinct (blocked_task_ids i) \<Longrightarrow> distinct (blocked_task_ids (dedicated_pass java t i))"
  "distinct (bufn_task_ids i) \<Longrightarrow> distinct (bufn_task_ids (dedicated_pass java t i))"
  "pool_bufn_task_thread_count (dedicated_pass java t i) = pool_bufn_task_thread_count i"
  by (simp_all add: dedicated_pass_def Let_def stuck_def)

lemma dedicated_fold:
  "set (all_task_ids (fold (dedicated_pass java) ts i)) = set (all_task_ids i) \<union> dedicated_tasks ts"
  "set (blocked_task_ids (fold (dedicated_pass java) ts i)) =
     set (blocked_task_ids i) \<union> task_id ` {t \<in> set ts. task_id t \<ge> 0 \<and> stuck java t}"
  "set (bufn_task_ids (fold (dedicated_pass java) ts i)) =
     set (bufn_task_ids i) \<union> task_id ` {t \<in> set ts. task_id t \<ge> 0 \<and> is_thread_bufn_or_above t java}"
  "pool_bufn_task_thread_count (fold (dedicated_pass java) ts i) = pool_bufn_task_thread_count i"
  by (induction ts arbitrary: i)
     (auto simp: dedicated_pass_fields dedicated_tasks_Cons dedicated_tasks_def split: if_splits)

lemma dedicated_fold_distinct:
  assumes "distinct (all_task_ids i)" "distinct (blocked_task_ids i)" "distinct (bufn_task_ids i)"
  shows "distinct (all_task_ids (fold (dedicated_pass java) ts i))"
    "distinct (blocked_task_ids (fold (dedicated_pass java) ts i))"
    "distinct (bufn_task_ids (fold (dedicated_pass java) ts i))"
  using assms by (induction ts arbitrary: i) (auto simp: dedicated_pass_fields)

lemma pool_pass_fields [simp]:
  "all_task_ids (pool_pass java t i) = all_task_ids i"
  "bufn_task_ids (pool_pass java t i) = bufn_task_ids i"
  "set (blocked_task_ids (pool_pass java t i)) =
     set (blocked_task_ids i) - (if task_id t < 0 \<and> \<not> stuck java t then set (pool_task_ids t) else {})"
  "distinct (blocked_task_ids i) \<Longrightarrow> distinct (blocked_task_ids (pool_pass java t i))"
  by (simp_all add: pool_pass_def Let_def stuck_def distinct_fold_removeAll)

lemma pool_fold:
  "all_task_ids (fold (pool_pass java) ts i) = all_task_ids i"
  "bufn_task_ids (fold (pool_pass java) ts i) = bufn_task_ids i"
  "set (blocked_task_ids (fold (pool_pass java) ts i)) = set (blocked_task_ids i) -
       \<Union> (set ` pool_task_ids ` {t \<in> set ts. task_id t < 0 \<and> \<not> stuck java t})"
  "distinct (blocked_task_ids i) \<Longrightarrow> distinct (blocked_task_ids (fold (pool_pass java) ts i))"
  by (induction ts arbitrary: i) (auto split: if_splits)

text \<open>Every dedicated task has a stuck thread, and no pool thread that could help it.\<close>

definition deadlocked :: "thread_id set option \<Rightarrow> full_thread_state list \<Rightarrow> bool" where
  "deadlocked java ts \<longleftrightarrow> dedicated_tasks ts \<noteq> {} \<and>
     (\<forall>tsk \<in> dedicated_tasks ts.
        (\<exists>t \<in> set ts. task_id t = tsk \<and> stuck java t) \<and>
        (\<forall>p \<in> set ts. task_id p < 0 \<longrightarrow> tsk \<in> set (pool_task_ids p) \<longrightarrow> stuck java p))"

lemma length_eq_iff_set_eq:
  assumes "distinct xs" "distinct ys" "set ys \<subseteq> set xs"
  shows "length xs = length ys \<longleftrightarrow> set ys = set xs"
proof
  assume "length xs = length ys"
  then have "card (set ys) = card (set xs)" using assms(1,2) by (simp add: distinct_card)
  with assms(3) show "set ys = set xs" by (simp add: card_subset_eq)
next
  assume "set ys = set xs"
  then show "length xs = length ys" using assms(1,2) by (metis distinct_card)
qed

lemma is_in_deadlock_iff: "fst (is_in_deadlock s java) = deadlocked java (map snd (threads s))"
proof -
  let ?ts = "map snd (threads s)"
  let ?i1 = "fold (dedicated_pass java) ?ts no_deadlock_info"
  let ?i2 = "fold (pool_pass java) ?ts ?i1"
  define B where "B = task_id ` {t \<in> set ?ts. task_id t \<ge> 0 \<and> stuck java t} -
            \<Union> (set ` pool_task_ids ` {t \<in> set ?ts. task_id t < 0 \<and> \<not> stuck java t})"
  have all: "set (all_task_ids ?i2) = dedicated_tasks ?ts" "distinct (all_task_ids ?i2)"
    and blocked: "set (blocked_task_ids ?i2) = B" "distinct (blocked_task_ids ?i2)"
    using dedicated_fold_distinct [where i = no_deadlock_info and java = java and ts = ?ts]
    by (simp_all add: dedicated_fold pool_fold no_deadlock_info_def B_def)
  have sub: "B \<subseteq> dedicated_tasks ?ts" by (auto simp: dedicated_tasks_def B_def)
  have "length (all_task_ids ?i2) = length (blocked_task_ids ?i2) \<longleftrightarrow> B = dedicated_tasks ?ts"
    using length_eq_iff_set_eq [OF all(2) blocked(2)] all(1) blocked(1) sub by simp
  moreover have "all_task_ids ?i2 = [] \<longleftrightarrow> dedicated_tasks ?ts = {}"
    using all(1) by auto
  ultimately have "fst (is_in_deadlock s java) \<longleftrightarrow>
      B = dedicated_tasks ?ts \<and> dedicated_tasks ?ts \<noteq> {}"
    by (simp add: is_in_deadlock_def Let_def)
  also have "B = dedicated_tasks ?ts \<longleftrightarrow> (\<forall>tsk \<in> dedicated_tasks ?ts. tsk \<in> B)"
    using sub by blast
  also have "\<dots> \<longleftrightarrow> (\<forall>tsk \<in> dedicated_tasks ?ts.
      (\<exists>t \<in> set ?ts. task_id t = tsk \<and> stuck java t) \<and>
      (\<forall>p \<in> set ?ts. task_id p < 0 \<longrightarrow> tsk \<in> set (pool_task_ids p) \<longrightarrow> stuck java p))"
  proof (rule ball_cong [OF refl])
    fix tsk
    assume "tsk \<in> dedicated_tasks ?ts"
    then have "tsk \<ge> 0" by (auto simp: dedicated_tasks_def)
    then have "tsk \<in> task_id ` {t \<in> set ?ts. task_id t \<ge> 0 \<and> stuck java t} \<longleftrightarrow>
        (\<exists>t \<in> set ?ts. task_id t = tsk \<and> stuck java t)"
      by auto
    then show "tsk \<in> B \<longleftrightarrow> (\<exists>t \<in> set ?ts. task_id t = tsk \<and> stuck java t) \<and>
        (\<forall>p \<in> set ?ts. task_id p < 0 \<longrightarrow> tsk \<in> set (pool_task_ids p) \<longrightarrow> stuck java p)"
      by (auto simp: B_def)
  qed
  finally show ?thesis by (simp add: deadlocked_def conj_commute)
qed

section \<open>Breaking a deadlock\<close>

lemma priorities_wake [simp]:
  "priorities (modify_thread k f s) = priorities s"
  "priorities (notify_thread k s) = priorities s"
  "priorities (transition k st s) = priorities s"
  by (simp_all add: modify_thread_def notify_thread_def transition_def transition_to_def
      log_transition_def split: option.split)

lemma state_of_notify [simp]: "state_of (notify_thread k s) tid = state_of s tid"
  by (simp add: state_of_def find_notify split: option.split)

lemma state_of_priorities [simp]: "state_of (s\<lparr>priorities := ps\<rparr>) = state_of s"
  by (auto simp: state_of_def)

lemma state_of_transition:
  "new \<noteq> UNKNOWN \<Longrightarrow> find_thread s k \<noteq> None \<Longrightarrow>
     state_of (transition k new s) tid = (if tid = k then new else state_of s tid)"
  by (auto simp: state_of_def find_transition)

lemma state_of_modify:
  assumes "\<And>t. state (f t) = state t"
  shows "state_of (modify_thread k f s) tid = state_of s tid"
  using assms by (simp add: state_of_def find_modify split: option.split)

lemma roll_back_states:
  assumes "adaptor_inv s" "state_of s b = THREAD_BLOCKED"
  obtains k where "lowest_among (\<lambda>t. state t = THREAD_BLOCKED) s
                     (priorities (roll_back_lowest_blocked s)) k"
    and "\<And>tid. state_of (roll_back_lowest_blocked s) tid =
           (if tid = k then (if blocked_count s = 1 then THREAD_RUNNING else THREAD_BUFN_THROW)
            else state_of s tid)"
  using assms(1)
proof (cases rule: roll_back_cases)
  case (none ps)
  then show ?thesis using assms(2)
    by (auto simp: none_among_def state_of_def split: option.splits)
next
  case (some ps k)
  let ?s1 = "s\<lparr>priorities := ps\<rparr>"
  let ?s2 = "modify_thread k (\<lambda>t. t\<lparr>is_retry_alloc_before_bufn := True\<rparr>) ?s1"
  have "find_thread ?s1 k \<noteq> None" using some(1) by (auto simp: lowest_among_def)
  moreover from this have "find_thread ?s2 k \<noteq> None" by (auto simp: find_modify)
  ultimately have "state_of (roll_back_lowest_blocked s) tid =
      (if tid = k then (if blocked_count s = 1 then THREAD_RUNNING else THREAD_BUFN_THROW)
       else state_of s tid)" for tid
    using some(2) by (simp add: state_of_transition state_of_modify del: find_thread_upd)
  moreover have "priorities (roll_back_lowest_blocked s) = ps" using some(2) by simp
  ultimately show ?thesis using that some(1) by metis
qed

lemma split_states:
  assumes "adaptor_inv s"
  obtains (none) "none_among (\<lambda>t. state t = THREAD_BUFN) s"
      "\<And>tid. state_of (split_highest_bufn s) tid = state_of s tid"
  | (some) k where "highest_among (\<lambda>t. state t = THREAD_BUFN) s (priorities (split_highest_bufn s)) k"
      "\<And>tid. state_of (split_highest_bufn s) tid = (if tid = k then THREAD_SPLIT_THROW else state_of s tid)"
  using assms
proof (cases rule: split_cases)
  case (none ps)
  then show ?thesis using that(1) by simp
next
  case (some ps k)
  have "find_thread (s\<lparr>priorities := ps\<rparr>) k \<noteq> None" using some(1) by (auto simp: highest_among_def)
  then have "state_of (split_highest_bufn s) tid =
      (if tid = k then THREAD_SPLIT_THROW else state_of s tid)" for tid
    using some(2) by (simp add: state_of_transition del: find_thread_upd)
  moreover have "priorities (split_highest_bufn s) = ps" using some(2) by simp
  ultimately show ?thesis using that(2) some(1) by metis
qed

lemma wake_next_states:
  assumes "adaptor_inv s" "find_thread s b = Some t" "state t = THREAD_BLOCKED" "is_cpu_alloc t = cpu"
  obtains k where "highest_among (\<lambda>t. state t = THREAD_BLOCKED \<and> cpu = is_cpu_alloc t) s
                     (priorities (wake_next_highest_priority_blocked cpu s)) k"
    and "\<And>tid. state_of (wake_next_highest_priority_blocked cpu s) tid =
           (if tid = k then THREAD_RUNNING else state_of s tid)"
  using assms(1)
proof (cases rule: wake_next_cases [where cpu = cpu])
  case (none ps)
  then have "\<not> (state t = THREAD_BLOCKED \<and> cpu = is_cpu_alloc t)"
    using assms(2) unfolding none_among_def by blast
  then show ?thesis using assms(3,4) by simp
next
  case (some ps k)
  have "find_thread (s\<lparr>priorities := ps\<rparr>) k \<noteq> None" using some(1) by (auto simp: highest_among_def)
  then have "state_of (wake_next_highest_priority_blocked cpu s) tid =
      (if tid = k then THREAD_RUNNING else state_of s tid)" for tid
    using some(2) by (simp add: state_of_transition del: find_thread_upd)
  moreover have "priorities (wake_next_highest_priority_blocked cpu s) = ps" using some(2) by simp
  ultimately show ?thesis using that some(1) by metis
qed

text \<open>The tasks counted as blocked until further notice.\<close>

lemma count_task_keys: "set (om_keys (count_task tsk m)) = insert tsk (set (om_keys m))"
  by (auto simp: count_task_def om_keys_emplace dest: om_find_Some_key split: option.splits)

lemma count_tasks_keys:
  "set (om_keys (fold count_task tsks m)) = set tsks \<union> set (om_keys m)"
  by (induction tsks arbitrary: m) (auto simp: count_task_keys)

lemma pool_bufn_keys:
  "set (om_keys (pool_bufn_task_thread_count (fold (pool_pass java) ts i))) \<subseteq>
     set (om_keys (pool_bufn_task_thread_count i)) \<union>
       \<Union> (set ` pool_task_ids ` {t \<in> set ts. task_id t < 0})"
proof (induction ts arbitrary: i)
  case (Cons t ts)
  have "set (om_keys (pool_bufn_task_thread_count (pool_pass java t i))) \<subseteq>
      set (om_keys (pool_bufn_task_thread_count i)) \<union> (if task_id t < 0 then set (pool_task_ids t) else {})"
    by (simp add: pool_pass_def Let_def count_tasks_keys Un_commute)
  with Cons.IH [of "pool_pass java t i"] show ?case by (fastforce split: if_splits)
qed simp

lemma add_pool_bufn_tasks_set:
  "set (bufn_task_ids i) \<subseteq> set (add_pool_bufn_tasks i) \<and>
   set (add_pool_bufn_tasks i) \<subseteq> set (bufn_task_ids i) \<union> set (om_keys (pool_bufn_task_thread_count i)) \<and>
   (distinct (bufn_task_ids i) \<longrightarrow> distinct (add_pool_bufn_tasks i))"
proof -
  let ?f = "\<lambda>(tsk, bufn_count) ids. case om_find (pool_task_thread_count i) tsk of
              None \<Rightarrow> ids | Some n \<Rightarrow> if n \<le> bufn_count then List.insert tsk ids else ids"
  have "set ids \<subseteq> set (fold ?f m ids) \<and> set (fold ?f m ids) \<subseteq> set ids \<union> set (om_keys m) \<and>
      (distinct ids \<longrightarrow> distinct (fold ?f m ids))" for m ids
  proof (induction m arbitrary: ids)
    case (Cons x m)
    have "set ids \<subseteq> set (?f x ids) \<and> set (?f x ids) \<subseteq> insert (fst x) (set ids) \<and>
        (distinct ids \<longrightarrow> distinct (?f x ids))"
      by (auto split: option.splits prod.splits)
    with Cons.IH [of "?f x ids"] show ?case by (auto simp: om_keys_def)
  qed simp
  then show ?thesis by (simp add: add_pool_bufn_tasks_def)
qed

text \<open>When no thread is merely blocked, every dedicated task counts as blocked until further notice.\<close>

lemma all_bufn:
  assumes "adaptor_inv s" "is_in_deadlock s java = (True, i)"
    and "none_among (\<lambda>t. state t = THREAD_BLOCKED) s"
    and "\<And>k p tsk. find_thread s k = Some p \<Longrightarrow> task_id p < 0 \<Longrightarrow> tsk \<in> set (pool_task_ids p) \<Longrightarrow>
           tsk \<in> dedicated_tasks (map snd (threads s))"
  shows "length (all_task_ids i) = length (add_pool_bufn_tasks i)"
proof -
  let ?ts = "map snd (threads s)"
  let ?i1 = "fold (dedicated_pass java) ?ts no_deadlock_info"
  have find: "t \<in> set ?ts \<Longrightarrow> \<exists>k. find_thread s k = Some t" for t
    using inv_member [OF assms(1)] by auto
  have i: "i = fold (pool_pass java) ?ts ?i1"
    using assms(2) by (simp add: is_in_deadlock_def Let_def)
  have not_blocked: "t \<in> set ?ts \<Longrightarrow> stuck java t \<longleftrightarrow> is_thread_bufn_or_above t java" for t
    using find assms(3) by (fastforce simp: stuck_def none_among_def)
  have "deadlocked java ?ts" using is_in_deadlock_iff [of s java] assms(2) by simp
  have bufn: "dedicated_tasks ?ts \<subseteq>
      task_id ` {t \<in> set ?ts. task_id t \<ge> 0 \<and> is_thread_bufn_or_above t java}"
  proof (intro subsetI)
    fix tsk
    assume tsk: "tsk \<in> dedicated_tasks ?ts"
    then have "tsk \<ge> 0" by (auto simp: dedicated_tasks_def)
    moreover from tsk \<open>deadlocked java ?ts\<close> obtain t
      where "t \<in> set ?ts" "task_id t = tsk" "stuck java t" unfolding deadlocked_def by blast
    ultimately show "tsk \<in> task_id ` {t \<in> set ?ts. task_id t \<ge> 0 \<and> is_thread_bufn_or_above t java}"
      using not_blocked by blast
  qed
  have all: "set (all_task_ids i) = dedicated_tasks ?ts" "distinct (all_task_ids i)"
    "dedicated_tasks ?ts \<subseteq> set (bufn_task_ids i)" "set (bufn_task_ids i) \<subseteq> dedicated_tasks ?ts"
    "distinct (bufn_task_ids i)"
    using bufn dedicated_fold_distinct [where i = no_deadlock_info and java = java and ts = ?ts]
    by (auto simp: i dedicated_fold pool_fold no_deadlock_info_def dedicated_tasks_def)
  have "set (om_keys (pool_bufn_task_thread_count i)) \<subseteq>
      \<Union> (set ` pool_task_ids ` {t \<in> set ?ts. task_id t < 0})"
    using pool_bufn_keys [of java ?ts ?i1]
    by (simp add: i dedicated_fold no_deadlock_info_def om_keys_def)
  moreover have "\<dots> \<subseteq> dedicated_tasks ?ts" using find assms(4) by fastforce
  ultimately have "set (add_pool_bufn_tasks i) = dedicated_tasks ?ts"
    using add_pool_bufn_tasks_set [of i] all(3,4) by blast
  moreover have "distinct (add_pool_bufn_tasks i)" using add_pool_bufn_tasks_set [of i] all(5) by blast
  ultimately show ?thesis using length_eq_iff_set_eq [OF all(2)] all(1) by simp
qed

end
