(* ===== verification/AdaptorProps.thy ===== *)
theory AdaptorProps
  imports AdaptorChoice
begin

text \<open>
  The properties of the resource adaptor, each with a run of the adaptor that satisfies its
  hypotheses.
\<close>

section \<open>Sample runs\<close>

text \<open>Two tasks with one thread each; then the first one runs out of memory and blocks.\<close>

definition sample_clock :: steady_clock where
  "sample_clock = \<lparr>readings = (\<lambda>n. 10 * int n), reads = 0\<rparr>"

definition sample_start :: sys where
  "sample_start = \<lparr>ad = new_adaptor True init_priorities sample_clock, frames = (\<lambda>_. []), since = (\<lambda>_. 0)\<rparr>"

definition sample_two :: adaptor where
  "sample_two = exec_call 2 (Start_Dedicated 2 20) (exec_call 1 (Start_Dedicated 1 10) (ad sample_start))"

definition sample_oom :: sys where
  "sample_oom = alloc_oom 1 False 8 [] (alloc_begin 1 8 [] \<lparr>ad = sample_two, frames = (\<lambda>_. []), since = (\<lambda>_. 0)\<rparr>)"

definition sample_wait :: sys where
  "sample_wait = alloc_begin 1 8 [] sample_oom"

text \<open>Both threads blocked, before the adaptor looks for a deadlock.\<close>

definition sample_both :: adaptor where
  "sample_both = transition 2 THREAD_BLOCKED (snd (pre_alloc_core 2 False True (ad sample_wait)))"

lemma sample_start_init: "sys_init sample_start"
  by (auto simp: sys_init_def sample_start_def)

lemma sample_two_reachable: "sys_reachable \<lparr>ad = sample_two, frames = (\<lambda>_. []), since = (\<lambda>_. 0)\<rparr>"
proof -
  let ?s1 = "sample_start\<lparr>ad := exec_call 1 (Start_Dedicated 1 10) (ad sample_start)\<rparr>"
  have "sys_step sample_start ?s1"
    by (rule sys_step.api) (simp_all add: sample_start_def)
  moreover have "sys_step ?s1 (?s1\<lparr>ad := exec_call 2 (Start_Dedicated 2 20) (ad ?s1)\<rparr>)"
    by (rule sys_step.api) (simp_all add: sample_start_def)
  moreover have "?s1\<lparr>ad := exec_call 2 (Start_Dedicated 2 20) (ad ?s1)\<rparr> =
      \<lparr>ad = sample_two, frames = (\<lambda>_. []), since = (\<lambda>_. 0)\<rparr>"
    by (simp add: sample_two_def sample_start_def)
  ultimately show ?thesis
    using sample_start_init unfolding sys_reachable_def
    by (metis converse_rtranclp_into_rtranclp rtranclp.rtrancl_refl)
qed

lemma sys_reachable_step: "sys_reachable \<sigma> \<Longrightarrow> sys_step \<sigma> \<sigma>' \<Longrightarrow> sys_reachable \<sigma>'"
  unfolding sys_reachable_def by (blast intro: rtranclp.rtrancl_into_rtrancl)

lemma sample_frames:
  "frames (alloc_begin 1 8 [] \<lparr>ad = sample_two, frames = (\<lambda>_. []), since = (\<lambda>_. 0)\<rparr>) 1 = [Allocating False 8]"
  "frames sample_oom 1 = [Alloc_Loop 8]"
  "frames sample_wait 1 = [Alloc_Wait 8]"
  by code_simp+

lemma sample_oom_reachable: "sys_reachable sample_oom"
proof -
  let ?s0 = "\<lparr>ad = sample_two, frames = (\<lambda>_. []), since = (\<lambda>_. 0)\<rparr>"
  have "sys_step ?s0 (alloc_begin 1 8 (frames ?s0 1) ?s0)"
    by (rule sys_step.alloc) simp
  then have "sys_reachable (alloc_begin 1 8 [] ?s0)"
    using sys_reachable_step [OF sample_two_reachable] by simp
  then show ?thesis
    unfolding sample_oom_def by (rule sys_reachable_step) (rule sys_step.oom [OF sample_frames(1)])
qed

lemma sample_wait_reachable: "sys_reachable sample_wait"
  unfolding sample_wait_def
  by (rule sys_reachable_step [OF sample_oom_reachable]) (rule sys_step.again [OF sample_frames(2)])

lemma state_of_someE:
  assumes "state_of s k = st" "st \<noteq> UNKNOWN"
  obtains t where "find_thread s k = Some t" "state t = st"
  using assms by (auto simp: state_of_def split: option.splits)

lemma inv_sample_wait: "adaptor_inv (ad sample_wait)"
  using reachable_inv [OF sample_wait_reachable] by (simp add: sys_inv_def)

lemma inv_sample_both: "adaptor_inv sample_both"
proof -
  let ?s = "snd (pre_alloc_core 2 False True (ad sample_wait))"
  have "adaptor_inv ?s" using step_ok_pre_alloc inv_sample_wait by (rule step_ok_inv)
  moreover have "state_of ?s 2 = THREAD_ALLOC" by code_simp
  then obtain t where "find_thread ?s 2 = Some t" "state t = THREAD_ALLOC"
    by (rule state_of_someE) simp
  ultimately show ?thesis unfolding sample_both_def by (intro inv_transition [of _ _ t]) simp_all
qed

section \<open>Waiting and waking\<close>

text \<open>
  C1: No wake-up is lost. In every state the adaptor can reach, whatever threads call it in
  whatever order, also when they unregister threads that wait: if the entry of a waiting thread has
  not been erased since the thread began to wait, then the thread is still in a blocked state or has a
  notification pending on its condition variable; and if it has been erased, then its condition
  variable had been notified before the first erasure, which destroyed it.
\<close>

theorem no_lost_wakeup:
  assumes "sys_reachable \<sigma>" "is_waiting (frames \<sigma> w)"
  shows "(forgets (ad \<sigma>) w = since \<sigma> w
            \<and> (\<exists>t. find_thread (ad \<sigma>) w = Some t \<and> (is_blocked (state t) \<or> notified t)))
       \<or> (since \<sigma> w < forgets (ad \<sigma>) w \<and> rev (erasures (ad \<sigma>) w) ! since \<sigma> w)"
proof -
  obtain new old where e: "erasures (ad \<sigma>) w = new @ old" "length old = since \<sigma> w" "roused (ad \<sigma>) w new"
    using reachable_inv [OF assms(1)] assms(2) by (auto simp: sys_inv_def woken_later_def)
  then show ?thesis
    by (cases new rule: rev_cases) (auto simp: forgets_def roused_def alert_def nth_append)
qed

theorem no_lost_wakeup_witness:
  "sys_reachable sample_wait \<and> is_waiting (frames sample_wait 1) \<and>
   (\<exists>t. find_thread (ad sample_wait) 1 = Some t \<and> (is_blocked (state t) \<or> notified t))"
proof -
  have "is_waiting (frames sample_wait 1)" by (simp add: sample_frames)
  moreover have "forgets (ad sample_wait) 1 = 0" by code_simp
  ultimately show ?thesis using no_lost_wakeup [OF sample_wait_reachable, of 1] sample_wait_reachable by auto
qed

text \<open>
  The second case happens: thread 2 frees memory, which wakes thread 1, and unregisters thread 1 before
  it resumes. Its condition variable was notified, but the code goes on with the end iterator.
\<close>

definition sample_erased :: sys where
  "sample_erased = sample_wait\<lparr>ad := exec_call 2 (Remove_Association 1 10) (exec_call 2 (Gpu_Dealloc 8) (ad sample_wait))\<rparr>"

lemma waiting_thread_erased:
  "sys_reachable sample_erased" "is_waiting (frames sample_erased 1)" "find_thread (ad sample_erased) 1 = None"
  "erasures (ad sample_erased) 1 = [True]" "fst (resume_block 1 (ad sample_erased)) = Throw Undefined_Behaviour"
proof -
  have c: "can_call (frames sample_wait 2)" by code_simp
  let ?s = "sample_wait\<lparr>ad := exec_call 2 (Gpu_Dealloc 8) (ad sample_wait)\<rparr>"
  have "sys_reachable ?s" by (rule sys_reachable_step [OF sample_wait_reachable sys_step.api]) (simp_all add: c)
  then have "sys_reachable (?s\<lparr>ad := exec_call 2 (Remove_Association 1 10) (ad ?s)\<rparr>)"
    by (rule sys_reachable_step [OF _ sys_step.api]) (simp_all add: c)
  then show "sys_reachable sample_erased" by (simp add: sample_erased_def)
  show "is_waiting (frames sample_erased 1)" by (simp add: sample_erased_def sample_frames)
  show f: "find_thread (ad sample_erased) 1 = None" by code_simp
  show "erasures (ad sample_erased) 1 = [True]" by code_simp
  show "fst (resume_block 1 (ad sample_erased)) = Throw Undefined_Behaviour" using f by (simp add: resume_block_def)
qed

text \<open>
  C2: The log of state transitions is a walk through the documented state machine, but for one edge.
  In every reachable state each logged transition starts where the previous transition of the same
  thread ended, the last entry of a thread is the state the thread is in now (\<open>UNKNOWN\<close> for a thread
  without an entry), and each transition is an edge of the diagram or goes from \<open>THREAD_ALLOC\<close> to
  \<open>THREAD_BUFN_THROW\<close>; the edge of the diagram from \<open>THREAD_ALLOC_FREE\<close> to \<open>THREAD_ALLOC\<close> is never taken.
\<close>

theorem transition_log_sound:
  assumes "sys_reachable \<sigma>"
  shows "legal_log (transitions (ad \<sigma>)) \<and>
         (\<forall>tid. logged_state (transitions (ad \<sigma>)) tid = state_of (ad \<sigma>) tid) \<and>
         (\<forall>e\<in>set (transitions (ad \<sigma>)).
            (documented (from_state e) (to_state e) \<or> (from_state e, to_state e) = (THREAD_ALLOC, THREAD_BUFN_THROW)) \<and>
            (from_state e, to_state e) \<noteq> (THREAD_ALLOC_FREE, THREAD_ALLOC))"
proof -
  have "documented a b \<or> (a, b) = (THREAD_ALLOC, THREAD_BUFN_THROW)" "(a, b) \<noteq> (THREAD_ALLOC_FREE, THREAD_ALLOC)"
    if "edge a b" for a b
    using that by (cases a; auto)+
  moreover have "legal_log es \<Longrightarrow> \<forall>e\<in>set es. edge (from_state e) (to_state e)" for es
    by (induction es) auto
  moreover have "legal_log (transitions (ad \<sigma>))" "\<forall>tid. logged_state (transitions (ad \<sigma>)) tid = state_of (ad \<sigma>) tid"
    using reachable_inv [OF assms] by (simp_all add: sys_inv_def adaptor_inv_def)
  ultimately show ?thesis by blast
qed

theorem transition_log_sound_witness:
  "legal_log (transitions (ad sample_wait)) \<and> length (transitions (ad sample_wait)) = 4 \<and>
   logged_state (transitions (ad sample_wait)) 1 = THREAD_BLOCKED"
proof -
  have "state_of (ad sample_wait) 1 = THREAD_BLOCKED" by code_simp
  moreover have "length (transitions (ad sample_wait)) = 4" by code_simp
  ultimately show ?thesis using transition_log_sound [OF sample_wait_reachable] by simp
qed

text \<open>
  The undocumented edge is taken: the allocation of the only thread fails, it is made to retry instead
  of being rolled back, and the retry fails.
\<close>

definition sample_one :: sys where
  "sample_one = sample_start\<lparr>ad := exec_call 1 (Start_Dedicated 1 10) (ad sample_start)\<rparr>"

definition sample_retry :: sys where
  "sample_retry = alloc_oom 1 False 8 [] (alloc_begin 1 8 [] sample_one)"

definition sample_retried :: sys where
  "sample_retried = alloc_oom 1 False 8 [] (alloc_begin 1 8 [] sample_retry)"

lemma undocumented_edge_taken:
  "sys_reachable sample_retried"
  "\<exists>e\<in>set (transitions (ad sample_retried)). (from_state e, to_state e) = (THREAD_ALLOC, THREAD_BUFN_THROW)"
proof -
  have f: "frames (alloc_begin 1 8 [] sample_one) 1 = [Allocating False 8]" "frames sample_retry 1 = [Alloc_Loop 8]"
    "frames (alloc_begin 1 8 [] sample_retry) 1 = [Allocating False 8]" by code_simp+
  have "sys_reachable sample_start" using sample_start_init unfolding sys_reachable_def by blast
  then have one: "sys_reachable sample_one"
    unfolding sample_one_def by (rule sys_reachable_step [OF _ sys_step.api]) (simp_all add: sample_start_def)
  have "frames sample_one 1 = []" by (simp add: sample_one_def sample_start_def)
  then have "sys_reachable (alloc_begin 1 8 [] sample_one)"
    using sys_reachable_step [OF one sys_step.alloc [of sample_one 1 8]] by simp
  from sys_reachable_step [OF this sys_step.oom [OF f(1)]] have "sys_reachable sample_retry" by (simp add: sample_retry_def)
  from sys_reachable_step [OF this sys_step.again [OF f(2)]] have "sys_reachable (alloc_begin 1 8 [] sample_retry)" .
  from sys_reachable_step [OF this sys_step.oom [OF f(3)]] show "sys_reachable sample_retried" by (simp add: sample_retried_def)
  have "(THREAD_ALLOC, THREAD_BUFN_THROW) \<in> set (map (\<lambda>e. (from_state e, to_state e)) (transitions (ad sample_retried)))"
    by code_simp
  then show "\<exists>e\<in>set (transitions (ad sample_retried)). (from_state e, to_state e) = (THREAD_ALLOC, THREAD_BUFN_THROW)"
    by (metis (no_types, lifting) imageE list.set_map)
qed

text \<open>
  C6: \<open>block_thread_until_ready\<close> always comes to an end: it returns only when the thread is
  unregistered, running or allocating, and then without any change; it waits only when the
  thread is blocked; or it throws.
\<close>

theorem block_thread_until_ready_ends:
  assumes "adaptor_inv s"
  shows "case block_thread_until_ready k s of
           (Ret _, s') \<Rightarrow> s' = s \<and> state_of s k \<in> {UNKNOWN, THREAD_RUNNING, THREAD_ALLOC, THREAD_ALLOC_FREE}
         | (Wait, s') \<Rightarrow> state_of s' k \<in> {THREAD_BLOCKED, THREAD_BUFN}
         | (Throw _, s') \<Rightarrow> state_of s k \<in> {THREAD_BUFN_THROW, THREAD_BUFN_WAIT, THREAD_SPLIT_THROW,
                                             THREAD_REMOVE_THROW}
         | (Out_Of_Fuel, s') \<Rightarrow> False"
proof -
  obtain r s' where r: "block_thread_until_ready k s = (r, s')" by fastforce
  then have loop: "block_loop (Suc (Suc 1)) k s = (r, s')"
    by (simp add: block_thread_until_ready_def block_fuel_def eval_nat_numeral del: block_loop.simps)
  have "state_of s k \<in> {THREAD_BUFN_THROW, THREAD_BUFN_WAIT, THREAD_SPLIT_THROW, THREAD_REMOVE_THROW}"
    if "r = Throw e" for e
    using block_loop_throw loop that by blast
  moreover have "state_of s' k \<in> {THREAD_BLOCKED, THREAD_BUFN}" if "r = Wait"
    using block_loop_wait [of "Suc (Suc 1)" k s s'] loop that
    by (auto simp: thread_is_blocked_def state_of_def is_blocked_iff split: option.splits)
  ultimately show ?thesis
    using r loop block_loop_enough_fuel [OF assms, of 1 k] block_loop_ret [of "Suc (Suc 1)" k s _ s']
      assms
    by (cases r) auto
qed

theorem block_thread_until_ready_ends_witness:
  "fst (block_thread_until_ready 1 (ad sample_oom)) = Wait \<and>
   state_of (snd (block_thread_until_ready 1 (ad sample_oom))) 1 \<in> {THREAD_BLOCKED, THREAD_BUFN}"
proof -
  have "adaptor_inv (ad sample_oom)" using reachable_inv [OF sample_oom_reachable] by (simp add: sys_inv_def)
  moreover have "fst (block_thread_until_ready 1 (ad sample_oom)) = Wait" by code_simp
  ultimately show ?thesis
    using block_thread_until_ready_ends [of "ad sample_oom" 1] by (auto simp: case_prod_beta split: prod.splits)
qed

section \<open>Deadlocks\<close>

text \<open>
  C3: Deadlock detection is exact. \<open>is_in_deadlock\<close>, which counts task ids in two passes over the
  threads, answers true exactly when there is a dedicated task and every dedicated task has a
  stuck thread (blocked, blocked until further notice, waiting on a pool, or reported blocked by
  the JVM) while no pool thread that works for it can still run.
\<close>

theorem deadlock_detection_exact:
  "fst (is_in_deadlock s java) = deadlocked java (map snd (threads s))"
  by (rule is_in_deadlock_iff)

lemma check_and_update_deadlock:
  assumes "fst (is_in_deadlock s java)"
  shows "check_and_update_for_bufn java s =
    (if length (all_task_ids (snd (is_in_deadlock s java))) =
        length (add_pool_bufn_tasks (snd (is_in_deadlock s java)))
     then split_highest_bufn (roll_back_lowest_blocked s) else roll_back_lowest_blocked s)"
  using assms by (simp add: check_and_update_for_bufn_def case_prod_beta Let_def)

lemma split_keeps_other_states:
  assumes "adaptor_inv s" "state_of s k \<noteq> THREAD_BUFN"
  shows "state_of (split_highest_bufn s) k = state_of s k"
  using assms(1)
proof (cases rule: split_states)
  case (some k')
  then show ?thesis using assms(2) by (auto simp: highest_among_def state_of_def)
qed simp



text \<open>
  When rolling back is no longer possible the code splits the most important work, where
  \<^verbatim>\<open>docs/memory_management.md\<close> says that it is the least important. If the tasks are
  deadlocked, no thread is merely blocked, some thread is blocked until further notice, and pool
  threads only work for tasks that have a dedicated thread, then the update tells the thread
  blocked until further notice with the highest priority to split its input, and changes no other
  thread.
\<close>

lemma deadlock_splits_highest:
  assumes "adaptor_inv s" "fst (is_in_deadlock s java)"
    and "\<And>k. state_of s k \<noteq> THREAD_BLOCKED"
    and "state_of s b = THREAD_BUFN"
    and "\<And>k p tsk. find_thread s k = Some p \<Longrightarrow> task_id p < 0 \<Longrightarrow> tsk \<in> set (pool_task_ids p) \<Longrightarrow>
           tsk \<in> dedicated_tasks (map snd (threads s))"
  shows "\<exists>k. highest_among (\<lambda>t. state t = THREAD_BUFN) s
               (priorities (check_and_update_for_bufn java s)) k \<and>
             (\<forall>k'. state_of (check_and_update_for_bufn java s) k' =
                 (if k' = k then THREAD_SPLIT_THROW else state_of s k'))"
proof -
  have none: "none_among (\<lambda>t. state t = THREAD_BLOCKED) s"
    unfolding none_among_def using assms(3) by (metis state_of_find)
  obtain ps where rb: "roll_back_lowest_blocked s = s\<lparr>priorities := ps\<rparr>"
    using assms(1)
  proof (cases rule: roll_back_cases)
    case (some ps k)
    then show thesis using none by (auto simp: lowest_among_def none_among_def)
  qed
  have eq: "check_and_update_for_bufn java s = split_highest_bufn (s\<lparr>priorities := ps\<rparr>)"
    using all_bufn [OF assms(1) _ none assms(5)] assms(2) rb
    by (simp add: check_and_update_deadlock prod_eq_iff)
  have "adaptor_inv (s\<lparr>priorities := ps\<rparr>)" using step_ok_priorities assms(1) by (rule step_ok_inv)
  then show ?thesis
  proof (cases rule: split_states)
    case none
    moreover from assms(4) obtain t where "find_thread s b = Some t" "state t = THREAD_BUFN"
      by (rule state_of_someE) simp
    ultimately show ?thesis by (auto simp: none_among_def)
  next
    case (some k)
    then show ?thesis unfolding eq by (intro exI [of _ k]) (simp add: highest_among_def)
  qed
qed

text \<open>A single thread, rolled back and blocked until further notice.\<close>

definition sample_bufn :: adaptor where
  "sample_bufn = transition 1 THREAD_BUFN (transition 1 THREAD_BUFN_WAIT (transition 1 THREAD_BUFN_THROW
     (snd (pre_alloc_core 1 False True (exec_call 1 (Start_Dedicated 1 10) (ad sample_start))))))"

lemma inv_sample_start: "adaptor_inv (ad sample_start)"
  using sys_inv_init [OF sample_start_init] by (simp add: sys_inv_def)

lemma inv_transition_state:
  assumes "adaptor_inv s" "state_of s k = st" "st \<noteq> UNKNOWN" "edge st new" "new \<noteq> UNKNOWN"
  shows "adaptor_inv (transition k new s)"
proof -
  from assms(2,3) obtain t where "find_thread s k = Some t" "state t = st" by (rule state_of_someE)
  with assms show ?thesis by (intro inv_transition [of _ _ t]) simp_all
qed

lemma inv_sample_bufn: "adaptor_inv sample_bufn"
proof -
  let ?s0 = "snd (pre_alloc_core 1 False True (exec_call 1 (Start_Dedicated 1 10) (ad sample_start)))"
  let ?s1 = "transition 1 THREAD_BUFN_THROW ?s0"
  let ?s2 = "transition 1 THREAD_BUFN_WAIT ?s1"
  have "adaptor_inv ?s0"
    by (rule step_ok_inv [OF step_ok_trans [OF step_ok_exec_call step_ok_pre_alloc] inv_sample_start])
       simp
  moreover have "state_of ?s0 1 = THREAD_ALLOC" by code_simp
  ultimately have "adaptor_inv ?s1" by (rule inv_transition_state) simp_all
  moreover have "state_of ?s1 1 = THREAD_BUFN_THROW" by code_simp
  ultimately have "adaptor_inv ?s2" by (rule inv_transition_state) simp_all
  moreover have "state_of ?s2 1 = THREAD_BUFN_WAIT" by code_simp
  ultimately show ?thesis unfolding sample_bufn_def by (rule inv_transition_state) simp_all
qed

lemma deadlock_splits_highest_example:
  "fst (is_in_deadlock sample_bufn None) \<and>
   state_of (check_and_update_for_bufn None sample_bufn) 1 = THREAD_SPLIT_THROW"
proof -
  have d: "fst (is_in_deadlock sample_bufn None)" by code_simp
  have keys: "om_keys (threads sample_bufn) = [1]" by code_simp
  have b: "state_of sample_bufn 1 = THREAD_BUFN" by code_simp
  have one: "find_thread sample_bufn k = Some t \<Longrightarrow> k = 1" for k t
    using om_find_Some_key [of "threads sample_bufn" k t] keys by (simp add: find_thread_def)
  have "map_option task_id (find_thread sample_bufn 1) = Some 10" by code_simp
  then have tasks: "find_thread sample_bufn k = Some t \<Longrightarrow> task_id t = 10" for k t
    using one [of k t] by auto
  have nb: "state_of sample_bufn k \<noteq> THREAD_BLOCKED" for k
    using one [of k] b by (cases "find_thread sample_bufn k") (auto simp: state_of_def)
  have "\<exists>k. highest_among (\<lambda>t. state t = THREAD_BUFN) sample_bufn
               (priorities (check_and_update_for_bufn None sample_bufn)) k \<and>
             (\<forall>k'. state_of (check_and_update_for_bufn None sample_bufn) k' =
                 (if k' = k then THREAD_SPLIT_THROW else state_of sample_bufn k'))"
    by (rule deadlock_splits_highest [OF inv_sample_bufn d nb b]) (use tasks in fastforce)
  then obtain k where "highest_among (\<lambda>t. state t = THREAD_BUFN) sample_bufn
      (priorities (check_and_update_for_bufn None sample_bufn)) k"
    and st: "state_of (check_and_update_for_bufn None sample_bufn) k = THREAD_SPLIT_THROW" by auto
  then have "k = 1" using one by (auto simp: highest_among_def)
  with d st show ?thesis by simp
qed

text \<open>
  C8: When memory is freed, the most important blocked thread runs next: if a thread is blocked on
  the same kind of memory, the one with the highest priority becomes running, and no other thread
  changes state.
\<close>

theorem wake_next_highest:
  assumes "adaptor_inv s" "find_thread s b = Some t" "state t = THREAD_BLOCKED" "is_cpu_alloc t = cpu"
  shows "\<exists>k. highest_among (\<lambda>t. state t = THREAD_BLOCKED \<and> cpu = is_cpu_alloc t) s
               (priorities (wake_next_highest_priority_blocked cpu s)) k \<and>
             (\<forall>tid. state_of (wake_next_highest_priority_blocked cpu s) tid =
                (if tid = k then THREAD_RUNNING else state_of s tid))"
  using wake_next_states [OF assms] by metis

theorem wake_next_highest_witness:
  "\<exists>k. state_of (wake_next_highest_priority_blocked False sample_both) k = THREAD_RUNNING \<and>
       state_of sample_both k = THREAD_BLOCKED"
proof -
  have "state_of sample_both 1 = THREAD_BLOCKED" by code_simp
  then obtain t where t: "find_thread sample_both 1 = Some t" "state t = THREAD_BLOCKED"
    by (rule state_of_someE) simp
  have "map_option is_cpu_alloc (find_thread sample_both 1) = Some False" by code_simp
  with t have "is_cpu_alloc t = False" by simp
  from wake_next_highest [OF inv_sample_both t this] show ?thesis
    by (auto simp: highest_among_def state_of_def)
qed

section \<open>A free that races with an allocation\<close>

lemma mark_fold:
  "find_thread (fold (\<lambda>k s. case find_thread s k of
                   None \<Rightarrow> s
                 | Some t \<Rightarrow>
                     if thread_id t \<noteq> tid \<and> state t = THREAD_ALLOC \<and> cpu = is_cpu_alloc t
                     then transition k THREAD_ALLOC_FREE s else s) ks s) k =
     map_option (\<lambda>t. if k \<in> set ks \<and> thread_id t \<noteq> tid \<and> state t = THREAD_ALLOC \<and> cpu = is_cpu_alloc t
                     then t\<lparr>state := THREAD_ALLOC_FREE\<rparr> else t) (find_thread s k)"
proof (induction ks arbitrary: s)
  case (Cons k' ks)
  show ?case
    by (cases "find_thread s k'"; cases "find_thread s k")
       (auto simp: Cons.IH find_transition)
qed (simp add: option.map_ident)

lemma find_mark_alloc_free:
  "find_thread (mark_alloc_free tid cpu s) k =
     map_option (\<lambda>t. if thread_id t \<noteq> tid \<and> state t = THREAD_ALLOC \<and> cpu = is_cpu_alloc t
                     then t\<lparr>state := THREAD_ALLOC_FREE\<rparr> else t) (find_thread s k)"
proof (cases "k \<in> set (om_keys (threads s))")
  case False
  then have "find_thread s k = None" by (simp add: find_thread_def om_find_None_iff)
  then show ?thesis by (simp add: mark_alloc_free_def mark_fold)
qed (simp add: mark_alloc_free_def mark_fold)

lemma find_record_gpu_dealloc:
  "find_thread s k = Some t \<Longrightarrow> \<exists>m. find_thread (record_gpu_dealloc tid cpu n s) k = Some (t\<lparr>metrics := m\<rparr>)"
proof -
  assume t: "find_thread s k = Some t"
  have same: "\<exists>m. u = u\<lparr>metrics := m\<rparr>" for u :: full_thread_state
    by (rule exI [of _ "metrics u"]) simp
  show ?thesis
    using t same by (cases "find_thread s tid") (auto simp: record_gpu_dealloc_def Let_def)
qed

lemma wake_next_other:
  assumes "adaptor_inv s" "find_thread s k = Some t" "state t \<noteq> THREAD_BLOCKED"
  shows "find_thread (wake_next_highest_priority_blocked cpu s) k = Some t"
  using assms(1)
proof (cases rule: wake_next_cases [where cpu = cpu])
  case (none ps)
  then show ?thesis using assms(2) by simp
next
  case (some ps k')
  then have "k' \<noteq> k" using assms(2,3) by (auto simp: highest_among_def)
  with some(2) assms(2) show ?thesis by (simp add: find_notify find_transition)
qed

lemma check_and_update_keeps:
  assumes "adaptor_inv s" "state_of s k \<noteq> THREAD_BLOCKED" "state_of s k \<noteq> THREAD_BUFN"
  shows "state_of (check_and_update_for_bufn java s) k = state_of s k"
proof -
  have inv1: "adaptor_inv (roll_back_lowest_blocked s)" using step_ok_roll_back assms(1) by (rule step_ok_inv)
  have rb: "state_of (roll_back_lowest_blocked s) k = state_of s k"
    using assms(1)
  proof (cases rule: roll_back_cases)
    case (some ps k')
    then have "k \<noteq> k'" using assms(2) by (auto simp: lowest_among_def state_of_def)
    with some(2) show ?thesis
      by (simp add: state_of_def find_notify find_transition find_modify)
  qed simp
  then have "state_of (split_highest_bufn (roll_back_lowest_blocked s)) k = state_of s k"
    using split_keeps_other_states [OF inv1] assms(3) by simp
  with rb show ?thesis by (simp add: check_and_update_for_bufn_def case_prod_beta Let_def)
qed

text \<open>
  C5: A free is never missed by an allocation that is under way. If a thread is allocating when
  another thread frees memory of the same kind, and its allocation then fails for lack of memory,
  the allocation is retried at once: the failure handler returns true and leaves the thread
  running instead of blocking it.
\<close>

theorem free_during_alloc_retries:
  assumes "adaptor_inv s" "find_thread s k = Some t" "k \<noteq> me"
    and "state t = THREAD_ALLOC" "is_cpu_alloc t = cpu"
  shows "fst (post_alloc_failed_core k cpu True blocking False (dealloc_core me cpu n s)) = Ret True \<and>
         state_of (snd (post_alloc_failed_core k cpu True blocking False (dealloc_core me cpu n s))) k =
           THREAD_RUNNING"
proof -
  let ?s1 = "record_gpu_dealloc me cpu n s"
  let ?s2 = "mark_alloc_free me cpu ?s1"
  let ?s3 = "dealloc_core me cpu n s"
  from find_record_gpu_dealloc [OF assms(2)] obtain m where f1: "find_thread ?s1 k = Some (t\<lparr>metrics := m\<rparr>)"
    by blast
  have "thread_id t = k" using inv_thread [OF assms(1,2)] by (simp add: thread_ok_def)
  with f1 assms(3-5) have f2: "find_thread ?s2 k = Some (t\<lparr>metrics := m, state := THREAD_ALLOC_FREE\<rparr>)"
    by (simp add: find_mark_alloc_free)
  have inv2: "adaptor_inv ?s2"
    using step_ok_trans [OF step_ok_record_dealloc step_ok_mark_alloc_free] assms(1) by (rule step_ok_inv)
  have f3: "find_thread ?s3 k = Some (t\<lparr>metrics := m, state := THREAD_ALLOC_FREE\<rparr>)"
    unfolding dealloc_core_def by (rule wake_next_other [OF inv2 f2]) simp
  have inv3: "adaptor_inv ?s3" using step_ok_dealloc assms(1) by (rule step_ok_inv)
  let ?s4 = "transition k THREAD_RUNNING ?s3"
  have inv4: "adaptor_inv ?s4" by (rule inv_transition [OF inv3 f3]) simp_all
  have "state_of ?s4 k = THREAD_RUNNING" using f3 by (simp add: state_of_def find_transition)
  then have "state_of (check_and_update_for_bufn_state_machine_only ?s4) k = THREAD_RUNNING"
    using check_and_update_keeps [OF inv4, of k None]
    by (simp add: check_and_update_for_bufn_state_machine_only_def)
  then show ?thesis using f3 assms(5) by (simp add: post_alloc_failed_core_def)
qed

text \<open>Both threads allocating.\<close>

definition sample_allocating :: adaptor where
  "sample_allocating = snd (pre_alloc_core 2 False True (snd (pre_alloc_core 1 False True sample_two)))"

lemma inv_sample_allocating: "adaptor_inv sample_allocating"
proof -
  have "adaptor_inv sample_two" using reachable_inv [OF sample_two_reachable] by (simp add: sys_inv_def)
  then show ?thesis
    unfolding sample_allocating_def
    by (rule step_ok_inv [OF step_ok_trans [OF step_ok_pre_alloc step_ok_pre_alloc]])
qed

theorem free_during_alloc_retries_witness:
  "fst (post_alloc_failed_core 2 False True True False (dealloc_core 1 False 8 sample_allocating)) = Ret True"
proof -
  have "map_option (\<lambda>t. (state t, is_cpu_alloc t)) (find_thread sample_allocating 2) =
      Some (THREAD_ALLOC, False)" by code_simp
  then obtain t where "find_thread sample_allocating 2 = Some t" "state t = THREAD_ALLOC"
    "is_cpu_alloc t = False" by auto
  with free_during_alloc_retries [OF inv_sample_allocating this(1), of 1 False True 8]
  show ?thesis by simp
qed

section \<open>Metrics\<close>

definition thread_metric :: "(task_metrics \<Rightarrow> int) \<Rightarrow> adaptor \<Rightarrow> thread_id \<Rightarrow> int" where
  "thread_metric metric s tid = (case find_thread s tid of None \<Rightarrow> 0 | Some t \<Rightarrow> metric (metrics t))"

lemma get_metric_eq:
  "get_metric tsk metric s =
     (case om_find (task_to_threads s) tsk of None \<Rightarrow> 0
      | Some tids \<Rightarrow> sum_list (map (thread_metric metric s) tids))
     + (case om_find (task_to_metrics s) tsk of None \<Rightarrow> 0 | Some m \<Rightarrow> metric m)"
  unfolding get_metric_def thread_metric_def [abs_def] by (rule refl)

lemma take_thread_metric_eq:
  "fst (take_thread_metric metric reset tid (ret, s)) = ret + thread_metric metric s tid"
  "thread_metric metric (snd (take_thread_metric metric reset tid (ret, s))) k =
     (if k = tid then (case find_thread s k of None \<Rightarrow> 0 | Some t \<Rightarrow> metric (reset (metrics t)))
      else thread_metric metric s k)"
  "task_to_threads (snd (take_thread_metric metric reset tid (ret, s))) = task_to_threads s"
  "task_to_metrics (snd (take_thread_metric metric reset tid (ret, s))) = task_to_metrics s"
  by (auto simp: take_thread_metric_def thread_metric_def split: option.splits)

lemma take_thread_metrics_fields:
  "task_to_threads (snd (fold (take_thread_metric metric reset) tids rs)) = task_to_threads (snd rs)"
  "task_to_metrics (snd (fold (take_thread_metric metric reset) tids rs)) = task_to_metrics (snd rs)"
  by (induction tids arbitrary: rs) (auto simp: take_thread_metric_def split: prod.splits option.splits)

lemma take_thread_metrics_fold:
  assumes "\<And>m. metric (reset m) = 0" "distinct tids"
  shows "fst (fold (take_thread_metric metric reset) tids (ret, s)) =
           ret + sum_list (map (thread_metric metric s) tids) \<and>
         (k \<in> set tids \<or> thread_metric metric s k = 0 \<longrightarrow>
           thread_metric metric (snd (fold (take_thread_metric metric reset) tids (ret, s))) k = 0)"
  using assms(2)
proof (induction tids arbitrary: ret s)
  case (Cons tid tids)
  let ?r1 = "ret + thread_metric metric s tid" and ?s1 = "snd (take_thread_metric metric reset tid (ret, s))"
  have step: "take_thread_metric metric reset tid (ret, s) = (?r1, ?s1)"
    by (simp add: prod_eq_iff take_thread_metric_eq)
  have m1: "thread_metric metric ?s1 k = (if k = tid then 0 else thread_metric metric s k)" for k
    using assms(1) by (simp add: take_thread_metric_eq split: option.split)
  have "sum_list (map (thread_metric metric ?s1) tids) = sum_list (map (thread_metric metric s) tids)"
    using Cons.prems by (intro arg_cong [of _ _ sum_list] map_cong) (auto simp: m1)
  with Cons.IH [of ?r1 ?s1] Cons.prems step m1 [of k] show ?case
    by (cases "k = tid") simp_all
qed simp

text \<open>
  Reading a metric of a task returns what the task has accumulated, on its own record and on
  all its threads, and resets it: the value read is the value of \<open>get_metric\<close> before the call, and
  \<open>get_metric\<close> gives zero after it, so that no occurrence is counted twice or lost.
\<close>

lemma metric_read_and_reset:
  assumes "\<And>m. metric (reset m) = 0"
    and "\<And>tids. om_find (task_to_threads s) tsk = Some tids \<Longrightarrow> distinct tids"
  shows "fst (get_and_reset_metric tsk metric reset s) = get_metric tsk metric s \<and>
         get_metric tsk metric (snd (get_and_reset_metric tsk metric reset s)) = 0"
proof (cases "om_find (task_to_threads s) tsk")
  case None
  then show ?thesis
    using assms(1) by (simp add: get_and_reset_metric_def get_metric_def take_task_metric_def
        om_find_set split: option.split)
next
  case (Some tids)
  let ?r = "fold (take_thread_metric metric reset) tids (0, s)"
  note d = assms(2) [OF Some]
  have "sum_list (map (thread_metric metric (snd ?r)) tids) = sum_list (map (\<lambda>_. 0) tids)"
    using take_thread_metrics_fold [where metric = metric and reset = reset, OF assms(1) d]
    by (intro arg_cong [of _ _ sum_list] map_cong) auto
  then have zero: "sum_list (map (thread_metric metric (snd ?r)) tids) = 0" by simp
  have "thread_metric metric (u\<lparr>task_to_metrics := m\<rparr>) = thread_metric metric u" for u m
    by (auto simp: thread_metric_def)
  moreover have "fst ?r = sum_list (map (thread_metric metric s) tids)"
    using take_thread_metrics_fold [where metric = metric and reset = reset, OF assms(1) d, of 0] by simp
  ultimately show ?thesis
    using Some zero assms(1) take_thread_metrics_fields [of metric reset tids "(0, s)"]
    by (cases ?r)
       (auto simp: get_and_reset_metric_def get_metric_eq take_task_metric_def om_find_set
          split: option.splits)
qed

text \<open>
  Checkpointing loses nothing: when a dedicated thread's metrics are moved to the record of
  its task, the total of every additive metric of the task stays the same.
\<close>

theorem checkpoint_keeps_totals:
  assumes "find_thread s k = Some t" "task_id t = tsk" "tsk \<ge> 0"
    and "om_find (task_to_threads s) tsk = Some tids" "k \<in> set tids" "distinct tids"
    and "om_ok (task_to_metrics s)"
    and "\<And>a b. metric (metrics_add a b) = metric a + metric b" "metric new_metrics = 0"
  shows "get_metric tsk metric (checkpoint_metrics k s) = get_metric tsk metric s"
proof -
  let ?s1 = "add_task_metrics (metrics t) tsk s"
  have cp: "checkpoint_metrics k s = put_thread k (t\<lparr>metrics := new_metrics\<rparr>) ?s1"
    using assms(1-3) by (simp add: checkpoint_metrics_def)
  have find1: "find_thread ?s1 = find_thread s" by (simp add: add_task_metrics_def)
  have tm: "thread_metric metric (checkpoint_metrics k s) u =
      (if u = k then 0 else thread_metric metric s u)" for u
    unfolding cp using assms(1,9) by (simp add: thread_metric_def find1)
  have remove: "sum_list (map f tids) = f k + sum_list (map f (remove1 k tids))" for f :: "thread_id \<Rightarrow> int"
    using assms(5) by (rule sum_list_map_remove1)
  have "sum_list (map (thread_metric metric (checkpoint_metrics k s)) (remove1 k tids)) =
      sum_list (map (thread_metric metric s) (remove1 k tids))"
    using assms(6) by (intro arg_cong [of _ _ sum_list] map_cong) (auto simp: tm)
  then have "sum_list (map (thread_metric metric (checkpoint_metrics k s)) tids) =
      sum_list (map (thread_metric metric s) tids) - metric (metrics t)"
    using remove [of "thread_metric metric (checkpoint_metrics k s)"] remove [of "thread_metric metric s"]
      assms(1) tm [of k] by (simp add: thread_metric_def [of metric s k])
  moreover have "om_find (task_to_metrics (checkpoint_metrics k s)) tsk =
      Some (metrics_add (task_metrics_of s tsk) (metrics t))"
    using assms(7) unfolding cp
    by (simp add: add_task_metrics_def om_find_set om_find_emplace split: option.split)
  moreover have "task_to_threads (checkpoint_metrics k s) = task_to_threads s" unfolding cp by simp
  ultimately show ?thesis
    using assms(4,8,9) by (simp add: get_metric_eq task_metrics_of_def split: option.split)
qed

theorem checkpoint_keeps_totals_witness:
  "get_metric 10 num_times_retry_throw (checkpoint_metrics 1 (snd (throw_retry_oom 1 (ad sample_wait)))) = 1"
proof -
  let ?s = "snd (throw_retry_oom 1 (ad sample_wait))"
  have tids: "om_find (task_to_threads ?s) 10 = Some [1]" by code_simp
  have one: "get_metric 10 num_times_retry_throw ?s = 1" by code_simp
  have empty: "task_to_metrics ?s = []" by code_simp
  have "map_option task_id (find_thread ?s 1) = Some 10" by code_simp
  then obtain t where t: "find_thread ?s 1 = Some t" "task_id t = 10" by auto
  have "get_metric 10 num_times_retry_throw (checkpoint_metrics 1 ?s) = get_metric 10 num_times_retry_throw ?s"
    by (rule checkpoint_keeps_totals [OF t _ tids])
       (simp_all add: empty om_ok_def om_keys_def metrics_add_def new_metrics_def)
  with one show ?thesis by simp
qed

section \<open>A deadlock that is not broken\<close>

text \<open>
  A pool thread that works for a task without a dedicated thread: the dedicated thread 1 of task
  10 and the pool thread 2, which works for the tasks 10 and 30, are both blocked until further
  notice. The code compares the number of dedicated tasks with the number of tasks that are
  blocked until further notice, 1 and 2 here, and tells nobody to split.
\<close>

definition to_bufn :: "thread_id \<Rightarrow> adaptor \<Rightarrow> adaptor" where
  "to_bufn k s = transition k THREAD_BUFN (transition k THREAD_BUFN_WAIT (transition k THREAD_BUFN_THROW
     (snd (pre_alloc_core k False True s))))"

definition sample_pool :: adaptor where
  "sample_pool = to_bufn 2 (to_bufn 1 (exec_call 2 (Pool_Working False 2 [10, 30])
     (exec_call 1 (Start_Dedicated 1 10) (ad sample_start))))"

text \<open>
  A deadlock can stay unbroken. In this state the tasks are deadlocked, both threads are
  blocked until further notice, and the update changes neither of them.
\<close>

lemma unbroken_deadlock:
  "fst (is_in_deadlock sample_pool None) \<and>
   map (state_of sample_pool) [1, 2] = [THREAD_BUFN, THREAD_BUFN] \<and>
   map (state_of (check_and_update_for_bufn None sample_pool)) [1, 2] = [THREAD_BUFN, THREAD_BUFN]"
  by code_simp

end
