(* ===== verification/Chunked256.thy ===== *)
theory Chunked256
  imports Prelude
begin

text \<open>
  256-bit integers in four 64-bit chunks (struct \<^verbatim>\<open>chunked256\<close> of
  \<^verbatim>\<open>decimal_utils.cu\<close>), least significant chunk first: addition, negation, comparison,
  schoolbook multiplication and bitwise long division, and their meaning as arithmetic modulo
  \<open>2 ^ 256\<close>. An \<^verbatim>\<open>__int128_t\<close> is a 128-bit word read with \<open>sint\<close>; a loop over the chunks is a
  recursion over the list.
\<close>

unbundle bit_operations_syntax

type_synonym uint64 = "64 word"
type_synonym int128 = "128 word"
type_synonym chunked256 = "uint64 list"

section \<open>The structure\<close>

definition wf256 :: "chunked256 \<Rightarrow> bool" where
  "wf256 c \<longleftrightarrow> length c = 4"

text \<open>The constructors: sign extension of a 128-bit value, and four chunks from the top down.\<close>

definition from_int128 :: "int128 \<Rightarrow> chunked256" where
  "from_int128 x =
     (let x_shifted = signed_drop_bit 64 x;
          top = ucast (signed_drop_bit 64 x_shifted)
      in [ucast x, ucast x_shifted, top, top])"

definition from_chunks :: "uint64 \<Rightarrow> uint64 \<Rightarrow> uint64 \<Rightarrow> uint64 \<Rightarrow> chunked256" where
  "from_chunks a b c d = [d, c, b, a]"

definition sign256 :: "chunked256 \<Rightarrow> int" where
  "sign256 c = sint (signed_drop_bit 63 (c ! 3))"

fun add_loop :: "int128 \<Rightarrow> uint64 list \<Rightarrow> uint64 list \<Rightarrow> uint64 list" where
  "add_loop carry_and_sum (x # xs) (y # ys) =
     (let s = carry_and_sum + (ucast x + ucast y)
      in ucast s # add_loop (drop_bit 64 s) xs ys)"
| "add_loop _ _ _ = []"

definition add256 :: "chunked256 \<Rightarrow> chunked256 \<Rightarrow> chunked256" where
  "add256 this a = add_loop 0 this a"

definition add_int :: "chunked256 \<Rightarrow> int \<Rightarrow> chunked256" where
  "add_int this a = add256 this (from_int128 (word_of_int a))"

definition negate256 :: "chunked256 \<Rightarrow> chunked256" where
  "negate256 this = add_int (map NOT this) 1"

text \<open>The comparison runs from the top chunk down.\<close>

fun lt_loop :: "uint64 list \<Rightarrow> uint64 list \<Rightarrow> bool" where
  "lt_loop (x # xs) (y # ys) = (if x < y then True else if x > y then False else lt_loop xs ys)"
| "lt_loop _ _ = False"

definition lt_unsigned :: "chunked256 \<Rightarrow> chunked256 \<Rightarrow> bool" where
  "lt_unsigned this other = lt_loop (rev this) (rev other)"

definition gte_unsigned :: "chunked256 \<Rightarrow> chunked256 \<Rightarrow> bool" where
  "gte_unsigned this other \<longleftrightarrow> \<not> lt_unsigned this other"

definition as_128_bits :: "chunked256 \<Rightarrow> int128" where
  "as_128_bits this = push_bit 64 (ucast (this ! 1)) OR ucast (this ! 0)"

definition as_64_bits :: "chunked256 \<Rightarrow> uint64" where
  "as_64_bits this = this ! 0"

section \<open>Multiplication\<close>

text \<open>One row: multiply the chunks of \<open>a\<close> by one chunk of \<open>b\<close> and add to the result so far.\<close>

fun first_row :: "uint64 \<Rightarrow> uint64 \<Rightarrow> uint64 list \<Rightarrow> uint64 list" where
  "first_row b carry [] = []"
| "first_row b carry (a # as) =
     (let mul = (ucast a :: int128) * ucast b + ucast carry
      in ucast mul # first_row b (ucast (drop_bit 64 mul)) as)"

fun next_row :: "uint64 \<Rightarrow> uint64 \<Rightarrow> uint64 list \<Rightarrow> uint64 list \<Rightarrow> uint64 list" where
  "next_row b carry (a # as) (r # rs) =
     (let mul = (ucast a :: int128) * ucast b + ucast r + ucast carry
      in ucast mul # next_row b (ucast (drop_bit 64 mul)) as rs)"
| "next_row b carry _ rs = rs"

fun rows_loop :: "nat list \<Rightarrow> chunked256 \<Rightarrow> chunked256 \<Rightarrow> uint64 list \<Rightarrow> uint64 list" where
  "rows_loop [] a b r = r"
| "rows_loop (b_idx # idxs) a b r =
     rows_loop idxs a b
       (take b_idx r @ next_row (b ! b_idx) 0 (take (4 - b_idx) a) (drop b_idx r))"

definition multiply256 :: "chunked256 \<Rightarrow> chunked256 \<Rightarrow> chunked256" where
  "multiply256 a b = rows_loop [1, 2, 3] a b (first_row (b ! 0) 0 a)"

section \<open>Division\<close>

record divmod256 =
  quotient :: chunked256
  remainder :: int128

text \<open>
  Long division, one bit at a time from bit 255 down; the argument is the number of bits left.
  The comparison and the subtraction of the 128-bit values are unsigned, as the code's mixed
  operands make them.
\<close>

fun divide_loop :: "nat \<Rightarrow> chunked256 \<Rightarrow> int128 \<Rightarrow> chunked256 \<Rightarrow> int128 \<Rightarrow> chunked256 \<times> int128" where
  "divide_loop 0 n d q r = (q, r)"
| "divide_loop (Suc i) n d q r =
     (let block = i div 64;
          bit_no = i mod 64;
          read = drop_bit bit_no (n ! block) AND 1;
          r1 = push_bit 1 r OR ucast read
      in if d \<le> r1
         then divide_loop i n d (q[block := q ! block OR push_bit bit_no 1]) (r1 - d)
         else divide_loop i n d q r1)"

definition divide_unsigned :: "chunked256 \<Rightarrow> int128 \<Rightarrow> divmod256" where
  "divide_unsigned n d =
     (case divide_loop 256 n d (from_int128 0) 0 of (q, r) \<Rightarrow> \<lparr>quotient = q, remainder = r\<rparr>)"

definition divide256 :: "chunked256 \<Rightarrow> int128 \<Rightarrow> divmod256" where
  "divide256 n d =
     (let is_n_neg = sign256 n < 0;
          is_d_neg = d <s 0;
          abs_n = (if is_n_neg then negate256 n else n);
          abs_d = (if is_d_neg then - d else d);
          result = divide_unsigned abs_n abs_d;
          result = (if is_d_neg \<noteq> is_n_neg
                    then result\<lparr>quotient := negate256 (quotient result)\<rparr> else result)
      in if is_n_neg then result\<lparr>remainder := - remainder result\<rparr> else result)"

text \<open>\<open>shl1 r\<close> is \<^verbatim>\<open>r << 1\<close>.\<close>

definition shl1 :: "int128 \<Rightarrow> int128" where
  "shl1 r = push_bit 1 r"

definition round_from_remainder :: "chunked256 \<Rightarrow> int128 \<Rightarrow> chunked256 \<Rightarrow> int128 \<Rightarrow> chunked256" where
  "round_from_remainder q r n d =
     (let double_remainder = shl1 r;
          need_inc = (signed_drop_bit 1 double_remainder \<noteq> r \<or>
            (if d <s 0 then - d else d) \<le>s
              (if double_remainder <s 0 then - double_remainder else double_remainder));
          round_down = ((sign256 n < 0) \<noteq> (d <s 0));
          round_inc = (if need_inc then (if round_down then -1 else 1) else 0)
      in add_int q round_inc)"

definition divide_and_round :: "chunked256 \<Rightarrow> int128 \<Rightarrow> chunked256" where
  "divide_and_round n d =
     (let div_result = divide256 n d
      in round_from_remainder (quotient div_result) (remainder div_result) n d)"

definition integer_divide :: "chunked256 \<Rightarrow> int128 \<Rightarrow> chunked256" where
  "integer_divide n d = quotient (divide256 n d)"

section \<open>The value of a list of chunks\<close>

text \<open>\<open>base\<close> is \<open>2 ^ 64\<close>, kept as a constant so that the proofs do not expand it.\<close>

definition base :: int where
  "base = 2 ^ 64"

fun uval :: "uint64 list \<Rightarrow> int" where
  "uval [] = 0"
| "uval (c # cs) = uint c + base * uval cs"

definition ival :: "chunked256 \<Rightarrow> int" where
  "ival c = (if 2 * uval c < base ^ 4 then uval c else uval c - base ^ 4)"

lemma base_pos [simp]: "0 < base" "0 \<le> base" "1 < base" "base \<noteq> 0"
  by (simp_all add: base_def)

lemma base_ge: "2 \<le> base"
  by (simp add: base_def)

lemma base_pow: "base ^ 2 = 2 ^ 128" "base ^ 4 = 2 ^ 256"
  by (simp_all add: base_def)

lemma uint64_bounds [simp]: "0 \<le> uint (c :: uint64)" "uint (c :: uint64) < base"
  using unsigned_less [of c, where ?'a = int] by (simp_all add: base_def)

lemma uint128_bounds [simp]: "0 \<le> uint (w :: int128)" "uint (w :: int128) < base * base"
  using unsigned_less [of w, where ?'a = int] by (simp_all add: base_def)

lemma add_mult_less: "0 \<le> a \<Longrightarrow> a < M \<Longrightarrow> b < N \<Longrightarrow> 0 \<le> b \<Longrightarrow> a + M * b < M * (N :: int)"
proof -
  assume "0 \<le> a" "a < M" "b < N" "0 \<le> b"
  then have "M * b \<le> M * (N - 1)" by (intro mult_left_mono) auto
  then show ?thesis using \<open>a < M\<close> by (simp add: right_diff_distrib)
qed

lemma uval_range: "0 \<le> uval cs \<and> uval cs < base ^ length cs"
  by (induction cs) (auto intro: add_mult_less)

lemma uval_wf: "wf256 c \<Longrightarrow> 0 \<le> uval c \<and> uval c < base ^ 4"
  using uval_range [of c] by (simp add: wf256_def)

lemma uval_append: "uval (xs @ ys) = uval xs + base ^ length xs * uval ys"
  by (induction xs) (simp_all add: algebra_simps)

text \<open>A 128-bit result splits into a chunk and a carry.\<close>

lemma uint_ucast_up [simp]: "uint (ucast (x :: uint64) :: int128) = uint x"
proof -
  have "uint x < 2 ^ 128" using uint64_bounds(2) [of x] by (simp add: base_def)
  then show ?thesis by (simp add: unsigned_ucast_eq take_bit_int_eq_self)
qed

lemma uint_drop_64: "uint (drop_bit 64 (w :: int128)) = uint w div base"
proof -
  have "take_bit 128 (uint w) = uint w"
    by (rule take_bit_int_eq_self) (use uint128_bounds [of w] in \<open>auto simp: base_def\<close>)
  then show ?thesis unfolding unsigned_drop_bit_eq by (simp add: drop_bit_eq_div base_def)
qed

lemma uint_ucast_down: "uint (ucast (w :: int128) :: uint64) = uint w mod base"
  by (simp add: unsigned_ucast_eq take_bit_eq_mod base_def)

lemma uint_add128: "uint a + uint b < base * base \<Longrightarrow> uint (a + b) = uint a + uint (b :: int128)"
  by (simp add: uint_word_ariths base_def)

lemma uint_mult128: "uint a * uint b < base * base \<Longrightarrow> uint (a * b) = uint a * uint (b :: int128)"
  by (simp add: uint_word_ariths base_def)

lemma mod_split: "0 \<le> lo \<Longrightarrow> lo < M \<Longrightarrow> 0 \<le> N \<Longrightarrow> (lo + M * hi) mod (M * N) = lo + M * (hi mod (N :: int))"
  by (simp add: zmod_zmult2_eq)

lemma div_less_base: "x < base * y \<Longrightarrow> x div base < y"
proof (rule ccontr)
  assume *: "x < base * y" "\<not> x div base < y"
  then have "base * y \<le> base * (x div base)" by (intro mult_left_mono) simp_all
  also have "\<dots> \<le> x" using pos_mod_sign [OF base_pos(1), of x] mult_div_mod_eq [of base x] by linarith
  finally show False using *(1) by simp
qed

lemma add_loop_length: "length xs = length ys \<Longrightarrow> length (add_loop c xs ys) = length xs"
  by (induction c xs ys rule: add_loop.induct) (simp_all add: Let_def)

lemma add_loop_val:
  "length xs = length ys \<Longrightarrow> uint c \<le> 1 \<Longrightarrow>
     uval (add_loop c xs ys) = (uint c + uval xs + uval ys) mod base ^ length xs"
proof (induction c xs ys rule: add_loop.induct)
  case (1 c x xs y ys)
  define s where "s = c + (ucast x + ucast y)"
  have two: "2 * base \<le> base * base" using base_ge by (simp add: mult_right_mono)
  have xy: "uint x + uint y \<le> 2 * base - 2"
    using uint64_bounds(2) [of x] uint64_bounds(2) [of y] by linarith
  then have "uint (ucast x :: int128) + uint (ucast y :: int128) < base * base"
    using two unfolding uint_ucast_up by linarith
  then have sum: "uint (ucast x + ucast y :: int128) = uint x + uint y"
    unfolding uint_ucast_up [symmetric] by (rule uint_add128)
  have "uint c + uint (ucast x + ucast y :: int128) < base * base"
    using 1(3) xy two unfolding sum by linarith
  then have s: "uint s = uint c + uint x + uint y"
    unfolding s_def by (subst uint_add128) (simp_all add: sum)
  then have "uint s < base * 2" using xy 1(3) by simp
  then have "uint (drop_bit 64 s) < 2" unfolding uint_drop_64 by (rule div_less_base)
  then have IH: "uval (add_loop (drop_bit 64 s) xs ys) =
      (uint s div base + uval xs + uval ys) mod base ^ length xs"
    using 1 by (simp add: s_def uint_drop_64)
  have "uint c + uval (x # xs) + uval (y # ys) =
      uint s mod base + base * (uint s div base + uval xs + uval ys)"
    using s by (simp add: distrib_left)
  moreover have "(uint s mod base + base * (uint s div base + uval xs + uval ys)) mod
      (base * base ^ length xs) =
      uint s mod base + base * ((uint s div base + uval xs + uval ys) mod base ^ length xs)"
    by (rule mod_split) simp_all
  ultimately show ?case
    using IH by (simp add: Let_def s_def [symmetric] uint_ucast_down del: uval.simps(2))
      (simp add: uint_ucast_down)
qed simp_all

lemma uval_add256: "wf256 a \<Longrightarrow> wf256 b \<Longrightarrow> uval (add256 a b) = (uval a + uval b) mod base ^ 4"
  using add_loop_val [of a b 0] by (simp add: wf256_def add256_def)

lemma wf_add256 [simp]: "wf256 a \<Longrightarrow> wf256 b \<Longrightarrow> wf256 (add256 a b)"
  by (simp add: wf256_def add256_def add_loop_length)

section \<open>Sign extension, negation, comparison\<close>

lemma sint128_bounds: "- (base * base) \<le> 2 * sint (w :: int128)" "2 * sint (w :: int128) < base * base"
  using sint_range_size [of w] by (simp_all add: word_size base_def)

lemma uint_sint128: "uint (w :: int128) = sint w mod (base * base)"
  by (simp add: uint_sint take_bit_eq_mod base_def)

lemma uint_ucast_sint: "uint (ucast (w :: int128) :: uint64) = sint w mod base"
  by (simp add: uint_ucast_down uint_sint128 mod_mod_cancel)

lemma sint_drop_64: "sint (signed_drop_bit 64 (w :: int128)) = sint w div base"
  unfolding sint_signed_drop_bit_eq by (simp add: drop_bit_eq_div base_def)

lemma wf_from_int128 [simp]: "wf256 (from_int128 x)"
  by (simp add: wf256_def from_int128_def Let_def)

lemma div_base_sign:
  assumes "- M \<le> x" "x < M" "0 < (M :: int)"
  shows "x div M = (if x < 0 then -1 else 0)"
proof (cases "x < 0")
  case True
  then show ?thesis using assms int_div_pos_eq [of x M "-1" "x + M"] by simp
qed (use assms in \<open>simp add: div_pos_pos_trivial\<close>)

lemma from_int128_uval: "uval (from_int128 x) = (if sint x < 0 then sint x + base ^ 4 else sint x)"
proof -
  define X where "X = sint x"
  have "- (base * base) \<le> 2 * X" "2 * X < base * base" using sint128_bounds [of x] by (simp_all add: X_def)
  then have "- (base * base) \<le> X" "X < base * base" by linarith+
  then have top: "X div base div base = (if X < 0 then -1 else 0)"
    by (subst zdiv_zmult2_eq [symmetric]) (simp_all add: div_base_sign)
  have lo: "X = X mod base + base * (X div base)" by simp
  have hi: "X div base = X div base mod base + base * (X div base div base)" by simp
  have val: "uval (from_int128 x) = X mod base + base * (X div base mod base) +
      base * base * (X div base div base mod base) * (1 + base)"
    unfolding from_int128_def Let_def uval.simps uint_ucast_sint sint_drop_64 X_def
    by (simp add: algebra_simps)
  show ?thesis
  proof (cases "X < 0")
    case True
    then have t: "X div base div base mod base = base - 1"
      using top base_ge by (simp add: zmod_minus1)
    have "X div base mod base = X div base + base" using hi top True by simp
    then have "uval (from_int128 x) = X + base * base + base * base * (base - 1) * (1 + base)"
      using val t lo by (simp add: algebra_simps)
    then show ?thesis using True by (simp add: X_def [symmetric] power4_eq_xxxx algebra_simps)
  next
    case False
    then show ?thesis using val top lo hi by (simp add: X_def [symmetric])
  qed
qed

lemma base_ne [simp]: "base ^ n \<noteq> 0" "0 < base ^ n" "0 \<le> base ^ n"
  by simp_all

lemma ival_mod: "wf256 c \<Longrightarrow> ival c mod base ^ 4 = uval c"
  using uval_wf [of c] by (simp add: ival_def mod_pos_pos_trivial)

lemma ival_range: "wf256 c \<Longrightarrow> - (base ^ 4) \<le> 2 * ival c \<and> 2 * ival c < base ^ 4"
  using uval_wf [of c] by (simp add: ival_def)

lemma base2_le: "base * base \<le> base ^ 4"
proof -
  have "base * base \<le> base * base * (base * base)"
    using base_ge mult_mono [of 1 base 1 base] by (simp add: mult_le_cancel_left1)
  then show ?thesis by (simp add: power4_eq_xxxx mult.assoc)
qed

lemma ival_from_int128 [simp]: "ival (from_int128 x) = sint x"
  using sint128_bounds [of x] base2_le unfolding ival_def from_int128_uval by auto

lemma uval_not: "uval (map NOT c) = base ^ length c - 1 - uval c"
proof (induction c)
  case (Cons x xs)
  have "uint (NOT x) = base - 1 - uint x"
  proof -
    have "take_bit 64 (uint x) = uint x"
      by (rule take_bit_int_eq_self) (use uint64_bounds [of x] in \<open>auto simp: base_def\<close>)
    then show ?thesis
      unfolding unsigned_not_eq by (simp add: take_bit_not_eq_mask_diff mask_eq_exp_minus_1 base_def)
  qed
  then show ?case by (simp add: Cons.IH right_diff_distrib)
qed simp

lemma sint_one128 [simp]: "sint (1 :: int128) = 1" "sint (- 1 :: int128) = - 1"
  by simp_all

lemma uval_negate:
  assumes "wf256 c"
  shows "uval (negate256 c) = (- uval c) mod base ^ 4"
proof -
  have wf: "wf256 (map NOT c)" using assms by (simp add: wf256_def)
  have "uval (negate256 c) = (uval (map NOT c) + uval (from_int128 1)) mod base ^ 4"
    using wf by (simp add: negate256_def add_int_def uval_add256)
  also have "uval (map NOT c) + uval (from_int128 1) = base ^ 4 - uval c"
    using assms by (simp add: uval_not from_int128_uval wf256_def)
  also have "(base ^ 4 - uval c) mod base ^ 4 = (- uval c) mod base ^ 4"
    by (simp add: mod_diff_left_eq [symmetric] del: mod_diff_left_eq)
  finally show ?thesis .
qed

lemma wf_negate [simp]: "wf256 c \<Longrightarrow> wf256 (negate256 c)"
  by (simp add: negate256_def add_int_def wf256_def [of "map NOT c"] wf256_def [of c])

lemma lt_loop_iff: "length xs = length ys \<Longrightarrow> lt_loop xs ys \<longleftrightarrow> uval (rev xs) < uval (rev ys)"
proof (induction xs ys rule: lt_loop.induct)
  case (1 x xs y ys)
  let ?X = "uval (rev xs)" and ?Y = "uval (rev ys)" and ?B = "base ^ length xs"
  have r: "0 \<le> ?X" "?X < ?B" "0 \<le> ?Y" "?Y < ?B"
    using uval_range [of "rev xs"] uval_range [of "rev ys"] 1(2) by auto
  have val: "uval (rev (x # xs)) = ?X + ?B * uint x" "uval (rev (y # ys)) = ?Y + ?B * uint y"
    using 1(2) by (simp_all add: uval_append)
  consider "x < y" | "y < x" | "x = y" by (metis linorder_less_linear)
  then show ?case
  proof cases
    case 1
    then have "uint x < uint y" by (simp add: word_less_def)
    then have "?X + ?B * uint x < ?B * uint y" using r by (intro add_mult_less) auto
    then show ?thesis using 1 r val by simp
  next
    case 2
    then have "uint y < uint x" by (simp add: word_less_def)
    then have "?Y + ?B * uint y < ?B * uint x" using r by (intro add_mult_less) auto
    then show ?thesis using 2 r val by simp
  next
    case 3
    then show ?thesis using 1 val by simp
  qed
qed simp_all

lemma lt_unsigned_iff: "wf256 a \<Longrightarrow> wf256 b \<Longrightarrow> lt_unsigned a b \<longleftrightarrow> uval a < uval b"
  using lt_loop_iff [of "rev a" "rev b"] by (simp add: lt_unsigned_def wf256_def)

lemma sint64_neg: "sint (w :: uint64) < 0 \<longleftrightarrow> base \<le> 2 * uint w"
proof -
  have b: "- base \<le> 2 * sint w" "2 * sint w < base"
    using sint_range_size [of w] by (simp_all add: word_size base_def)
  have "uint w = sint w mod base" by (simp add: uint_sint take_bit_eq_mod base_def)
  also have "\<dots> = (if sint w < 0 then sint w + base else sint w)"
  proof (cases "sint w < 0")
    case True
    then have "(sint w + base) mod base = sint w + base" using b by (intro mod_pos_pos_trivial) auto
    then show ?thesis using True by simp
  qed (use b in \<open>simp add: mod_pos_pos_trivial\<close>)
  finally show ?thesis using b by auto
qed

lemma sign256_val: "sign256 c = (if sint (c ! 3) < 0 then -1 else 0)"
proof -
  have "- (2 ^ 63) \<le> sint (c ! 3)" "sint (c ! 3) < 2 ^ 63"
    using sint_range_size [of "c ! 3"] by (simp_all add: word_size)
  then show ?thesis
    unfolding sign256_def sint_signed_drop_bit_eq drop_bit_eq_div by (intro div_base_sign) auto
qed

lemma wf256_cases:
  assumes "wf256 c"
  obtains a b e d where "c = [a, b, e, d]"
  using assms by (auto simp: wf256_def length_Suc_conv eval_nat_numeral)

lemma sign256_neg: assumes "wf256 c" shows "sign256 c < 0 \<longleftrightarrow> ival c < 0"
proof -
  from assms obtain l m h t where c: "c = [l, m, h, t]" by (rule wf256_cases)
  define low where "low = uval [l, m, h]"
  have low: "0 \<le> low" "low < base ^ 3"
    using uval_range [of "[l, m, h]"] by (simp_all add: low_def power3_eq_cube mult.assoc)
  have val: "2 * uval c = 2 * low + base ^ 3 * (2 * uint t)" "base ^ 4 = base ^ 3 * base"
    using uval_append [of "[l, m, h]" "[t]"] c
    by (simp_all add: low_def power3_eq_cube power4_eq_xxxx mult.assoc)
  have "base \<le> 2 * uint t \<longleftrightarrow> base ^ 4 \<le> 2 * uval c"
  proof
    assume "base \<le> 2 * uint t"
    then have "base ^ 3 * base \<le> base ^ 3 * (2 * uint t)" by (intro mult_left_mono) simp_all
    then show "base ^ 4 \<le> 2 * uval c" using low unfolding val by linarith
  next
    assume b: "base ^ 4 \<le> 2 * uval c"
    show "base \<le> 2 * uint t"
    proof (rule ccontr)
      assume "\<not> base \<le> 2 * uint t"
      moreover have "even base" by (simp add: base_def)
      ultimately have "2 * uint t \<le> base - 2" by presburger
      then have "base ^ 3 * (2 * uint t) \<le> base ^ 3 * (base - 2)" by (intro mult_left_mono) simp_all
      then show False using b low unfolding val right_diff_distrib by linarith
    qed
  qed
  moreover have "sign256 c < 0 \<longleftrightarrow> base \<le> 2 * uint t" by (simp add: sign256_val c sint64_neg)
  moreover have "ival c < 0 \<longleftrightarrow> base ^ 4 \<le> 2 * uval c"
    using uval_wf [OF assms] unfolding ival_def by auto
  ultimately show ?thesis by simp
qed

lemma uint_as_128:
  assumes "wf256 c"
  shows "uint (as_128_bits c) = uval c mod (base * base)"
proof -
  from assms obtain l m h t where c: "c = [l, m, h, t]" by (rule wf256_cases)
  let ?hi = "push_bit 64 (ucast m :: int128)" and ?lo = "ucast l :: int128"
  have "uint ?hi = uint m * base"
  proof -
    have "uint m * base < base * base" by (simp add: mult_strict_right_mono)
    then have "take_bit 128 (push_bit 64 (uint (ucast m :: int128))) = uint m * base"
      by (simp add: push_bit_eq_mult take_bit_eq_mod base_def)
    then show ?thesis unfolding unsigned_push_bit_eq by simp
  qed
  moreover have "?hi OR ?lo = ?hi + ?lo"
    by (rule disjunctive_add_eq_or [symmetric]) (auto simp: bit_eq_iff bit_simps dest: bit_imp_le_length)
  moreover have sum: "uint l + base * uint m < base * base" by (rule add_mult_less) simp_all
  ultimately have "uint (as_128_bits c) = uint l + base * uint m"
    by (simp add: as_128_bits_def c uint_add128 mult.commute add.commute)
  moreover have "uval c = (uint l + base * uint m) + base * base * (uint h + base * uint t)"
    by (simp add: c algebra_simps)
  ultimately show ?thesis using sum by (simp add: mod_pos_pos_trivial)
qed

lemma sint_unique:
  assumes "uint (w :: int128) mod (base * base) = x mod (base * base)"
    and "- (base * base) \<le> 2 * x" "2 * x < base * base"
  shows "sint w = x"
proof -
  have "sint w mod (base * base) = x mod (base * base)"
    using assms(1) by (simp add: uint_sint128)
  then have "(base * base) dvd (sint w - x)" by (simp add: mod_eq_dvd_iff)
  moreover have "\<bar>sint w - x\<bar> < base * base" using assms(2,3) sint128_bounds [of w] by linarith
  ultimately show ?thesis using dvd_imp_le_int [of "sint w - x" "base * base"] by force
qed

text \<open>A value that fits in 128 bits survives the truncation.\<close>

lemma sint_as_128:
  assumes "wf256 c" "- (base * base) \<le> 2 * ival c" "2 * ival c < base * base"
  shows "sint (as_128_bits c) = ival c"
proof (rule sint_unique)
  have "ival c mod (base * base) = (ival c mod base ^ 4) mod (base * base)"
    by (simp add: mod_mod_cancel power4_eq_xxxx mult.assoc)
  then show "uint (as_128_bits c) mod (base * base) = ival c mod (base * base)"
    using uint_as_128 [OF assms(1)] ival_mod [OF assms(1)] by simp
qed (use assms in auto)

section \<open>Multiplication\<close>

lemma mult_less_base2: "0 \<le> a \<Longrightarrow> a < base \<Longrightarrow> 0 \<le> b \<Longrightarrow> b < base \<Longrightarrow> a * b \<le> (base - 1) * (base - 1)"
  by (intro mult_mono) auto

lemma mul_step:
  fixes a b r carry :: uint64
  defines "m \<equiv> (ucast a :: int128) * ucast b + ucast r + ucast carry"
  shows "uint m = uint a * uint b + uint r + uint carry"
    and "uint (ucast (drop_bit 64 m) :: uint64) = uint m div base"
    and "uint (ucast m :: uint64) = uint m mod base"
proof -
  have ab: "uint a * uint b \<le> (base - 1) * (base - 1)" by (rule mult_less_base2) simp_all
  have sq: "(base - 1) * (base - 1) = base * base - 2 * base + 1" by (simp add: algebra_simps)
  have rc: "uint r \<le> base - 1" "uint carry \<le> base - 1"
    using uint64_bounds(2) [of r] uint64_bounds(2) [of carry] by linarith+
  have less: "uint a * uint b < base * base" "uint a * uint b + uint r < base * base"
    "uint a * uint b + uint r + uint carry < base * base"
    using ab sq rc base_ge by linarith+
  have 1: "uint ((ucast a :: int128) * ucast b) = uint a * uint b"
    by (subst uint_mult128) (simp_all add: less)
  have 2: "uint ((ucast a :: int128) * ucast b + ucast r) = uint a * uint b + uint r"
    by (subst uint_add128) (simp_all add: less 1)
  show m: "uint m = uint a * uint b + uint r + uint carry"
    unfolding m_def by (subst uint_add128) (simp_all add: less 2)
  have "uint m div base < base" by (rule div_less_base) simp
  then show "uint (ucast (drop_bit 64 m) :: uint64) = uint m div base"
    unfolding uint_ucast_down uint_drop_64 by (simp add: mod_pos_pos_trivial pos_imp_zdiv_nonneg_iff)
  show "uint (ucast m :: uint64) = uint m mod base" by (rule uint_ucast_down)
qed

lemma next_row_val:
  "length as = length rs \<Longrightarrow>
     length (next_row b carry as rs) = length rs \<and>
     uval (next_row b carry as rs) =
       (uint carry + uint b * uval as + uval rs) mod base ^ length rs"
proof (induction b carry as rs rule: next_row.induct)
  case (1 b carry a as r rs)
  define m where "m = (ucast a :: int128) * ucast b + ucast r + ucast carry"
  note step = mul_step [of a b r carry, folded m_def]
  have IH: "length (next_row b (ucast (drop_bit 64 m)) as rs) = length rs \<and>
      uval (next_row b (ucast (drop_bit 64 m)) as rs) =
        (uint m div base + uint b * uval as + uval rs) mod base ^ length rs"
    using 1 by (simp add: m_def [symmetric] step)
  have "uint carry + uint b * uval (a # as) + uval (r # rs) =
      uint m mod base + base * (uint m div base + uint b * uval as + uval rs)"
    using step(1) by (simp add: algebra_simps)
  moreover have "(uint m mod base + base * (uint m div base + uint b * uval as + uval rs)) mod
      (base * base ^ length rs) =
      uint m mod base + base * ((uint m div base + uint b * uval as + uval rs) mod base ^ length rs)"
    by (rule mod_split) simp_all
  ultimately show ?case
    using IH by (simp add: Let_def m_def [symmetric] step del: uval.simps(2)) (simp add: step)
qed simp_all

lemma first_row_next: "first_row b carry as = next_row b carry as (replicate (length as) 0)"
  by (induction b carry as rule: first_row.induct) (simp_all add: Let_def)

lemma uval_replicate [simp]: "uval (replicate n 0) = 0"
  by (induction n) simp_all

lemma uval_take_mod: "n \<le> length a \<Longrightarrow> uval (take n a) = uval a mod base ^ n"
proof -
  assume "n \<le> length a"
  then have "uval a = uval (take n a) + base ^ n * uval (drop n a)"
    using uval_append [of "take n a" "drop n a"] by simp
  moreover have "0 \<le> uval (take n a)" "uval (take n a) < base ^ n"
    using uval_range [of "take n a"] \<open>n \<le> length a\<close> by simp_all
  ultimately show ?thesis by (simp add: mod_pos_pos_trivial)
qed

text \<open>One row adds \<open>b ! i * a\<close>, shifted by \<open>i\<close> chunks.\<close>

lemma row_val:
  fixes a b r :: "uint64 list"
  assumes "length a = 4" "length r = 4" "i \<le> 4"
  defines "r' \<equiv> take i r @ next_row (b ! i) 0 (take (4 - i) a) (drop i r)"
  shows "length r' = 4"
    and "uval r' = (uval r + base ^ i * (uint (b ! i) * uval a)) mod base ^ 4"
proof -
  let ?B = "base ^ (4 - i)"
  have row: "length (next_row (b ! i) 0 (take (4 - i) a) (drop i r)) = 4 - i"
    "uval (next_row (b ! i) 0 (take (4 - i) a) (drop i r)) =
       (uint (b ! i) * uval (take (4 - i) a) + uval (drop i r)) mod ?B"
    using next_row_val [of "take (4 - i) a" "drop i r" "b ! i" 0] assms(1-3) by simp_all
  then show "length r' = 4" using assms(2,3) by (simp add: r'_def)
  have B: "base ^ 4 = base ^ i * ?B" using assms(3) by (simp add: power_add [symmetric])
  have "uval (take i r) < base ^ i" "0 \<le> uval (take i r)"
    using uval_range [of "take i r"] assms(2,3) by simp_all
  then have "uval r' = (uval (take i r) +
      base ^ i * (uint (b ! i) * uval (take (4 - i) a) + uval (drop i r))) mod (base ^ i * ?B)"
    using row(2) assms(2,3) by (simp add: r'_def uval_append mod_split)
  also have "uval (take (4 - i) a) = uval a mod ?B" using assms(1) by (simp add: uval_take_mod)
  also have "(uval (take i r) + base ^ i * (uint (b ! i) * (uval a mod ?B) + uval (drop i r))) mod
      (base ^ i * ?B) = (uval (take i r) + base ^ i * (uint (b ! i) * uval a + uval (drop i r))) mod
      (base ^ i * ?B)"
    using \<open>uval (take i r) < base ^ i\<close> \<open>0 \<le> uval (take i r)\<close>
    by (simp add: mod_split mod_add_left_eq mod_mult_right_eq
        mod_add_left_eq [of "uint (b ! i) * (uval a mod ?B)", symmetric])
  also have "uval (take i r) + base ^ i * (uint (b ! i) * uval a + uval (drop i r)) =
      uval r + base ^ i * (uint (b ! i) * uval a)"
    using uval_append [of "take i r" "drop i r"] assms(2,3) by (simp add: algebra_simps)
  finally show "uval r' = (uval r + base ^ i * (uint (b ! i) * uval a)) mod base ^ 4"
    unfolding B .
qed

lemma multiply256_val:
  assumes "wf256 a" "wf256 b"
  shows "wf256 (multiply256 a b)" "uval (multiply256 a b) = (uval a * uval b) mod base ^ 4"
proof -
  have a: "length a = 4" using assms(1) by (simp add: wf256_def)
  define r0 where "r0 = first_row (b ! 0) 0 a"
  define r1 where "r1 = take 1 r0 @ next_row (b ! 1) 0 (take (4 - 1) a) (drop 1 r0)"
  define r2 where "r2 = take 2 r1 @ next_row (b ! 2) 0 (take (4 - 2) a) (drop 2 r1)"
  define r3 where "r3 = take 3 r2 @ next_row (b ! 3) 0 (take (4 - 3) a) (drop 3 r2)"
  have l0: "length r0 = 4" and v0: "uval r0 = (uint (b ! 0) * uval a) mod base ^ 4"
    using next_row_val [of a "replicate 4 0" "b ! 0" 0] a by (simp_all add: r0_def first_row_next)
  note s1 = row_val [OF a l0, of 1 b, folded r1_def]
  note s2 = row_val [OF a s1(1), of 2 b, folded r2_def]
  note s3 = row_val [OF a s2(1), of 3 b, folded r3_def]
  have m: "multiply256 a b = r3"
    by (simp add: multiply256_def r0_def r1_def r2_def r3_def)
  show "wf256 (multiply256 a b)" using s3(1) by (simp add: m wf256_def)
  from assms(2) obtain b0 b1 b2 b3 where b: "b = [b0, b1, b2, b3]" by (rule wf256_cases)
  have "uval r3 = (uint b0 * uval a + base ^ 1 * (uint b1 * uval a) + base ^ 2 * (uint b2 * uval a)
      + base ^ 3 * (uint b3 * uval a)) mod base ^ 4"
    using s1(2) s2(2) s3(2) v0 by (simp add: b mod_add_left_eq)
  also have "uint b0 * uval a + base ^ 1 * (uint b1 * uval a) + base ^ 2 * (uint b2 * uval a)
      + base ^ 3 * (uint b3 * uval a) = uval a * uval b"
    by (simp add: b algebra_simps power2_eq_square power3_eq_cube)
  finally show "uval (multiply256 a b) = (uval a * uval b) mod base ^ 4" by (simp add: m)
qed

section \<open>Division\<close>

text \<open>Bit \<open>i\<close> of the value is bit \<open>i mod 64\<close> of chunk \<open>i div 64\<close>.\<close>

lemma uval_chunk:
  assumes "k < length c"
  shows "uval c = uval (take k c) + base ^ k * (uint (c ! k) + base * uval (drop (Suc k) c))"
proof -
  have "c = take k c @ c ! k # drop (Suc k) c" using assms by (simp add: id_take_nth_drop)
  then have "uval c = uval (take k c @ c ! k # drop (Suc k) c)" by simp
  then show ?thesis using assms by (simp add: uval_append)
qed

lemma base_pow_bits: "base ^ k = 2 ^ (64 * k)"
  by (simp add: base_def power_mult)

lemma chunk_div:
  assumes "k < length c" "b < 64"
  shows "uval c div 2 ^ (64 * k + b) mod 2 = uint (c ! k) div 2 ^ b mod 2"
proof -
  let ?u = "uint (c ! k)" and ?h = "uval (drop (Suc k) c)"
  have low: "0 \<le> uval (take k c)" "uval (take k c) < base ^ k"
    using uval_range [of "take k c"] assms(1) by simp_all
  have "uval c div base ^ k = ?u + base * ?h"
    using uval_chunk [OF assms(1)] low by (simp add: div_add1_eq div_pos_pos_trivial)
  then have "uval c div 2 ^ (64 * k + b) = (?u + base * ?h) div 2 ^ b"
    by (simp add: power_add zdiv_zmult2_eq base_pow_bits)
  also have "base = 2 ^ b * (2 * 2 ^ (63 - b))"
    using assms(2) by (simp add: base_def power_add [symmetric] flip: power_Suc)
  also have "(?u + 2 ^ b * (2 * 2 ^ (63 - b)) * ?h) div 2 ^ b = ?u div 2 ^ b + 2 * (2 ^ (63 - b) * ?h)"
    by (simp add: mult.assoc)
  finally show ?thesis by simp
qed

lemma read_bit:
  assumes "wf256 n" "i < 256"
  shows "uint (ucast (drop_bit (i mod 64) (n ! (i div 64)) AND 1) :: int128) = uval n div 2 ^ i mod 2"
proof -
  let ?w = "n ! (i div 64)"
  have i: "64 * (i div 64) + i mod 64 = i" by simp
  have len: "i div 64 < length n" using assms by (simp add: wf256_def less_mult_imp_div_less)
  have "uint (drop_bit (i mod 64) ?w) = uint ?w div 2 ^ (i mod 64)"
  proof -
    have "take_bit 64 (uint ?w) = uint ?w"
      by (rule take_bit_int_eq_self) (use uint64_bounds [of ?w] in \<open>auto simp: base_def\<close>)
    then show ?thesis unfolding unsigned_drop_bit_eq by (simp add: drop_bit_eq_div)
  qed
  then have "uint (drop_bit (i mod 64) ?w AND 1) = uint ?w div 2 ^ (i mod 64) mod 2"
    unfolding uint_and by (simp add: and_one_eq)
  then show ?thesis using chunk_div [OF len, of "i mod 64"] i by simp
qed

lemma shift_in:
  assumes "uint (r :: int128) < uint (d :: int128)" "2 * uint d \<le> base * base"
    and "uint (b :: int128) = x" "x = 0 \<or> x = 1"
  shows "uint (push_bit 1 r OR b) = 2 * uint r + x"
proof -
  have less: "2 * uint r + x < base * base" using assms by auto
  have "uint (push_bit 1 r) = 2 * uint r"
  proof -
    have "2 * uint r < base * base" using less assms(4) by auto
    then have "take_bit 128 (push_bit 1 (uint r)) = 2 * uint r"
      by (simp add: push_bit_eq_mult take_bit_eq_mod base_def mult.commute)
    then show ?thesis unfolding unsigned_push_bit_eq by simp
  qed
  moreover have "push_bit 1 r OR b = push_bit 1 r + b"
  proof (rule disjunctive_add_eq_or [symmetric])
    have "b = 0 \<or> b = 1" using assms(3,4) by (metis uint_0_eq uint_1_eq word_uint_eqI)
    then show "push_bit 1 r AND b = 0" by (auto simp: and_one_eq mod_2_eq_odd)
  qed
  ultimately show ?thesis using less assms(3) by (simp add: uint_add128)
qed

lemma set_bit_val:
  assumes "wf256 q" "i < 256" "2 ^ Suc i dvd uval q"
  defines "q' \<equiv> q[i div 64 := q ! (i div 64) OR push_bit (i mod 64) 1]"
  shows "wf256 q'" "uval q' = uval q + 2 ^ i"
proof -
  let ?k = "i div 64" and ?b = "i mod 64"
  let ?w = "q ! ?k" and ?p = "push_bit ?b 1 :: uint64"
  show "wf256 q'" using assms(1) by (simp add: q'_def wf256_def)
  have i: "64 * ?k + ?b = i" and b: "?b < 64" by simp_all
  have len: "?k < length q" using assms(1,2) by (simp add: wf256_def less_mult_imp_div_less)
  from assms(3) have "uval q div 2 ^ i mod 2 = 0" by (auto simp: dvd_def)
  then have zero: "uint ?w div 2 ^ ?b mod 2 = 0" using chunk_div [OF len b] i by simp
  have p: "uint ?p = 2 ^ ?b"
  proof -
    have "take_bit 64 (push_bit ?b (uint (1 :: uint64))) = 2 ^ ?b"
      using b by (simp add: push_bit_eq_mult take_bit_int_eq_self)
    then show ?thesis unfolding unsigned_push_bit_eq by simp
  qed
  have clear: "\<not> bit (uint ?w) ?b"
    using zero unfolding bit_iff_odd by (simp add: even_iff_mod_2_eq_zero)
  then have "\<not> bit ?w ?b" by (simp add: bit_simps)
  then have "?w OR ?p = ?w + ?p"
    by (intro disjunctive_add_eq_or [symmetric] bit_word_eqI) (auto simp: bit_simps)
  moreover have "uint ?w + 2 ^ ?b < base"
  proof -
    have "uint (?w OR ?p) < base" by simp
    moreover have "uint (?w OR ?p) = uint ?w + 2 ^ ?b"
      unfolding uint_or p using clear
      by (intro disjunctive_add_eq_or [symmetric] bit_eqI) (auto simp: bit_simps)
    ultimately show ?thesis by linarith
  qed
  ultimately have w: "uint (?w OR ?p) = uint ?w + 2 ^ ?b"
    using p by (simp add: uint_word_ariths base_def)
  have "uval q' = uval (take ?k q) + base ^ ?k * (uint (?w OR ?p) + base * uval (drop (Suc ?k) q))"
    using uval_chunk [of ?k q'] len by (simp add: q'_def)
  also have "\<dots> = uval q + base ^ ?k * 2 ^ ?b" unfolding w using uval_chunk [OF len] by (simp add: algebra_simps)
  also have "base ^ ?k * 2 ^ ?b = 2 ^ i" using i by (simp add: base_pow_bits flip: power_add)
  finally show "uval q' = uval q + 2 ^ i" .
qed

text \<open>The loop divides: \<open>i\<close> bits are left, the quotient so far has its low \<open>i\<close> bits clear.\<close>

lemma divide_loop_val:
  assumes "wf256 n" "2 * uint d \<le> base * base" "i \<le> 256"
    and "wf256 q" "2 ^ i dvd uval q" "uint r < uint d"
    and "divide_loop i n d q r = (q', r')"
  shows "wf256 q' \<and> uval q' = uval q + (uint r * 2 ^ i + uval n mod 2 ^ i) div uint d \<and>
         uint r' = (uint r * 2 ^ i + uval n mod 2 ^ i) mod uint d"
  using assms(3-)
proof (induction i arbitrary: q r)
  case 0
  then show ?case by (simp add: div_pos_pos_trivial mod_pos_pos_trivial)
next
  case (Suc i)
  let ?bit = "uval n div 2 ^ i mod 2"
  let ?read = "drop_bit (i mod 64) (n ! (i div 64)) AND 1"
  define r1 where "r1 = push_bit 1 r OR ucast ?read"
  have i: "i < 256" using Suc.prems(1) by simp
  have r1: "uint r1 = 2 * uint r + ?bit"
    unfolding r1_def
    by (rule shift_in [OF Suc.prems(4) assms(2) read_bit [OF assms(1) i]]) auto
  have "uval n mod 2 ^ Suc i = 2 ^ i * ?bit + uval n mod 2 ^ i"
    by (simp add: zmod_zmult2_eq mult.commute [of 2])
  then have N: "uint r * 2 ^ Suc i + uval n mod 2 ^ Suc i = uint r1 * 2 ^ i + uval n mod 2 ^ i"
    by (simp add: r1 algebra_simps)
  have dvd: "2 ^ i dvd uval q" using Suc.prems(3) by (rule power_le_dvd) simp
  show ?case
  proof (cases "d \<le> r1")
    case True
    let ?q = "q[i div 64 := q ! (i div 64) OR push_bit (i mod 64) 1]"
    have q: "wf256 ?q" "uval ?q = uval q + 2 ^ i"
      using set_bit_val [OF Suc.prems(2) i Suc.prems(3)] by auto
    have sub: "uint (r1 - d) = uint r1 - uint d"
      using True by (simp add: uint_sub_if' word_le_def)
    have "uint r1 - uint d < uint d" using r1 Suc.prems(4) by linarith
    moreover have "divide_loop i n d ?q (r1 - d) = (q', r')"
      using Suc.prems(5) True by (simp add: Let_def r1_def)
    ultimately have IH: "wf256 q' \<and>
        uval q' = uval ?q + ((uint r1 - uint d) * 2 ^ i + uval n mod 2 ^ i) div uint d \<and>
        uint r' = ((uint r1 - uint d) * 2 ^ i + uval n mod 2 ^ i) mod uint d"
      using Suc.IH [of ?q "r1 - d"] q dvd i by (simp add: sub)
    define Z where "Z = (uint r1 - uint d) * 2 ^ i + uval n mod 2 ^ i"
    have "uint d \<noteq> 0" using Suc.prems(4) by auto
    moreover have "uint r1 * 2 ^ i + uval n mod 2 ^ i = Z + 2 ^ i * uint d"
      by (simp add: Z_def algebra_simps)
    ultimately show ?thesis using IH unfolding N Z_def [symmetric] q(2) by simp
  next
    case False
    then have "uint r1 < uint d" by (simp add: word_le_def)
    moreover have "divide_loop i n d q r1 = (q', r')"
      using Suc.prems(5) False by (simp add: Let_def r1_def)
    ultimately show ?thesis using Suc.IH [of q r1] Suc.prems(2) dvd i unfolding N by simp
  qed
qed

lemma divide_unsigned_val:
  assumes "wf256 n" "0 < uint d" "2 * uint d \<le> base * base"
  shows "wf256 (quotient (divide_unsigned n d))"
    and "uval (quotient (divide_unsigned n d)) = uval n div uint d"
    and "uint (remainder (divide_unsigned n d)) = uval n mod uint d"
proof -
  obtain q r where qr: "divide_loop 256 n d (from_int128 0) 0 = (q, r)" by fastforce
  have zero: "uval (from_int128 0) = 0" by (simp add: from_int128_uval)
  have "uval n mod 2 ^ 256 = uval n" using uval_wf [OF assms(1)] by (simp add: base_pow)
  then have "wf256 q \<and> uval q = uval n div uint d \<and> uint r = uval n mod uint d"
    using divide_loop_val [OF assms(1,3) _ wf_from_int128 _ _ qr] assms(2) zero by simp
  then show "wf256 (quotient (divide_unsigned n d))"
    and "uval (quotient (divide_unsigned n d)) = uval n div uint d"
    and "uint (remainder (divide_unsigned n d)) = uval n mod uint d"
    using qr by (simp_all add: divide_unsigned_def)
qed

section \<open>Arithmetic that wraps\<close>

text \<open>
  The contract of a wrapping integer type: every operation is right modulo \<open>B\<close>, and a result
  that fits is exact. The decimal code relies on no more than this.
\<close>

locale wrapping_int =
  fixes ok :: "'c \<Rightarrow> bool" and val :: "'c \<Rightarrow> int" and B :: int
    and plus times :: "'c \<Rightarrow> 'c \<Rightarrow> 'c" and neg :: "'c \<Rightarrow> 'c"
  assumes val_range: "ok a \<Longrightarrow> - B \<le> 2 * val a \<and> 2 * val a < B"
    and ok_ops: "ok a \<Longrightarrow> ok b \<Longrightarrow> ok (plus a b)" "ok a \<Longrightarrow> ok b \<Longrightarrow> ok (times a b)" "ok a \<Longrightarrow> ok (neg a)"
    and plus_mod: "ok a \<Longrightarrow> ok b \<Longrightarrow> val (plus a b) mod B = (val a + val b) mod B"
    and times_mod: "ok a \<Longrightarrow> ok b \<Longrightarrow> val (times a b) mod B = (val a * val b) mod B"
    and neg_mod: "ok a \<Longrightarrow> val (neg a) mod B = (- val a) mod B"
begin

lemma exact:
  assumes "ok a" "val a mod B = x mod B" "- B \<le> 2 * x" "2 * x < B"
  shows "val a = x"
proof -
  have "B dvd (val a - x)" using assms(2) by (simp add: mod_eq_dvd_iff)
  moreover have "\<bar>val a - x\<bar> < B" using assms(3,4) val_range [OF assms(1)] by linarith
  ultimately show ?thesis using dvd_imp_le_int [of "val a - x" B] by force
qed

lemma plus_exact:
  "ok a \<Longrightarrow> ok b \<Longrightarrow> - B \<le> 2 * (val a + val b) \<Longrightarrow> 2 * (val a + val b) < B \<Longrightarrow>
     val (plus a b) = val a + val b"
  by (rule exact) (simp_all add: ok_ops plus_mod)

lemma times_exact:
  "ok a \<Longrightarrow> ok b \<Longrightarrow> - B \<le> 2 * (val a * val b) \<Longrightarrow> 2 * (val a * val b) < B \<Longrightarrow>
     val (times a b) = val a * val b"
  by (rule exact) (simp_all add: ok_ops times_mod)

lemma neg_exact: "ok a \<Longrightarrow> - B < 2 * val a \<Longrightarrow> val (neg a) = - val a"
  using val_range [of a] by (intro exact) (simp_all add: ok_ops neg_mod)

end

lemma ival_mod_eq: "wf256 c \<Longrightarrow> uval c mod base ^ 4 = x mod base ^ 4 \<Longrightarrow> ival c mod base ^ 4 = x mod base ^ 4"
  using uval_wf [of c] by (simp add: ival_mod)

interpretation i256: wrapping_int wf256 ival "base ^ 4" add256 multiply256 negate256
proof (unfold_locales, goal_cases)
  case (1 a)
  then show ?case by (rule ival_range)
next
  case (5 a b)
  then show ?case
    by (intro ival_mod_eq, simp) (subst mod_add_eq [symmetric], simp add: uval_add256 ival_mod)
next
  case (6 a b)
  then show ?case
    by (intro ival_mod_eq, simp add: multiply256_val)
       (subst mod_mult_eq [symmetric], simp add: multiply256_val ival_mod)
next
  case (7 a)
  then show ?case
    by (intro ival_mod_eq, simp) (subst mod_minus_eq [symmetric], simp add: uval_negate ival_mod)
qed (simp_all add: multiply256_val)

section \<open>Signed division and rounding\<close>

lemma sless_zero: "d <s 0 \<longleftrightarrow> sint (d :: int128) < 0"
  by (simp add: word_sless_alt)

lemma uint_neg128: "uint (- d :: int128) = (- sint d) mod (base * base)"
proof -
  have "uint (- d) = (- uint d) mod (base * base)" by (simp add: uint_word_ariths base_def)
  then show ?thesis by (simp add: uint_sint128 mod_minus_eq)
qed

lemma uint_abs128: "uint (if d <s 0 then - d else d) = \<bar>sint (d :: int128)\<bar>"
proof (cases "sint d < 0")
  case True
  have "uint (- d) = (- sint d) mod (base * base)"
    by (rule uint_neg128)
  also have "\<dots> = - sint d" using True sint128_bounds [of d] by (intro mod_pos_pos_trivial) auto
  finally show ?thesis using True by (simp add: sless_zero)
next
  case False
  then have "uint d = sint d" using sint128_bounds [of d] by (simp add: uint_sint128 mod_pos_pos_trivial)
  then show ?thesis using False by (simp add: sless_zero)
qed

lemma uval_nonneg_ival: "0 \<le> ival c \<Longrightarrow> wf256 c \<Longrightarrow> uval c = ival c"
  using uval_wf [of c] by (auto simp: ival_def split: if_splits)

lemma uval_abs256:
  assumes "wf256 n"
  shows "uval (if sign256 n < 0 then negate256 n else n) = \<bar>ival n\<bar>"
proof (cases "ival n < 0")
  case True
  have "uval (negate256 n) = (- ival n) mod base ^ 4"
    using assms by (subst mod_minus_eq [symmetric]) (simp add: uval_negate ival_mod)
  also have "\<dots> = - ival n" using True ival_range [OF assms] by (intro mod_pos_pos_trivial) auto
  finally show ?thesis using True assms by (simp add: sign256_neg)
qed (use assms in \<open>simp add: sign256_neg uval_nonneg_ival\<close>)

lemma sint_nonneg: "2 * uint (w :: int128) < base * base \<Longrightarrow> sint w = uint w"
proof (rule sint_unique)
  have "0 \<le> base * base" by simp
  then show "- (base * base) \<le> 2 * uint w" using uint128_bounds(1) [of w] by linarith
qed simp_all

lemma sint_neg128: "- (base * base) < 2 * sint (w :: int128) \<Longrightarrow> sint (- w) = - sint w"
  by (rule sint_unique) (use sint128_bounds [of w] in \<open>auto simp: uint_neg128\<close>)

lemma abs_d_bound: "2 * \<bar>sint (d :: int128)\<bar> \<le> base * base"
  using sint128_bounds [of d] by linarith

lemma quotient_fits:
  fixes N D B :: int
  assumes "- B \<le> 2 * N" "2 * N < B" "D \<noteq> 0" "\<not> (2 * N = - B \<and> D = -1)"
  shows "- B \<le> 2 * (N sdiv D) \<and> 2 * (N sdiv D) < B"
proof -
  let ?q = "\<bar>N\<bar> div \<bar>D\<bar>"
  have q0: "0 \<le> ?q" using assms(3) by (simp add: pos_imp_zdiv_nonneg_iff)
  have q2: "2 * ?q \<le> \<bar>N\<bar>" if "\<bar>D\<bar> \<noteq> 1"
  proof -
    have "2 * ?q \<le> \<bar>D\<bar> * ?q" using that assms(3) q0 by (intro mult_right_mono) auto
    also have "\<dots> \<le> \<bar>N\<bar>" using mult_div_mod_eq [of "\<bar>D\<bar>" "\<bar>N\<bar>"] assms(3)
      pos_mod_sign [of "\<bar>D\<bar>" "\<bar>N\<bar>"] by linarith
    finally show ?thesis .
  qed
  have x: "N sdiv D = sgn N * sgn D * ?q" by (simp add: signed_divide_int_def)
  show ?thesis
  proof (cases "\<bar>D\<bar> = 1")
    case True
    then have "D = 1 \<or> D = -1" by auto
    then show ?thesis using assms by auto
  next
    case False
    then show ?thesis using x q0 q2 assms(1,2) by (auto simp: sgn_if split: if_splits)
  qed
qed

lemma divide256_val:
  assumes "wf256 n" "sint d \<noteq> 0" "\<not> (2 * ival n = - (base ^ 4) \<and> sint d = -1)"
  shows "wf256 (quotient (divide256 n d))"
    and "ival (quotient (divide256 n d)) = ival n sdiv sint d"
    and "sint (remainder (divide256 n d)) = ival n smod sint d"
proof -
  define an where "an = (if sign256 n < 0 then negate256 n else n)"
  define ad where "ad = (if d <s 0 then - d else d)"
  define u where "u = divide_unsigned an ad"
  let ?A = "\<bar>ival n\<bar>" and ?D = "\<bar>sint d\<bar>"
  have an: "wf256 an" "uval an = ?A" using assms(1) uval_abs256 by (auto simp: an_def)
  have ad: "uint ad = ?D" unfolding ad_def by (rule uint_abs128)
  have u: "wf256 (quotient u)" "uval (quotient u) = ?A div ?D" "uint (remainder u) = ?A mod ?D"
    using divide_unsigned_val [OF an(1), of ad] assms(2) abs_d_bound [of d] an(2) ad
    by (simp_all add: u_def)
  have n_neg: "sign256 n < 0 \<longleftrightarrow> ival n < 0" using assms(1) by (rule sign256_neg)
  have q: "quotient (divide256 n d) =
      (if (sint d < 0) \<noteq> (ival n < 0) then negate256 (quotient u) else quotient u)"
    by (simp add: divide256_def Let_def n_neg sless_zero flip: an_def ad_def u_def)
       (simp add: an_def ad_def u_def n_neg sless_zero)
  have r: "remainder (divide256 n d) = (if ival n < 0 then - remainder u else remainder u)"
    by (simp add: divide256_def Let_def n_neg sless_zero u_def an_def ad_def)
  show wf: "wf256 (quotient (divide256 n d))" using u(1) by (simp add: q)
  define Q where "Q = ?A div ?D"
  have Q: "ival (quotient u) mod base ^ 4 = Q mod base ^ 4"
    using ival_mod [OF u(1)] u(2) by (metis Q_def mod_mod_trivial)
  then have "ival (negate256 (quotient u)) mod base ^ 4 = (- Q) mod base ^ 4"
    using i256.neg_mod [OF u(1)] by (metis mod_minus_eq)
  moreover have "ival n sdiv sint d = (if (sint d < 0) \<noteq> (ival n < 0) then - Q else Q)"
    using assms(2) by (auto simp: signed_divide_int_def sgn_if Q_def)
  ultimately have "ival (quotient (divide256 n d)) mod base ^ 4 = (ival n sdiv sint d) mod base ^ 4"
    using Q by (simp add: q)
  then show "ival (quotient (divide256 n d)) = ival n sdiv sint d"
    using quotient_fits [of "base ^ 4" "ival n" "sint d"] ival_range [OF assms(1)] assms(2,3)
    by (intro i256.exact [OF wf]) auto
  have "?A mod ?D < ?D" using assms(2) by simp
  then have small: "2 * uint (remainder u) < base * base" using abs_d_bound [of d] u(3) by linarith
  then have "sint (remainder u) = ?A mod ?D" using u(3) by (simp add: sint_nonneg)
  moreover from this have "sint (- remainder u) = - (?A mod ?D)"
    using assms(2) by (subst sint_neg128) (simp_all add: less_le_trans [of _ 0])
  ultimately show "sint (remainder (divide256 n d)) = ival n smod sint d"
    by (simp add: r signed_modulo_int_def sgn_if)
qed

text \<open>Rounding half away from zero.\<close>

definition round_half_up :: "int \<Rightarrow> int \<Rightarrow> int" where
  "round_half_up n d = sgn n * sgn d * ((2 * \<bar>n\<bar> + \<bar>d\<bar>) div (2 * \<bar>d\<bar>))"

lemma half_up_div:
  fixes A D :: int
  assumes "0 \<le> A" "0 < D"
  shows "(2 * A + D) div (2 * D) = A div D + (if D \<le> 2 * (A mod D) then 1 else 0)"
proof -
  define q r where "q = A div D" and "r = A mod D"
  have A: "A = D * q + r" and r: "0 \<le> r" "r < D" using assms by (simp_all add: q_def r_def)
  have "2 * A + D = 2 * D * q + (2 * r + D)" by (simp add: A algebra_simps)
  moreover have "(2 * D * q + (2 * r + D)) div (2 * D) = q + (2 * r + D) div (2 * D)"
    using assms(2) by simp
  moreover have "(2 * r + D) div (2 * D) = (if D \<le> 2 * r then 1 else 0)"
  proof (cases "D \<le> 2 * r")
    case True
    have "2 * r + D = 2 * D * 1 + (2 * r - D)" by simp
    then show ?thesis using True r assms(2) int_div_pos_eq [of "2 * r + D" "2 * D" 1 "2 * r - D"] by simp
  qed (use r assms(2) in \<open>simp add: div_pos_pos_trivial\<close>)
  ultimately show ?thesis unfolding q_def [symmetric] r_def [symmetric] by metis
qed

lemma round_half_up_eq:
  assumes "d \<noteq> 0"
  shows "round_half_up n d = n sdiv d +
           (if \<bar>d\<bar> \<le> 2 * \<bar>n smod d\<bar> then (if (n < 0) \<noteq> (d < 0) then -1 else 1) else 0)"
proof -
  have r: "\<bar>n smod d\<bar> = \<bar>n\<bar> mod \<bar>d\<bar>"
    using assms by (auto simp: signed_modulo_int_def sgn_if abs_mult)
  show ?thesis
  proof (cases "n = 0")
    case True
    then show ?thesis using assms by (simp add: round_half_up_def)
  next
    case False
    then show ?thesis
      unfolding r unfolding round_half_up_def signed_divide_int_def
      using half_up_div [of "\<bar>n\<bar>" "\<bar>d\<bar>"] assms by (auto simp: sgn_if)
  qed
qed

text \<open>
  The doubled remainder: the shift loses information exactly when the doubled value does not fit
  in 128 bits.
\<close>

definition HALF :: int where
  "HALF = 2 ^ 127"

lemma HALF: "base * base = 2 * HALF" "0 < HALF"
  by (simp_all add: base_def HALF_def)

lemma sint_HALF: "- HALF \<le> sint (w :: int128)" "sint (w :: int128) < HALF"
  using sint128_bounds [of w] by (simp_all add: HALF)

lemma sint_double_mod: "sint (shl1 r) mod (2 * HALF) = (2 * sint r) mod (2 * HALF)"
proof -
  have p: "shl1 r = r + r" by (simp add: shl1_def push_bit_eq_mult)
  have "uint (r + r) = (uint r + uint r) mod (base * base)" by (simp add: uint_word_ariths base_def)
  then have "sint (r + r) mod (base * base) = (sint r + sint r) mod (base * base)"
    unfolding uint_sint128 mod_add_eq .
  then show ?thesis unfolding p HALF(1) mult_2 .
qed

lemma sint_double_fits:
  assumes "- HALF \<le> 2 * sint r" "2 * sint r < HALF"
  shows "sint (shl1 r) = 2 * sint r"
proof -
  have "2 * HALF dvd sint (shl1 r) - 2 * sint r"
    using sint_double_mod [of r] unfolding mod_eq_dvd_iff .
  moreover have "\<bar>sint (shl1 r) - 2 * sint r\<bar> < 2 * HALF"
    using assms sint_HALF [of "shl1 r"] by linarith
  ultimately show ?thesis using dvd_imp_le_int [of "sint (shl1 r) - 2 * sint r" "2 * HALF"] by force
qed

lemma sint_drop_1: "sint (signed_drop_bit 1 (w :: int128)) = sint w div 2"
  unfolding sint_signed_drop_bit_eq by (simp add: drop_bit_eq_div)

lemma double_lost:
  "signed_drop_bit 1 (shl1 r) \<noteq> r \<longleftrightarrow> \<not> (- HALF \<le> 2 * sint r \<and> 2 * sint r < HALF)"
proof
  assume *: "\<not> (- HALF \<le> 2 * sint r \<and> 2 * sint r < HALF)"
  show "signed_drop_bit 1 (shl1 r) \<noteq> r"
  proof
    assume "signed_drop_bit 1 (shl1 r) = r"
    then have "sint r = sint (shl1 r) div 2" by (metis sint_drop_1)
    then have "2 * sint r \<le> sint (shl1 r)" "sint (shl1 r) \<le> 2 * sint r + 1" by linarith+
    moreover have "even (sint (shl1 r))"
    proof -
      have "2 * HALF dvd sint (shl1 r) - 2 * sint r"
        using sint_double_mod [of r] unfolding mod_eq_dvd_iff .
      then have "2 dvd sint (shl1 r) - 2 * sint r" by (rule dvd_mult_left)
      then show ?thesis by simp
    qed
    ultimately have "sint (shl1 r) = 2 * sint r" by presburger
    then show False using * sint_HALF [of "shl1 r"] by simp
  qed
next
  assume lost: "signed_drop_bit 1 (shl1 r) \<noteq> r"
  show "\<not> (- HALF \<le> 2 * sint r \<and> 2 * sint r < HALF)"
  proof
    assume "- HALF \<le> 2 * sint r \<and> 2 * sint r < HALF"
    then have "sint (shl1 r) = 2 * sint r" by (simp add: sint_double_fits)
    then have "sint (signed_drop_bit 1 (shl1 r)) = sint r" unfolding sint_drop_1 by simp
    then show False using lost signed_word_eqI by blast
  qed
qed

lemma sint_abs128: "sint (w :: int128) \<noteq> - HALF \<Longrightarrow> sint (if w <s 0 then - w else w) = \<bar>sint w\<bar>"
  using sint_HALF [of w] sint_neg128 [of w] by (simp add: sless_zero HALF(1))

lemma need_inc_iff:
  assumes "\<bar>sint r\<bar> < \<bar>sint d\<bar>" "sint d \<noteq> - HALF" "2 * sint r \<noteq> - HALF"
  shows "(signed_drop_bit 1 (shl1 r) \<noteq> r \<or>
            (if d <s 0 then - d else d) \<le>s
              (if shl1 r <s 0 then - shl1 r else shl1 r)) \<longleftrightarrow>
         \<bar>sint d\<bar> \<le> 2 * \<bar>sint (r :: int128)\<bar>"
proof (cases "- HALF \<le> 2 * sint r \<and> 2 * sint r < HALF")
  case True
  then have dbl: "sint (shl1 r) = 2 * sint r" by (simp add: sint_double_fits)
  then have "sint (if shl1 r <s 0 then - shl1 r else shl1 r) = \<bar>2 * sint r\<bar>"
    using assms(3) sint_abs128 [of "shl1 r"] by simp
  moreover have "sint (if d <s 0 then - d else d) = \<bar>sint d\<bar>" using assms(2) by (rule sint_abs128)
  moreover have "signed_drop_bit 1 (shl1 r) = r" using True double_lost [of r] by simp
  ultimately show ?thesis by (simp add: word_sle_eq abs_mult)
next
  case False
  then have "signed_drop_bit 1 (shl1 r) \<noteq> r" using double_lost [of r] by blast
  moreover have "\<bar>sint d\<bar> \<le> 2 * \<bar>sint r\<bar>"
    using False assms(2) sint_HALF [of d] by (auto simp: abs_if)
  ultimately show ?thesis by blast
qed

lemma add_int_val:
  assumes "wf256 q" "x \<in> {-1, 0, 1}" "4 * \<bar>ival q\<bar> < base ^ 4"
  shows "wf256 (add_int q x)" "ival (add_int q x) = ival q + x"
proof -
  have x: "sint (word_of_int x :: int128) = x" using assms(2) by auto
  show "wf256 (add_int q x)" using assms(1) by (simp add: add_int_def)
  have big: "16 \<le> base ^ 4" using power_mono [OF base_ge, of 4] by simp
  have "- (base ^ 4) \<le> 2 * (ival q + x)" "2 * (ival q + x) < base ^ 4" using assms(2,3) big by auto
  then show "ival (add_int q x) = ival q + x"
    using i256.plus_exact [OF assms(1) wf_from_int128, of "word_of_int x"] x
    by (simp add: add_int_def)
qed

lemma abs_sdiv_le: "d \<noteq> 0 \<Longrightarrow> \<bar>n sdiv d\<bar> \<le> \<bar>n :: int\<bar>"
proof -
  assume "d \<noteq> 0"
  let ?q = "\<bar>n\<bar> div \<bar>d\<bar>"
  have "0 \<le> ?q" using \<open>d \<noteq> 0\<close> by (simp add: pos_imp_zdiv_nonneg_iff)
  moreover from this have "1 * ?q \<le> \<bar>d\<bar> * ?q" using \<open>d \<noteq> 0\<close> by (intro mult_right_mono) auto
  moreover have "\<bar>d\<bar> * ?q \<le> \<bar>n\<bar>"
    using mult_div_mod_eq [of "\<bar>d\<bar>" "\<bar>n\<bar>"] pos_mod_sign [of "\<bar>d\<bar>" "\<bar>n\<bar>"] \<open>d \<noteq> 0\<close> by linarith
  ultimately have "\<bar>?q\<bar> \<le> \<bar>n\<bar>" by linarith
  then show ?thesis by (auto simp: signed_divide_int_def abs_mult sgn_if)
qed

lemma round_from_remainder_val:
  assumes "wf256 q" "wf256 n" "4 * \<bar>ival q\<bar> < base ^ 4"
    and "\<bar>sint r\<bar> < \<bar>sint d\<bar>" "sint d \<noteq> - HALF" "2 * sint r \<noteq> - HALF"
  shows "wf256 (round_from_remainder q r n d)"
    and "ival (round_from_remainder q r n d) = ival q +
           (if \<bar>sint d\<bar> \<le> 2 * \<bar>sint r\<bar> then (if (ival n < 0) \<noteq> (sint d < 0) then -1 else 1) else 0)"
proof -
  let ?inc = "if \<bar>sint d\<bar> \<le> 2 * \<bar>sint r\<bar> then (if (ival n < 0) \<noteq> (sint d < 0) then -1 else 1) else 0 :: int"
  have "round_from_remainder q r n d = add_int q ?inc"
    unfolding round_from_remainder_def Let_def need_inc_iff [OF assms(4-6)]
    by (simp add: sign256_neg [OF assms(2)] sless_zero)
  then show "wf256 (round_from_remainder q r n d)" "ival (round_from_remainder q r n d) = ival q + ?inc"
    using add_int_val [OF assms(1) _ assms(3), of ?inc] by auto
qed

lemma divide_and_round_val:
  assumes "wf256 n" "4 * \<bar>ival n\<bar> < base ^ 4" "sint d \<noteq> 0" "sint d \<noteq> - HALF"
    and "2 * (ival n smod sint d) \<noteq> - HALF"
  shows "wf256 (divide_and_round n d)"
    and "ival (divide_and_round n d) = round_half_up (ival n) (sint d)"
proof -
  have "2 * ival n \<noteq> - (base ^ 4)" using assms(2) by auto
  then have d: "wf256 (quotient (divide256 n d))" "ival (quotient (divide256 n d)) = ival n sdiv sint d"
    "sint (remainder (divide256 n d)) = ival n smod sint d"
    using divide256_val [OF assms(1,3)] by blast+
  have r: "\<bar>ival n smod sint d\<bar> < \<bar>sint d\<bar>"
    using assms(3) by (auto simp: signed_modulo_int_def abs_mult sgn_if)
  have q: "4 * \<bar>ival n sdiv sint d\<bar> < base ^ 4" using abs_sdiv_le [OF assms(3), of "ival n"] assms(2) by linarith
  show "wf256 (divide_and_round n d)"
    and "ival (divide_and_round n d) = round_half_up (ival n) (sint d)"
    using round_from_remainder_val [OF d(1) assms(1), of "remainder (divide256 n d)" d] d r q assms(4,5)
      round_half_up_eq [OF assms(3), of "ival n"]
    by (simp_all add: divide_and_round_def Let_def)
qed

lemma integer_divide_val:
  assumes "wf256 n" "2 * ival n \<noteq> - (base ^ 4)" "sint d \<noteq> 0"
  shows "wf256 (integer_divide n d)" "ival (integer_divide n d) = ival n sdiv sint d"
  using divide256_val [OF assms(1,3)] assms(2) by (simp_all add: integer_divide_def)

end
