(* ===== verification/Decimal128.thy ===== *)
theory Decimal128
  imports Chunked256 "HOL-Library.Monad_Syntax"
begin

text \<open>
  Decimal arithmetic on 128-bit columns (\<^verbatim>\<open>decimal_utils.cu\<close>): the table of powers of ten,
  scaling with rounding, the functors for addition, subtraction, multiplication, division,
  integer division and remainder of one row, and the functions that apply them to columns. A
  scale is the exponent of ten, as in cuDF, so it is usually negative. The exponents that the
  switch of \<open>pow_ten\<close> does not list are undefined behaviour, the value \<open>None\<close>.
\<close>

section \<open>Powers of ten\<close>

text \<open>The cases of the switch, in order: exponents 0 to 38 and 39 to 76.\<close>

definition pow_ten_low :: "chunked256 list" where
  "pow_ten_low =
  [from_chunks 0x0 0x0 0x0 0x1,
   from_chunks 0x0 0x0 0x0 0xa,
   from_chunks 0x0 0x0 0x0 0x64,
   from_chunks 0x0 0x0 0x0 0x3e8,
   from_chunks 0x0 0x0 0x0 0x2710,
   from_chunks 0x0 0x0 0x0 0x186a0,
   from_chunks 0x0 0x0 0x0 0xf4240,
   from_chunks 0x0 0x0 0x0 0x989680,
   from_chunks 0x0 0x0 0x0 0x5f5e100,
   from_chunks 0x0 0x0 0x0 0x3b9aca00,
   from_chunks 0x0 0x0 0x0 0x2540be400,
   from_chunks 0x0 0x0 0x0 0x174876e800,
   from_chunks 0x0 0x0 0x0 0xe8d4a51000,
   from_chunks 0x0 0x0 0x0 0x9184e72a000,
   from_chunks 0x0 0x0 0x0 0x5af3107a4000,
   from_chunks 0x0 0x0 0x0 0x38d7ea4c68000,
   from_chunks 0x0 0x0 0x0 0x2386f26fc10000,
   from_chunks 0x0 0x0 0x0 0x16345785d8a0000,
   from_chunks 0x0 0x0 0x0 0xde0b6b3a7640000,
   from_chunks 0x0 0x0 0x0 0x8ac7230489e80000,
   from_chunks 0x0 0x0 0x5 0x6bc75e2d63100000,
   from_chunks 0x0 0x0 0x36 0x35c9adc5dea00000,
   from_chunks 0x0 0x0 0x21e 0x19e0c9bab2400000,
   from_chunks 0x0 0x0 0x152d 0x2c7e14af6800000,
   from_chunks 0x0 0x0 0xd3c2 0x1bcecceda1000000,
   from_chunks 0x0 0x0 0x84595 0x161401484a000000,
   from_chunks 0x0 0x0 0x52b7d2 0xdcc80cd2e4000000,
   from_chunks 0x0 0x0 0x33b2e3c 0x9fd0803ce8000000,
   from_chunks 0x0 0x0 0x204fce5e 0x3e25026110000000,
   from_chunks 0x0 0x0 0x1431e0fae 0x6d7217caa0000000,
   from_chunks 0x0 0x0 0xc9f2c9cd0 0x4674edea40000000,
   from_chunks 0x0 0x0 0x7e37be2022 0xc0914b2680000000,
   from_chunks 0x0 0x0 0x4ee2d6d415b 0x85acef8100000000,
   from_chunks 0x0 0x0 0x314dc6448d93 0x38c15b0a00000000,
   from_chunks 0x0 0x0 0x1ed09bead87c0 0x378d8e6400000000,
   from_chunks 0x0 0x0 0x13426172c74d82 0x2b878fe800000000,
   from_chunks 0x0 0x0 0xc097ce7bc90715 0xb34b9f1000000000,
   from_chunks 0x0 0x0 0x785ee10d5da46d9 0xf436a000000000,
   from_chunks 0x0 0x0 0x4b3b4ca85a86c47a 0x98a224000000000]"

definition pow_ten_high :: "chunked256 list" where
  "pow_ten_high =
  [from_chunks 0x0 0x2 0xf050fe938943acc4 0x5f65568000000000,
   from_chunks 0x0 0x1d 0x6329f1c35ca4bfab 0xb9f5610000000000,
   from_chunks 0x0 0x125 0xdfa371a19e6f7cb5 0x4395ca0000000000,
   from_chunks 0x0 0xb7a 0xbc627050305adf14 0xa3d9e40000000000,
   from_chunks 0x0 0x72cb 0x5bd86321e38cb6ce 0x6682e80000000000,
   from_chunks 0x0 0x47bf1 0x9673df52e37f2410 0x11d100000000000,
   from_chunks 0x0 0x2cd76f 0xe086b93ce2f768a0 0xb22a00000000000,
   from_chunks 0x0 0x1c06a5e 0xc5433c60ddaa1640 0x6f5a400000000000,
   from_chunks 0x0 0x118427b3 0xb4a05bc8a8a4de84 0x5986800000000000,
   from_chunks 0x0 0xaf298d05 0xe4395d69670b12b 0x7f41000000000000,
   from_chunks 0x0 0x6d79f8232 0x8ea3da61e066ebb2 0xf88a000000000000,
   from_chunks 0x0 0x446c3b15f9 0x926687d2c40534fd 0xb564000000000000,
   from_chunks 0x0 0x2ac3a4edbbf 0xb8014e3ba83411e9 0x15e8000000000000,
   from_chunks 0x0 0x1aba4714957d 0x300d0e549208b31a 0xdb10000000000000,
   from_chunks 0x0 0x10b46c6cdd6e3 0xe0828f4db456ff0c 0x8ea0000000000000,
   from_chunks 0x0 0xa70c3c40a64e6 0xc51999090b65f67d 0x9240000000000000,
   from_chunks 0x0 0x6867a5a867f103 0xb2fffa5a71fba0e7 0xb680000000000000,
   from_chunks 0x0 0x4140c78940f6a24 0xfdffc78873d4490d 0x2100000000000000,
   from_chunks 0x0 0x28c87cb5c89a2571 0xebfdcb54864ada83 0x4a00000000000000,
   from_chunks 0x1 0x97d4df19d6057673 0x37e9f14d3eec8920 0xe400000000000000,
   from_chunks 0xf 0xee50b7025c36a080 0x2f236d04753d5b48 0xe800000000000000,
   from_chunks 0x9f 0x4f2726179a224501 0xd762422c946590d9 0x1000000000000000,
   from_chunks 0x639 0x17877cec0556b212 0x69d695bdcbf7a87a 0xa000000000000000,
   from_chunks 0x3e3a 0xeb4ae1383562f4b8 0x2261d969f7ac94ca 0x4000000000000000,
   from_chunks 0x26e4d 0x30eccc3215dd8f31 0x57d27e23acbdcfe6 0x8000000000000000,
   from_chunks 0x184f03 0xe93ff9f4daa797ed 0x6e38ed64bf6a1f01 0x0,
   from_chunks 0xf31627 0x1c7fc3908a8bef46 0x4e3945ef7a25360a 0x0,
   from_chunks 0x97edd87 0x1cfda3a5697758bf 0xe3cbb5ac5741c64 0x0,
   from_chunks 0x5ef4a747 0x21e864761ea97776 0x8e5f518bb6891be8 0x0,
   from_chunks 0x3b58e88c7 0x5313ec9d329eaaa1 0x8fb92f75215b1710 0x0,
   from_chunks 0x25179157c9 0x3ec73e23fa32aa4f 0x9d3bda934d8ee6a0 0x0,
   from_chunks 0x172ebad6ddc 0x73c86d67c5faa71c 0x245689c107950240 0x0,
   from_chunks 0xe7d34c64a9c 0x85d4460dbbca8719 0x6b61618a4bd21680 0x0,
   from_chunks 0x90e40fbeea1d 0x3a4abc8955e946fe 0x31cdcf66f634e100 0x0,
   from_chunks 0x5a8e89d752524 0x46eb5d5d5b1cc5ed 0xf20a1a059e10ca00 0x0,
   from_chunks 0x3899162693736a 0xc531a5a58f1fbb4b 0x746504382ca7e400 0x0,
   from_chunks 0x235fadd81c2822b 0xb3f07877973d50f2 0x8bf22a31be8ee800 0x0,
   from_chunks 0x161bcca7119915b5 0x764b4abe8652979 0x7775a5f171951000 0x0]"

definition pow_ten_table :: "chunked256 list" where
  "pow_ten_table = pow_ten_low @ pow_ten_high"

definition pow_ten :: "int \<Rightarrow> chunked256 option" where
  "pow_ten exp = (if 0 \<le> exp \<and> exp \<le> 76 then Some (pow_ten_table ! nat exp) else None)"

definition check_scale_divisor :: "int \<Rightarrow> int \<Rightarrow> bool" where
  "check_scale_divisor source_scale target_scale \<longleftrightarrow> target_scale - source_scale \<le> 38"

definition precision10 :: "chunked256 \<Rightarrow> int" where
  "precision10 value =
     (let v = (if sign256 value < 0 then negate256 value else value)
      in case List.find (\<lambda>i. gte_unsigned (pow_ten_table ! i) v) [0..<77] of
           Some i \<Rightarrow> int i | None \<Rightarrow> -1)"

definition is_greater_than_decimal_38 :: "chunked256 \<Rightarrow> bool" where
  "is_greater_than_decimal_38 a =
     (let max_number_for_precision = pow_ten_table ! 38;
          a' = (if sign256 a \<noteq> 0 then negate256 a else a)
      in gte_unsigned a' max_number_for_precision)"

definition set_scale_and_round :: "chunked256 \<Rightarrow> int \<Rightarrow> int \<Rightarrow> chunked256 option" where
  "set_scale_and_round data old_scale new_scale =
     (if old_scale \<noteq> new_scale then
        if new_scale < old_scale then
          do { multiplier \<leftarrow> pow_ten (old_scale - new_scale);
               Some (multiply256 data multiplier) }
        else
          do { divisor \<leftarrow> pow_ten (new_scale - old_scale);
               Some (divide_and_round data (as_128_bits divisor)) }
      else Some data)"

section \<open>One row\<close>

text \<open>
  What a functor writes for its row: the overflow flag, and the value unless it returns before
  writing one.
\<close>

record 'v dec_row =
  overflows :: bool
  row_value :: "'v option"

definition checked_row :: "chunked256 \<Rightarrow> int128 dec_row" where
  "checked_row res = \<lparr>overflows = is_greater_than_decimal_38 res, row_value = Some (as_128_bits res)\<rparr>"

definition do_add_sub ::
  "int \<Rightarrow> int \<Rightarrow> int \<Rightarrow> bool \<Rightarrow> chunked256 \<Rightarrow> chunked256 \<Rightarrow> chunked256 option" where
  "do_add_sub a_scale b_scale result_scale sub a b =
     (let intermediate_scale = min a_scale b_scale in
      do { a1 \<leftarrow> (if a_scale \<noteq> intermediate_scale
                 then set_scale_and_round a a_scale intermediate_scale else Some a);
           b1 \<leftarrow> (if b_scale \<noteq> intermediate_scale
                 then set_scale_and_round b b_scale intermediate_scale else Some b);
           let sum = add256 a1 (if sub then negate256 b1 else b1);
           (if result_scale \<noteq> intermediate_scale
            then set_scale_and_round sum intermediate_scale result_scale else Some sum) })"

definition dec128_add :: "int \<Rightarrow> int \<Rightarrow> int \<Rightarrow> int128 \<Rightarrow> int128 \<Rightarrow> int128 dec_row option" where
  "dec128_add a_scale b_scale result_scale a b =
     do { sum \<leftarrow> do_add_sub a_scale b_scale result_scale False (from_int128 a) (from_int128 b);
          Some (checked_row sum) }"

definition dec128_sub :: "int \<Rightarrow> int \<Rightarrow> int \<Rightarrow> int128 \<Rightarrow> int128 \<Rightarrow> int128 dec_row option" where
  "dec128_sub a_scale b_scale result_scale a b =
     do { res \<leftarrow> do_add_sub a_scale b_scale result_scale True (from_int128 a) (from_int128 b);
          Some (checked_row res) }"

text \<open>The first rounding of the product, to 38 digits, and the scale of the result.\<close>

definition interim_cast :: "bool \<Rightarrow> int \<Rightarrow> int \<Rightarrow> chunked256 \<Rightarrow> (chunked256 \<times> int) option" where
  "interim_cast cast_interim_result a_scale b_scale product =
     (if cast_interim_result then
        let first_div_precision = precision10 product - 38 in
        if first_div_precision > 0 then
          do { divisor \<leftarrow> pow_ten first_div_precision;
               Some (divide_and_round product (as_128_bits divisor),
                     a_scale + b_scale + first_div_precision) }
        else Some (product, a_scale + b_scale)
      else Some (product, a_scale + b_scale))"

text \<open>The second step: the product at the scale of the result column.\<close>

definition scale_product :: "chunked256 \<Rightarrow> int \<Rightarrow> int \<Rightarrow> int128 dec_row option" where
  "scale_product product mult_scale prod_scale =
     (let exponent = prod_scale - mult_scale
      in if exponent < 0 then
           if precision10 product - exponent > 38 then
             Some \<lparr>overflows = True, row_value = None\<rparr>
           else
             do { scale_mult \<leftarrow> pow_ten (- exponent);
                  Some (checked_row (multiply256 product scale_mult)) }
         else
           do { divisor \<leftarrow> pow_ten exponent;
                let scale_divisor = as_128_bits divisor;
                Some (checked_row (if scale_divisor \<noteq> 1
                                   then divide_and_round product scale_divisor else product)) })"

definition dec128_multiplier ::
  "bool \<Rightarrow> int \<Rightarrow> int \<Rightarrow> int \<Rightarrow> int128 \<Rightarrow> int128 \<Rightarrow> int128 dec_row option" where
  "dec128_multiplier cast_interim_result a_scale b_scale prod_scale a b =
     do { (product, mult_scale) \<leftarrow> interim_cast cast_interim_result a_scale b_scale
                                    (multiply256 (from_int128 a) (from_int128 b));
          scale_product product mult_scale prod_scale }"

text \<open>The quotient in all three regimes of the divider, for a divisor other than zero.\<close>

definition divider_result ::
  "bool \<Rightarrow> int \<Rightarrow> int \<Rightarrow> int \<Rightarrow> int128 \<Rightarrow> int128 \<Rightarrow> chunked256 option" where
  "divider_result is_int_div a_scale b_scale quot_scale a d =
     (let n = from_int128 a;
          n_shift_exp = quot_scale - (a_scale - b_scale)
      in if n_shift_exp > 0 then
           do { divisor \<leftarrow> pow_ten n_shift_exp;
                let q = quotient (divide256 n d);
                let scale_divisor = as_128_bits divisor;
                Some (if is_int_div then integer_divide q scale_divisor
                      else divide_and_round q scale_divisor) }
         else if n_shift_exp < -38 then
           do { ten38 \<leftarrow> pow_ten 38;
                let first_div_result = divide256 (multiply256 n ten38) d;
                let first_div_r = from_int128 (remainder first_div_result);
                scale_mult \<leftarrow> pow_ten (- n_shift_exp - 38);
                let result = multiply256 (quotient first_div_result) scale_mult;
                let scaled_div_r = multiply256 first_div_r scale_mult;
                let second_div_result = divide256 scaled_div_r d;
                let result = add256 result (quotient second_div_result);
                Some (if is_int_div then result
                      else round_from_remainder result (remainder second_div_result) scaled_div_r d) }
         else
           do { n' \<leftarrow> (if n_shift_exp < 0
                      then do { mult \<leftarrow> pow_ten (- n_shift_exp); Some (multiply256 n mult) }
                      else Some n);
                Some (if is_int_div then integer_divide n' d else divide_and_round n' d) })"

definition dec128_divider ::
  "int \<Rightarrow> int \<Rightarrow> int \<Rightarrow> int128 \<Rightarrow> int128 \<Rightarrow> int128 dec_row option" where
  "dec128_divider a_scale b_scale quot_scale a d =
     (if d = 0 then Some \<lparr>overflows = True, row_value = Some 0\<rparr>
      else do { result \<leftarrow> divider_result False a_scale b_scale quot_scale a d;
                Some (checked_row result) })"

definition dec128_int_divider ::
  "int \<Rightarrow> int \<Rightarrow> int \<Rightarrow> int128 \<Rightarrow> int128 \<Rightarrow> uint64 dec_row option" where
  "dec128_int_divider a_scale b_scale quot_scale a d =
     (if d = 0 then Some \<lparr>overflows = True, row_value = Some 0\<rparr>
      else do { result \<leftarrow> divider_result True a_scale b_scale quot_scale a d;
                Some \<lparr>overflows = is_greater_than_decimal_38 result,
                      row_value = Some (as_64_bits result)\<rparr> })"

definition dec128_remainder ::
  "int \<Rightarrow> int \<Rightarrow> int \<Rightarrow> int128 \<Rightarrow> int128 \<Rightarrow> int128 dec_row option" where
  "dec128_remainder a_scale b_scale rem_scale a d =
     (if d = 0 then Some \<lparr>overflows = True, row_value = Some 0\<rparr>
      else
        let n = from_int128 a;
            is_n_neg = sign256 n < 0;
            d_shift_exp = rem_scale - b_scale;
            abs_d0 = (if d <s 0 then - d else d)
        in do {
          (abs_d, n_shift_exp) \<leftarrow>
            (if d_shift_exp > 0 then
               do { divisor \<leftarrow> pow_ten d_shift_exp;
                    Some (as_128_bits (divide_and_round (from_int128 abs_d0) (as_128_bits divisor)),
                          rem_scale - a_scale) }
             else Some (abs_d0, rem_scale - a_scale - d_shift_exp));
          let abs_n0 = (if is_n_neg then negate256 n else n);
          (abs_n, int_div_result) \<leftarrow>
            (if n_shift_exp > 0 then
               do { divisor \<leftarrow> pow_ten n_shift_exp;
                    Some (abs_n0, integer_divide (quotient (divide256 abs_n0 abs_d))
                                    (as_128_bits divisor)) }
             else
               do { n' \<leftarrow> (if n_shift_exp < 0
                          then do { mult \<leftarrow> pow_ten (- n_shift_exp); Some (multiply256 abs_n0 mult) }
                          else Some abs_n0);
                    Some (n', integer_divide n' abs_d) });
          let less_n0 = multiply256 int_div_result (from_int128 abs_d);
          less_n \<leftarrow> (if d_shift_exp < 0
                     then do { mult \<leftarrow> pow_ten (- d_shift_exp); Some (multiply256 less_n0 mult) }
                     else Some less_n0);
          let rest = add256 abs_n (negate256 less_n);
          let result = as_128_bits rest;
          Some \<lparr>overflows = is_greater_than_decimal_38 rest,
                row_value = Some (if is_n_neg then - result else result)\<rparr> })"

section \<open>Columns\<close>

record decimal_column =
  is_decimal128 :: bool
  dec_scale :: int
  dec_data :: "int128 list"
  dec_valid :: "bool list"

datatype cudf_error = Not_Decimal128 | Mismatched_Rows | Divisor_Too_Big

text \<open>
  The checks and the loop over the rows that the five functions share; every row is computed,
  and the result is null where one of the inputs is.
\<close>

definition decimal_binary ::
  "bool \<Rightarrow> (int128 \<Rightarrow> int128 \<Rightarrow> 'v dec_row option) \<Rightarrow> decimal_column \<Rightarrow> decimal_column \<Rightarrow>
   cudf_error + ('v dec_row option \<times> bool) list" where
  "decimal_binary scales_ok row a b =
     (if \<not> is_decimal128 a \<or> \<not> is_decimal128 b then Inl Not_Decimal128
      else if length (dec_data a) \<noteq> length (dec_data b) then Inl Mismatched_Rows
      else if \<not> scales_ok then Inl Divisor_Too_Big
      else Inr (zip (map2 row (dec_data a) (dec_data b)) (map2 (\<and>) (dec_valid a) (dec_valid b))))"

definition multiply_decimal128 ::
  "decimal_column \<Rightarrow> decimal_column \<Rightarrow> int \<Rightarrow> bool \<Rightarrow> cudf_error + (int128 dec_row option \<times> bool) list" where
  "multiply_decimal128 a b product_scale cast_interim_result =
     decimal_binary (check_scale_divisor (dec_scale a + dec_scale b) product_scale)
       (dec128_multiplier cast_interim_result (dec_scale a) (dec_scale b) product_scale) a b"

definition divide_decimal128 ::
  "decimal_column \<Rightarrow> decimal_column \<Rightarrow> int \<Rightarrow> cudf_error + (int128 dec_row option \<times> bool) list" where
  "divide_decimal128 a b quotient_scale =
     decimal_binary True (dec128_divider (dec_scale a) (dec_scale b) quotient_scale) a b"

text \<open>The quotient column of the integer division has type INT64 and so scale zero.\<close>

definition integer_divide_decimal128 ::
  "decimal_column \<Rightarrow> decimal_column \<Rightarrow> int \<Rightarrow> cudf_error + (uint64 dec_row option \<times> bool) list" where
  "integer_divide_decimal128 a b quotient_scale =
     decimal_binary True (dec128_int_divider (dec_scale a) (dec_scale b) 0) a b"

definition remainder_decimal128 ::
  "decimal_column \<Rightarrow> decimal_column \<Rightarrow> int \<Rightarrow> cudf_error + (int128 dec_row option \<times> bool) list" where
  "remainder_decimal128 a b remainder_scale =
     decimal_binary True (dec128_remainder (dec_scale a) (dec_scale b) remainder_scale) a b"

definition add_decimal128 ::
  "decimal_column \<Rightarrow> decimal_column \<Rightarrow> int \<Rightarrow> cudf_error + (int128 dec_row option \<times> bool) list" where
  "add_decimal128 a b target_scale =
     decimal_binary True (dec128_add (dec_scale a) (dec_scale b) target_scale) a b"

definition sub_decimal128 ::
  "decimal_column \<Rightarrow> decimal_column \<Rightarrow> int \<Rightarrow> cudf_error + (int128 dec_row option \<times> bool) list" where
  "sub_decimal128 a b target_scale =
     decimal_binary True (dec128_sub (dec_scale a) (dec_scale b) target_scale) a b"

section \<open>The table\<close>

lemma pow_ten_table_ok: "list_all (\<lambda>i. wf256 (pow_ten_table ! i) \<and> uval (pow_ten_table ! i) = 10 ^ i) [0..<77]"
  by code_simp

end
