(* ===== verification/DecimalProps.thy ===== *)
theory DecimalProps
  imports Decimal128
begin

text \<open>
  What the decimal operations compute, over the integers: the table of powers of ten, the test for
  38 digits, scaling with rounding, and the row functors for products, quotients, sums and
  remainders. The lemmas rest on the arithmetic of \<open>Chunked256\<close> through the interpretation \<open>i256\<close>.
\<close>

section \<open>Powers of ten\<close>

lemma pow_ten_bounds:
  "8 * 10 ^ 76 < base ^ 4" "10 ^ 38 < HALF" "4 * 10 ^ 37 < HALF" "4 * (HALF * HALF) \<le> base ^ 4"
  by (simp_all add: base_pow HALF_def)

lemma pow10_mono: "m \<le> n \<Longrightarrow> (10 :: int) ^ m \<le> 10 ^ n"
  by (rule power_increasing) simp_all

lemma pow_ten_table_val:
  assumes "i \<le> 76"
  shows "wf256 (pow_ten_table ! i)" "uval (pow_ten_table ! i) = 10 ^ i" "ival (pow_ten_table ! i) = 10 ^ i"
proof -
  have "i \<in> set [0..<77]" using assms by simp
  then show wf: "wf256 (pow_ten_table ! i)" and u: "uval (pow_ten_table ! i) = 10 ^ i"
    using pow_ten_table_ok unfolding list_all_iff by blast+
  have "2 * (10 :: int) ^ i < base ^ 4" using pow10_mono [OF assms] pow_ten_bounds(1)
      zero_less_power [of "10 :: int" 76] by linarith
  then show "ival (pow_ten_table ! i) = 10 ^ i" by (simp add: ival_def u)
qed

lemma pow_ten_some:
  assumes "0 \<le> e" "e \<le> 76"
  obtains p where "pow_ten e = Some p" "wf256 p" "ival p = 10 ^ nat e"
proof
  show "pow_ten e = Some (pow_ten_table ! nat e)" using assms by (simp add: pow_ten_def)
qed (use pow_ten_table_val [of "nat e"] assms in \<open>simp_all add: nat_le_iff\<close>)

lemma pow_ten_128:
  assumes "0 \<le> e" "e \<le> 38"
  obtains p where "pow_ten e = Some p" "wf256 p" "ival p = 10 ^ nat e" "sint (as_128_bits p) = 10 ^ nat e"
proof -
  obtain p where p: "pow_ten e = Some p" "wf256 p" "ival p = 10 ^ nat e"
    using pow_ten_some [of e] assms by auto
  have "(10 :: int) ^ nat e \<le> 10 ^ 38" using assms by (intro pow10_mono) simp
  then have "2 * ival p < base * base" using pow_ten_bounds(2) by (simp add: HALF p(3))
  moreover have "- (base * base) \<le> 2 * ival p" using HALF by (simp add: p(3) less_le_trans [of _ 0] order_trans [of _ 0])
  ultimately have "sint (as_128_bits p) = 10 ^ nat e" using sint_as_128 [OF p(2)] by (simp add: p(3))
  then show ?thesis using that p by blast
qed

section \<open>The test for 38 digits\<close>

lemma sign256_nonzero: "wf256 a \<Longrightarrow> sign256 a \<noteq> 0 \<longleftrightarrow> ival a < 0"
  using sign256_neg [of a] sign256_val [of a] by auto

lemma greater_than_38: "wf256 a \<Longrightarrow> is_greater_than_decimal_38 a \<longleftrightarrow> 10 ^ 38 \<le> \<bar>ival a\<bar>"
proof -
  assume wf: "wf256 a"
  define a' where "a' = (if sign256 a < 0 then negate256 a else a)"
  have "a' = (if sign256 a \<noteq> 0 then negate256 a else a)"
    using sign256_nonzero [OF wf] sign256_neg [OF wf] by (simp add: a'_def)
  then have "is_greater_than_decimal_38 a \<longleftrightarrow> \<not> lt_unsigned a' (pow_ten_table ! 38)"
    unfolding is_greater_than_decimal_38_def Let_def gte_unsigned_def by simp
  also have "\<dots> \<longleftrightarrow> \<not> uval a' < uval (pow_ten_table ! 38)"
    using lt_unsigned_iff [of a' "pow_ten_table ! 38"] pow_ten_table_val(1) [of 38] wf by (simp add: a'_def)
  also have "\<dots> \<longleftrightarrow> 10 ^ 38 \<le> \<bar>ival a\<bar>"
    using uval_abs256 [OF wf] pow_ten_table_val(2) [of 38] by (simp add: a'_def not_less)
  finally show ?thesis .
qed

text \<open>\<open>fits38 R row\<close>: the row reports overflow exactly for a value of more than 38 digits, and
  otherwise holds the value.\<close>

definition fits38 :: "int \<Rightarrow> int128 dec_row \<Rightarrow> bool" where
  "fits38 R row \<longleftrightarrow> (overflows row \<longleftrightarrow> 10 ^ 38 \<le> \<bar>R\<bar>) \<and>
     (\<not> overflows row \<longrightarrow> map_option sint (row_value row) = Some R)"

lemma small_as_128: "wf256 c \<Longrightarrow> \<bar>ival c\<bar> < 10 ^ 38 \<Longrightarrow> sint (as_128_bits c) = ival c"
  using pow_ten_bounds(2) by (intro sint_as_128) (simp_all add: HALF)

lemma checked_row_fits: "wf256 c \<Longrightarrow> ival c = R \<Longrightarrow> fits38 R (checked_row c)"
  using greater_than_38 [of c] small_as_128 [of c] by (auto simp: fits38_def checked_row_def)

lemma precision10_val:
  assumes "wf256 v" "\<bar>ival v\<bar> \<le> 10 ^ 76"
  obtains i where "i \<le> 76" "precision10 v = int i" "\<bar>ival v\<bar> \<le> 10 ^ i" "\<And>j. j < i \<Longrightarrow> 10 ^ j < \<bar>ival v\<bar>"
proof -
  define a where "a = (if sign256 v < 0 then negate256 v else v)"
  let ?P = "\<lambda>i. gte_unsigned (pow_ten_table ! i) a"
  have wf: "wf256 a" using assms(1) by (simp add: a_def)
  have P: "?P i \<longleftrightarrow> \<bar>ival v\<bar> \<le> 10 ^ i" if "i \<le> 76" for i
    using lt_unsigned_iff [OF pow_ten_table_val(1) [OF that] wf] uval_abs256 [OF assms(1)]
      pow_ten_table_val(2) [OF that] by (simp add: gte_unsigned_def a_def not_less)
  have "List.find ?P [0..<77] \<noteq> None"
    using assms(2) P [of 76] unfolding find_None_iff by (auto intro!: exI [of _ 76])
  then obtain i where i: "List.find ?P [0..<77] = Some i" by blast
  then have i': "i < 77" "?P i" "\<And>j. j < i \<Longrightarrow> \<not> ?P j" unfolding find_Some_iff by auto
  show ?thesis
  proof (rule that)
    show "precision10 v = int i" using i by (simp add: precision10_def a_def [symmetric])
    show "\<bar>ival v\<bar> \<le> 10 ^ i" using P [of i] i' by simp
    show "10 ^ j < \<bar>ival v\<bar>" if "j < i" for j using P [of j] i'(1) i'(3) [OF that] that by simp
  qed (use i' in simp)
qed

section \<open>Scaling\<close>

text \<open>
  \<open>rescale v s t\<close>: the integer that stands at scale \<open>t\<close> for the decimal \<open>v * 10 ^ s\<close>, rounded half
  away from zero when digits are dropped.
\<close>

definition rescale :: "int \<Rightarrow> int \<Rightarrow> int \<Rightarrow> int" where
  "rescale v s t = (if t < s then v * 10 ^ nat (s - t) else round_half_up v (10 ^ nat (t - s)))"

lemma round_half_up_1 [simp]: "round_half_up v 1 = v"
  by (simp add: round_half_up_def sgn_if split: if_splits)

lemma round_bounds:
  assumes "0 < d" "d < \<bar>v\<bar>"
  shows "\<bar>round_half_up v d\<bar> \<le> \<bar>v\<bar>" "round_half_up v d \<noteq> 0"
proof -
  define A x where "A = \<bar>v\<bar>" and "x = (2 * A + d) div (2 * d)"
  have up: "2 * d * x \<le> 2 * A + d"
    using assms(1) mult_div_mod_eq [of "2 * d" "2 * A + d"] pos_mod_sign [of "2 * d" "2 * A + d"]
    unfolding x_def by linarith
  have lo: "1 \<le> x" using zdiv_mono1 [of "2 * d" "2 * A + d" "2 * d"] assms by (simp add: x_def A_def)
  have "x \<le> A"
  proof (rule ccontr)
    assume "\<not> x \<le> A"
    then have "2 * d * (A + 1) \<le> 2 * d * x" using assms(1) by (intro mult_left_mono) simp_all
    moreover have "1 * A \<le> d * A" using assms(1) by (intro mult_right_mono) (simp_all add: A_def)
    ultimately show False using up assms(1) by (simp add: algebra_simps)
  qed
  moreover have "round_half_up v d = sgn v * x"
    using assms by (simp add: round_half_up_def x_def A_def)
  ultimately show "\<bar>round_half_up v d\<bar> \<le> \<bar>v\<bar>" "round_half_up v d \<noteq> 0"
    using lo assms by (auto simp: abs_mult A_def sgn_if)
qed

lemma multiply_exact:
  assumes "wf256 a" "wf256 b" "ival a * ival b = X" "2 * \<bar>X\<bar> < base ^ 4"
  shows "wf256 (multiply256 a b)" "ival (multiply256 a b) = X"
  using assms i256.ok_ops(2) [OF assms(1,2)] by (auto intro!: i256.times_exact)

text \<open>
  The rounding is exact but for one remainder: \<open>- (2 ^ 126)\<close>, which only the divisor \<open>10 ^ 38\<close> can leave.
\<close>

definition rounds :: "int \<Rightarrow> nat \<Rightarrow> bool" where
  "rounds v k \<longleftrightarrow> k \<le> 38 \<and> (k = 38 \<longrightarrow> v smod 10 ^ k \<noteq> - (2 ^ 126))"

lemma round_pow_ten_exact:
  assumes "wf256 n" "4 * \<bar>ival n\<bar> < base ^ 4" "rounds (ival n) k" "sint d = 10 ^ k"
  shows "wf256 (divide_and_round n d)" "ival (divide_and_round n d) = round_half_up (ival n) (10 ^ k)"
proof -
  have k: "k \<le> 38" using assms(3) by (simp add: rounds_def)
  have p: "(0 :: int) < 10 ^ k" "(10 :: int) ^ k \<le> 10 ^ 38" using pow10_mono [OF k] by simp_all
  have "\<bar>ival n smod 10 ^ k\<bar> < 10 ^ k" by (simp add: signed_modulo_int_def abs_mult sgn_if)
  then have r: "2 * (ival n smod sint d) \<noteq> - HALF"
  proof (cases "k = 38")
    case True
    then have "ival n smod 10 ^ k \<noteq> - (2 ^ 126)" using assms(3) by (simp add: rounds_def)
    then show ?thesis unfolding assms(4) HALF_def by simp
  next
    case False
    then have "(10 :: int) ^ k \<le> 10 ^ 37" using pow10_mono [of k 37] k by simp
    then show ?thesis using \<open>\<bar>_\<bar> < 10 ^ k\<close> pow_ten_bounds(3) unfolding assms(4) by linarith
  qed
  have "sint d \<noteq> - HALF" using p HALF(2) unfolding assms(4) by linarith
  with r show "wf256 (divide_and_round n d)"
    and "ival (divide_and_round n d) = round_half_up (ival n) (10 ^ k)"
    using divide_and_round_val [OF assms(1,2), of d] p(1) unfolding assms(4) by simp_all
qed

lemma round_pow_ten:
  assumes "wf256 n" "4 * \<bar>ival n\<bar> < base ^ 4" "k \<le> 37" "sint d = 10 ^ k"
  shows "wf256 (divide_and_round n d)" "ival (divide_and_round n d) = round_half_up (ival n) (10 ^ k)"
  using round_pow_ten_exact [OF assms(1,2) _ assms(4)] assms(3) by (simp_all add: rounds_def)

lemma scale_product_fits:
  assumes "wf256 p" "\<bar>ival p\<bar> \<le> 10 ^ 76" "rounds (ival p) (nat (prod_scale - mult_scale))"
    and "- 38 \<le> prod_scale - mult_scale \<or> ival p \<noteq> 0"
  shows "\<exists>row. scale_product p mult_scale prod_scale = Some row \<and> fits38 (rescale (ival p) mult_scale prod_scale) row"
proof (cases "prod_scale < mult_scale")
  case True
  define k where "k = nat (mult_scale - prod_scale)"
  have k: "mult_scale - prod_scale = int k" using True by (simp add: k_def)
  have R: "rescale (ival p) mult_scale prod_scale = ival p * 10 ^ k" using True by (simp add: rescale_def k_def)
  obtain i where i: "precision10 p = int i" "\<bar>ival p\<bar> \<le> 10 ^ i" "\<And>j. j < i \<Longrightarrow> 10 ^ j < \<bar>ival p\<bar>"
    using precision10_val [OF assms(1,2)] by blast
  show ?thesis
  proof (cases "i + k > 38")
    case over: True
    then have "scale_product p mult_scale prod_scale = Some \<lparr>overflows = True, row_value = None\<rparr>"
      using True k i(1) by (simp add: scale_product_def)
    moreover have "10 ^ 38 \<le> \<bar>ival p * 10 ^ k\<bar>"
    proof (cases "k \<le> 38")
      case True
      then have "10 ^ (38 - k) < \<bar>ival p\<bar>" using i(3) over by simp
      then have "10 ^ (38 - k) * 10 ^ k \<le> \<bar>ival p\<bar> * 10 ^ k" by (intro mult_right_mono) simp_all
      then show ?thesis using True by (simp add: abs_mult flip: power_add)
    next
      case False
      then have "ival p \<noteq> 0" using assms(4) k by linarith
      have "(10 :: int) ^ 38 \<le> 1 * 10 ^ k" using pow10_mono [of 38 k] False by simp
      also have "\<dots> \<le> \<bar>ival p\<bar> * 10 ^ k" using \<open>ival p \<noteq> 0\<close> by (intro mult_right_mono) simp_all
      finally show ?thesis by (simp only: abs_mult power_abs abs_numeral)
    qed
    ultimately show ?thesis by (simp add: fits38_def R)
  next
    case False
    obtain m where m: "pow_ten (int k) = Some m" "wf256 m" "ival m = 10 ^ k"
      using pow_ten_some [of "int k"] False by auto
    have "\<bar>ival p\<bar> * 10 ^ k \<le> 10 ^ i * 10 ^ k" using i(2) by (intro mult_right_mono) simp_all
    also have "\<dots> \<le> 10 ^ 38" using False pow10_mono [of "i + k" 38] by (simp add: power_add)
    finally have "2 * \<bar>ival p * 10 ^ k\<bar> < base ^ 4"
      using pow_ten_bounds(1) by (simp add: abs_mult)
    then have "wf256 (multiply256 p m)" "ival (multiply256 p m) = ival p * 10 ^ k"
      using multiply_exact [OF assms(1) m(2), of "ival p * 10 ^ k"] m(3) by simp_all
    then show ?thesis
      using True k i(1) False m(1) by (simp add: scale_product_def R checked_row_fits)
  qed
next
  case False
  define k where "k = nat (prod_scale - mult_scale)"
  have k: "prod_scale - mult_scale = int k" "k \<le> 38" "rounds (ival p) k" using False assms(3) by (simp_all add: k_def rounds_def)
  obtain m where m: "pow_ten (int k) = Some m" "sint (as_128_bits m) = 10 ^ k"
    using pow_ten_128 [of "int k"] k(2) by auto
  have "4 * \<bar>ival p\<bar> < base ^ 4" using assms(2) pow_ten_bounds(1) by linarith
  note val = round_pow_ten_exact [OF assms(1) this k(3) m(2)]
  let ?q = "if as_128_bits m \<noteq> 1 then divide_and_round p (as_128_bits m) else p"
  have "wf256 ?q \<and> ival ?q = round_half_up (ival p) (10 ^ k)"
  proof (cases "as_128_bits m = 1")
    case True
    then have "(10 :: int) ^ k = 1" using m(2) by simp
    then show ?thesis using True assms(1) by simp
  qed (use val in simp)
  moreover have "scale_product p mult_scale prod_scale = Some (checked_row ?q)"
    using False k(1) m(1) by (simp add: scale_product_def)
  ultimately show ?thesis
    using False by (auto simp: rescale_def k_def intro!: checked_row_fits)
qed

section \<open>Products\<close>

definition decimal38 :: "int128 \<Rightarrow> bool" where
  "decimal38 x \<longleftrightarrow> \<bar>sint x\<bar> < 10 ^ 38"

lemma mult_abs_less: "\<bar>a\<bar> < M \<Longrightarrow> \<bar>b\<bar> < N \<Longrightarrow> \<bar>a * b\<bar> < M * (N :: int)"
  unfolding abs_mult by (intro mult_strict_mono') simp_all

lemma product_val:
  assumes "decimal38 a" "decimal38 b"
  defines "p \<equiv> multiply256 (from_int128 a) (from_int128 b)"
  shows "wf256 p" "ival p = sint a * sint b" "\<bar>ival p\<bar> \<le> 10 ^ 76"
proof -
  have "\<bar>sint a * sint b\<bar> < 10 ^ 38 * 10 ^ 38" using assms(1,2) unfolding decimal38_def by (rule mult_abs_less)
  then have *: "\<bar>sint a * sint b\<bar> < 10 ^ 76" by simp
  then show "wf256 p" "ival p = sint a * sint b" "\<bar>ival p\<bar> \<le> 10 ^ 76"
    using multiply_exact [of "from_int128 a" "from_int128 b" "sint a * sint b"] pow_ten_bounds(1)
    by (simp_all add: p_def)
qed

text \<open>
  The legacy mode drops the digits beyond the 38th first: \<open>interim_digits\<close> is their number, for a
  product that may be \<open>10 ^ 38\<close> itself without losing any.
\<close>

definition interim_digits :: "bool \<Rightarrow> int \<Rightarrow> nat" where
  "interim_digits cast_interim_result v = (if cast_interim_result then LEAST k. \<bar>v\<bar> \<le> 10 ^ (38 + k) else 0)"

definition interim_value :: "bool \<Rightarrow> int \<Rightarrow> int" where
  "interim_value cast_interim_result v = round_half_up v (10 ^ interim_digits cast_interim_result v)"

text \<open>The product \<open>v\<close> at the sum of the scales, at the scale of the result.\<close>

definition rounded_product :: "bool \<Rightarrow> int \<Rightarrow> int \<Rightarrow> int \<Rightarrow> int" where
  "rounded_product cast_interim_result v s t =
     rescale (interim_value cast_interim_result v) (s + int (interim_digits cast_interim_result v)) t"

definition product_rounds :: "bool \<Rightarrow> int \<Rightarrow> int \<Rightarrow> int \<Rightarrow> bool" where
  "product_rounds cast_interim_result v s t \<longleftrightarrow>
     rounds v (interim_digits cast_interim_result v)
     \<and> rounds (interim_value cast_interim_result v) (nat (t - (s + int (interim_digits cast_interim_result v))))"

lemma interim_digits_simps [simp]: "interim_digits False v = 0" "interim_digits c 0 = 0"
  by (simp_all add: interim_digits_def Least_eq_0)

lemma interim_cast_val:
  assumes "wf256 p" "\<bar>ival p\<bar> \<le> 10 ^ 76" "rounds (ival p) (interim_digits c (ival p))"
  obtains q where "interim_cast c a_scale b_scale p = Some (q, a_scale + b_scale + int (interim_digits c (ival p)))"
    "wf256 q" "ival q = interim_value c (ival p)" "\<bar>ival q\<bar> \<le> 10 ^ 76" "ival p \<noteq> 0 \<Longrightarrow> ival q \<noteq> 0"
proof -
  obtain i where i: "precision10 p = int i" "\<bar>ival p\<bar> \<le> 10 ^ i" "\<And>j. j < i \<Longrightarrow> 10 ^ j < \<bar>ival p\<bar>"
    using precision10_val [OF assms(1,2)] by blast
  have le: "\<bar>ival p\<bar> \<le> 10 ^ j \<longleftrightarrow> i \<le> j" for j using i(2) i(3) [of j] pow10_mono [of i j] by linarith
  have "(LEAST k. \<bar>ival p\<bar> \<le> 10 ^ (38 + k)) = i - 38" unfolding le by (rule Least_equality) auto
  then have d: "interim_digits c (ival p) = (if c then i - 38 else 0)" by (simp add: interim_digits_def)
  show ?thesis
  proof (cases "c \<and> 38 < i")
    case False
    then have z: "interim_digits c (ival p) = 0" by (auto simp: d)
    show ?thesis
      by (rule that [of p]) (use False i(1) z assms(1,2) in \<open>auto simp: interim_cast_def interim_value_def\<close>)
  next
    case True
    define k where "k = i - 38"
    have k: "interim_digits c (ival p) = k" "precision10 p - 38 = int k" "0 < k" "rounds (ival p) k"
      using True i(1) d assms(3) by (simp_all add: k_def of_nat_diff)
    obtain m where m: "pow_ten (int k) = Some m" "sint (as_128_bits m) = 10 ^ k"
      using pow_ten_128 [of "int k"] k(4) by (auto simp: rounds_def)
    have "4 * \<bar>ival p\<bar> < base ^ 4" using assms(2) pow_ten_bounds(1) by linarith
    note q = round_pow_ten_exact [OF assms(1) this k(4) m(2)]
    have "10 ^ (37 + k) < \<bar>ival p\<bar>" using i(3) [of "37 + k"] True by (simp add: k_def)
    then have "10 ^ k < \<bar>ival p\<bar>" using pow10_mono [of k "37 + k"] by linarith
    note b = round_bounds [OF _ this]
    show ?thesis
      by (rule that [of "divide_and_round p (as_128_bits m)"])
        (use True k m(1) q b assms(2) in \<open>simp_all add: interim_cast_def interim_value_def\<close>)
  qed
qed

lemma multiplier_fits:
  assumes "decimal38 a" "decimal38 b" "product_rounds c (sint a * sint b) (a_scale + b_scale) prod_scale"
    and "- 38 \<le> prod_scale - (a_scale + b_scale) \<or> sint a * sint b \<noteq> 0"
  shows "\<exists>row. dec128_multiplier c a_scale b_scale prod_scale a b = Some row \<and>
           fits38 (rounded_product c (sint a * sint b) (a_scale + b_scale) prod_scale) row"
proof -
  let ?p = "multiply256 (from_int128 a) (from_int128 b)" and ?v = "sint a * sint b"
  note p = product_val [OF assms(1,2)]
  obtain q where q: "interim_cast c a_scale b_scale ?p = Some (q, a_scale + b_scale + int (interim_digits c ?v))"
    "wf256 q" "ival q = interim_value c ?v" "\<bar>ival q\<bar> \<le> 10 ^ 76" "?v \<noteq> 0 \<Longrightarrow> ival q \<noteq> 0"
    using interim_cast_val [OF p(1,3), of c a_scale b_scale] assms(3) p(2) by (auto simp: product_rounds_def)
  have "interim_digits c ?v = 0" if "?v = 0" unfolding that by simp
  then have "- 38 \<le> prod_scale - (a_scale + b_scale + int (interim_digits c ?v)) \<or> ival q \<noteq> 0"
    using assms(4) q(5) by (cases "?v = 0") auto
  with scale_product_fits [OF q(2,4), of prod_scale "a_scale + b_scale + int (interim_digits c ?v)"] assms(3) q(1,3)
  show ?thesis by (simp add: dec128_multiplier_def product_rounds_def rounded_product_def)
qed

text \<open>
  C9: The product of two decimals of at most 38 digits. In the mode of the fixed Spark versions it is
  exact and rounded half up once, to the scale of the result column; in the legacy mode, which is the
  default, it is first rounded half up to 38 digits and the rounded value is then rounded again.
  Overflow is reported exactly when the value at the scale of the result has more than 38 digits. A
  rounding that leaves the remainder \<open>- (2 ^ 126)\<close> at \<open>10 ^ 38\<close> is excluded: there the code is wrong.
  So is a product of zero that would be multiplied by more than \<open>10 ^ 38\<close>.
\<close>
theorem multiply_correct:
  assumes "decimal38 a" "decimal38 b"
    and "product_rounds cast_interim_result (sint a * sint b) (a_scale + b_scale) prod_scale"
    and "- 38 \<le> prod_scale - (a_scale + b_scale) \<or> sint a * sint b \<noteq> 0"
  shows "\<exists>row. dec128_multiplier cast_interim_result a_scale b_scale prod_scale a b = Some row \<and>
           fits38 (rounded_product cast_interim_result (sint a * sint b) (a_scale + b_scale) prod_scale) row"
  using assms by (rule multiplier_fits)

text \<open>
  The example of \<^verbatim>\<open>DecimalUtils.java\<close>: the exact product of -8533444864753048107770677711.1312637916 and
  -12.0000000000 rounds to the last digit 5, the legacy mode gives 6.
\<close>

lemma interim_digits_eq:
  "\<bar>v\<bar> \<le> 10 ^ (38 + k) \<Longrightarrow> 10 ^ (37 + k) < \<bar>v\<bar> \<Longrightarrow> interim_digits True v = k"
  unfolding interim_digits_def if_True
proof (rule Least_equality)
  fix j
  assume v: "10 ^ (37 + k) < \<bar>v\<bar>" "\<bar>v\<bar> \<le> 10 ^ (38 + j)"
  show "k \<le> j"
  proof (rule ccontr)
    assume "\<not> k \<le> j"
    then have "(10 :: int) ^ (38 + j) \<le> 10 ^ (37 + k)" by (intro pow10_mono) simp
    then show False using v by linarith
  qed
qed

theorem multiply_correct_witness:
  "(\<exists>row. dec128_multiplier False (- 10) (- 10) (- 6) (- 85334448647530481077706777111312637916) (- 120000000000) = Some row
     \<and> fits38 102401338377036577293248132533575165 row)
   \<and> (\<exists>row. dec128_multiplier True (- 10) (- 10) (- 6) (- 85334448647530481077706777111312637916) (- 120000000000) = Some row
     \<and> fits38 102401338377036577293248132533575166 row)"
proof -
  have v: "sint (- 85334448647530481077706777111312637916 :: int128) * sint (- 120000000000 :: int128)
    = 10240133837703657729324813253357516549920000000000" by simp
  have d: "interim_digits True 10240133837703657729324813253357516549920000000000 = 12"
    by (rule interim_digits_eq) simp_all
  have "decimal38 (- 85334448647530481077706777111312637916)" "decimal38 (- 120000000000)"
    by (simp_all add: decimal38_def)
  note m = multiply_correct [OF this, unfolded v]
  show ?thesis
    using m [of False "- 10" "- 10" "- 6"] m [of True "- 10" "- 10" "- 6"]
    by (simp add: product_rounds_def rounds_def rounded_product_def interim_value_def d rescale_def round_half_up_def)
qed

section \<open>Quotients\<close>

lemma word_of_int_base: "(word_of_int (x - base ^ 4) :: uint64) = word_of_int x"
  by (simp add: word_of_int_eq_iff take_bit_eq_mod base_pow mod_eq_dvd_iff)

lemma as_64_val: "wf256 c \<Longrightarrow> as_64_bits c = word_of_int (uval c)"
proof (erule wf256_cases)
  fix l m h u assume c: "c = [l, m, h, u]"
  have "uint (word_of_int (uval c) :: uint64) = uval c mod base"
    by (simp add: unsigned_of_int take_bit_eq_mod base_def)
  also have "\<dots> = uint l" by (simp add: c)
  finally have "word_of_int (uval c) = l" by (simp only: word_uint_eq_iff)
  then show ?thesis by (simp only: as_64_bits_def) (simp add: c)
qed

lemma sdiv_scale:
  fixes n d k :: int
  assumes "d \<noteq> 0" "0 < k"
  shows "(n * k) sdiv d = (n sdiv d) * k + ((n smod d) * k) sdiv d"
    and "(n * k) smod d = ((n smod d) * k) smod d"
proof -
  define N D q r where "N = \<bar>n\<bar>" and "D = \<bar>d\<bar>" and "q = N div D" and "r = N mod D"
  have D: "0 < D" "0 \<le> r" "N = D * q + r" using assms(1) by (simp_all add: N_def D_def q_def r_def)
  have "N * k = D * (q * k) + r * k" by (simp add: D(3) algebra_simps)
  then have *: "N * k div D = q * k + r * k div D" "N * k mod D = r * k mod D" using D(1) by simp_all
  have n: "n sdiv d = sgn n * sgn d * q" "n smod d = sgn n * r"
    by (simp_all add: signed_divide_int_def signed_modulo_int_def N_def D_def q_def r_def)
  have nk: "(n * k) sdiv d = sgn n * sgn d * (N * k div D)" "(n * k) smod d = sgn n * (N * k mod D)"
    using assms(2) by (simp_all add: signed_divide_int_def signed_modulo_int_def N_def D_def sgn_mult abs_mult)
  define e where "e = r * k"
  have "0 \<le> e" using D(2) assms(2) by (simp add: e_def)
  then have "(sgn n * e) sdiv d = sgn n * sgn d * (e div D)" "(sgn n * e) smod d = sgn n * (e mod D)"
    by (auto simp: signed_divide_int_def signed_modulo_int_def D_def sgn_if)
  then have rk: "(sgn n * r * k) sdiv d = sgn n * sgn d * (r * k div D)" "(sgn n * r * k) smod d = sgn n * (r * k mod D)"
    by (simp_all add: e_def mult.assoc)
  show "(n * k) sdiv d = (n sdiv d) * k + ((n smod d) * k) sdiv d"
    unfolding n nk rk *(1) by (simp add: algebra_simps)
  show "(n * k) smod d = ((n smod d) * k) smod d" unfolding n(2) nk rk *(2) ..
qed

text \<open>Dividing first and dropping digits afterwards rounds like one division.\<close>

lemma round_twice:
  fixes n d :: int
  assumes "d \<noteq> 0" "0 < k" "even k"
  shows "round_half_up (n sdiv d) k = round_half_up n (d * k)"
proof -
  define N D q where "N = \<bar>n\<bar>" and "D = \<bar>d\<bar>" and "q = N div D"
  obtain h where h: "k = 2 * h" using assms(3) by blast
  have D: "0 < D" "0 \<le> q" using assms(1) by (simp_all add: D_def q_def N_def pos_imp_zdiv_nonneg_iff)
  have "2 * q + k = 2 * (q + h)" by (simp add: h)
  then have "(2 * q + k) div (2 * k) = (q + h) div k" by (simp only: div_mult_mult1 zero_neq_numeral)
  also have "q + h = (N + D * h) div D" using D(1) by (simp add: q_def)
  also have "\<dots> div k = (N + D * h) div (D * k)" using assms(2) by (simp add: zdiv_zmult2_eq)
  also have "\<dots> = (2 * (N + D * h)) div (2 * (D * k))" by (simp only: div_mult_mult1 zero_neq_numeral)
  also have "\<dots> = (2 * N + D * k) div (2 * (D * k))" by (simp add: h algebra_simps)
  finally have eq: "(2 * q + k) div (2 * k) = (2 * N + D * k) div (2 * (D * k))" .
  have "(2 * q + k) div (2 * k) = 0" if "q = 0" using that assms(2) by (simp add: div_pos_pos_trivial)
  then have "round_half_up (sgn n * sgn d * q) k = sgn n * sgn d * ((2 * q + k) div (2 * k))"
    using assms(2) D(2) by (auto simp: round_half_up_def sgn_mult sgn_if add.commute)
  moreover have "n sdiv d = sgn n * sgn d * q" by (simp add: signed_divide_int_def N_def D_def q_def)
  moreover have "round_half_up n (d * k) = sgn n * sgn d * ((2 * N + D * k) div (2 * (D * k)))"
    using assms(2) by (simp add: round_half_up_def N_def D_def sgn_mult abs_mult)
  ultimately show ?thesis by (simp add: eq)
qed

text \<open>
  The quotient of the decimals \<open>a\<close> and \<open>d\<close>, where \<open>n\<close> is what the scale of the result exceeds the
  difference of the scales by: rounded half up for the division, truncated for the integer
  division.
\<close>

definition quotient_spec :: "bool \<Rightarrow> int \<Rightarrow> int \<Rightarrow> int \<Rightarrow> int" where
  "quotient_spec is_int_div n a d =
     (let a' = a * 10 ^ nat (- n); d' = d * 10 ^ nat n
      in if is_int_div then a' sdiv d' else round_half_up a' d')"

lemma sdiv_sdiv: "0 < k \<Longrightarrow> (n sdiv d) sdiv k = n sdiv (d * k :: int)"
proof -
  assume k: "0 < k"
  have "0 \<le> \<bar>n\<bar> div \<bar>d\<bar>" by (simp add: div_int_pos_iff)
  then have "(sgn n * sgn d * (\<bar>n\<bar> div \<bar>d\<bar>)) sdiv k = sgn n * sgn d * (\<bar>n\<bar> div \<bar>d\<bar> div k)"
    using k by (auto simp: signed_divide_int_def sgn_if)
  moreover have "\<bar>n\<bar> div (\<bar>d\<bar> * k) = \<bar>n\<bar> div \<bar>d\<bar> div k" using k by (simp add: zdiv_zmult2_eq)
  ultimately show ?thesis using k by (simp add: signed_divide_int_def sgn_mult abs_mult)
qed

text \<open>The three regimes.\<close>

lemma divider_shift_down:
  assumes "decimal38 a" "sint d \<noteq> 0" "0 < n" "n \<le> 37" "n = quot_scale - (a_scale - b_scale)"
  shows "\<exists>q. divider_result is_int_div a_scale b_scale quot_scale a d = Some q \<and> wf256 q \<and>
           ival q = quotient_spec is_int_div n (sint a) (sint d)"
proof -
  obtain m where m: "pow_ten n = Some m" "sint (as_128_bits m) = 10 ^ nat n"
    using pow_ten_128 [of n] assms(3,4) by auto
  define q where "q = quotient (divide256 (from_int128 a) d)"
  have b: "4 * \<bar>sint a\<bar> < base ^ 4" using assms(1) pow_ten_bounds(1) by (simp add: decimal38_def)
  then have "2 * sint a \<noteq> - (base ^ 4)" by linarith
  then have q: "wf256 q" "ival q = sint a sdiv sint d"
    using integer_divide_val [OF wf_from_int128 _ assms(2), of a] by (simp_all add: q_def integer_divide_def)
  have qb: "4 * \<bar>ival q\<bar> < base ^ 4" using abs_sdiv_le [OF assms(2), of "sint a"] q(2) b by linarith
  have p: "(0 :: int) < 10 ^ nat n" "even ((10 :: int) ^ nat n)" using assms(3) by simp_all
  let ?r = "if is_int_div then integer_divide q (as_128_bits m) else divide_and_round q (as_128_bits m)"
  have "divider_result is_int_div a_scale b_scale quot_scale a d = Some ?r"
    using assms(3,5) m(1) by (simp add: divider_result_def q_def)
  moreover have "wf256 ?r"
    using integer_divide_val [OF q(1), of "as_128_bits m"] round_pow_ten [OF q(1) qb, of "nat n"] m(2) assms(4) qb
    by auto
  moreover have "ival ?r = quotient_spec is_int_div n (sint a) (sint d)"
    using integer_divide_val [OF q(1), of "as_128_bits m"] round_pow_ten [OF q(1) qb, of "nat n"] m(2) assms(3,4) qb
      q(2) round_twice [OF assms(2) p] sdiv_sdiv [OF p(1)]
    by (auto simp: quotient_spec_def)
  ultimately show ?thesis by blast
qed

lemma divider_shift_up:
  assumes "decimal38 a" "decimal38 d" "sint d \<noteq> 0" "- 38 \<le> n" "n \<le> 0" "n = quot_scale - (a_scale - b_scale)"
    and "is_int_div \<or> (sint a * 10 ^ nat (- n)) smod sint d \<noteq> - (2 ^ 126)"
  shows "\<exists>q. divider_result is_int_div a_scale b_scale quot_scale a d = Some q \<and> wf256 q \<and>
           ival q = quotient_spec is_int_div n (sint a) (sint d)"
proof -
  obtain m where m: "pow_ten (- n) = Some m" "wf256 m" "ival m = 10 ^ nat (- n)"
    using pow_ten_some [of "- n"] assms(4,5) by auto
  define X where "X = sint a * 10 ^ nat (- n)"
  have "\<bar>X\<bar> \<le> \<bar>sint a\<bar> * 10 ^ 38"
    unfolding X_def abs_mult using assms(4) pow10_mono [of "nat (- n)" 38] by (intro mult_mono) simp_all
  also have "\<dots> < 10 ^ 38 * 10 ^ 38"
    using assms(1) unfolding decimal38_def by (intro mult_strict_right_mono) simp_all
  finally have b: "4 * \<bar>X\<bar> < base ^ 4" using pow_ten_bounds(1) by simp
  define n' where "n' = (if n < 0 then multiply256 (from_int128 a) m else from_int128 a)"
  have n': "wf256 n'" "ival n' = X"
    using multiply_exact [OF wf_from_int128 m(2), of a X] m(3) b assms(5) by (auto simp: n'_def X_def)
  have d: "sint d \<noteq> - HALF" using assms(2) pow_ten_bounds(2) by (auto simp: decimal38_def)
  have rem: "is_int_div \<or> 2 * (X smod sint d) \<noteq> - HALF" using assms(7) by (auto simp: X_def HALF_def)
  let ?r = "if is_int_div then integer_divide n' d else divide_and_round n' d"
  have "divider_result is_int_div a_scale b_scale quot_scale a d = Some ?r"
    using assms(4,5,6) m(1) by (auto simp: divider_result_def n'_def)
  moreover have "wf256 ?r"
    using integer_divide_val [OF n'(1), of d] divide_and_round_val [OF n'(1), of d] n'(2) b rem d assms(3) by auto
  moreover have "ival ?r = quotient_spec is_int_div n (sint a) (sint d)"
    using integer_divide_val [OF n'(1), of d] divide_and_round_val [OF n'(1), of d] n'(2) b rem d assms(3,5)
    by (auto simp: quotient_spec_def X_def)
  ultimately show ?thesis by blast
qed

lemma smod_facts:
  fixes n d :: int
  assumes "d \<noteq> 0"
  shows "\<bar>n smod d\<bar> < \<bar>d\<bar>" "n smod d \<noteq> 0 \<Longrightarrow> n smod d < 0 \<longleftrightarrow> n < 0" "\<bar>n sdiv d\<bar> * \<bar>d\<bar> \<le> \<bar>n\<bar>"
proof -
  define N D where "N = \<bar>n\<bar>" and "D = \<bar>d\<bar>"
  have D: "0 < D" "0 \<le> N mod D" "N mod D < D" "0 \<le> N div D"
    using assms by (simp_all add: N_def D_def pos_imp_zdiv_nonneg_iff)
  have m: "n smod d = sgn n * (N mod D)" and q: "n sdiv d = sgn n * sgn d * (N div D)"
    by (simp_all add: signed_modulo_int_def signed_divide_int_def N_def D_def)
  show "\<bar>n smod d\<bar> < \<bar>d\<bar>" using D m by (auto simp: abs_mult sgn_if simp flip: D_def)
  show "n smod d < 0 \<longleftrightarrow> n < 0" if "n smod d \<noteq> 0"
    using that D(2) unfolding m by (auto simp: sgn_if mult_less_0_iff split: if_splits)
  have "\<bar>n sdiv d\<bar> \<le> N div D" using D(4) by (simp add: q abs_mult sgn_if)
  then have "\<bar>n sdiv d\<bar> * D \<le> N div D * D" using D(1) by (intro mult_right_mono) simp_all
  also have "\<dots> \<le> N" using D(2) div_mult_mod_eq [of N D] by linarith
  finally show "\<bar>n sdiv d\<bar> * \<bar>d\<bar> \<le> \<bar>n\<bar>" by (simp add: N_def D_def)
qed

lemma divider_tail:
  assumes "wf256 q" "ival q = A sdiv D" "wf256 s" "ival s = k" "sint r = A smod D" "sint d = D"
    and "D \<noteq> 0" "D \<noteq> - HALF" "0 < k" "\<bar>A sdiv D * k\<bar> < 10 ^ 76" "\<bar>A smod D * k\<bar> \<le> 10 ^ 76"
  defines "sr \<equiv> multiply256 (from_int128 r) s"
  defines "g \<equiv> divide256 sr d"
  defines "res \<equiv> add256 (multiply256 q s) (quotient g)"
  shows "wf256 res" "ival res = (A * k) sdiv D"
    and "2 * ((A * k) smod D) \<noteq> - HALF \<Longrightarrow> wf256 (round_from_remainder res (remainder g) sr d)"
    and "2 * ((A * k) smod D) \<noteq> - HALF \<Longrightarrow>
           ival (round_from_remainder res (remainder g) sr d) = round_half_up (A * k) D"
proof -
  have big: "8 * 10 ^ 76 < base ^ 4" "(0 :: int) < 10 ^ 76" by (rule pow_ten_bounds) simp
  have sr: "wf256 sr" "ival sr = A smod D * k"
    using multiply_exact [OF wf_from_int128 assms(3), of r "A smod D * k"] assms(4,5,11) big
    by (simp_all add: sr_def)
  have "2 * (A smod D * k) \<noteq> - (base ^ 4)" using assms(11) big by linarith
  then have g: "wf256 (quotient g)" "ival (quotient g) = (A smod D * k) sdiv D"
    "sint (remainder g) = (A * k) smod D"
    using divide256_val [OF sr(1), of d] sr(2) assms(6,7) sdiv_scale(2) [OF assms(7,9), of A]
    by (simp_all add: g_def)
  have qk: "wf256 (multiply256 q s)" "ival (multiply256 q s) = A sdiv D * k"
    using multiply_exact [OF assms(1,3), of "A sdiv D * k"] assms(2,4,10) big by simp_all
  have "\<bar>(A smod D * k) sdiv D\<bar> \<le> 10 ^ 76" using abs_sdiv_le [OF assms(7), of "A smod D * k"] assms(11) by linarith
  then have sum: "\<bar>A sdiv D * k + (A smod D * k) sdiv D\<bar> \<le> 2 * 10 ^ 76" using assms(10) by linarith
  have fits: "- (base ^ 4) \<le> 2 * (A sdiv D * k + (A smod D * k) sdiv D)"
    "2 * (A sdiv D * k + (A smod D * k) sdiv D) < base ^ 4"
    using abs_le_D1 [OF sum] abs_le_D2 [OF sum] big by (simp_all del: power_numeral)
  show wf: "wf256 res" using qk(1) g(1) by (simp add: res_def)
  have "ival res = A sdiv D * k + (A smod D * k) sdiv D"
    using i256.plus_exact [OF qk(1) g(1)] fits unfolding res_def qk(2) g(2) by blast
  then show val: "ival res = (A * k) sdiv D" using sdiv_scale(1) [OF assms(7,9), of A] by simp
  have small: "4 * \<bar>ival res\<bar> < base ^ 4"
    using sum big sdiv_scale(1) [OF assms(7,9), of A] unfolding val by linarith
  assume r: "2 * ((A * k) smod D) \<noteq> - HALF"
  note rnd = round_from_remainder_val [OF wf sr(1) small, of "remainder g" d, unfolded g(3) assms(6), OF smod_facts(1) [OF assms(7)] assms(8) r]
  show "wf256 (round_from_remainder res (remainder g) sr d)" by (rule rnd)
  have "(A smod D * k < 0) = (A * k < 0)" if "\<bar>D\<bar> \<le> 2 * \<bar>(A * k) smod D\<bar>"
  proof -
    have "(A smod D * k) smod D \<noteq> 0" using that assms(7) sdiv_scale(2) [OF assms(7,9), of A] by auto
    then have "A smod D \<noteq> 0" by auto
    then show ?thesis using smod_facts(2) [OF assms(7), of A] assms(9) by (simp add: mult_less_0_iff)
  qed
  then show "ival (round_from_remainder res (remainder g) sr d) = round_half_up (A * k) D"
    unfolding rnd(2) round_half_up_eq [OF assms(7)] val sr(2) by auto
qed

lemma divider_long:
  assumes "decimal38 a" "decimal38 d" "sint d \<noteq> 0" "- 76 \<le> n" "n < - 38" "n = quot_scale - (a_scale - b_scale)"
    and "\<bar>sint a\<bar> * 10 ^ nat (- n) < 10 ^ 76 * \<bar>sint d\<bar>"
    and "is_int_div \<or> (sint a * 10 ^ nat (- n)) smod sint d \<noteq> - (2 ^ 126)"
  shows "\<exists>q. divider_result is_int_div a_scale b_scale quot_scale a d = Some q \<and> wf256 q \<and>
           ival q = quotient_spec is_int_div n (sint a) (sint d)"
proof -
  define m where "m = nat (- n - 38)"
  have m: "m \<le> 38" "nat (- n) = 38 + m" "- n - 38 = int m" using assms(4,5) by (simp_all add: m_def)
  obtain t where t: "pow_ten 38 = Some t" "wf256 t" "ival t = 10 ^ 38" using pow_ten_some [of 38] by auto
  obtain s where s: "pow_ten (int m) = Some s" "wf256 s" "ival s = 10 ^ m"
    using pow_ten_some [of "int m"] m(1) by auto
  define A D k where "A = sint a * 10 ^ 38" and "D = sint d" and "k = (10 :: int) ^ m"
  have k: "0 < k" "k \<le> 10 ^ 38" using pow10_mono [OF m(1)] by (simp_all add: k_def)
  have Ak: "sint a * 10 ^ nat (- n) = A * k" by (simp add: A_def k_def m(2) power_add)
  have D: "D \<noteq> 0" "\<bar>D\<bar> < 10 ^ 38" "D \<noteq> - HALF"
    using assms(2,3) pow_ten_bounds(2) by (auto simp: D_def decimal38_def)
  have A: "\<bar>A\<bar> < 10 ^ 38 * 10 ^ 38" using assms(1) unfolding A_def abs_mult decimal38_def by simp
  define f where "f = divide256 (multiply256 (from_int128 a) t) d"
  have "wf256 (multiply256 (from_int128 a) t)" "ival (multiply256 (from_int128 a) t) = A"
    using multiply_exact [OF wf_from_int128 t(2), of a A] A pow_ten_bounds(1) by (simp_all add: A_def t(3))
  moreover have "2 * A \<noteq> - (base ^ 4)" using A pow_ten_bounds(1) by simp
  ultimately have f: "wf256 (quotient f)" "ival (quotient f) = A sdiv D" "sint (remainder f) = A smod D"
    using divide256_val [of "multiply256 (from_int128 a) t" d] assms(3) by (simp_all add: f_def D_def)
  have "\<bar>A sdiv D\<bar> * k * \<bar>D\<bar> \<le> \<bar>A\<bar> * k"
    using mult_right_mono [OF smod_facts(3) [OF D(1), of A], of k] k(1) by (simp add: algebra_simps)
  also have "\<dots> < 10 ^ 76 * \<bar>D\<bar>" using assms(7) unfolding Ak [symmetric] D_def
    by (metis Ak abs_mult abs_of_pos k(1) power_abs abs_numeral)
  finally have "\<bar>A sdiv D\<bar> * k < 10 ^ 76" using D(1) by (simp add: mult_less_cancel_right_disj)
  then have qk: "\<bar>A sdiv D * k\<bar> < 10 ^ 76" using k(1) by (simp add: abs_mult)
  have "\<bar>A smod D\<bar> * k \<le> 10 ^ 38 * 10 ^ 38"
    using smod_facts(1) [OF D(1), of A] D(2) k by (intro mult_mono) simp_all
  then have rk: "\<bar>A smod D * k\<bar> \<le> 10 ^ 76" using k(1) by (simp add: abs_mult)
  note tail = divider_tail [OF f(1,2) s(2) s(3) [folded k_def] f(3) D_def [symmetric] D(1,3) k(1) qk rk]
  define sr g where "sr = multiply256 (from_int128 (remainder f)) s" and "g = divide256 sr d"
  define res where "res = add256 (multiply256 (quotient f) s) (quotient g)"
  let ?r = "if is_int_div then res else round_from_remainder res (remainder g) sr d"
  have "divider_result is_int_div a_scale b_scale quot_scale a d = Some ?r"
    using assms(5,6) t(1) s(1) m(3) by (simp add: divider_result_def f_def res_def sr_def g_def Let_def)
  moreover have "is_int_div \<or> 2 * ((A * k) smod D) \<noteq> - HALF"
    using assms(8) unfolding Ak D_def [symmetric] by (auto simp: HALF_def)
  ultimately show ?thesis
    using tail [folded sr_def, folded g_def, folded res_def] assms(5)
    by (auto simp: quotient_spec_def Ak D_def [symmetric])
qed

lemma divider_val:
  assumes "decimal38 a" "decimal38 d" "sint d \<noteq> 0" "n = quot_scale - (a_scale - b_scale)" "- 76 \<le> n" "n \<le> 37"
    and "n < - 38 \<Longrightarrow> \<bar>sint a\<bar> * 10 ^ nat (- n) < 10 ^ 76 * \<bar>sint d\<bar>"
    and "is_int_div \<or> n > 0 \<or> (sint a * 10 ^ nat (- n)) smod sint d \<noteq> - (2 ^ 126)"
  shows "\<exists>q. divider_result is_int_div a_scale b_scale quot_scale a d = Some q \<and> wf256 q \<and>
           ival q = quotient_spec is_int_div n (sint a) (sint d)"
proof -
  consider "0 < n" | "- 38 \<le> n" "n \<le> 0" | "n < - 38" by linarith
  then show ?thesis
  proof cases
    case 1
    then show ?thesis using divider_shift_down [OF assms(1,3)] assms(4,6) by blast
  next
    case 2
    moreover from this have "is_int_div \<or> (sint a * 10 ^ nat (- n)) smod sint d \<noteq> - (2 ^ 126)" using assms(8) by linarith
    ultimately show ?thesis using divider_shift_up [OF assms(1-3)] assms(4) by blast
  next
    case 3
    moreover from this have "is_int_div \<or> (sint a * 10 ^ nat (- n)) smod sint d \<noteq> - (2 ^ 126)" using assms(8) by linarith
    ultimately show ?thesis using divider_long [OF assms(1-3,5)] assms(4,7) by blast
  qed
qed

text \<open>
  C10: The quotient of two decimals of at most 38 digits is the exact quotient at the scale of the
  result column, rounded half up once, in all three regimes of the code: divide twice, one
  multiplication before the division, and long division base ten. Overflow is reported exactly when
  the rounded quotient needs more than 38 digits.
\<close>
theorem divide_correct:
  assumes "decimal38 a" "decimal38 d" "sint d \<noteq> 0" "n = quot_scale - (a_scale - b_scale)" "- 76 \<le> n" "n \<le> 37"
    and "n < - 38 \<Longrightarrow> \<bar>sint a\<bar> * 10 ^ nat (- n) < 10 ^ 76 * \<bar>sint d\<bar>"
    and "n > 0 \<or> (sint a * 10 ^ nat (- n)) smod sint d \<noteq> - (2 ^ 126)"
  shows "\<exists>row. dec128_divider a_scale b_scale quot_scale a d = Some row \<and>
           fits38 (round_half_up (sint a * 10 ^ nat (- n)) (sint d * 10 ^ nat n)) row"
proof -
  have "d \<noteq> 0" using assms(3) by auto
  then show ?thesis
    using divider_val [OF assms(1-7), of False] assms(8) checked_row_fits
    by (auto simp: dec128_divider_def quotient_spec_def)
qed

theorem divide_correct_witness:
  "\<exists>row. dec128_divider 0 0 (- 40) 2 (- 3) = Some row \<and>
     fits38 (- 6666666666666666666666666666666666666667) row"
  using divide_correct [of 2 "- 3" "- 40" "- 40" 0 0]
  by (simp add: decimal38_def round_half_up_def signed_modulo_int_def)

text \<open>
  The integer division truncates the exact quotient; its row holds the low 64 bits of the
  quotient, and overflow is reported exactly when the quotient needs more than 38 digits.
\<close>
theorem integer_divide_correct:
  assumes "decimal38 a" "decimal38 d" "sint d \<noteq> 0" "n = quot_scale - (a_scale - b_scale)" "- 76 \<le> n" "n \<le> 37"
    and "n < - 38 \<Longrightarrow> \<bar>sint a\<bar> * 10 ^ nat (- n) < 10 ^ 76 * \<bar>sint d\<bar>"
  defines "Q \<equiv> (sint a * 10 ^ nat (- n)) sdiv (sint d * 10 ^ nat n)"
  shows "dec128_int_divider a_scale b_scale quot_scale a d =
           Some \<lparr>overflows = (10 ^ 38 \<le> \<bar>Q\<bar>), row_value = Some (word_of_int Q)\<rparr>"
proof -
  have d: "d \<noteq> 0" using assms(3) by auto
  obtain q where q: "divider_result True a_scale b_scale quot_scale a d = Some q" "wf256 q" "ival q = Q"
    using divider_val [OF assms(1-7), of True] by (auto simp: quotient_spec_def Q_def)
  have "as_64_bits q = word_of_int (uval q)" using as_64_val [OF q(2)] .
  also have "\<dots> = word_of_int Q"
    using q(3) word_of_int_base [of "uval q"] by (auto simp: ival_def split: if_splits)
  finally show ?thesis using q d by (simp add: dec128_int_divider_def greater_than_38)
qed

theorem integer_divide_correct_witness:
  "dec128_int_divider (- 1) 0 0 (- 1234) 5 = Some \<lparr>overflows = False, row_value = Some (- 24)\<rparr>"
  using integer_divide_correct [of "- 1234" 5 1 0 "- 1" 0]
  by (simp add: decimal38_def signed_divide_int_def)

section \<open>Sums\<close>

lemma set_scale_up:
  assumes "decimal38 a" "0 \<le> s - t" "s - t \<le> 38"
  obtains c where "(if s \<noteq> t then set_scale_and_round (from_int128 a) s t else Some (from_int128 a)) = Some c"
    "wf256 c" "ival c = sint a * 10 ^ nat (s - t)" "\<bar>ival c\<bar> < 10 ^ 76"
proof -
  obtain m where m: "pow_ten (s - t) = Some m" "wf256 m" "ival m = 10 ^ nat (s - t)"
    using pow_ten_some [of "s - t"] assms(2,3) by auto
  have "\<bar>sint a * 10 ^ nat (s - t)\<bar> \<le> \<bar>sint a\<bar> * 10 ^ 38"
    unfolding abs_mult using assms(3) pow10_mono [of "nat (s - t)" 38] by (intro mult_mono) simp_all
  also have "\<dots> < 10 ^ 38 * 10 ^ 38"
    using assms(1) unfolding decimal38_def by (intro mult_strict_right_mono) simp_all
  finally have b: "\<bar>sint a * 10 ^ nat (s - t)\<bar> < 10 ^ 76" by simp
  show ?thesis
  proof (cases "s = t")
    case True
    then show ?thesis using that [of "from_int128 a"] b by simp
  next
    case False
    then have "set_scale_and_round (from_int128 a) s t = Some (multiply256 (from_int128 a) m)"
      using assms(2) m(1) by (simp add: set_scale_and_round_def)
    moreover have "2 * \<bar>sint a * 10 ^ nat (s - t)\<bar> < base ^ 4" using b pow_ten_bounds(1) by linarith
    ultimately show ?thesis
      using that [of "multiply256 (from_int128 a) m"] False b m(3)
        multiply_exact [OF wf_from_int128 m(2), of a "sint a * 10 ^ nat (s - t)"] by simp
  qed
qed

lemma set_scale_down:
  assumes "wf256 c" "4 * \<bar>ival c\<bar> < base ^ 4" "0 \<le> t - s" "t - s \<le> 37"
  obtains r where "(if t \<noteq> s then set_scale_and_round c s t else Some c) = Some r"
    "wf256 r" "ival r = rescale (ival c) s t"
proof (cases "s = t")
  case True
  then show ?thesis using that [of c] assms(1) by (simp add: rescale_def)
next
  case False
  obtain m where m: "pow_ten (t - s) = Some m" "sint (as_128_bits m) = 10 ^ nat (t - s)"
    using pow_ten_128 [of "t - s"] assms(3,4) by auto
  then show ?thesis
    using that [of "divide_and_round c (as_128_bits m)"] False assms(3,4)
      round_pow_ten [OF assms(1,2) _ m(2)] by (simp add: set_scale_and_round_def rescale_def)
qed

text \<open>The integers behind a sum or a difference, at the finer of the two scales.\<close>

definition sum_spec :: "bool \<Rightarrow> int \<Rightarrow> int \<Rightarrow> int \<Rightarrow> int \<Rightarrow> int" where
  "sum_spec sub a_scale b_scale a b =
     (let s = min a_scale b_scale; b' = b * 10 ^ nat (b_scale - s)
      in a * 10 ^ nat (a_scale - s) + (if sub then - b' else b'))"

lemma do_add_sub_val:
  assumes "decimal38 a" "decimal38 b" "\<bar>a_scale - b_scale\<bar> \<le> 38"
    and "min a_scale b_scale \<le> result_scale" "result_scale \<le> min a_scale b_scale + 37"
  shows "\<exists>c. do_add_sub a_scale b_scale result_scale sub (from_int128 a) (from_int128 b) = Some c \<and> wf256 c \<and>
           ival c = rescale (sum_spec sub a_scale b_scale (sint a) (sint b)) (min a_scale b_scale) result_scale"
proof -
  define s where "s = min a_scale b_scale"
  obtain a1 where a1: "(if a_scale \<noteq> s then set_scale_and_round (from_int128 a) a_scale s else Some (from_int128 a)) = Some a1"
    "wf256 a1" "ival a1 = sint a * 10 ^ nat (a_scale - s)" "\<bar>ival a1\<bar> < 10 ^ 76"
    by (rule set_scale_up [OF assms(1), of a_scale s]) (use assms(3) in \<open>auto simp: s_def\<close>)
  obtain b1 where b1: "(if b_scale \<noteq> s then set_scale_and_round (from_int128 b) b_scale s else Some (from_int128 b)) = Some b1"
    "wf256 b1" "ival b1 = sint b * 10 ^ nat (b_scale - s)" "\<bar>ival b1\<bar> < 10 ^ 76"
    by (rule set_scale_up [OF assms(2), of b_scale s]) (use assms(3) in \<open>auto simp: s_def\<close>)
  define b2 where "b2 = (if sub then negate256 b1 else b1)"
  have "ival (negate256 b1) = - ival b1" using b1(2,4) pow_ten_bounds(1) by (intro i256.neg_exact) simp_all
  then have b2: "wf256 b2" "ival b2 = (if sub then - ival b1 else ival b1)" using b1(2) by (simp_all add: b2_def)
  have bound: "\<bar>ival a1 + ival b2\<bar> < 2 * 10 ^ 76" using a1(4) b1(4) b2(2) by auto
  have sum: "wf256 (add256 a1 b2)" "ival (add256 a1 b2) = ival a1 + ival b2"
    using i256.plus_exact [OF a1(2) b2(1)] bound pow_ten_bounds(1) a1(2) b2(1) by simp_all
  have "4 * \<bar>ival (add256 a1 b2)\<bar> < base ^ 4" using bound pow_ten_bounds(1) sum(2) by simp
  then obtain r where r: "(if result_scale \<noteq> s then set_scale_and_round (add256 a1 b2) s result_scale
      else Some (add256 a1 b2)) = Some r" "wf256 r" "ival r = rescale (ival (add256 a1 b2)) s result_scale"
    by (rule set_scale_down [OF sum(1), of result_scale s]) (use assms(4,5) in \<open>auto simp: s_def\<close>)
  have "do_add_sub a_scale b_scale result_scale sub (from_int128 a) (from_int128 b) = Some r"
    unfolding do_add_sub_def Let_def s_def [symmetric] a1(1) b1(1) bind.bind_lunit b2_def [symmetric] by (rule r)
  moreover have "ival (add256 a1 b2) = sum_spec sub a_scale b_scale (sint a) (sint b)"
    unfolding sum_spec_def Let_def s_def [symmetric] sum(2) b2(2) a1(3) b1(3) ..
  ultimately show ?thesis using r(2,3) by (simp add: s_def)
qed

text \<open>
  C12: The sum and the difference of two decimals are exact at the finer of the two scales and are
  rounded half up once, to the scale of the result; overflow is reported exactly when that value
  needs more than 38 digits.
\<close>
theorem add_sub_correct:
  assumes "decimal38 a" "decimal38 b" "\<bar>a_scale - b_scale\<bar> \<le> 38"
    and "min a_scale b_scale \<le> result_scale" "result_scale \<le> min a_scale b_scale + 37"
  defines "R sub \<equiv> rescale (sum_spec sub a_scale b_scale (sint a) (sint b)) (min a_scale b_scale) result_scale"
  shows "(\<exists>row. dec128_add a_scale b_scale result_scale a b = Some row \<and> fits38 (R False) row) \<and>
         (\<exists>row. dec128_sub a_scale b_scale result_scale a b = Some row \<and> fits38 (R True) row)"
  using do_add_sub_val [OF assms(1-5), of False] do_add_sub_val [OF assms(1-5), of True] checked_row_fits
  by (auto simp: dec128_add_def dec128_sub_def R_def)

theorem add_sub_correct_witness:
  "(\<exists>row. dec128_add (- 2) (- 1) (- 1) 125 (- 3) = Some row \<and> fits38 10 row) \<and>
   (\<exists>row. dec128_sub (- 2) (- 1) (- 1) 125 (- 3) = Some row \<and> fits38 16 row)"
  using add_sub_correct [of 125 "- 3" "- 2" "- 1" "- 1"]
  by (simp add: decimal38_def rescale_def sum_spec_def round_half_up_def)

section \<open>Remainders\<close>

lemma nonneg_ops:
  assumes "wf256 a" "wf256 b" "0 \<le> ival a" "0 \<le> ival b" "2 * (ival a * ival b) < base ^ 4"
  shows "wf256 (multiply256 a b)" "ival (multiply256 a b) = ival a * ival b"
  using multiply_exact [OF assms(1,2) refl] assms(3-5) by simp_all

lemma sdiv_nonneg: "0 \<le> a \<Longrightarrow> 0 < b \<Longrightarrow> a sdiv b = a div (b :: int)"
  by (auto simp: signed_divide_int_def sgn_if)

lemma div_mult_le: "0 < E \<Longrightarrow> N div E * E \<le> (N :: int)"
  using div_mult_mod_eq [of N E] pos_mod_sign [of E N] by linarith

lemma int_divide_nonneg:
  assumes "wf256 a" "0 \<le> ival a" "0 < sint d"
  shows "wf256 (integer_divide a d)" "ival (integer_divide a d) = ival a div sint d"
proof -
  have "2 * ival a \<noteq> - (base ^ 4)" using assms(2) base_ne(2) [of 4] by linarith
  then show "wf256 (integer_divide a d)" "ival (integer_divide a d) = ival a div sint d"
    using integer_divide_val [OF assms(1), of d] assms(2,3) by (simp_all add: sdiv_nonneg)
qed

lemma abs_parts:
  assumes "decimal38 a"
  defines "w \<equiv> (if a <s 0 then - a else a)"
    and "c \<equiv> (if sign256 (from_int128 a) < 0 then negate256 (from_int128 a) else from_int128 a)"
  shows "sint w = \<bar>sint a\<bar>" "wf256 c" "ival c = \<bar>sint a\<bar>"
proof -
  have b: "\<bar>sint a\<bar> < 10 ^ 38" using assms(1) by (simp add: decimal38_def)
  then have "sint a \<noteq> - HALF" using pow_ten_bounds(2) by auto
  then show "sint w = \<bar>sint a\<bar>" unfolding w_def by (rule sint_abs128)
  show "wf256 c" by (simp add: c_def)
  have "uval c = \<bar>sint a\<bar>" using uval_abs256 [OF wf_from_int128, of a] by (simp add: c_def)
  then show "ival c = \<bar>sint a\<bar>" using b pow_ten_bounds(1) by (simp add: ival_def)
qed

text \<open>The last steps: the product is subtracted, tested and given the sign of the dividend.\<close>

lemma remainder_tail:
  assumes "wf256 n" "wf256 l" "0 \<le> ival l" "ival l \<le> ival n" "ival n - ival l < 10 ^ 38"
  defines "rest \<equiv> add256 n (negate256 l)"
  shows "is_greater_than_decimal_38 rest \<longleftrightarrow> False" "sint (as_128_bits rest) = ival n - ival l"
    and "sint (- as_128_bits rest) = - (ival n - ival l)"
proof -
  have r: "- (base ^ 4) \<le> 2 * ival n" "2 * ival n < base ^ 4" using ival_range [OF assms(1)] by auto
  have neg: "ival (negate256 l) = - ival l" "wf256 (negate256 l)"
    using assms(2,3) r(1) ival_range [OF assms(1)] assms(4) base_ne(2) [of 4] by (auto intro!: i256.neg_exact)
  have "ival rest = ival n - ival l"
    using i256.plus_exact [OF assms(1) neg(2)] neg(1) assms(3,4) r base_ne(2) [of 4] by (simp add: rest_def)
  moreover have wf: "wf256 rest" using assms(1) neg(2) by (simp add: rest_def)
  ultimately show "is_greater_than_decimal_38 rest \<longleftrightarrow> False" "sint (as_128_bits rest) = ival n - ival l"
    using greater_than_38 [OF wf] small_as_128 [OF wf] assms(4,5) by simp_all
  then show "sint (- as_128_bits rest) = - (ival n - ival l)"
    using assms(4) HALF by (subst sint_neg128) simp_all
qed

text \<open>
  The remainder row from its parts: the absolute dividend and the multiple of the divisor to
  subtract.
\<close>

lemma remainder_row:
  assumes "wf256 n" "wf256 l" "ival n = N" "ival l = N div D * D" "0 \<le> N" "0 < D" "N mod D < 10 ^ 38"
  defines "rest \<equiv> add256 n (negate256 l)"
  shows "\<not> is_greater_than_decimal_38 rest"
    and "sint (if neg then - as_128_bits rest else as_128_bits rest) = (if neg then - (N mod D) else N mod D)"
proof -
  have "0 \<le> ival l" using assms(4-6) by (simp add: pos_imp_zdiv_nonneg_iff)
  moreover have "ival n - ival l = N mod D" using assms(3,4) by (simp add: minus_div_mult_eq_mod)
  moreover from this have "ival l \<le> ival n" using assms(6) pos_mod_sign [of D N] by linarith
  ultimately show "\<not> is_greater_than_decimal_38 rest"
    and "sint (if neg then - as_128_bits rest else as_128_bits rest) = (if neg then - (N mod D) else N mod D)"
    using remainder_tail [OF assms(1,2)] assms(7) by (simp_all add: rest_def)
qed

lemma smod_abs: "d \<noteq> 0 \<Longrightarrow> n smod d = (if n < 0 then - (\<bar>n\<bar> mod \<bar>d\<bar>) else \<bar>n\<bar> mod \<bar>d :: int\<bar>)"
  by (simp add: signed_modulo_int_def sgn_if)

text \<open>The row functor for the result scales that its callers use, the finer of the two scales.\<close>

lemma remainder_unfold:
  assumes "d \<noteq> 0"
  defines "row neg n l \<equiv> (let rest = add256 n (negate256 l) in
      \<lparr>overflows = is_greater_than_decimal_38 rest,
       row_value = Some (if neg then - as_128_bits rest else as_128_bits rest)\<rparr>)"
  shows "a_scale < b_scale \<Longrightarrow> pow_ten (b_scale - a_scale) = Some m \<Longrightarrow>
      c = (if sign256 (from_int128 a) < 0 then negate256 (from_int128 a) else from_int128 a) \<Longrightarrow>
      w = (if d <s 0 then - d else d) \<Longrightarrow>
      dec128_remainder a_scale b_scale a_scale a d = Some (row (sint a < 0) c
        (multiply256 (multiply256 (integer_divide (integer_divide c w) (as_128_bits m)) (from_int128 w)) m))"
    and "b_scale \<le> a_scale \<Longrightarrow> pow_ten (a_scale - b_scale) = Some m \<Longrightarrow>
      c = (if sign256 (from_int128 a) < 0 then negate256 (from_int128 a) else from_int128 a) \<Longrightarrow>
      w = (if d <s 0 then - d else d) \<Longrightarrow>
      n = (if b_scale < a_scale then multiply256 c m else c) \<Longrightarrow>
      dec128_remainder a_scale b_scale b_scale a d = Some (row (sint a < 0) n
        (multiply256 (integer_divide n w) (from_int128 w)))"
  using assms(1) sign256_neg [OF wf_from_int128, of a]
  unfolding dec128_remainder_def row_def
  by (simp_all add: integer_divide_def Let_def)

lemma remainder_fine_dividend:
  assumes "decimal38 a" "decimal38 d" "sint d \<noteq> 0" "a_scale < b_scale" "b_scale - a_scale \<le> 38"
  shows "\<exists>v. dec128_remainder a_scale b_scale a_scale a d = Some \<lparr>overflows = False, row_value = Some v\<rparr> \<and>
           sint v = sint a smod (sint d * 10 ^ nat (b_scale - a_scale))"
proof -
  define k where "k = nat (b_scale - a_scale)"
  have k: "b_scale - a_scale = int k" "0 < k" "k \<le> 38" using assms(4,5) by (simp_all add: k_def)
  define N D where "N = \<bar>sint a\<bar>" and "D = \<bar>sint d\<bar>"
  have ND: "0 \<le> N" "0 < D" "N < 10 ^ 38" using assms(1,3) by (simp_all add: N_def D_def decimal38_def)
  define c where "c = (if sign256 (from_int128 a) < 0 then negate256 (from_int128 a) else from_int128 a)"
  define w where "w = (if d <s 0 then - d else d)"
  have c: "wf256 c" "ival c = N" and w: "sint w = D"
    using abs_parts [OF assms(1)] abs_parts [OF assms(2)] by (simp_all add: c_def w_def N_def D_def)
  obtain m where m: "pow_ten (int k) = Some m" "wf256 m" "ival m = 10 ^ k" "sint (as_128_bits m) = 10 ^ k"
    using pow_ten_128 [of "int k"] k(3) by auto
  define q where "q = integer_divide (integer_divide c w) (as_128_bits m)"
  have q: "wf256 q" "ival q = N div (D * 10 ^ k)"
    using int_divide_nonneg [OF c(1), of w] int_divide_nonneg [of "integer_divide c w" "as_128_bits m"] c(2) w m(4) ND
    by (simp_all add: q_def zdiv_zmult2_eq pos_imp_zdiv_nonneg_iff)
  have q0: "0 \<le> N div (D * 10 ^ k)" using ND by (simp add: pos_imp_zdiv_nonneg_iff)
  have below: "N div (D * 10 ^ k) * (D * 10 ^ k) \<le> N"
    using ND by (intro div_mult_le) simp
  define x where "x = multiply256 q (from_int128 w)"
  have less: "N div (D * 10 ^ k) * D * 1 \<le> N div (D * 10 ^ k) * D * 10 ^ k"
    using q0 ND by (intro mult_left_mono) simp_all
  have x: "wf256 x" "ival x = N div (D * 10 ^ k) * D"
    using nonneg_ops [OF q(1) wf_from_int128, of w] q(2) w q0 ND less below pow_ten_bounds(1)
    by (simp_all add: x_def mult.assoc)
  define l where "l = multiply256 x m"
  have l: "wf256 l" "ival l = N div (D * 10 ^ k) * (D * 10 ^ k)"
    using nonneg_ops [OF x(1) m(2)] x(2) m(3) q0 ND below pow_ten_bounds(1)
    by (simp_all add: l_def mult.assoc)
  have "N mod (D * 10 ^ k) \<le> N" using ND by (simp add: zmod_le_nonneg_dividend)
  then have small: "N mod (D * 10 ^ k) < 10 ^ 38" using ND by linarith
  have d: "d \<noteq> 0" using assms(3) by auto
  note row = remainder_row [OF c(1) l(1) c(2) l(2) ND(1) _ small]
  have "dec128_remainder a_scale b_scale a_scale a d =
      Some \<lparr>overflows = False, row_value = Some (if sint a < 0 then - as_128_bits (add256 c (negate256 l))
                else as_128_bits (add256 c (negate256 l)))\<rparr>"
    using remainder_unfold(1) [OF d assms(4) _ c_def w_def, of m] k(1) m(1) row(1)
    by (simp add: ND l_def x_def q_def)
  then show ?thesis using row(2) [of "sint a < 0"] ND assms(3) by (simp add: smod_abs N_def D_def k_def abs_mult)
qed

lemma remainder_coarse_dividend:
  assumes "decimal38 a" "decimal38 d" "sint d \<noteq> 0" "b_scale \<le> a_scale" "a_scale - b_scale \<le> 38"
  shows "\<exists>v. dec128_remainder a_scale b_scale b_scale a d = Some \<lparr>overflows = False, row_value = Some v\<rparr> \<and>
           sint v = (sint a * 10 ^ nat (a_scale - b_scale)) smod sint d"
proof -
  define k where "k = nat (a_scale - b_scale)"
  have k: "a_scale - b_scale = int k" "k \<le> 38" using assms(4,5) by (simp_all add: k_def)
  define N D where "N = \<bar>sint a\<bar> * 10 ^ k" and "D = \<bar>sint d\<bar>"
  have "N \<le> 10 ^ 38 * 10 ^ 38"
    using assms(1) pow10_mono [OF k(2)] unfolding N_def decimal38_def by (intro mult_mono) simp_all
  then have ND: "0 \<le> N" "0 < D" "2 * N < base ^ 4" "D < 10 ^ 38"
    using assms(2,3) pow_ten_bounds(1) by (simp_all add: N_def D_def decimal38_def)
  define c where "c = (if sign256 (from_int128 a) < 0 then negate256 (from_int128 a) else from_int128 a)"
  define w where "w = (if d <s 0 then - d else d)"
  have c: "wf256 c" "ival c = \<bar>sint a\<bar>" and w: "sint w = D"
    using abs_parts [OF assms(1)] abs_parts [OF assms(2)] by (simp_all add: c_def w_def D_def)
  obtain m where m: "pow_ten (int k) = Some m" "wf256 m" "ival m = 10 ^ k"
    using pow_ten_some [of "int k"] k(2) by auto
  define n where "n = (if b_scale < a_scale then multiply256 c m else c)"
  have n: "wf256 n" "ival n = N"
    using nonneg_ops [OF c(1) m(2)] c m(3) ND(3) assms(4) by (auto simp: n_def N_def k_def)
  define q where "q = integer_divide n w"
  have q: "wf256 q" "ival q = N div D"
    using int_divide_nonneg [OF n(1), of w] n(2) w ND by (simp_all add: q_def)
  define l where "l = multiply256 q (from_int128 w)"
  have l: "wf256 l" "ival l = N div D * D"
    using nonneg_ops [OF q(1) wf_from_int128, of w] q(2) w ND div_mult_le [of D N]
    by (simp_all add: l_def pos_imp_zdiv_nonneg_iff)
  have small: "N mod D < 10 ^ 38" using ND pos_mod_bound [of D N] by linarith
  have d: "d \<noteq> 0" using assms(3) by auto
  note row = remainder_row [OF n(1) l(1) n(2) l(2) ND(1,2) small]
  have "dec128_remainder a_scale b_scale b_scale a d =
      Some \<lparr>overflows = False, row_value = Some (if sint a < 0 then - as_128_bits (add256 n (negate256 l))
                else as_128_bits (add256 n (negate256 l)))\<rparr>"
    using remainder_unfold(2) [OF d assms(4) _ c_def w_def n_def] k(1) m(1) row(1)
    by (simp add: l_def q_def)
  then show ?thesis
    using row(2) [of "sint a < 0"] assms(3) by (simp add: smod_abs N_def D_def k_def abs_mult mult_less_0_iff)
qed

text \<open>
  C13: At the finer of the two scales the remainder never overflows and is the remainder of
  truncated division of the two decimals at that scale, with the sign of the dividend.
\<close>
theorem remainder_correct:
  assumes "decimal38 a" "decimal38 d" "sint d \<noteq> 0" "\<bar>a_scale - b_scale\<bar> \<le> 38"
  defines "s \<equiv> min a_scale b_scale"
  shows "\<exists>v. dec128_remainder a_scale b_scale s a d = Some \<lparr>overflows = False, row_value = Some v\<rparr> \<and>
           sint v = (sint a * 10 ^ nat (a_scale - s)) smod (sint d * 10 ^ nat (b_scale - s))"
proof (cases "a_scale < b_scale")
  case True
  then show ?thesis
    using remainder_fine_dividend [OF assms(1-3) True] assms(4) by (simp add: s_def)
next
  case False
  then show ?thesis
    using remainder_coarse_dividend [OF assms(1-3), of b_scale a_scale] assms(4) by (auto simp: s_def min_def)
qed

theorem remainder_correct_witness:
  "\<exists>v. dec128_remainder (- 2) (- 1) (- 2) (- 1234) 7 = Some \<lparr>overflows = False, row_value = Some v\<rparr> \<and> sint v = - 44"
  using remainder_correct [of "- 1234" 7 "- 2" "- 1"]
  by (simp add: decimal38_def signed_modulo_int_def)

section \<open>Where the code differs from the exact result\<close>

lemma min_half_not_rounded:
  assumes "sint (r :: int128) = - (2 ^ 126)" "sint d \<noteq> - HALF"
  shows "round_from_remainder q r n d = add_int q 0"
proof -
  have r: "r = word_of_int (- (2 ^ 126))" unfolding assms(1) [symmetric] by simp
  define e where "e = (if shl1 r <s 0 then - shl1 r else shl1 r)"
  have "sint e = - (2 ^ 127)" unfolding e_def r shl1_def by code_simp
  then have "\<not> (if d <s 0 then - d else d) \<le>s e"
    using sint_abs128 [OF assms(2)] by (simp add: word_sle_eq)
  moreover have "signed_drop_bit 1 (shl1 r) = r" unfolding r shl1_def by code_simp
  ultimately show ?thesis unfolding round_from_remainder_def Let_def e_def [symmetric] by simp
qed

text \<open>
  Rounding fails for the one remainder whose double has no negation: a remainder of
  \<open>- (2 ^ 126)\<close> is not rounded away although it exceeds half of the divisor \<open>10 ^ 38\<close>, so the
  product \<open>- (2 ^ 63) * 2 ^ 63\<close> at scale 38 gives 0 where half-up rounding gives -1.
\<close>
theorem rounding_misses_half_min:
  "(\<exists>row. dec128_multiplier False 0 0 38 (- (2 ^ 63)) (2 ^ 63) = Some row \<and> fits38 0 row) \<and>
   rescale (- (2 ^ 63) * 2 ^ 63) 0 38 = - 1"
proof
  show "rescale (- (2 ^ 63) * 2 ^ 63) 0 38 = - 1" by (simp add: rescale_def round_half_up_def)
  define p where "p = multiply256 (from_int128 (- (2 ^ 63))) (from_int128 (2 ^ 63))"
  have s: "sint (- (2 ^ 63) :: int128) = - (2 ^ 63)" "sint (2 ^ 63 :: int128) = 2 ^ 63" by simp_all
  have p: "wf256 p" "ival p = - (2 ^ 126)"
    using product_val [of "- (2 ^ 63)" "2 ^ 63"] by (simp_all add: p_def decimal38_def)
  obtain m where m: "pow_ten 38 = Some m" "sint (as_128_bits m) = 10 ^ 38" using pow_ten_128 [of 38] by auto
  have "sint (as_128_bits m) \<noteq> 0 \<and> \<not> (2 * ival p = - (base ^ 4) \<and> sint (as_128_bits m) = - 1)"
    unfolding m(2) by simp
  then have q: "wf256 (quotient (divide256 p (as_128_bits m)))" "ival (quotient (divide256 p (as_128_bits m))) = 0"
    "sint (remainder (divide256 p (as_128_bits m))) = - (2 ^ 126)"
    using divide256_val [OF p(1), of "as_128_bits m"] m(2)
    by (simp_all add: p(2) signed_divide_int_def signed_modulo_int_def)
  have "sint (as_128_bits m) \<noteq> - HALF" unfolding m(2) HALF_def by simp
  then have "divide_and_round p (as_128_bits m) = add_int (quotient (divide256 p (as_128_bits m))) 0"
    unfolding divide_and_round_def Let_def by (rule min_half_not_rounded [OF q(3)])
  then have v: "wf256 (divide_and_round p (as_128_bits m))" "ival (divide_and_round p (as_128_bits m)) = 0"
    using add_int_val [OF q(1), of 0] q(2) by simp_all
  have "as_128_bits m \<noteq> 1" using m(2) by auto
  then have "dec128_multiplier False 0 0 38 (- (2 ^ 63)) (2 ^ 63) = Some (checked_row (divide_and_round p (as_128_bits m)))"
    using m(1) by (simp add: dec128_multiplier_def interim_cast_def scale_product_def p_def)
  then show "\<exists>row. dec128_multiplier False 0 0 38 (- (2 ^ 63)) (2 ^ 63) = Some row \<and> fits38 0 row"
    using checked_row_fits [OF v] by blast
qed

text \<open>
  In the long-division regime the quotient wraps around before the test for 38 digits: a
  quotient of 85 digits is stored as a 38-digit value with no overflow reported.
\<close>
theorem divide_wraps_unreported:
  "(\<exists>row. dec128_divider 0 (- 9) (- 38) 57948564436573467218543761596014344501 1 = Some row \<and>
      fits38 23492338963983121966496602182121422848 row) \<and>
   10 ^ 84 \<le> round_half_up (57948564436573467218543761596014344501 * 10 ^ 47) 1"
proof
  let ?a = "57948564436573467218543761596014344501 :: int" and ?R = "23492338963983121966496602182121422848 :: int"
  show "10 ^ 84 \<le> round_half_up (?a * 10 ^ 47) 1" by simp
  define a where "a = (57948564436573467218543761596014344501 :: int128)"
  have sa: "sint a = ?a" by (simp add: a_def)
  obtain t where t: "pow_ten 38 = Some t" "wf256 t" "ival t = 10 ^ 38" using pow_ten_some [of 38] by auto
  obtain s where s: "pow_ten 9 = Some s" "wf256 s" "ival s = 10 ^ 9" using pow_ten_some [of 9] by auto
  define f where "f = divide256 (multiply256 (from_int128 a) t) 1"
  have "wf256 (multiply256 (from_int128 a) t)" "ival (multiply256 (from_int128 a) t) = ?a * 10 ^ 38"
    using multiply_exact [OF wf_from_int128 t(2), of a "?a * 10 ^ 38"] by (simp_all add: sa t(3) base_pow)
  then have f: "wf256 (quotient f)" "ival (quotient f) = ?a * 10 ^ 38" "sint (remainder f) = 0"
    using divide256_val [of "multiply256 (from_int128 a) t" 1] by (simp_all add: f_def signed_modulo_int_def)
  then have r0: "remainder f = 0" by (simp only: signed_eq_0_iff)
  define q where "q = multiply256 (quotient f) s"
  have "ival q mod base ^ 4 = (ival (quotient f) * ival s) mod base ^ 4"
    unfolding q_def by (rule i256.times_mod [OF f(1) s(2)])
  then have "ival q mod base ^ 4 = ?R mod base ^ 4" unfolding f(2) s(3) base_pow(2) by simp
  moreover have wfq: "wf256 q" unfolding q_def by (rule i256.ok_ops(2) [OF f(1) s(2)])
  ultimately have q: "ival q = ?R" using i256.exact [OF wfq, of ?R] by (simp add: base_pow)
  define z where "z = multiply256 (from_int128 0) s"
  have z: "wf256 z" "ival z = 0" using multiply_exact [OF wf_from_int128 s(2), of 0 0] by (simp_all add: z_def)
  define g where "g = divide256 z 1"
  have g: "wf256 (quotient g)" "ival (quotient g) = 0" "sint (remainder g) = 0"
    using divide256_val [OF z(1), of 1] z(2) by (simp_all add: g_def signed_modulo_int_def)
  have sum: "wf256 (add256 q (quotient g))" "ival (add256 q (quotient g)) = ?R"
    using i256.plus_exact [OF wfq g(1)] wfq q g by (simp_all add: base_pow)
  have "4 * \<bar>ival (add256 q (quotient g))\<bar> < base ^ 4" unfolding sum(2) base_pow by simp
  from round_from_remainder_val [OF sum(1) z(1) this, of "remainder g" 1]
  have v: "wf256 (round_from_remainder (add256 q (quotient g)) (remainder g) z 1)"
    "ival (round_from_remainder (add256 q (quotient g)) (remainder g) z 1) = ?R"
    using g(3) sum(2) by (simp_all add: HALF_def)
  have "dec128_divider 0 (- 9) (- 38) a 1 =
      Some (checked_row (round_from_remainder (add256 q (quotient g)) (remainder g) z 1))"
    using t(1) s(1) r0 by (simp add: dec128_divider_def divider_result_def Let_def q_def g_def z_def f_def)
  then show "\<exists>row. dec128_divider 0 (- 9) (- 38) 57948564436573467218543761596014344501 1 = Some row \<and> fits38 ?R row"
    using checked_row_fits [OF v] unfolding a_def by blast
qed

text \<open>
  At a result scale finer than both inputs the product is scaled up and the dividend is not, so
  the remainder of 7 by 2 at scale -1 is -53 and not 10.
\<close>
theorem remainder_finer_scale_wrong:
  "(\<exists>row. dec128_remainder 0 0 (- 1) 7 2 = Some row \<and> fits38 (- 53) row) \<and> (7 * 10) smod (2 * 10 :: int) = 10"
proof
  obtain m where m: "pow_ten 1 = Some m" "wf256 m" "ival m = 10" using pow_ten_some [of 1] by auto
  define l where "l = multiply256 (multiply256 (integer_divide (from_int128 7) 2) (from_int128 2)) m"
  have "wf256 (integer_divide (from_int128 7) 2)" "ival (integer_divide (from_int128 7) 2) = 3"
    using int_divide_nonneg [OF wf_from_int128, of 7 2] by simp_all
  then have "wf256 (multiply256 (integer_divide (from_int128 7) 2) (from_int128 2))"
    "ival (multiply256 (integer_divide (from_int128 7) 2) (from_int128 2)) = 6"
    using multiply_exact [OF _ wf_from_int128, of "integer_divide (from_int128 7) 2" 2 6] by (simp_all add: base_pow)
  then have l: "wf256 l" "ival l = 60" unfolding l_def
    using multiply_exact [OF _ m(2), of "multiply256 (integer_divide (from_int128 7) 2) (from_int128 2)" 60] m(3)
    by (simp_all add: base_pow)
  then have "wf256 (negate256 l)" "ival (negate256 l) = - 60" using i256.neg_exact [OF l(1)] by (simp_all add: base_pow)
  then have v: "wf256 (add256 (from_int128 7) (negate256 l))" "ival (add256 (from_int128 7) (negate256 l)) = - 53"
    using i256.plus_exact [of "from_int128 7" "negate256 l"] by (simp_all add: base_pow)
  have "\<not> sign256 (from_int128 7) < 0" by (simp add: sign256_neg)
  then have "dec128_remainder 0 0 (- 1) 7 2 = Some (checked_row (add256 (from_int128 7) (negate256 l)))"
    using m(1) by (simp add: dec128_remainder_def l_def integer_divide_def checked_row_def Let_def word_sless_alt)
  then show "\<exists>row. dec128_remainder 0 0 (- 1) 7 2 = Some row \<and> fits38 (- 53) row" using checked_row_fits [OF v] by blast
qed (simp add: signed_modulo_int_def)

section \<open>Columns\<close>

text \<open>
  C14: Multiplying two columns, in both modes, fails on a column of another type, on columns of different
  lengths and on a result scale more than 38 above the scale of the product, in this order, and only
  then; otherwise every row is null exactly where an input is, and every row of two decimals is the
  rounded product. The result scale is at most 38 below the scale of the product.
\<close>
theorem multiply_columns:
  assumes "length (dec_valid a) = length (dec_data a)" "length (dec_valid b) = length (dec_data b)"
    and "- 38 \<le> product_scale - (dec_scale a + dec_scale b)"
  shows "case multiply_decimal128 a b product_scale cast_interim_result of
      Inl e \<Rightarrow> e = (if \<not> is_decimal128 a \<or> \<not> is_decimal128 b then Not_Decimal128
                  else if length (dec_data a) \<noteq> length (dec_data b) then Mismatched_Rows
                  else Divisor_Too_Big) \<and>
        (e = Divisor_Too_Big \<longrightarrow> 38 < product_scale - (dec_scale a + dec_scale b))
    | Inr rows \<Rightarrow> is_decimal128 a \<and> is_decimal128 b \<and> length rows = length (dec_data a) \<and>
        length rows = length (dec_data b) \<and> product_scale - (dec_scale a + dec_scale b) \<le> 38 \<and>
        (\<forall>i < length rows. snd (rows ! i) = (dec_valid a ! i \<and> dec_valid b ! i) \<and>
          (decimal38 (dec_data a ! i) \<longrightarrow> decimal38 (dec_data b ! i) \<longrightarrow>
            product_rounds cast_interim_result (sint (dec_data a ! i) * sint (dec_data b ! i))
              (dec_scale a + dec_scale b) product_scale \<longrightarrow>
            (\<exists>row. fst (rows ! i) = Some row \<and>
               fits38 (rounded_product cast_interim_result (sint (dec_data a ! i) * sint (dec_data b ! i))
                 (dec_scale a + dec_scale b) product_scale) row)))"
proof (cases "is_decimal128 a \<and> is_decimal128 b \<and> length (dec_data a) = length (dec_data b) \<and>
    product_scale - (dec_scale a + dec_scale b) \<le> 38")
  case True
  show ?thesis using True assms multiplier_fits
    by (simp add: multiply_decimal128_def decimal_binary_def check_scale_divisor_def)
next
  case False
  then show ?thesis
    by (auto simp: multiply_decimal128_def decimal_binary_def check_scale_divisor_def not_le)
qed

text \<open>At a difference of 38, and one beyond it.\<close>

theorem multiply_columns_witness:
  "(let a = \<lparr>is_decimal128 = True, dec_scale = - 20, dec_data = [- 3 * 10 ^ 25, 7], dec_valid = [True, False]\<rparr>
    in case multiply_decimal128 a a (- 2) False of Inl e \<Rightarrow> False
       | Inr rows \<Rightarrow> length rows = 2 \<and> snd (rows ! 0) \<and> \<not> snd (rows ! 1) \<and>
           (\<exists>row. fst (rows ! 0) = Some row \<and> fits38 9000000000000 row))
   \<and> (let a = \<lparr>is_decimal128 = True, dec_scale = - 20, dec_data = [1], dec_valid = [True]\<rparr>
      in multiply_decimal128 a a (- 1) False = Inl Divisor_Too_Big)"
proof -
  define a where "a = \<lparr>is_decimal128 = True, dec_scale = - 20, dec_data = [- 3 * 10 ^ 25, 7 :: int128], dec_valid = [True, False]\<rparr>"
  define b where "b = \<lparr>is_decimal128 = True, dec_scale = - 20, dec_data = [1 :: int128], dec_valid = [True]\<rparr>"
  obtain rows where rows: "multiply_decimal128 a a (- 2) False = Inr rows"
    by (simp add: a_def multiply_decimal128_def decimal_binary_def check_scale_divisor_def)
  have "length (dec_valid a) = length (dec_data a)" by (simp add: a_def)
  from multiply_columns [OF this this, of "- 2" False] rows
  have "length rows = 2" and *: "\<forall>i < 2. snd (rows ! i) = (dec_valid a ! i \<and> dec_valid a ! i) \<and>
      (decimal38 (dec_data a ! i) \<longrightarrow> product_rounds False (sint (dec_data a ! i) * sint (dec_data a ! i)) (- 40) (- 2) \<longrightarrow>
        (\<exists>row. fst (rows ! i) = Some row \<and>
         fits38 (rounded_product False (sint (dec_data a ! i) * sint (dec_data a ! i)) (- 40) (- 2)) row))"
    by (simp_all add: a_def)
  have z: "dec_data a ! 0 = - 30000000000000000000000000" by (simp add: a_def)
  have d: "decimal38 (- 30000000000000000000000000)"
    and v: "sint (- 30000000000000000000000000 :: int128) * sint (- 30000000000000000000000000 :: int128) = 9 * 10 ^ 50"
    by (simp_all add: decimal38_def)
  have r: "product_rounds False (9 * 10 ^ 50) (- 40) (- 2)" "rounded_product False (9 * 10 ^ 50) (- 40) (- 2) = 9000000000000"
    by (simp_all add: product_rounds_def rounds_def rounded_product_def interim_value_def rescale_def round_half_up_def
        signed_modulo_int_def signed_divide_int_def)
  have "snd (rows ! 0)" "\<exists>row. fst (rows ! 0) = Some row \<and> fits38 9000000000000 row"
    using mp [OF spec [OF *, of 0]] d r unfolding z v by (simp_all add: a_def)
  moreover have "\<not> snd (rows ! 1)" using mp [OF spec [OF *, of 1]] by (simp add: a_def)
  moreover have "length (dec_valid b) = length (dec_data b)" by (simp add: b_def)
  from multiply_columns [OF this this, of "- 1" False]
  have "multiply_decimal128 b b (- 1) False = Inl Divisor_Too_Big"
    by (cases "multiply_decimal128 b b (- 1) False") (simp_all add: b_def)
  ultimately show ?thesis using \<open>length rows = 2\<close> rows unfolding a_def b_def by simp
qed

section \<open>The 256-bit operations\<close>

text \<open>
  The switch of \<^verbatim>\<open>pow_ten\<close> returns \<open>10 ^ e\<close>, in four well-formed chunks, for every exponent from 0
  to 76 and for no other.
\<close>
theorem pow_ten_exact: "(\<exists>p. pow_ten e = Some p \<and> wf256 p \<and> uval p = 10 ^ nat e) \<longleftrightarrow> 0 \<le> e \<and> e \<le> 76"
  using pow_ten_table_val [of "nat e"] by (auto simp: pow_ten_def)

text \<open>
  \<^verbatim>\<open>precision10\<close> is the least exponent whose power of ten is not below the absolute value.
\<close>
lemma precision10_least:
  assumes "wf256 v" "\<bar>ival v\<bar> \<le> 10 ^ 76"
  shows "\<exists>i. precision10 v = int i \<and> (\<forall>j. \<bar>ival v\<bar> \<le> 10 ^ j \<longleftrightarrow> i \<le> j)"
proof -
  obtain i where i: "precision10 v = int i" "\<bar>ival v\<bar> \<le> 10 ^ i" "\<And>j. j < i \<Longrightarrow> 10 ^ j < \<bar>ival v\<bar>"
    using precision10_val [OF assms] by blast
  have "\<bar>ival v\<bar> \<le> 10 ^ j \<longleftrightarrow> i \<le> j" for j
    using i(2) i(3) [of j] pow10_mono [of i j] by linarith
  then show ?thesis using i(1) by blast
qed

text \<open>
  The schoolbook product of two chunked values is their product modulo \<open>2 ^ 256\<close>, and exact as a
  signed number when it fits.
\<close>
theorem multiply_wraps:
  assumes "wf256 a" "wf256 b"
  shows "wf256 (multiply256 a b) \<and> uval (multiply256 a b) = (uval a * uval b) mod 2 ^ 256 \<and>
         (- (2 ^ 255) \<le> ival a * ival b \<longrightarrow> ival a * ival b < 2 ^ 255 \<longrightarrow> ival (multiply256 a b) = ival a * ival b)"
  using multiply256_val [OF assms] i256.times_exact [OF assms] by (simp add: base_pow)

theorem multiply_wraps_witness:
  "ival (multiply256 (from_int128 (- 3)) (from_int128 5)) = - 15"
  using multiply_wraps [of "from_int128 (- 3)" "from_int128 5"] by simp

text \<open>
  C11: The bitwise long division computes the quotient and the remainder of truncated division, for
  every divisor but zero and except for the one quotient that does not fit.
\<close>
theorem divide_truncates:
  assumes "wf256 n" "d \<noteq> 0" "\<not> (ival n = - (2 ^ 255) \<and> d = - 1)"
  shows "ival (quotient (divide256 n d)) = ival n sdiv sint d \<and> sint (remainder (divide256 n d)) = ival n smod sint d"
proof -
  have "sint d \<noteq> 0" using assms(2) by (simp only: signed_eq_0_iff not_False_eq_True)
  moreover have "\<not> (2 * ival n = - (base ^ 4) \<and> sint d = - 1)"
  proof
    assume *: "2 * ival n = - (base ^ 4) \<and> sint d = - 1"
    then have "sint d = sint (- 1 :: int128)" by simp
    then have "d = - 1" by (rule signed_word_eqI)
    then show False using assms(3) * by (simp add: base_pow)
  qed
  ultimately show ?thesis using divide256_val [OF assms(1)] by simp
qed

theorem divide_truncates_witness:
  "ival (quotient (divide256 (from_int128 (- 17)) 5)) = - 3 \<and> sint (remainder (divide256 (from_int128 (- 17)) 5)) = - 2"
  using divide_truncates [of "from_int128 (- 17)" 5] by (simp add: signed_divide_int_def signed_modulo_int_def)

text \<open>Widening an \<^verbatim>\<open>__int128_t\<close> to 256 bits and narrowing it again is the identity.\<close>
lemma widen_narrow: "as_128_bits (from_int128 x) = x \<and> ival (from_int128 x) = sint x"
proof -
  have "sint (as_128_bits (from_int128 x)) = sint x"
    using sint_as_128 [OF wf_from_int128, of x] sint128_bounds [of x] by simp
  then show ?thesis by (simp add: signed_word_eqI)
qed

end
