(* ===== verification/Calendar.thy ===== *)
theory Calendar
  imports Prelude
begin

text \<open>
  Proleptic calendars with 12 months whose year starts in March, the common ground of the Gregorian
  conversions of \<^verbatim>\<open>datetime_utils.cuh\<close> and the Julian ones of \<^verbatim>\<open>datetime_rebase.cu\<close>. A calendar is
  given by the length of its era in years and days, the first day of each year of the era, the
  length of each year and the year of a day of the era; the locale \<open>civil\<close> states what these must
  satisfy and derives the round trips, the validity of every date and the step to the next day.
  Here are also the 16-bit years of \<^verbatim>\<open>cuda::std::chrono\<close>.
\<close>

section \<open>Fixed-width integers\<close>

definition s16 :: "int \<Rightarrow> int" where
  "s16 x = (x + 2 ^ 15) mod 2 ^ 16 - 2 ^ 15"

lemma s16_id [wrap_simps]: "- (2 ^ 15) \<le> x \<Longrightarrow> x < 2 ^ 15 \<Longrightarrow> s16 x = x"
  by (simp add: s16_def)

lemma u32_diff_s32: "u32 (a - s32 b) = u32 (a - b)"
proof -
  have "(a - ((b + 2 ^ 31) mod 2 ^ 32 - 2 ^ 31)) mod 2 ^ 32 = (a + 2 ^ 31 - (b + 2 ^ 31) mod 2 ^ 32) mod 2 ^ 32"
    by (simp add: algebra_simps)
  also have "\<dots> = (a + 2 ^ 31 - (b + 2 ^ 31)) mod (2 ^ 32 :: int)" by (rule mod_diff_right_eq)
  finally show ?thesis by (simp add: u32_def s32_def)
qed

lemma s32_u32: "s32 (u32 x) = s32 x"
  by (simp add: u32_def s32_def mod_add_left_eq)

section \<open>Months\<close>

definition month_start :: "int \<Rightarrow> int" where
  "month_start mp = (153 * mp + 2) div 5"

definition month_of_day :: "int \<Rightarrow> int" where
  "month_of_day doy = (5 * doy + 2) div 153"

definition to_mp :: "int \<Rightarrow> int" where
  "to_mp month = (if month > 2 then month - 3 else month + 9)"

definition of_mp :: "int \<Rightarrow> int" where
  "of_mp mp = (if mp < 10 then mp + 3 else mp - 9)"

definition month_days :: "bool \<Rightarrow> int \<Rightarrow> int" where
  "month_days leap month =
     (if month = 2 then if leap then 29 else 28
      else if month = 4 \<or> month = 6 \<or> month = 9 \<or> month = 11 then 30 else 31)"

lemma month_table:
  "list_all (\<lambda>mp. of_mp mp \<in> {1..12} \<and> to_mp (of_mp mp) = mp \<and> of_mp (to_mp (mp + 1)) = mp + 1 \<and> to_mp (mp + 1) \<in> {0..11} \<and>
     (mp < 11 \<longrightarrow> month_start (mp + 1) = month_start mp + month_days False (of_mp mp) \<and> of_mp mp \<noteq> 2) \<and>
     list_all (\<lambda>d. month_of_day (month_start mp + d - 1) = mp) [1..month_days True (of_mp mp)]) [0..11]"
  by code_simp

lemma day_table:
  "list_all (\<lambda>doy. let mp = month_of_day doy; d = doy - month_start mp + 1 in
     mp \<in> {0..11} \<and> 1 \<le> d \<and> d \<le> month_days (doy = 365) (of_mp mp)) [0..365]"
  by code_simp

lemma month_facts:
  assumes "0 \<le> mp" "mp \<le> 11"
  shows "1 \<le> of_mp mp" "of_mp mp \<le> 12" "to_mp (of_mp mp) = mp"
    and "mp < 11 \<Longrightarrow> month_start (mp + 1) = month_start mp + month_days False (of_mp mp) \<and> of_mp mp \<noteq> 2"
    and "1 \<le> d \<Longrightarrow> d \<le> month_days True (of_mp mp) \<Longrightarrow> month_of_day (month_start mp + d - 1) = mp"
  using assms month_table unfolding list_all_iff by (force simp: set_upto)+

lemma to_mp_facts:
  assumes "1 \<le> m" "m \<le> 12"
  shows "0 \<le> to_mp m" "to_mp m \<le> 11" "of_mp (to_mp m) = m"
  using assms by (auto simp: to_mp_def of_mp_def)

lemma day_facts:
  assumes "0 \<le> doy" "doy \<le> 365"
  shows "0 \<le> month_of_day doy" "month_of_day doy \<le> 11" "month_start (month_of_day doy) \<le> doy"
    and "doy - month_start (month_of_day doy) + 1 \<le> month_days (doy = 365) (of_mp (month_of_day doy))"
  using assms day_table unfolding list_all_iff Let_def by (force simp: set_upto)+

lemma month_days_mono: "month_days False m \<le> month_days leap m" "month_days leap m \<le> month_days True m"
  "1 \<le> month_days leap m"
  by (simp_all add: month_days_def)

section \<open>Calendars\<close>

type_synonym date = "int \<times> int \<times> int"

text \<open>
  \<open>ys n\<close> is the first day of the year \<open>n\<close> of the era, \<open>len n\<close> its length and \<open>yf\<close> the year of a day.
\<close>

fun civil_days :: "int \<Rightarrow> int \<Rightarrow> (int \<Rightarrow> int) \<Rightarrow> int \<Rightarrow> date \<Rightarrow> int" where
  "civil_days era_years era_days ys epoch (year, month, day) =
     (let y = year - (if month \<le> 2 then 1 else 0)
      in y div era_years * era_days + ys (y mod era_years) + (month_start (to_mp month) + day - 1) - epoch)"

definition civil_date :: "int \<Rightarrow> int \<Rightarrow> (int \<Rightarrow> int) \<Rightarrow> (int \<Rightarrow> int) \<Rightarrow> int \<Rightarrow> int \<Rightarrow> date" where
  "civil_date era_years era_days ys yf epoch n =
     (let z = n + epoch; era = z div era_days; doe = z mod era_days; yoe = yf doe;
          doy = doe - ys yoe; mp = month_of_day doy; day = doy - month_start mp + 1; month = of_mp mp
      in (yoe + era * era_years + (if month \<le> 2 then 1 else 0), month, day))"

text \<open>A leap year ends a year of 366 days that started in March of the year before.\<close>

definition leap_in :: "int \<Rightarrow> (int \<Rightarrow> int) \<Rightarrow> int \<Rightarrow> bool" where
  "leap_in era_years len year \<longleftrightarrow> len ((year - 1) mod era_years) = 366"

fun valid_date_in :: "(int \<Rightarrow> bool) \<Rightarrow> date \<Rightarrow> bool" where
  "valid_date_in leap (year, month, day) \<longleftrightarrow>
     1 \<le> month \<and> month \<le> 12 \<and> 1 \<le> day \<and> day \<le> month_days (leap year) month"

fun next_date_in :: "(int \<Rightarrow> bool) \<Rightarrow> date \<Rightarrow> date" where
  "next_date_in leap (year, month, day) =
     (if day < month_days (leap year) month then (year, month, day + 1)
      else if month < 12 then (year, month + 1, 1) else (year + 1, 1, 1))"

text \<open>The order of dates, as \<^verbatim>\<open>cuda::std::chrono::year_month_day\<close> compares them.\<close>

fun ymd_less :: "date \<Rightarrow> date \<Rightarrow> bool" where
  "ymd_less (y, m, d) (y', m', d') \<longleftrightarrow> y < y' \<or> y = y' \<and> (m < m' \<or> m = m' \<and> d < d')"

lemma ymd_less_trans: "ymd_less a b \<Longrightarrow> ymd_less b c \<Longrightarrow> ymd_less a c"
  by (cases a; cases b; cases c) auto

lemma ymd_less_irrefl: "\<not> ymd_less a a"
  by (cases a) simp

lemma ymd_less_next: "valid_date_in leap dt \<Longrightarrow> ymd_less dt (next_date_in leap dt)"
  by (cases dt) auto

locale civil =
  fixes era_years era_days epoch :: int and ys len yf :: "int \<Rightarrow> int"
  assumes era_years_pos: "0 < era_years"
    and era_days_pos: "0 < era_days"
    and len_cases: "len n = 365 \<or> len n = 366"
    and start_0: "ys 0 = 0"
    and start_next: "0 \<le> n \<Longrightarrow> n + 1 < era_years \<Longrightarrow> ys (n + 1) = ys n + len n"
    and start_last: "ys (era_years - 1) + len (era_years - 1) = era_days"
    and start_range: "0 \<le> n \<Longrightarrow> n < era_years \<Longrightarrow> 0 \<le> ys n \<and> ys n + len n \<le> era_days"
    and year_range: "0 \<le> doe \<Longrightarrow> doe < era_days \<Longrightarrow> 0 \<le> yf doe \<and> yf doe < era_years"
    and year_days: "0 \<le> doe \<Longrightarrow> doe < era_days \<Longrightarrow> ys (yf doe) \<le> doe \<and> doe < ys (yf doe) + len (yf doe)"
    and year_unique: "0 \<le> n \<Longrightarrow> n < era_years \<Longrightarrow> ys n \<le> doe \<Longrightarrow> doe < ys n + len n \<Longrightarrow> yf doe = n"
begin

text \<open>The date of a day from its era, the year of the era and the day of the year, and back.\<close>

definition date_at :: "int \<Rightarrow> int \<Rightarrow> int \<Rightarrow> date" where
  "date_at era yoe doy =
     (let mp = month_of_day doy; month = of_mp mp
      in (yoe + era * era_years + (if month \<le> 2 then 1 else 0), month, doy - month_start mp + 1))"

lemma date_parts:
  obtains era yoe doy where "civil_date era_years era_days ys yf epoch n = date_at era yoe doy"
    "0 \<le> yoe" "yoe < era_years" "0 \<le> doy" "doy < len yoe" "n = era * era_days + ys yoe + doy - epoch"
proof -
  define era doe where "era = (n + epoch) div era_days" and "doe = (n + epoch) mod era_days"
  define yoe where "yoe = yf doe"
  have doe: "0 \<le> doe" "doe < era_days" using era_days_pos by (simp_all add: doe_def)
  show ?thesis
  proof (rule that [of era yoe "doe - ys yoe"])
    show "civil_date era_years era_days ys yf epoch n = date_at era yoe (doe - ys yoe)"
      by (simp add: civil_date_def date_at_def Let_def era_def doe_def yoe_def)
    show "n = era * era_days + ys yoe + (doe - ys yoe) - epoch" by (simp add: era_def doe_def)
  qed (use year_range [OF doe] year_days [OF doe] in \<open>simp_all add: yoe_def\<close>)
qed

lemma date_of_parts:
  assumes "0 \<le> yoe" "yoe < era_years" "0 \<le> doy" "doy < len yoe"
  shows "civil_date era_years era_days ys yf epoch (era * era_days + ys yoe + doy - epoch) = date_at era yoe doy"
proof -
  have d: "0 \<le> ys yoe + doy" "ys yoe + doy < era_days" using start_range [OF assms(1,2)] assms(3,4) by linarith+
  have "era * era_days + (ys yoe + doy) = ys yoe + doy + era * era_days" by simp
  then have "(era * era_days + (ys yoe + doy)) div era_days = era" "(era * era_days + (ys yoe + doy)) mod era_days = ys yoe + doy"
    using d era_days_pos by simp_all
  moreover have "yf (ys yoe + doy) = yoe" using year_unique [OF assms(1,2)] assms(3,4) by simp
  ultimately show ?thesis by (simp add: civil_date_def date_at_def Let_def add.assoc)
qed

lemma days_at:
  assumes "0 \<le> yoe" "yoe < era_years" "0 \<le> doy" "doy \<le> 365"
  shows "civil_days era_years era_days ys epoch (date_at era yoe doy) = era * era_days + ys yoe + doy - epoch"
proof -
  note df = day_facts [OF assms(3,4)]
  have "(yoe + era * era_years) div era_years = era" "(yoe + era * era_years) mod era_years = yoe"
    using assms(1,2) era_years_pos by simp_all
  then show ?thesis using month_facts(3) [OF df(1,2)] by (simp add: date_at_def Let_def)
qed

lemma len_le: "doy < len yoe \<Longrightarrow> doy \<le> 365"
  using len_cases [of yoe] by auto

lemma days_of_date: "civil_days era_years era_days ys epoch (civil_date era_years era_days ys yf epoch n) = n"
  by (rule date_parts [of n]) (simp add: days_at len_le)

text \<open>A date is valid exactly when it is the date of some day of a year of its length.\<close>

lemma leap_at:
  assumes "0 \<le> yoe" "yoe < era_years"
  shows "leap_in era_years len (yoe + era * era_years + 1) \<longleftrightarrow> len yoe = 366"
  using assms by (simp add: leap_in_def)

lemma valid_at:
  assumes "0 \<le> yoe" "yoe < era_years" "0 \<le> doy" "doy < len yoe"
  shows "valid_date_in (leap_in era_years len) (date_at era yoe doy)"
proof -
  note df = day_facts [OF assms(3) len_le [OF assms(4)]]
  note mf = month_facts(1,2) [OF df(1,2)]
  define m d where "m = of_mp (month_of_day doy)" and "d = doy - month_start (month_of_day doy) + 1"
  define leap where "leap = leap_in era_years len (yoe + era * era_years + (if m \<le> 2 then 1 else 0))"
  have "d \<le> month_days leap m"
  proof (cases "m = 2")
    case True
    then have "leap \<longleftrightarrow> len yoe = 366" using leap_at [OF assms(1,2)] by (simp add: leap_def)
    moreover have "doy = 365 \<longrightarrow> len yoe = 366" using assms(4) len_cases [of yoe] by auto
    ultimately show ?thesis using df(4) True by (auto simp: m_def d_def month_days_def split: if_splits)
  next
    case False
    then have "month_days leap m = month_days (doy = 365) m" by (simp add: month_days_def)
    then show ?thesis using df(4) by (simp add: m_def d_def)
  qed
  then show ?thesis using mf df(3) by (simp add: date_at_def Let_def m_def d_def leap_def)
qed

lemma valid_date: "valid_date_in (leap_in era_years len) (civil_date era_years era_days ys yf epoch n)"
  by (rule date_parts [of n]) (simp add: valid_at)

lemma date_at_valid:
  assumes "valid_date_in (leap_in era_years len) (y, m, d)"
  obtains era yoe doy where "(y, m, d) = date_at era yoe doy" "0 \<le> yoe" "yoe < era_years" "0 \<le> doy" "doy < len yoe"
proof -
  define z mp doy where "z = y - (if m \<le> 2 then 1 else 0)" and "mp = to_mp m" and "doy = month_start mp + d - 1"
  have m: "1 \<le> m" "m \<le> 12" "1 \<le> d" "d \<le> month_days (leap_in era_years len y) m" using assms by simp_all
  note tm = to_mp_facts [OF m(1,2), folded mp_def]
  have dt: "d \<le> month_days True (of_mp mp)" using m(4) month_days_mono(2) tm(3) by (metis order_trans)
  note mo = month_facts(5) [OF tm(1,2) m(3) dt, folded doy_def]
  have yoe: "0 \<le> z mod era_years" "z mod era_years < era_years" using era_years_pos by simp_all
  have start: "0 \<le> month_start mp" using tm(1) by (simp add: month_start_def)
  have "doy < len (z mod era_years)"
  proof (cases "m = 2")
    case True
    then have "leap_in era_years len y \<longleftrightarrow> len (z mod era_years) = 366" by (simp add: leap_in_def z_def)
    then show ?thesis using True m(4) len_cases [of "z mod era_years"]
      by (auto simp: doy_def mp_def to_mp_def month_start_def month_days_def split: if_splits)
  next
    case False
    then have "mp < 11" using tm(1,2) m(1,2) by (auto simp: mp_def to_mp_def)
    moreover have "month_days (leap_in era_years len y) m = month_days False (of_mp mp)"
      using False tm(3) by (simp add: month_days_def)
    ultimately have "doy < month_start (mp + 1)" using month_facts(4) [OF tm(1,2)] m(4) by (simp add: doy_def)
    also have "month_start (mp + 1) \<le> 337" using \<open>mp < 11\<close> by (simp add: month_start_def)
    finally show ?thesis using len_cases [of "z mod era_years"] by auto
  qed
  moreover have "(y, m, d) = date_at (z div era_years) (z mod era_years) doy"
    using mo tm(3) by (simp add: date_at_def Let_def z_def doy_def)
  ultimately show ?thesis using that [of "z div era_years" "z mod era_years" doy] yoe m(3) start
    by (simp add: doy_def)
qed

lemma date_of_days:
  assumes "valid_date_in (leap_in era_years len) dt"
  shows "civil_date era_years era_days ys yf epoch (civil_days era_years era_days ys epoch dt) = dt"
proof -
  obtain y m d where dt: "dt = (y, m, d)" by (cases dt)
  from assms show ?thesis unfolding dt
    by (rule date_at_valid) (simp add: days_at len_le date_of_parts)
qed

lemma year_step:
  "(y + 1) div era_years * era_days + ys ((y + 1) mod era_years) =
     y div era_years * era_days + ys (y mod era_years) + len (y mod era_years)"
proof (cases "y mod era_years + 1 < era_years")
  case True
  have r: "0 \<le> y mod era_years" using era_years_pos by simp
  define q k where "q = y div era_years" and "k = y mod era_years"
  have y: "y + 1 = (k + 1) + q * era_years" by (simp add: q_def k_def)
  have "(y + 1) mod era_years = k + 1" "(y + 1) div era_years = q"
    unfolding y using True r era_years_pos by (simp_all flip: k_def)
  then have "(y + 1) mod era_years = y mod era_years + 1" "(y + 1) div era_years = y div era_years"
    by (simp_all only: q_def k_def)
  then show ?thesis using start_next [OF r True] by simp
next
  case False
  have b: "y mod era_years < era_years" using era_years_pos by simp
  then have last: "y mod era_years = era_years - 1" using False by simp
  then have y: "y + 1 = (y div era_years + 1) * era_years"
    using div_mult_mod_eq [of y era_years] unfolding distrib_right by linarith
  then have "(y + 1) div era_years = y div era_years + 1" "(y + 1) mod era_years = 0"
    using era_years_pos by simp_all
  then show ?thesis unfolding last using start_0 start_last by (simp add: distrib_right)
qed

lemma days_of_next:
  assumes "valid_date_in (leap_in era_years len) dt"
  shows "civil_days era_years era_days ys epoch (next_date_in (leap_in era_years len) dt) =
           civil_days era_years era_days ys epoch dt + 1"
proof -
  obtain y m d where dt: "dt = (y, m, d)" by (cases dt)
  let ?leap = "leap_in era_years len y"
  have m: "1 \<le> m" "m \<le> 12" "d \<le> month_days ?leap m" using assms by (simp_all add: dt)
  note tm = to_mp_facts [OF m(1,2)]
  consider "d < month_days ?leap m" | "d = month_days ?leap m" "m = 2" | "d = month_days ?leap m" "m \<noteq> 2"
    using m(3) by linarith
  then show ?thesis
  proof cases
    case 2
    have "?leap \<longleftrightarrow> len ((y - 1) mod era_years) = 366" by (simp add: leap_in_def)
    then show ?thesis using 2 year_step [of "y - 1"] len_cases [of "(y - 1) mod era_years"]
      by (auto simp: dt to_mp_def month_start_def month_days_def Let_def)
  next
    case 3
    then have mp: "to_mp m < 11" using m(1,2) by (auto simp: to_mp_def)
    have "month_days ?leap m = month_days False (of_mp (to_mp m))" using 3(2) tm(3) by (simp add: month_days_def)
    then have "month_start (to_mp m + 1) = month_start (to_mp m) + d"
      using month_facts(4) [OF tm(1,2) mp] 3(1) by simp
    moreover have "m < 12 \<Longrightarrow> to_mp (m + 1) = to_mp m + 1 \<and> (m + 1 \<le> 2 \<longleftrightarrow> m \<le> 2)"
      "m = 12 \<Longrightarrow> to_mp 1 = to_mp m + 1" using 3(2) by (auto simp: to_mp_def)
    ultimately show ?thesis using 3 m by (cases "m = 12") (simp_all add: dt Let_def)
  qed (simp add: dt Let_def)
qed

lemma date_of_next:
  "civil_date era_years era_days ys yf epoch (n + 1) =
     next_date_in (leap_in era_years len) (civil_date era_years era_days ys yf epoch n)"
proof -
  let ?dt = "civil_date era_years era_days ys yf epoch n"
  have v: "valid_date_in (leap_in era_years len) ?dt" by (rule valid_date)
  have "civil_days era_years era_days ys epoch (next_date_in (leap_in era_years len) ?dt) = n + 1"
    using days_of_next [OF v] by (simp add: days_of_date)
  moreover have "valid_date_in (leap_in era_years len) (next_date_in (leap_in era_years len) ?dt)"
    using v by (cases ?dt) (auto simp: month_days_mono)
  ultimately show ?thesis using date_of_days by metis
qed

lemma date_less_step:
  "n < n' \<Longrightarrow> ymd_less (civil_date era_years era_days ys yf epoch n) (civil_date era_years era_days ys yf epoch n')"
proof (induction n' rule: int_gr_induct)
  case base
  then show ?case using ymd_less_next [OF valid_date [of n]] by (simp add: date_of_next)
next
  case (step k)
  then show ?case using ymd_less_next [OF valid_date [of k]] ymd_less_trans by (simp add: date_of_next)
qed

lemma date_less_iff:
  "ymd_less (civil_date era_years era_days ys yf epoch n) (civil_date era_years era_days ys yf epoch n') \<longleftrightarrow> n < n'"
  using date_less_step [of n n'] date_less_step [of n' n] ymd_less_irrefl ymd_less_trans
  by (metis linorder_neqE_linordered_idom)

end

end
