(* ===== verification/DateTimeUtils.thy ===== *)
theory DateTimeUtils
  imports Calendar
begin

text \<open>
  The date arithmetic of \<^verbatim>\<open>datetime_utils.cuh\<close> on the proleptic Gregorian calendar, with the
  32-bit and 64-bit arithmetic of the code written out: conversion between dates and days since
  the epoch, validity checks, weekdays, the year of a timestamp and the overflow check. The
  Gregorian calendar is an instance of the locale \<open>civil\<close>, and the conversions are shown to be its
  conversions.
\<close>

section \<open>Dates\<close>

definition is_leap_year :: "int \<Rightarrow> bool" where
  "is_leap_year year \<longleftrightarrow> (year smod 4 = 0 \<and> year smod 100 \<noteq> 0) \<or> year smod 400 = 0"

definition days_in_month :: "int \<Rightarrow> int \<Rightarrow> int" where
  "days_in_month year month =
     (if month = 2 then if is_leap_year year then 29 else 28
      else if month = 4 \<or> month = 6 \<or> month = 9 \<or> month = 11 then 30 else 31)"

definition to_epoch_day :: "int \<Rightarrow> int \<Rightarrow> int \<Rightarrow> int" where
  "to_epoch_day year month day =
     (let y = s32 (year - (if month \<le> 2 then 1 else 0));
          era = (if 0 \<le> y then y else s32 (y - 399)) sdiv 400;
          yoe = u32 (y - s32 (era * 400));
          doy = u32 (s32 (s32 (s32 (153 * s32 (if month > 2 then month - 3 else month + 9)) + 2) sdiv 5 + day - 1));
          doe = u32 (yoe * 365 + yoe div 4 - yoe div 100 + doy)
      in s64 (era * 146097 + doe - 719468))"

definition to_date :: "int \<Rightarrow> int \<times> int \<times> int" where
  "to_date epoch_day =
     (let z = epoch_day + 719468;
          era = s32 ((if 0 \<le> z then z else z - 146096) sdiv 146097);
          doe = u32 (z - s32 (era * 146097));
          yoe = u32 (doe - doe div 1460 + doe div 36524 - doe div 146096) div 365;
          y = s32 (u32 (yoe + era * 400));
          doy = u32 (doe - u32 (365 * yoe + yoe div 4 - yoe div 100));
          mp = u32 (5 * doy + 2) div 153;
          day = s32 (u32 (doy - u32 (153 * mp + 2) div 5 + 1));
          month = s32 (if mp < 10 then mp + 3 else mp - 9)
      in (s32 (y + (if month \<le> 2 then 1 else 0)), month, day))"

definition is_valid_month_day :: "int \<Rightarrow> int \<Rightarrow> int \<Rightarrow> bool" where
  "is_valid_month_day year month day =
     (if month < 1 \<or> month > 12 \<or> day < 1 then False else day \<le> days_in_month year month)"

definition is_valid_date_for_date :: "int \<Rightarrow> int \<Rightarrow> int \<Rightarrow> bool" where
  "is_valid_date_for_date year month day =
     (if year < - 10000000 \<or> year > 10000000 then False else is_valid_month_day year month day)"

definition is_valid_date_for_timestamp :: "int \<Rightarrow> int \<Rightarrow> int \<Rightarrow> bool" where
  "is_valid_date_for_timestamp year month day =
     (if year < - 300000 \<or> year > 300000 then False else is_valid_month_day year month day)"

definition is_valid_time :: "int \<Rightarrow> int \<Rightarrow> int \<Rightarrow> int \<Rightarrow> bool" where
  "is_valid_time hour minute second microseconds \<longleftrightarrow>
     (hour \<ge> 0 \<and> hour < 24) \<and> (minute \<ge> 0 \<and> minute < 60) \<and>
     (second \<ge> 0 \<and> second < 60) \<and> (microseconds \<ge> 0 \<and> microseconds < 1000000)"

section \<open>Weekdays\<close>

definition weekday_from_days :: "int \<Rightarrow> int" where
  "weekday_from_days epoch_days =
     (let min_monday_days = - (2 ^ 31) - 8 in s64 (epoch_days - min_monday_days) smod 7)"

definition weekday_difference :: "int \<Rightarrow> int \<Rightarrow> int" where
  "weekday_difference epoch_days expected_weekday =
     (let curr_weekday = weekday_from_days epoch_days;
          index = s64 (curr_weekday + (6 - expected_weekday)) smod 7
      in 6 - index)"

definition previous_weekday_difference :: "int \<Rightarrow> int \<Rightarrow> int" where
  "previous_weekday_difference epoch_days expected_weekday =
     (let curr_weekday = weekday_from_days epoch_days
      in s64 (curr_weekday + (7 - expected_weekday)) smod 7)"

definition next_or_same_weekday :: "int \<Rightarrow> int \<Rightarrow> int" where
  "next_or_same_weekday epoch_days expected_weekday =
     s64 (epoch_days + weekday_difference epoch_days expected_weekday)"

definition previous_or_same_weekday :: "int \<Rightarrow> int \<Rightarrow> int" where
  "previous_or_same_weekday epoch_days expected_weekday =
     s64 (epoch_days - previous_weekday_difference epoch_days expected_weekday)"

section \<open>Timestamps\<close>

text \<open>\<^verbatim>\<open>integer_utils::floor_div\<close> on 64-bit operands; the sign bit of \<open>x ^ y\<close> is set when the signs differ.\<close>

definition floor_div :: "int \<Rightarrow> int \<Rightarrow> int" where
  "floor_div x y =
     (let quotient = s64 (x sdiv y);
          nonzero_remainder = (x smod y \<noteq> 0);
          mixed_sign = ((x < 0) \<noteq> (y < 0))
      in s64 (quotient - (if mixed_sign \<and> nonzero_remainder then 1 else 0)))"

definition get_year :: "int \<Rightarrow> int" where
  "get_year seconds = fst (to_date (s32 (floor_div seconds 86400)))"

record date_segments =
  seg_year :: int
  seg_month :: int
  seg_day :: int

definition default_date :: date_segments where
  "default_date = \<lparr>seg_year = 1970, seg_month = 1, seg_day = 1\<rparr>"

definition is_valid_date :: "date_segments \<Rightarrow> bool" where
  "is_valid_date ds = is_valid_date_for_date (seg_year ds) (seg_month ds) (seg_day ds)"

definition segments_to_epoch_day :: "date_segments \<Rightarrow> int" where
  "segments_to_epoch_day ds = to_epoch_day (seg_year ds) (seg_month ds) (seg_day ds)"

text \<open>The flag and the result; the result wraps around when the flag is set.\<close>

definition get_timestamp_overflow :: "int \<Rightarrow> int \<Rightarrow> bool \<times> int" where
  "get_timestamp_overflow seconds microseconds =
     (let micros_per_sec = 1000000; max_v = 2 ^ 63 - 1; min_v = - (2 ^ 63);
          max_positive_seconds = max_v sdiv micros_per_sec;
          min_negative_seconds = min_v sdiv micros_per_sec - 1;
          result = s64 (s64 (seconds * micros_per_sec) + microseconds)
      in (if seconds > max_positive_seconds \<or> seconds < min_negative_seconds then True
          else if seconds > 0 then microseconds > max_v - seconds * micros_per_sec
          else if seconds = min_negative_seconds then microseconds \<ge> 224192
          else False, result))"

section \<open>The Gregorian calendar\<close>

text \<open>The year of the era starts in March; the leap day is the last day of its year.\<close>

definition greg_start :: "int \<Rightarrow> int" where
  "greg_start n = 365 * n + n div 4 - n div 100"

definition greg_len :: "int \<Rightarrow> int" where
  "greg_len n = (if (n + 1) mod 4 = 0 \<and> (n + 1) mod 100 \<noteq> 0 \<or> n = 399 then 366 else 365)"

definition greg_shifted :: "int \<Rightarrow> int" where
  "greg_shifted doe = doe - doe div 1460 + doe div 36524 - doe div 146096"

definition greg_year :: "int \<Rightarrow> int" where
  "greg_year doe = greg_shifted doe div 365"

abbreviation greg_days :: "date \<Rightarrow> int" where
  "greg_days \<equiv> civil_days 400 146097 greg_start 719468"

abbreviation greg_date :: "int \<Rightarrow> date" where
  "greg_date \<equiv> civil_date 400 146097 greg_start greg_year 719468"

lemma greg_table:
  "list_all (\<lambda>n. greg_year (greg_start n) = n \<and> greg_year (greg_start n + greg_len n - 1) = n \<and>
     0 \<le> greg_start n \<and> greg_start n + greg_len n \<le> 146097 \<and>
     (n < 399 \<longrightarrow> greg_start (n + 1) = greg_start n + greg_len n)) [0..399]"
  by code_simp

lemma greg_facts:
  assumes "0 \<le> n" "n < 400"
  shows "greg_year (greg_start n) = n" "greg_year (greg_start n + greg_len n - 1) = n"
    and "0 \<le> greg_start n" "greg_start n + greg_len n \<le> 146097"
    and "n < 399 \<Longrightarrow> greg_start (n + 1) = greg_start n + greg_len n"
proof -
  have "n \<in> set [0..399]" using assms by simp
  then show "greg_year (greg_start n) = n" "greg_year (greg_start n + greg_len n - 1) = n"
    and "0 \<le> greg_start n" "greg_start n + greg_len n \<le> 146097"
    and "n < 399 \<Longrightarrow> greg_start (n + 1) = greg_start n + greg_len n"
    using greg_table unfolding list_all_iff by blast+
qed

lemma greg_shifted_step: "0 \<le> d \<Longrightarrow> greg_shifted d \<le> greg_shifted (d + 1)"
proof -
  have "(d + 1) div 1460 \<le> d div 1460 + 1" by linarith
  moreover have "d div 36524 \<le> (d + 1) div 36524" by linarith
  moreover have "(d + 1) div 146096 - d div 146096 \<le> (d + 1) div 36524 - d div 36524"
  proof -
    have x: "d div 146096 = d div 36524 div 4" "(d + 1) div 146096 = (d + 1) div 36524 div 4"
      by (simp_all flip: zdiv_zmult2_eq)
    have "(d + 1) div 36524 = d div 36524 \<or> (d + 1) div 36524 = d div 36524 + 1" by linarith
    then show ?thesis unfolding x by linarith
  qed
  ultimately show ?thesis unfolding greg_shifted_def by linarith
qed

lemma greg_year_mono:
  assumes "0 \<le> a" "a \<le> b"
  shows "greg_year a \<le> greg_year b"
  using assms(2)
proof (induction b rule: int_ge_induct)
  case (step b)
  then have "greg_shifted b \<le> greg_shifted (b + 1)" using assms(1) by (intro greg_shifted_step) simp
  then have "greg_year b \<le> greg_year (b + 1)" unfolding greg_year_def by (intro zdiv_mono1) simp_all
  then show ?case using step by simp
qed simp

lemma greg_year_range:
  assumes "0 \<le> d" "d < 146097"
  shows "0 \<le> greg_year d" "greg_year d < 400"
proof -
  have "greg_year 0 = 0" "greg_year 146096 = 399" by (simp_all add: greg_year_def greg_shifted_def)
  then show "0 \<le> greg_year d" "greg_year d < 400"
    using greg_year_mono [of 0 d] greg_year_mono [of d 146096] assms by simp_all
qed

lemma greg_len_cases: "greg_len n = 365 \<or> greg_len n = 366"
  by (simp add: greg_len_def)

interpretation greg: civil 400 146097 719468 greg_start greg_len greg_year
proof (unfold_locales, goal_cases)
  case (3 n)
  then show ?case by (rule greg_len_cases)
next
  case (9 d)
  note r = greg_year_range [OF 9]
  note f = greg_facts [OF r]
  have "greg_start (greg_year d) \<le> d"
  proof (rule ccontr)
    assume less: "\<not> greg_start (greg_year d) \<le> d"
    have pos: "0 < greg_year d"
    proof (rule ccontr)
      assume "\<not> 0 < greg_year d"
      then have "greg_year d = 0" using r by simp
      then show False using less 9 by (simp add: greg_start_def)
    qed
    define k where "k = greg_year d - 1"
    have k: "0 \<le> k" "k < 400" "k < 399" "greg_year d = k + 1" using pos r by (simp_all add: k_def)
    have "d \<le> greg_start k + greg_len k - 1" using less greg_facts(5) [OF k(1-3)] k(4) by simp
    then show False using greg_year_mono [OF 9(1)] greg_facts(2) [OF k(1,2)] k(4) by fastforce
  qed
  moreover have "d < greg_start (greg_year d) + greg_len (greg_year d)"
  proof (rule ccontr)
    assume more: "\<not> d < greg_start (greg_year d) + greg_len (greg_year d)"
    have k: "greg_year d < 399"
    proof (rule ccontr)
      assume "\<not> greg_year d < 399"
      then have "greg_year d = 399" using r by simp
      then show False using more 9 by (simp add: greg_start_def greg_len_def)
    qed
    then have "greg_start (greg_year d + 1) \<le> d" using f(5) more by simp
    then show False
      using greg_year_mono [of "greg_start (greg_year d + 1)" d] greg_facts(1,3) [of "greg_year d + 1"] r k by simp
  qed
  ultimately show ?case by simp
next
  case (10 n d)
  note f = greg_facts [OF 10(1,2)]
  have "n \<le> greg_year d" using greg_year_mono [OF f(3) 10(3)] f(1) by simp
  moreover have "greg_year d \<le> n"
    using greg_year_mono [of d "greg_start n + greg_len n - 1"] 10 f(2,3) by simp
  ultimately show ?case by simp
qed (use greg_facts greg_year_range in \<open>simp_all add: greg_start_def greg_len_def\<close>)

section \<open>The code's conversions\<close>

lemma smod_zero: "0 < k \<Longrightarrow> x smod k = 0 \<longleftrightarrow> x mod (k :: int) = 0"
  by (simp add: smod_pos mod_eq_0_iff_dvd)

lemma pred_mod: "(y - 1) mod 400 = 399 \<longleftrightarrow> y mod 400 = (0 :: int)"
proof
  assume "(y - 1) mod 400 = 399"
  then have "((y - 1) mod 400 + 1) mod 400 = 0" by simp
  then show "y mod 400 = 0" unfolding mod_add_left_eq by simp
next
  assume "y mod 400 = 0"
  then have "(y mod 400 - 1) mod 400 = 399" by simp
  then show "(y - 1) mod 400 = 399" unfolding mod_diff_left_eq .
qed

lemma leap_greg: "leap_in 400 greg_len y \<longleftrightarrow> is_leap_year y"
proof -
  define n where "n = (y - 1) mod 400"
  have m: "(n + 1) mod 4 = y mod 4" "(n + 1) mod 100 = y mod 100"
  proof -
    have "(n + 1) mod k = y mod k" if "k dvd 400" for k :: int
    proof -
      have "(n + 1) mod k = ((y - 1) mod 400 mod k + 1) mod k" by (simp add: n_def mod_add_left_eq)
      also have "\<dots> = ((y - 1) mod k + 1) mod k" using that by (simp add: mod_mod_cancel)
      finally show ?thesis by (simp add: mod_add_left_eq)
    qed
    then show "(n + 1) mod 4 = y mod 4" "(n + 1) mod 100 = y mod 100" by simp_all
  qed
  have "n = 399 \<longleftrightarrow> y mod 400 = 0" unfolding n_def by (rule pred_mod)
  then show ?thesis
    by (simp add: leap_in_def is_leap_year_def smod_zero greg_len_def n_def [symmetric] m)
qed

lemma leap_greg_fun: "leap_in 400 greg_len = is_leap_year"
  by (rule ext) (rule leap_greg)

lemma month_days_greg: "month_days (is_leap_year y) m = days_in_month y m"
  by (simp add: month_days_def days_in_month_def)

lemma valid_greg: "valid_date_in is_leap_year (y, m, d) \<longleftrightarrow> is_valid_month_day y m d"
  by (auto simp: is_valid_month_day_def month_days_greg)

lemma greg_start_bounds: "0 \<le> n \<Longrightarrow> n < 400 \<Longrightarrow> 0 \<le> greg_start n \<and> greg_start n < 146097"
  using greg_facts(3,4) [of n] greg_len_cases [of n] by auto

lemma to_date_greg:
  assumes "- (2 ^ 31) \<le> e" "e < 2 ^ 31"
  shows "to_date e = greg_date e"
proof -
  define z era doe where "z = e + 719468" and "era = z div 146097" and "doe = z mod 146097"
  have doe: "0 \<le> doe" "doe < 146097" by (simp_all add: doe_def)
  have "z = 146097 * era + doe" by (simp add: era_def doe_def)
  then have era: "- 15000 \<le> era" "era \<le> 15000" using assms doe by (simp_all add: z_def)
  have era_c: "s32 ((if 0 \<le> z then z else z - 146096) sdiv 146097) = era"
    using sdiv_floor [of 146097 z] era by (cases "0 \<le> z") (simp_all add: era_def [symmetric] s32_id)
  have doe_c: "u32 (z - s32 (era * 146097)) = doe"
    using doe by (simp add: u32_diff_s32 u32_id era_def doe_def minus_div_mult_eq_mod)
  define yoe where "yoe = greg_year doe"
  have yoe: "0 \<le> yoe" "yoe < 400" using greg_year_range [OF doe] by (simp_all add: yoe_def)
  have "0 \<le> greg_shifted doe" "greg_shifted doe < 300000"
    using doe unfolding greg_shifted_def by linarith+
  then have yoe_c: "u32 (doe - doe div 1460 + doe div 36524 - doe div 146096) div 365 = yoe"
    by (simp add: u32_id greg_shifted_def [symmetric] yoe_def greg_year_def)
  define doy where "doy = doe - greg_start yoe"
  have "0 \<le> doy" "doy < greg_len yoe" using greg.year_days [OF doe] by (simp_all add: doy_def yoe_def)
  then have doy: "0 \<le> doy" "doy \<le> 365" using greg.len_le by auto
  have doy_c: "u32 (doe - u32 (365 * yoe + yoe div 4 - yoe div 100)) = doy"
    using greg_start_bounds [OF yoe] doy by (simp add: u32_id greg_start_def [symmetric] doy_def)
  define mp where "mp = month_of_day doy"
  have mp: "0 \<le> mp" "mp \<le> 11" "month_start mp \<le> doy" using day_facts [OF doy] by (simp_all add: mp_def)
  have mp_c: "u32 (5 * doy + 2) div 153 = mp" using doy by (simp add: u32_id mp_def month_of_day_def)
  have day_c: "s32 (u32 (doy - u32 (153 * mp + 2) div 5 + 1)) = doy - month_start mp + 1"
    using mp doy by (simp add: u32_id s32_id month_start_def)
  have month_c: "s32 (if mp < 10 then mp + 3 else mp - 9) = of_mp mp" using mp by (simp add: s32_id of_mp_def)
  have y_c: "s32 (u32 (yoe + era * 400)) = yoe + era * 400" using yoe era by (simp add: s32_u32 s32_id)
  have year_c: "s32 (yoe + era * 400 + k) = yoe + era * 400 + k" if "k \<in> {0, 1}" for k
    using that yoe era by (auto simp: s32_id)
  show ?thesis
    unfolding to_date_def civil_date_def Let_def z_def [symmetric] era_c doe_c yoe_c doy_c mp_c day_c month_c y_c
    by (simp add: year_c era_def [symmetric] doe_def [symmetric] yoe_def [symmetric] doy_def [symmetric]
        mp_def [symmetric])
qed

lemma to_epoch_day_greg:
  assumes "- (2 ^ 31) + 400 \<le> y" "y < 2 ^ 31" "1 \<le> m" "m \<le> 12" "1 \<le> d" "d \<le> 31"
  shows "to_epoch_day y m d = greg_days (y, m, d)"
proof -
  define z era yoe where "z = y - (if m \<le> 2 then 1 else 0)" and "era = z div 400" and "yoe = z mod 400"
  have z: "- (2 ^ 31) + 399 \<le> z" "z < 2 ^ 31" using assms(1,2) by (simp_all add: z_def)
  have zz: "z = 400 * era + yoe" and yoe: "0 \<le> yoe" "yoe < 400" by (simp_all add: era_def yoe_def)
  have z_c: "s32 (y - (if m \<le> 2 then 1 else 0)) = z" using z by (simp add: z_def [symmetric] s32_id)
  have "s32 (z - 399) = z - 399" using z by (simp add: s32_id)
  then have era_c: "(if 0 \<le> z then z else s32 (z - 399)) sdiv 400 = era"
    using sdiv_floor [of 400 z] by (cases "0 \<le> z") (simp_all add: era_def)
  have yoe_c: "u32 (z - s32 (era * 400)) = yoe" using zz yoe by (simp add: u32_diff_s32 u32_id)
  define mp where "mp = to_mp m"
  have mp: "0 \<le> mp" "mp \<le> 11" using to_mp_facts [OF assms(3,4)] by (simp_all add: mp_def)
  have mp_c: "s32 (if m > 2 then m - 3 else m + 9) = mp" using assms(3,4) by (simp add: s32_id mp_def to_mp_def)
  have "s32 (153 * mp) = 153 * mp" "s32 (153 * mp + 2) = 153 * mp + 2" using mp by (simp_all add: s32_id)
  then have ms: "s32 (s32 (153 * mp) + 2) sdiv 5 = month_start mp" using mp by (simp add: month_start_def sdiv_pos)
  have msb: "0 \<le> month_start mp" "month_start mp \<le> 337" using mp by (simp_all add: month_start_def)
  have doy_c: "u32 (s32 (month_start mp + d - 1)) = month_start mp + d - 1"
    using msb assms(5,6) by (simp add: s32_id u32_id)
  have doe_c: "u32 (yoe * 365 + yoe div 4 - yoe div 100 + (month_start mp + d - 1)) =
      greg_start yoe + (month_start mp + d - 1)"
    using greg_start_bounds [OF yoe] msb assms(5,6) by (simp add: u32_id greg_start_def mult.commute)
  have "- 5400000 \<le> era" "era \<le> 5400000" using z zz yoe by simp_all
  then have s: "s64 (era * 146097 + (greg_start yoe + (month_start mp + d - 1)) - 719468) =
      era * 146097 + (greg_start yoe + (month_start mp + d - 1)) - 719468"
    using greg_start_bounds [OF yoe] msb assms(5,6) by (intro s64_id) simp_all
  show ?thesis
    unfolding to_epoch_day_def Let_def z_c era_c yoe_c mp_c ms doy_c doe_c s
    by (simp add: Let_def z_def [symmetric] era_def yoe_def mp_def)
qed

section \<open>Properties of dates\<close>

lemma greg_days_bounds:
  assumes "is_valid_month_day y m d"
  shows "greg_date (greg_days (y, m, d)) = (y, m, d)"
  using greg.date_of_days [of "(y, m, d)"] assms by (simp only: leap_greg_fun valid_greg)

text \<open>
  The year of a day, roughly: enough to bound the years of the 32-bit days.
\<close>

lemma greg_year_bound:
  assumes "- (2 ^ 31) \<le> e" "e < 2 ^ 31" "greg_date e = (y, m, d)"
  shows "- 6000000 \<le> y" "y \<le> 6000000" "is_valid_month_day y m d"
proof -
  define z where "z = e + 719468"
  have y: "y = greg_year (z mod 146097) + z div 146097 * 400 + (if m \<le> 2 then 1 else 0)"
    using assms(3) by (auto simp: civil_date_def Let_def z_def)
  have "0 \<le> greg_year (z mod 146097)" "greg_year (z mod 146097) < 400"
    by (rule greg_year_range; simp)+
  moreover have "- 14710 \<le> z div 146097" "z div 146097 \<le> 14710" using assms(1,2) by (simp_all add: z_def)
  ultimately show "- 6000000 \<le> y" "y \<le> 6000000" unfolding y by auto
  show "is_valid_month_day y m d"
    using greg.valid_date [of e] by (simp only: leap_greg_fun assms(3) valid_greg)
qed

lemma valid_day_range: "is_valid_month_day y m d \<Longrightarrow> 1 \<le> m \<and> m \<le> 12 \<and> 1 \<le> d \<and> d \<le> 31"
  by (auto simp: is_valid_month_day_def days_in_month_def split: if_splits)

lemma epoch_day_of_date:
  assumes "- (2 ^ 31) \<le> e" "e < 2 ^ 31" "to_date e = (y, m, d)"
  shows "is_valid_month_day y m d \<and> to_epoch_day y m d = e"
proof -
  have g: "greg_date e = (y, m, d)" using assms(3) to_date_greg [OF assms(1,2)] by simp
  note b = greg_year_bound [OF assms(1,2) g]
  have "to_epoch_day y m d = greg_days (y, m, d)"
    using b(1,2) valid_day_range [OF b(3)] by (intro to_epoch_day_greg) simp_all
  then show ?thesis using greg.days_of_date [of e] g b(3) by simp
qed

text \<open>
  C34: For every 32-bit day \<^verbatim>\<open>to_date\<close> yields a valid date, and \<^verbatim>\<open>to_epoch_day\<close> of that date is the
  day again.
\<close>
theorem day_date_day:
  assumes "- (2 ^ 31) \<le> e" "e < 2 ^ 31"
  shows "case to_date e of (y, m, d) \<Rightarrow> is_valid_month_day y m d \<and> to_epoch_day y m d = e"
  using epoch_day_of_date [OF assms] by (cases "to_date e") simp

theorem day_date_day_witness:
  "case to_date (- 2147483648) of (y, m, d) \<Rightarrow> is_valid_month_day y m d \<and> to_epoch_day y m d = - 2147483648"
  using day_date_day [of "- 2147483648"] by simp

text \<open>
  For every valid date whose day fits in 32 bits, \<^verbatim>\<open>to_date\<close> of its \<^verbatim>\<open>to_epoch_day\<close> is the date
  again; so two valid dates never share a day.
\<close>
theorem date_day_date:
  assumes "is_valid_month_day y m d" "- (2 ^ 31) + 400 \<le> y" "y < 2 ^ 31"
    and "- (2 ^ 31) \<le> to_epoch_day y m d" "to_epoch_day y m d < 2 ^ 31"
  shows "to_date (to_epoch_day y m d) = (y, m, d)"
proof -
  have "to_epoch_day y m d = greg_days (y, m, d)"
    using assms(2,3) valid_day_range [OF assms(1)] by (intro to_epoch_day_greg) simp_all
  then show ?thesis using to_date_greg [OF assms(4,5)] greg_days_bounds [OF assms(1)] by simp
qed

theorem date_day_date_witness: "to_date (to_epoch_day 2024 2 29) = (2024, 2, 29)"
proof (rule date_day_date)
  show "is_valid_month_day 2024 2 29" by code_simp
  show "- (2 ^ 31) \<le> to_epoch_day 2024 2 29" "to_epoch_day 2024 2 29 < 2 ^ 31" by code_simp+
qed simp_all

text \<open>
  C35: Day 0 is 1970-01-01, and the date of the next day is the next date of the calendar: the next
  day of the month, or the first of the next month, or the first of January of the next year.
\<close>
theorem to_date_next_day:
  assumes "- (2 ^ 31) \<le> e" "e + 1 < 2 ^ 31"
  shows "to_date 0 = (1970, 1, 1) \<and>
         (case to_date e of (y, m, d) \<Rightarrow> to_date (e + 1) =
            (if d < days_in_month y m then (y, m, d + 1)
             else if m < 12 then (y, m + 1, 1) else (y + 1, 1, 1)))"
proof
  show "to_date 0 = (1970, 1, 1)" by code_simp
  have "to_date e = greg_date e" "to_date (e + 1) = greg_date (e + 1)"
    using assms by (simp_all add: to_date_greg)
  moreover have "greg_date (e + 1) = next_date_in is_leap_year (greg_date e)"
    using greg.date_of_next [of e] by (simp only: leap_greg_fun)
  ultimately show "case to_date e of (y, m, d) \<Rightarrow> to_date (e + 1) =
            (if d < days_in_month y m then (y, m, d + 1)
             else if m < 12 then (y, m + 1, 1) else (y + 1, 1, 1))"
    by (cases "greg_date e") (simp add: month_days_greg)
qed

theorem to_date_next_day_witness: "to_date 365 = (1971, 1, 1)"
proof -
  have "to_date 364 = (1970, 12, 31)" "days_in_month 1970 12 = 31" by code_simp+
  then show ?thesis using to_date_next_day [of 364] by simp
qed

section \<open>Weekdays and timestamps\<close>

lemma smod_nonneg: "0 \<le> x \<Longrightarrow> 0 < k \<Longrightarrow> x smod k = x mod (k :: int)"
  by (simp add: smod_pos)

lemma weekday_mod:
  assumes "- (2 ^ 31) \<le> e" "e < 2 ^ 31"
  shows "weekday_from_days e = (e + 3) mod 7"
proof -
  have "weekday_from_days e = (e + 2147483656) mod 7"
    using assms by (simp add: weekday_from_days_def Let_def s64_id smod_nonneg)
  also have "e + 2147483656 = (e + 3) + 306783379 * 7" by simp
  also have "\<dots> mod 7 = (e + 3) mod 7" by (rule mod_mult_self1)
  finally show ?thesis .
qed

text \<open>
  The weekday of a day, counted from Monday, is that of 1970-01-01, a Thursday, moved on by the
  number of days; the next and the previous weekday searches return the nearest day, within a week,
  that has the expected weekday.
\<close>
theorem weekday_search:
  assumes "- (2 ^ 31) \<le> e" "e < 2 ^ 31" "0 \<le> w" "w \<le> 6"
  shows "weekday_from_days e = (3 + e) mod 7 \<and>
         e \<le> next_or_same_weekday e w \<and> next_or_same_weekday e w \<le> e + 6 \<and>
         (3 + next_or_same_weekday e w) mod 7 = w \<and>
         previous_or_same_weekday e w \<le> e \<and> e - 6 \<le> previous_or_same_weekday e w \<and>
         (3 + previous_or_same_weekday e w) mod 7 = w"
proof -
  define c where "c = (e + 3) mod 7"
  have c: "0 \<le> c" "c < 7" by (simp_all add: c_def)
  have wc: "weekday_from_days e = c" using weekday_mod [OF assms(1,2)] by (simp add: c_def)
  define i j where "i = (c + 6 - w) mod 7" and "j = (c + 7 - w) mod 7"
  have i: "0 \<le> i" "i < 7" and j: "0 \<le> j" "j < 7" by (simp_all add: i_def j_def)
  have n: "next_or_same_weekday e w = e + 6 - i"
    using assms c i by (simp add: next_or_same_weekday_def weekday_difference_def wc Let_def s64_id smod_nonneg i_def add_diff_eq)
  have p: "previous_or_same_weekday e w = e - j"
    using assms c j by (simp add: previous_or_same_weekday_def previous_weekday_difference_def wc Let_def s64_id smod_nonneg j_def add_diff_eq)
  have "(3 + (e + 6 - i)) mod 7 = ((e + 3) + (6 - i)) mod 7" by (simp add: algebra_simps)
  also have "\<dots> = ((e + 3) mod 7 + (6 - i)) mod 7" by (rule mod_add_left_eq [symmetric])
  also have "\<dots> = (c + 6 - i) mod 7" by (simp add: c_def add_diff_eq)
  also have "\<dots> = (c + 6 - (c + 6 - w)) mod 7" unfolding c_def [symmetric] i_def by (rule mod_diff_right_eq)
  finally have nxt: "(3 + (e + 6 - i)) mod 7 = w" using assms(3,4) by simp
  have "(3 + (e - j)) mod 7 = ((e + 3) - j) mod 7" by (simp add: algebra_simps)
  also have "\<dots> = ((e + 3) mod 7 - j) mod 7" by (rule mod_diff_left_eq [symmetric])
  also have "\<dots> = (c - (c + 7 - w)) mod 7" unfolding c_def [symmetric] j_def by (rule mod_diff_right_eq)
  also have "\<dots> = (w + (- 1) * 7) mod 7" by simp
  also have "\<dots> = w mod 7" by (rule mod_mult_self1)
  finally have prev: "(3 + (e - j)) mod 7 = w" using assms(3,4) by simp
  show ?thesis using i j nxt prev by (simp add: wc n p c_def add.commute)
qed

theorem weekday_search_witness: "(3 + next_or_same_weekday 20371 6) mod 7 = 6 \<and> next_or_same_weekday 20371 6 \<le> 20377"
  using weekday_search [of 20371 6] by simp

lemma floor_div_floor:
  assumes "- (2 ^ 63) \<le> x" "x < 2 ^ 63" "1 < y"
  shows "floor_div x y = x div y"
proof (cases "0 \<le> x")
  case True
  then have "0 \<le> x div y" "x div y \<le> x" using assms(3) int_div_less_self [of x y]
    by (cases "x = 0"; simp add: pos_imp_zdiv_nonneg_iff)+
  then show ?thesis using True assms by (simp add: floor_div_def sdiv_pos s64_id)
next
  case False
  define q r where "q = (- x) div y" and "r = (- x) mod y"
  have x: "- x = y * q + r" "0 \<le> r" "r < y" using assms(3) by (simp_all add: q_def r_def)
  have "0 \<le> q" using False assms(3) by (simp add: q_def pos_imp_zdiv_nonneg_iff)
  moreover from this have "2 * q \<le> y * q" using assms(3) by (intro mult_right_mono) simp_all
  ultimately have q: "0 \<le> q" "q < 2 ^ 62 + 1" using x assms(1) by simp_all
  have "x div y = - q - (if r = 0 then 0 else 1)"
  proof (cases "r = 0")
    case True
    then have "x = (- q) * y" using x(1) by (simp add: mult.commute)
    moreover have "y \<noteq> 0" using assms(3) by simp
    ultimately have "x div y = - q" using nonzero_mult_div_cancel_right [of y "- q"] by blast
    then show ?thesis using True by simp
  next
    case False
    have "x = y * (- q - 1) + (y - r)" using x(1) by (simp add: algebra_simps)
    then show ?thesis using False x(2,3) assms(3) int_div_pos_eq [of x y "- q - 1" "y - r"] by simp
  qed
  moreover have "floor_div x y = - q - (if r = 0 then 0 else 1)"
    using False assms(3) q by (auto simp: floor_div_def Let_def sdiv_pos smod_pos q_def [symmetric] r_def [symmetric] s64_id)
  ultimately show ?thesis by simp
qed

text \<open>
  The year of a timestamp in seconds is the year of its day, for timestamps whose day fits in
  32 bits.
\<close>
lemma get_year_correct:
  assumes "- (2 ^ 31) \<le> seconds div 86400" "seconds div 86400 < 2 ^ 31"
  shows "get_year seconds = fst (to_date (seconds div 86400))"
proof -
  have "86400 * - (2 ^ 31) \<le> seconds" "seconds < 86400 * 2 ^ 31" using assms by linarith+
  then have "floor_div seconds 86400 = seconds div 86400" by (intro floor_div_floor) simp_all
  then show ?thesis using assms by (simp add: get_year_def s32_id)
qed

text \<open>
  The overflow check of a timestamp is exact for every second but the lowest possible one, and
  the result is the exact number of microseconds when the check passes.
\<close>
theorem timestamp_overflow_exact:
  assumes "- (2 ^ 63) \<le> seconds" "seconds < 2 ^ 63" "0 \<le> micros" "micros \<le> 999999" "seconds \<noteq> - 9223372036855"
  defines "t \<equiv> seconds * 1000000 + micros"
  shows "(fst (get_timestamp_overflow seconds micros) \<longleftrightarrow> \<not> (- (2 ^ 63) \<le> t \<and> t < 2 ^ 63)) \<and>
         (\<not> fst (get_timestamp_overflow seconds micros) \<longrightarrow> snd (get_timestamp_overflow seconds micros) = t)"
proof -
  have flag: "fst (get_timestamp_overflow seconds micros) \<longleftrightarrow> \<not> (- (2 ^ 63) \<le> t \<and> t < 2 ^ 63)"
    using assms by (auto simp: get_timestamp_overflow_def Let_def signed_divide_int_def t_def)
  have "snd (get_timestamp_overflow seconds micros) = t" if "- (2 ^ 63) \<le> t" "t < 2 ^ 63"
  proof -
    have "snd (get_timestamp_overflow seconds micros) = s64 t"
      by (simp add: get_timestamp_overflow_def Let_def s64_def t_def mod_simps algebra_simps)
    then show ?thesis using that by (simp add: s64_id)
  qed
  then show ?thesis using flag by blast
qed

theorem timestamp_overflow_exact_witness:
  "fst (get_timestamp_overflow 9223372036854 775808) \<and> get_timestamp_overflow 9223372036854 775807 = (False, 9223372036854775807)"
  using timestamp_overflow_exact [of 9223372036854 775808] timestamp_overflow_exact [of 9223372036854 775807]
  by (auto simp: prod_eq_iff)

text \<open>
  At the lowest second the check is inverted: it reports overflow exactly for the microseconds
  whose timestamp fits, and accepts, with a wrapped result, those whose timestamp does not.
\<close>
theorem timestamp_overflow_inverted:
  assumes "0 \<le> micros" "micros \<le> 999999"
  shows "fst (get_timestamp_overflow (- 9223372036855) micros) \<longleftrightarrow> - (2 ^ 63) \<le> - 9223372036855 * 1000000 + micros"
  using assms by (auto simp: get_timestamp_overflow_def Let_def signed_divide_int_def)

theorem timestamp_overflow_inverted_witness:
  "\<not> fst (get_timestamp_overflow (- 9223372036855) 0) \<and> fst (get_timestamp_overflow (- 9223372036855) 224192)"
  using timestamp_overflow_inverted [of 0] timestamp_overflow_inverted [of 224192] by simp

end
