(* ===== verification/Rebase.thy ===== *)
theory Rebase
  imports DateTimeUtils
begin

text \<open>
  Rebasing dates and timestamps between the proleptic Gregorian calendar and the hybrid calendar
  that is Julian before 1582-10-15 (\<^verbatim>\<open>datetime_rebase.cu\<close>). The Julian calendar is the second
  instance of the locale \<open>civil\<close>. Of \<^verbatim>\<open>cuda::std::chrono\<close> the code uses the conversion between days and
  \<^verbatim>\<open>year_month_day\<close>, whose year is a 16-bit integer, and the order of dates.
\<close>

section \<open>Calendar conversions\<close>

definition chrono_ymd :: "int \<Rightarrow> date" where
  "chrono_ymd days = (case greg_date days of (y, m, d) \<Rightarrow> (s16 y, m, d))"

definition chrono_days :: "date \<Rightarrow> int" where
  "chrono_days ymd = s32 (greg_days ymd)"

fun days_from_julian :: "date \<Rightarrow> int" where
  "days_from_julian (ymd_year, month, day) =
     (let year = s32 (ymd_year - (if month \<le> 2 then 1 else 0));
          era = (if 0 \<le> year then year else s32 (year - 3)) sdiv 4;
          year_of_era = u32 (year - s32 (era * 4));
          day_of_year = u32 (u32 (153 * u32 (month + (if month > 2 then - 3 else 9)) + 2) div 5 + day - 1);
          day_of_era = u32 (year_of_era * 365 + day_of_year)
      in s32 (era * 1461 + s32 day_of_era - 719470))"

definition julian_from_days :: "int \<Rightarrow> date" where
  "julian_from_days days =
     (let z = s32 (days + 719470);
          era = (if 0 \<le> z then z else s32 (z - 1460)) sdiv 1461;
          day_of_era = u32 (z - s32 (era * 1461));
          year_of_era = u32 (day_of_era - day_of_era div 1460) div 365;
          year = s32 (year_of_era + s32 (era * 4));
          day_of_year = u32 (day_of_era - u32 (365 * year_of_era));
          mp = u32 (5 * day_of_year + 2) div 153;
          month = u32 (mp + (if mp < 10 then 3 else - 9));
          day_of_month = u32 (day_of_year - u32 (153 * mp + 2) div 5 + 1)
      in (s16 (year + (if month \<le> 2 then 1 else 0)), month, day_of_month))"

section \<open>Days\<close>

definition julian_end :: date where
  "julian_end = (1582, 10, 4)"

definition gregorian_start :: date where
  "gregorian_start = (1582, 10, 15)"

definition gregorian_to_julian_day :: "int \<Rightarrow> int" where
  "gregorian_to_julian_day days_ts =
     (let ymd = chrono_ymd days_ts
      in if ymd_less julian_end ymd \<and> ymd_less ymd gregorian_start then - 141427
         else if \<not> ymd_less ymd gregorian_start then days_ts
         else days_from_julian ymd)"

definition julian_to_gregorian_day :: "int \<Rightarrow> int" where
  "julian_to_gregorian_day days_ts =
     (if days_ts \<ge> - 141427 then days_ts else chrono_days (julian_from_days days_ts))"

section \<open>Microseconds\<close>

record time_components =
  tc_hour :: int
  tc_minute :: int
  tc_second :: int
  tc_subsecond :: int

definition modulo_time :: "int \<Rightarrow> int \<Rightarrow> int" where
  "modulo_time time base = s32 (s64 (time smod base + base) smod base)"

definition scale_time :: "int \<Rightarrow> int \<Rightarrow> int" where
  "scale_time time base = s64 (time - (if time < 0 then base - 1 else 0)) sdiv base"

definition MICROS_PER_SECOND :: int where
  "MICROS_PER_SECOND = 1000000"

definition get_time_components :: "int \<Rightarrow> time_components" where
  "get_time_components micros =
     (let subsecond = modulo_time micros MICROS_PER_SECOND;
          micros' = s64 (micros sdiv MICROS_PER_SECOND - (if micros < 0 \<and> subsecond \<noteq> 0 then 1 else 0))
      in \<lparr>tc_hour = modulo_time (scale_time micros' 3600) 24,
          tc_minute = modulo_time (scale_time micros' 60) 60,
          tc_second = modulo_time micros' 60,
          tc_subsecond = subsecond\<rparr>)"

definition last_switch_gregorian_ts :: int where
  "last_switch_gregorian_ts = - 12219292800000000"

text \<open>\<^verbatim>\<open>floor<days>\<close> of a duration in microseconds, and the microseconds of a day and a time of day.\<close>

definition floor_days :: "int \<Rightarrow> int" where
  "floor_days micros = s32 (micros div 86400000000)"

definition assemble_micros :: "int \<Rightarrow> time_components \<Rightarrow> int" where
  "assemble_micros days timeparts =
     (let result = s64 (days * 24 * 3600 + tc_hour timeparts * 3600 + tc_minute timeparts * 60 + tc_second timeparts)
      in s64 (s64 (result * MICROS_PER_SECOND) + tc_subsecond timeparts))"

definition gregorian_to_julian_micro :: "int \<Rightarrow> int" where
  "gregorian_to_julian_micro micros_ts =
     (if micros_ts \<ge> last_switch_gregorian_ts then micros_ts
      else let ymd = chrono_ymd (floor_days micros_ts);
               timeparts = get_time_components micros_ts;
               julian_days = (if ymd_less julian_end ymd \<and> ymd_less ymd gregorian_start
                              then - 141427 else days_from_julian ymd)
           in assemble_micros julian_days timeparts)"

definition julian_to_gregorian_micro :: "int \<Rightarrow> int" where
  "julian_to_gregorian_micro micros_ts =
     (if micros_ts \<ge> last_switch_gregorian_ts then micros_ts
      else let ymd = julian_from_days (floor_days micros_ts);
               timeparts = get_time_components micros_ts
           in assemble_micros (chrono_days ymd) timeparts)"

section \<open>Columns\<close>

text \<open>The types that the date and time functions tell apart.\<close>

datatype type_id =
    TIMESTAMP_DAYS | TIMESTAMP_SECONDS | TIMESTAMP_MILLISECONDS | TIMESTAMP_MICROSECONDS
  | TIMESTAMP_NANOSECONDS | OTHER_TYPE

text \<open>A column: its type, its values and its null mask, true for a valid row.\<close>

record column =
  col_type :: type_id
  col_data :: "int list"
  col_valid :: "bool list"

datatype rebase_error = Invalid_Argument | Not_A_Timestamp

definition gregorian_to_julian_days :: "column \<Rightarrow> rebase_error + column" where
  "gregorian_to_julian_days input =
     (if col_type input \<noteq> TIMESTAMP_DAYS then Inl Invalid_Argument
      else Inr (input\<lparr>col_data := map gregorian_to_julian_day (col_data input)\<rparr>))"

definition julian_to_gregorian_days :: "column \<Rightarrow> rebase_error + column" where
  "julian_to_gregorian_days input =
     (if col_type input \<noteq> TIMESTAMP_DAYS then Inl Invalid_Argument
      else Inr (input\<lparr>col_data := map julian_to_gregorian_day (col_data input)\<rparr>))"

definition gregorian_to_julian_micros :: "column \<Rightarrow> rebase_error + column" where
  "gregorian_to_julian_micros input =
     (if col_type input \<noteq> TIMESTAMP_MICROSECONDS then Inl Invalid_Argument
      else Inr (input\<lparr>col_data := map gregorian_to_julian_micro (col_data input)\<rparr>))"

definition julian_to_gregorian_micros :: "column \<Rightarrow> rebase_error + column" where
  "julian_to_gregorian_micros input =
     (if col_type input \<noteq> TIMESTAMP_MICROSECONDS then Inl Invalid_Argument
      else Inr (input\<lparr>col_data := map julian_to_gregorian_micro (col_data input)\<rparr>))"

definition make_empty_column :: "type_id \<Rightarrow> column" where
  "make_empty_column t = \<lparr>col_type = t, col_data = [], col_valid = []\<rparr>"

definition rebase_gregorian_to_julian :: "column \<Rightarrow> rebase_error + column" where
  "rebase_gregorian_to_julian input =
     (if \<not> (col_type input = TIMESTAMP_DAYS \<or> col_type input = TIMESTAMP_MICROSECONDS) then Inl Not_A_Timestamp
      else if length (col_data input) = 0 then Inr (make_empty_column (col_type input))
      else if col_type input = TIMESTAMP_DAYS then gregorian_to_julian_days input
      else gregorian_to_julian_micros input)"

definition rebase_julian_to_gregorian :: "column \<Rightarrow> rebase_error + column" where
  "rebase_julian_to_gregorian input =
     (if \<not> (col_type input = TIMESTAMP_DAYS \<or> col_type input = TIMESTAMP_MICROSECONDS) then Inl Not_A_Timestamp
      else if length (col_data input) = 0 then Inr (make_empty_column (col_type input))
      else if col_type input = TIMESTAMP_DAYS then julian_to_gregorian_days input
      else julian_to_gregorian_micros input)"

section \<open>The Julian calendar\<close>

definition jul_start :: "int \<Rightarrow> int" where
  "jul_start n = 365 * n"

definition jul_len :: "int \<Rightarrow> int" where
  "jul_len n = (if n = 3 then 366 else 365)"

definition jul_year :: "int \<Rightarrow> int" where
  "jul_year doe = (doe - doe div 1460) div 365"

abbreviation jul_days :: "date \<Rightarrow> int" where
  "jul_days \<equiv> civil_days 4 1461 jul_start 719470"

abbreviation jul_date :: "int \<Rightarrow> date" where
  "jul_date \<equiv> civil_date 4 1461 jul_start jul_year 719470"

lemma jul_year_cases:
  assumes "0 \<le> doe" "doe < 1461"
  shows "jul_year doe = (if doe = 1460 then 3 else doe div 365)"
  using assms by (cases "doe = 1460") (simp_all add: jul_year_def)

interpretation jul: civil 4 1461 719470 jul_start jul_len jul_year
proof (unfold_locales, goal_cases)
  case (8 doe)
  then show ?case unfolding jul_year_cases [OF 8] by auto
next
  case (9 doe)
  then show ?case unfolding jul_year_cases [OF 9] by (auto simp: jul_start_def jul_len_def)
next
  case (10 n doe)
  have "n = 0 \<or> n = 1 \<or> n = 2 \<or> n = 3" using 10(1,2) by auto
  then have d: "0 \<le> doe" "doe < 1461" and n: "doe = 1460 \<longrightarrow> n = 3"
    using 10(3,4) by (auto simp: jul_start_def jul_len_def split: if_splits)
  have "doe div 365 = n" if "doe \<noteq> 1460"
    using that 10(3,4) d by (intro int_div_pos_eq [of doe 365 n "doe - 365 * n"]) (auto simp: jul_start_def jul_len_def split: if_splits)
  then show ?case unfolding jul_year_cases [OF d] using n by auto
qed (auto simp: jul_start_def jul_len_def)

lemma leap_jul: "is_leap_year y \<Longrightarrow> leap_in 4 jul_len y"
proof -
  assume "is_leap_year y"
  then have "y mod 4 = 0 \<or> y mod 400 = 0" by (auto simp: is_leap_year_def smod_zero)
  then have "4 dvd y" by (auto simp: mod_eq_0_iff_dvd intro: dvd_trans [of 4 400])
  then have "(y mod 4 - 1) mod 4 = 3" by (simp add: mod_eq_0_iff_dvd)
  then show "leap_in 4 jul_len y" by (simp add: leap_in_def jul_len_def mod_diff_left_eq)
qed

lemma valid_jul: "valid_date_in is_leap_year dt \<Longrightarrow> valid_date_in (leap_in 4 jul_len) dt"
  using leap_jul by (cases dt) (auto simp: month_days_def split: if_splits)

text \<open>The code's conversions are those of the calendar, for the years of 16 bits.\<close>

lemma days_from_julian_civil:
  assumes "- 32768 \<le> y" "y \<le> 32767" "1 \<le> m" "m \<le> 12" "1 \<le> d" "d \<le> 31"
  shows "days_from_julian (y, m, d) = jul_days (y, m, d)"
    and "- 12700000 \<le> jul_days (y, m, d)" "jul_days (y, m, d) \<le> 11300000"
proof -
  define z era yoe where "z = y - (if m \<le> 2 then 1 else 0)" and "era = z div 4" and "yoe = z mod 4"
  have z: "- 32769 \<le> z" "z \<le> 32767" using assms(1,2) by (simp_all add: z_def)
  have zz: "z = 4 * era + yoe" and yoe: "0 \<le> yoe" "yoe < 4" by (simp_all add: era_def yoe_def)
  have era: "- 8193 \<le> era" "era \<le> 8191" using z zz yoe by simp_all
  have z_c: "s32 (y - (if m \<le> 2 then 1 else 0)) = z" using z by (simp add: z_def [symmetric] s32_id)
  have "s32 (z - 3) = z - 3" using z by (simp add: s32_id)
  then have era_c: "(if 0 \<le> z then z else s32 (z - 3)) sdiv 4 = era"
    using sdiv_floor [of 4 z] by (cases "0 \<le> z") (simp_all add: era_def)
  have yoe_c: "u32 (z - s32 (era * 4)) = yoe" using zz yoe by (simp add: u32_diff_s32 u32_id)
  define mp where "mp = to_mp m"
  have mp: "0 \<le> mp" "mp \<le> 11" using to_mp_facts [OF assms(3,4)] by (simp_all add: mp_def)
  have mp_c: "u32 (m + (if m > 2 then - 3 else 9)) = mp" using assms(3,4) by (simp add: u32_id mp_def to_mp_def)
  have ms: "u32 (153 * mp + 2) div 5 = month_start mp" using mp by (simp add: u32_id month_start_def)
  have msb: "0 \<le> month_start mp" "month_start mp \<le> 337" using mp by (simp_all add: month_start_def)
  have doy_c: "u32 (month_start mp + d - 1) = month_start mp + d - 1" using msb assms(5,6) by (simp add: u32_id)
  have doe_c: "u32 (yoe * 365 + (month_start mp + d - 1)) = jul_start yoe + (month_start mp + d - 1)"
    "s32 (jul_start yoe + (month_start mp + d - 1)) = jul_start yoe + (month_start mp + d - 1)"
    using yoe msb assms(5,6) by (simp_all add: u32_id s32_id jul_start_def)
  have s: "s32 (era * 1461 + (jul_start yoe + (month_start mp + d - 1)) - 719470) =
      era * 1461 + (jul_start yoe + (month_start mp + d - 1)) - 719470"
    using yoe era msb assms(5,6) by (intro s32_id) (simp_all add: jul_start_def)
  show "days_from_julian (y, m, d) = jul_days (y, m, d)"
    unfolding days_from_julian.simps Let_def z_c era_c yoe_c mp_c ms doy_c doe_c s
    by (simp add: Let_def z_def [symmetric] era_def yoe_def mp_def)
  have "jul_days (y, m, d) = era * 1461 + (jul_start yoe + (month_start mp + d - 1)) - 719470"
    by (simp add: Let_def z_def [symmetric] era_def yoe_def mp_def)
  then show "- 12700000 \<le> jul_days (y, m, d)" "jul_days (y, m, d) \<le> 11300000"
    using yoe era msb assms(5,6) by (simp_all add: jul_start_def)
qed

lemma julian_from_days_civil:
  assumes "- 20000000 \<le> n" "n \<le> 20000000"
  shows "julian_from_days n = (case jul_date n of (y, m, d) \<Rightarrow> (s16 y, m, d))"
proof -
  define z era doe where "z = n + 719470" and "era = z div 1461" and "doe = z mod 1461"
  have doe: "0 \<le> doe" "doe < 1461" by (simp_all add: doe_def)
  have zz: "z = 1461 * era + doe" by (simp add: era_def doe_def)
  have z: "- 20000000 \<le> z" "z \<le> 20719470" using assms by (simp_all add: z_def)
  have era: "- 20000 \<le> era" "era \<le> 20000" using z zz doe by simp_all
  have z_c: "s32 (n + 719470) = z" using z by (simp add: z_def [symmetric] s32_id)
  have "s32 (z - 1460) = z - 1460" using z by (simp add: s32_id)
  then have era_c: "(if 0 \<le> z then z else s32 (z - 1460)) sdiv 1461 = era"
    using sdiv_floor [of 1461 z] by (cases "0 \<le> z") (simp_all add: era_def)
  have doe_c: "u32 (z - s32 (era * 1461)) = doe" using zz doe by (simp add: u32_diff_s32 u32_id)
  define yoe where "yoe = jul_year doe"
  have yoe: "0 \<le> yoe" "yoe < 4" using jul.year_range [OF doe] by (simp_all add: yoe_def)
  have "0 \<le> doe - doe div 1460" "doe - doe div 1460 < 2000" using doe by linarith+
  then have yoe_c: "u32 (doe - doe div 1460) div 365 = yoe" by (simp add: u32_id yoe_def jul_year_def)
  define doy where "doy = doe - jul_start yoe"
  have "0 \<le> doy" "doy < jul_len yoe" using jul.year_days [OF doe] by (simp_all add: doy_def yoe_def)
  then have doy: "0 \<le> doy" "doy \<le> 365" using jul.len_le by auto
  have doy_c: "u32 (doe - u32 (365 * yoe)) = doy"
    using yoe doy by (simp add: u32_id doy_def jul_start_def)
  define mp where "mp = month_of_day doy"
  have mp: "0 \<le> mp" "mp \<le> 11" "month_start mp \<le> doy" using day_facts [OF doy] by (simp_all add: mp_def)
  have mp_c: "u32 (5 * doy + 2) div 153 = mp" using doy by (simp add: u32_id mp_def month_of_day_def)
  have day_c: "u32 (doy - u32 (153 * mp + 2) div 5 + 1) = doy - month_start mp + 1"
    using mp doy by (simp add: u32_id month_start_def)
  have month_c: "u32 (mp + (if mp < 10 then 3 else - 9)) = of_mp mp" using mp by (simp add: u32_id of_mp_def)
  have y_c: "s32 (yoe + s32 (era * 4)) = yoe + era * 4" using yoe era by (simp add: s32_id)
  show ?thesis
    unfolding julian_from_days_def civil_date_def Let_def z_c era_c doe_c yoe_c doy_c mp_c day_c month_c y_c
    by (simp add: z_def [symmetric] era_def [symmetric] doe_def [symmetric] yoe_def [symmetric]
        doy_def [symmetric] mp_def [symmetric])
qed

section \<open>Rebasing days\<close>

text \<open>The days whose dates have years that \<^verbatim>\<open>cuda::std::chrono::year\<close> can hold, -32767 to 32767.\<close>

definition chrono_range :: "int \<Rightarrow> bool" where
  "chrono_range d \<longleftrightarrow> - 12687428 \<le> d \<and> d \<le> 11248737"

lemma key_dates:
  "greg_date (- 12687428) = (- 32767, 1, 1)" "greg_date 11248737 = (32767, 12, 31)"
  "greg_date (- 141438) = julian_end" "greg_date (- 141427) = gregorian_start"
  "jul_date (- 141427) = (1582, 10, 5)"
  by code_simp+

lemma ymd_less_year: "\<not> ymd_less (y, m, d) (y', m', d') \<Longrightarrow> y' \<le> y"
  by auto

lemma chrono_ymd_range:
  assumes "chrono_range d" "greg_date d = (y, m, e)"
  shows "chrono_ymd d = (y, m, e)" "- 32767 \<le> y" "y \<le> 32767" "1 \<le> m" "m \<le> 12" "1 \<le> e" "e \<le> 31"
proof -
  show y: "- 32767 \<le> y" "y \<le> 32767"
    using greg.date_less_iff [of d "- 12687428"] greg.date_less_iff [of 11248737 d] assms
    by (auto simp: key_dates chrono_range_def)
  then show "chrono_ymd d = (y, m, e)" by (simp add: chrono_ymd_def assms(2) s16_id)
  have "is_valid_month_day y m e" using greg.valid_date [of d] by (simp only: leap_greg_fun assms(2) valid_greg)
  then show "1 \<le> m" "m \<le> 12" "1 \<le> e" "e \<le> 31" using valid_day_range by blast+
qed

lemma chrono_order:
  assumes "chrono_range d"
  shows "ymd_less julian_end (chrono_ymd d) \<longleftrightarrow> - 141438 < d" "ymd_less (chrono_ymd d) gregorian_start \<longleftrightarrow> d < - 141427"
proof -
  obtain y m e where g: "greg_date d = (y, m, e)" by (cases "greg_date d")
  have "chrono_ymd d = greg_date d" using chrono_ymd_range(1) [OF assms g] g by simp
  then show "ymd_less julian_end (chrono_ymd d) \<longleftrightarrow> - 141438 < d" "ymd_less (chrono_ymd d) gregorian_start \<longleftrightarrow> d < - 141427"
    unfolding key_dates(3,4) [symmetric] by (simp_all only: greg.date_less_iff)
qed

lemma rebase_early:
  assumes "- 12687428 \<le> d" "d < - 141437"
  shows "gregorian_to_julian_day d = jul_days (chrono_ymd d)"
    and "julian_from_days (jul_days (chrono_ymd d)) = chrono_ymd d"
    and "jul_days (chrono_ymd d) < - 141427" "chrono_days (chrono_ymd d) = d"
proof -
  have r: "chrono_range d" using assms by (simp add: chrono_range_def)
  obtain y m e where g: "greg_date d = (y, m, e)" by (cases "greg_date d")
  note c = chrono_ymd_range [OF r g]
  have y: "- 32768 \<le> y" using c(2) by simp
  note j = days_from_julian_civil [OF y c(3-7)]
  show "gregorian_to_julian_day d = jul_days (chrono_ymd d)"
    using chrono_order [OF r] assms(2) j(1) c(1) by (simp add: gregorian_to_julian_day_def Let_def)
  have "valid_date_in is_leap_year (y, m, e)"
    using greg.valid_date [of d] by (simp only: leap_greg_fun g)
  from valid_jul [OF this] have inv: "jul_date (jul_days (y, m, e)) = (y, m, e)" by (rule jul.date_of_days)
  have s: "s16 y = y" using c(2,3) by (simp add: s16_id)
  have "julian_from_days (jul_days (y, m, e)) = (case jul_date (jul_days (y, m, e)) of (y, m, d) \<Rightarrow> (s16 y, m, d))"
    using j(2,3) by (intro julian_from_days_civil) simp_all
  then show "julian_from_days (jul_days (chrono_ymd d)) = chrono_ymd d"
    unfolding c(1) inv by (simp add: s)
  have "\<not> ymd_less julian_end (y, m, e)" using chrono_order(1) [OF r] assms(2) c(1) by simp
  then have "ymd_less (y, m, e) (1582, 10, 5)" by (auto simp: julian_end_def)
  then show "jul_days (chrono_ymd d) < - 141427"
    using jul.date_less_iff [of "jul_days (y, m, e)" "- 141427"] unfolding inv key_dates(5) c(1) by blast
  have "greg_days (y, m, e) = d" using greg.days_of_date [of d] g by simp
  then show "chrono_days (chrono_ymd d) = d" using assms c(1) by (simp add: chrono_days_def s32_id)
qed

lemma rebase_late:
  assumes "chrono_range d" "- 141437 \<le> d"
  shows "gregorian_to_julian_day d = max d (- 141427)"
  using chrono_order [OF assms(1)] assms(2) by (simp add: gregorian_to_julian_day_def Let_def)

text \<open>
  C36: Rebasing a Gregorian day keeps the local date: before 1582-10-05 the result is the Julian day
  with the same year, month and day; the ten days that the hybrid calendar skips become its first
  Gregorian day; later days do not change. For the days whose years \<^verbatim>\<open>cuda::std::chrono::year\<close> can hold
  (\<open>chrono_range\<close>); \<open>far_days_wrong\<close> shows a day beyond them that does change.
\<close>
theorem rebase_day_keeps_date:
  assumes "chrono_range d"
  shows "(d < - 141437 \<longrightarrow> julian_from_days (gregorian_to_julian_day d) = chrono_ymd d \<and>
            gregorian_to_julian_day d < - 141427) \<and>
         (- 141437 \<le> d \<longrightarrow> gregorian_to_julian_day d = max d (- 141427))"
  using rebase_early [of d] rebase_late [OF assms] assms by (simp add: chrono_range_def)

theorem rebase_day_keeps_date_witness:
  "julian_from_days (gregorian_to_julian_day (- 171684)) = chrono_ymd (- 171684) \<and>
   chrono_ymd (- 171684) = (1499, 12, 12)"
proof -
  have "chrono_ymd (- 171684) = (1499, 12, 12)" by code_simp
  then show ?thesis using rebase_day_keeps_date [of "- 171684"] by (simp add: chrono_range_def)
qed

text \<open>
  Rebasing a day to the hybrid calendar and back gives the day again, for all days but the ten
  that the hybrid calendar skips.
\<close>

lemma day_roundtrip:
  assumes "chrono_range d" "\<not> (- 141437 \<le> d \<and> d < - 141427)"
  shows "julian_to_gregorian_day (gregorian_to_julian_day d) = d"
  using rebase_early [of d] rebase_late [OF assms(1)] assms
  by (cases "d < - 141437") (simp_all add: julian_to_gregorian_day_def chrono_range_def)

section \<open>Rebasing microseconds\<close>

lemma modulo_time_val:
  assumes "0 < b" "b \<le> 1000000"
  shows "modulo_time t b = t mod b"
proof -
  have "0 \<le> t mod b" "t mod b < b" "0 \<le> (- t) mod b" "(- t) mod b < b" using assms(1) by simp_all
  then have "- b < t smod b" "t smod b < b"
    by (cases "0 \<le> t"; simp only: smod_pos [OF assms(1)] if_True if_False; linarith)+
  then have "s64 (t smod b + b) smod b = (t smod b + b) mod b"
    using assms by (simp add: s64_id smod_nonneg)
  also have "\<dots> = t mod b"
  proof (cases "0 \<le> t")
    case False
    have "(- ((- t) mod b) + b) mod b = (- ((- t) mod b)) mod b" by simp
    also have "\<dots> = (- (- t)) mod b" by (rule mod_minus_eq)
    finally show ?thesis using False assms(1) by (simp add: smod_pos)
  qed (use assms in \<open>simp add: smod_pos\<close>)
  finally have "s64 (t smod b + b) smod b = t mod b" .
  moreover have "s32 (t mod b) = t mod b"
    using assms(2) pos_mod_bound [OF assms(1), of t] pos_mod_sign [OF assms(1), of t]
    by (intro s32_id) (simp_all add: order_trans [of _ 0] less_le_trans [of "t mod b" b])
  ultimately show ?thesis by (simp add: modulo_time_def)
qed

lemma scale_time_val:
  assumes "0 < b" "b \<le> 1000000" "- (10 ^ 18) \<le> t" "t \<le> 10 ^ 18"
  shows "scale_time t b = t div b"
proof -
  have "s64 (t - (if t < 0 then b - 1 else 0)) = (if 0 \<le> t then t else t - (b - 1))"
    using assms by (simp add: s64_id)
  then show ?thesis using sdiv_floor [OF assms(1), of t] by (simp add: scale_time_def)
qed

lemma second_of_micros:
  assumes "- (2 ^ 63) \<le> t" "t < 2 ^ 63"
  shows "s64 (t sdiv 1000000 - (if t < 0 \<and> t mod 1000000 \<noteq> 0 then 1 else 0)) = t div 1000000"
proof -
  have "t sdiv 1000000 - (if t < 0 \<and> t mod 1000000 \<noteq> 0 then 1 else 0) = t div 1000000"
  proof (cases "0 \<le> t")
    case False
    have "(- t) div 1000000 = - (t div 1000000) - (if t mod 1000000 = 0 then 0 else 1)"
      using zdiv_zminus1_eq_if [of 1000000 t] by simp
    then show ?thesis using False by (simp add: sdiv_pos)
  qed (simp add: sdiv_pos)
  moreover have "- (2 ^ 63) \<le> t div 1000000" "t div 1000000 < 2 ^ 63" using assms by simp_all
  ultimately show ?thesis by (simp add: s64_id)
qed

lemma second_of_day:
  "(s div 3600) mod 24 * 3600 + (s div 60) mod 60 * 60 + s mod 60 = s mod (86400 :: int)"
proof -
  define m h d where "m = s div 60" and "h = m div 60" and "d = h div 24"
  define r1 r2 r3 r4 where "r1 = s mod 60" and "r2 = m mod 60" and "r3 = h mod 24" and "r4 = s mod 86400"
  have div: "s div 3600 = h" "s div 86400 = d" by (simp_all add: d_def h_def m_def flip: zdiv_zmult2_eq)
  have "s = m * 60 + r1" "m = h * 60 + r2" "h = d * 24 + r3" by (simp_all add: m_def h_def d_def r1_def r2_def r3_def)
  moreover have "s = d * 86400 + r4" using div_mult_mod_eq [of s 86400] by (simp only: div r4_def)
  ultimately have "r3 * 3600 + r2 * 60 + r1 = r4" by linarith
  then show ?thesis by (simp only: div m_def [symmetric] r1_def r2_def r3_def r4_def)
qed

lemma assemble_val:
  assumes "- (2 ^ 63) \<le> t" "t < 2 ^ 63" "- 20000000 \<le> days" "days \<le> 20000000"
  shows "assemble_micros days (get_time_components t) = days * 86400000000 + t mod 86400000000"
proof -
  define s where "s = t div 1000000"
  have sb: "- (10 ^ 18) \<le> s" "s \<le> 10 ^ 18" using assms(1,2) by (simp_all add: s_def)
  have tc: "get_time_components t = \<lparr>tc_hour = s div 3600 mod 24, tc_minute = s div 60 mod 60,
      tc_second = s mod 60, tc_subsecond = t mod 1000000\<rparr>"
    using second_of_micros [OF assms(1,2)] sb
    by (simp add: get_time_components_def MICROS_PER_SECOND_def modulo_time_val scale_time_val s_def Let_def)
  have sum: "days * 24 * 3600 + s div 3600 mod 24 * 3600 + s div 60 mod 60 * 60 + s mod 60 = days * 86400 + s mod 86400"
    using second_of_day [of s] by simp
  have r: "0 \<le> s mod 86400" "s mod 86400 < 86400" "0 \<le> t mod 1000000" "t mod 1000000 < 1000000" by simp_all
  have c1: "s64 (days * 86400 + s mod 86400) = days * 86400 + s mod 86400"
    using r assms(3,4) by (intro s64_id) simp_all
  have c2: "s64 ((days * 86400 + s mod 86400) * 1000000) = (days * 86400 + s mod 86400) * 1000000"
    using r assms(3,4) by (intro s64_id) simp_all
  have c3: "s64 ((days * 86400 + s mod 86400) * 1000000 + t mod 1000000) =
      (days * 86400 + s mod 86400) * 1000000 + t mod 1000000"
    using r assms(3,4) by (intro s64_id) simp_all
  have "t mod 86400000000 = s mod 86400 * 1000000 + t mod 1000000"
    unfolding s_def using zmod_zmult2_eq [of 86400 t 1000000] by (simp add: mult.commute)
  then show ?thesis
    unfolding assemble_micros_def Let_def tc MICROS_PER_SECOND_def time_components.simps sum c1 c2 c3 by simp
qed

text \<open>The day of a timestamp before the switch, and the same day for later ones.\<close>

lemma floor_days_val: "- (2 ^ 63) \<le> t \<Longrightarrow> t < 2 ^ 63 \<Longrightarrow> floor_days t = t div 86400000000"
  by (simp add: floor_days_def s32_id)

lemma switch_day: "last_switch_gregorian_ts \<le> t \<longleftrightarrow> - 141427 \<le> t div 86400000000"
  by (simp add: last_switch_gregorian_ts_def) linarith

text \<open>
  A year of \<^verbatim>\<open>cuda::std::chrono\<close> has 16 bits. The first day of the year 32768 gets the year -32768, counts
  as a day before the switch, and is rebased to the distant past.
\<close>

lemma far_days_wrong:
  "greg_date 11248738 = (32768, 1, 1)" "chrono_ymd 11248738 = (- 32768, 1, 1)"
  "gregorian_to_julian_day 11248738 = - 12688042"
  by code_simp+

text \<open>
  C37: Rebasing a timestamp to the hybrid calendar rebases its day and keeps its time of day, to the
  microsecond, for the days whose years \<^verbatim>\<open>cuda::std::chrono::year\<close> can hold (\<open>chrono_range\<close>).
\<close>
theorem rebase_micros_keeps_time:
  assumes "- (2 ^ 63) \<le> t" "t < 2 ^ 63" "chrono_range (t div 86400000000)"
  shows "gregorian_to_julian_micro t = gregorian_to_julian_day (t div 86400000000) * 86400000000 + t mod 86400000000"
proof (cases "last_switch_gregorian_ts \<le> t")
  case True
  then have "gregorian_to_julian_day (t div 86400000000) = t div 86400000000"
    using rebase_late [OF assms(3)] by (simp add: switch_day)
  then show ?thesis using True by (simp add: gregorian_to_julian_micro_def)
next
  case False
  define d where "d = t div 86400000000"
  have d: "d < - 141427" "chrono_range d" using False assms(3) by (simp_all add: switch_day d_def not_le)
  define j where "j = (if ymd_less julian_end (chrono_ymd d) \<and> ymd_less (chrono_ymd d) gregorian_start
      then - 141427 else days_from_julian (chrono_ymd d))"
  have j: "gregorian_to_julian_day d = j"
    using chrono_order [OF d(2)] d(1) by (simp add: gregorian_to_julian_day_def j_def Let_def)
  have "- 20000000 \<le> j \<and> j \<le> 20000000"
  proof (cases "d < - 141437")
    case True
    obtain y m e where g: "greg_date d = (y, m, e)" by (cases "greg_date d")
    note c = chrono_ymd_range [OF d(2) g]
    have "- 32768 \<le> y" using c(2) by simp
    from days_from_julian_civil [OF this c(3-7)] rebase_early(1) [OF _ True] d(2) c(1) j
    show ?thesis by (simp add: chrono_range_def)
  next
    case False
    then show ?thesis using rebase_late [OF d(2)] d(1) j by simp
  qed
  then have "assemble_micros j (get_time_components t) = j * 86400000000 + t mod 86400000000"
    by (intro assemble_val [OF assms(1,2)]) simp_all
  moreover have "gregorian_to_julian_micro t = assemble_micros j (get_time_components t)"
    using False floor_days_val [OF assms(1,2)]
    unfolding gregorian_to_julian_micro_def Let_def j_def d_def by simp
  ultimately show ?thesis using j by (simp only: d_def)
qed

theorem rebase_micros_keeps_time_witness:
  "gregorian_to_julian_micro (- 14833497600000001) =
     gregorian_to_julian_day (- 171685) * 86400000000 + 86399999999"
  using rebase_micros_keeps_time [of "- 14833497600000001"] by (simp add: chrono_range_def)

text \<open>
  Rebasing a column checks its type, keeps its null mask and its length, and rebasing it back
  restores every row outside the skipped days.
\<close>
theorem rebase_column_roundtrip:
  assumes "col_type c = TIMESTAMP_DAYS" "length (col_valid c) = length (col_data c)"
    and "\<forall>d \<in> set (col_data c). chrono_range d \<and> \<not> (- 141437 \<le> d \<and> d < - 141427)"
  shows "\<exists>r. rebase_gregorian_to_julian c = Inr r \<and> col_valid r = col_valid c \<and> rebase_julian_to_gregorian r = Inr c"
proof -
  have "map (julian_to_gregorian_day \<circ> gregorian_to_julian_day) (col_data c) = col_data c"
    using assms(3) by (intro map_idI) (simp add: day_roundtrip)
  then show ?thesis
    using assms(1,2) by (cases c) (auto simp: rebase_gregorian_to_julian_def rebase_julian_to_gregorian_def
      gregorian_to_julian_days_def julian_to_gregorian_days_def make_empty_column_def)
qed

theorem rebase_column_roundtrip_witness:
  "\<exists>r. rebase_gregorian_to_julian \<lparr>col_type = TIMESTAMP_DAYS, col_data = [- 200000, 7], col_valid = [True, False]\<rparr> = Inr r \<and>
     col_valid r = [True, False] \<and>
     rebase_julian_to_gregorian r = Inr \<lparr>col_type = TIMESTAMP_DAYS, col_data = [- 200000, 7], col_valid = [True, False]\<rparr>"
  using rebase_column_roundtrip [of "\<lparr>col_type = TIMESTAMP_DAYS, col_data = [- 200000, 7], col_valid = [True, False]\<rparr>"]
  by (simp add: chrono_range_def)

end
