(* ===== verification/Truncate.thy ===== *)
theory Truncate
  imports Rebase
begin

text \<open>
  Truncation of dates and timestamps to a unit (\<^verbatim>\<open>datetime_truncate.cu\<close>): parsing of the format,
  truncation of a day to its year, quarter, month or week, of a timestamp also to smaller units,
  and the two entry points with their checks. A null row is \<open>None\<close>.
\<close>

unbundle bit_operations_syntax

section \<open>Formats\<close>

datatype truncation_format =
    YEAR | YYYY | YY | QUARTER | MONTH | MM | MON | WEEK | DAY | DD
  | HOUR | MINUTE | SECOND | MILLISECOND | MICROSECOND | INVALID

definition to_upper :: "char \<Rightarrow> char" where
  "to_upper c =
     (if of_char CHR ''a'' \<le> (of_char c :: nat) \<and> (of_char c :: nat) \<le> of_char CHR ''z''
      then char_of (of_char c XOR (0x20 :: nat)) else c)"

definition components :: "(truncation_format \<times> string) list" where
  "components =
     [(YEAR, ''YEAR''), (YYYY, ''YYYY''), (YY, ''YY''), (QUARTER, ''QUARTER''), (MONTH, ''MONTH''),
      (MM, ''MM''), (MON, ''MON''), (WEEK, ''WEEK''), (DAY, ''DAY''), (DD, ''DD''), (HOUR, ''HOUR''),
      (MINUTE, ''MINUTE''), (SECOND, ''SECOND''), (MILLISECOND, ''MILLISECOND''),
      (MICROSECOND, ''MICROSECOND'')]"

definition comp_sizes :: "nat list" where
  "comp_sizes = [4, 4, 2, 7, 5, 2, 3, 4, 3, 2, 4, 6, 6, 11, 11]"

text \<open>The inner loop compares the first \<open>n\<close> characters, the outer one tries the components in order.\<close>

fun equal_upper :: "nat \<Rightarrow> string \<Rightarrow> string \<Rightarrow> bool" where
  "equal_upper 0 fmt ptr = True"
| "equal_upper (Suc n) (c # fmt) (p # ptr) = (if to_upper c \<noteq> p then False else equal_upper n fmt ptr)"
| "equal_upper (Suc n) _ _ = False"

fun parse_loop :: "string \<Rightarrow> ((truncation_format \<times> string) \<times> nat) list \<Rightarrow> truncation_format" where
  "parse_loop fmt_data [] = INVALID"
| "parse_loop fmt_data (((f, ptr), comp_size) # rest) =
     (if length fmt_data \<noteq> comp_size then parse_loop fmt_data rest
      else if equal_upper (length fmt_data) fmt_data ptr then f
      else parse_loop fmt_data rest)"

definition parse_format :: "string \<Rightarrow> truncation_format" where
  "parse_format fmt_data = parse_loop fmt_data (zip components comp_sizes)"

section \<open>Days\<close>

definition trunc_quarter_month :: "int \<Rightarrow> int" where
  "trunc_quarter_month month = (let zero_based_month = u32 (month - 1) in u32 (zero_based_month div 3 * 3 + 1))"

text \<open>
  The weekday of \<^verbatim>\<open>cuda::std::chrono\<close>, from 0 for Sunday, and the difference of two weekdays, which is
  taken modulo 7.
\<close>

definition chrono_weekday :: "int \<Rightarrow> int" where
  "chrono_weekday days = (days + 4) mod 7"

definition weekday_minus :: "int \<Rightarrow> int \<Rightarrow> int" where
  "weekday_minus x y = (x - y) mod 7"

definition trunc_to_monday :: "int \<Rightarrow> int" where
  "trunc_to_monday days_since_epoch =
     (let days_to_subtract = weekday_minus (chrono_weekday days_since_epoch) 1
      in if days_to_subtract = 0 then days_since_epoch
         else if days_to_subtract > 0 then s32 (days_since_epoch - days_to_subtract)
         else s32 (days_since_epoch - 6))"

fun trunc_date :: "int \<Rightarrow> date \<Rightarrow> truncation_format \<Rightarrow> int option" where
  "trunc_date days_since_epoch (y, m, d) fmt =
     (if fmt \<in> {YEAR, YYYY, YY} then Some (chrono_days (y, 1, 1))
      else if fmt = QUARTER then Some (chrono_days (y, trunc_quarter_month m, 1))
      else if fmt \<in> {MONTH, MM, MON} then Some (chrono_days (y, m, 1))
      else if fmt = WEEK then Some (trunc_to_monday days_since_epoch)
      else None)"

section \<open>Rows\<close>

text \<open>A format is one for all rows, already parsed, or a column of nullable strings.\<close>

datatype device_format = Format_Scalar truncation_format | Format_Column "string option list"

definition row_format :: "device_format \<Rightarrow> nat \<Rightarrow> truncation_format option" where
  "row_format format idx =
     (case format of
        Format_Scalar fmt \<Rightarrow> Some fmt
      | Format_Column fs \<Rightarrow> map_option parse_format (fs ! idx))"

definition truncate_date_fn :: "int option list \<Rightarrow> device_format \<Rightarrow> nat \<Rightarrow> int option" where
  "truncate_date_fn datetime format idx =
     (let datetime_idx = (if length datetime > 1 then idx else 0)
      in case datetime ! datetime_idx of
           None \<Rightarrow> None
         | Some ts \<Rightarrow>
             (case row_format format idx of
                None \<Rightarrow> None
              | Some fmt \<Rightarrow> if fmt = INVALID then None else trunc_date ts (chrono_ymd ts) fmt))"

definition micros_of_days :: "int \<Rightarrow> int" where
  "micros_of_days days = s64 (days * 86400000000)"

text \<open>The units below the day; \<open>None\<close> is the unreachable default of the switch.\<close>

definition trunc_time :: "int \<Rightarrow> int \<Rightarrow> truncation_format \<Rightarrow> int option" where
  "trunc_time days time_since_midnight fmt =
     (let floored = (\<lambda>unit. Some (s64 (micros_of_days days + time_since_midnight div unit * unit)))
      in case fmt of
           DAY \<Rightarrow> Some (micros_of_days days)
         | DD \<Rightarrow> Some (micros_of_days days)
         | HOUR \<Rightarrow> floored 3600000000
         | MINUTE \<Rightarrow> floored 60000000
         | SECOND \<Rightarrow> floored 1000000
         | MILLISECOND \<Rightarrow> floored 1000
         | _ \<Rightarrow> None)"

definition trunc_timestamp :: "int \<Rightarrow> truncation_format \<Rightarrow> int option" where
  "trunc_timestamp ts fmt =
     (if fmt = INVALID then None
      else if fmt = MICROSECOND then Some ts
      else let days_since_epoch = floor_days ts;
               ymd = chrono_ymd days_since_epoch
           in case trunc_date days_since_epoch ymd fmt of
                Some d \<Rightarrow> Some (micros_of_days d)
              | None \<Rightarrow>
                  (let time = s64 (ts - micros_of_days days_since_epoch);
                       time_since_midnight = (if time < 0 then s64 (time + 86400000000) else time)
                   in trunc_time (chrono_days ymd) time_since_midnight fmt))"

definition truncate_timestamp_fn :: "int option list \<Rightarrow> device_format \<Rightarrow> nat \<Rightarrow> int option" where
  "truncate_timestamp_fn datetime format idx =
     (let datetime_idx = (if length datetime > 1 then idx else 0)
      in case datetime ! datetime_idx of
           None \<Rightarrow> None
         | Some ts \<Rightarrow>
             (case row_format format idx of None \<Rightarrow> None | Some fmt \<Rightarrow> trunc_timestamp ts fmt))"

section \<open>Columns\<close>

datatype format_arg = Scalar_Format string | Column_Format "string option list"

definition truncate_datetime ::
  "(int option list \<Rightarrow> device_format \<Rightarrow> nat \<Rightarrow> int option) \<Rightarrow> int option list \<Rightarrow> format_arg \<Rightarrow> nat \<Rightarrow> int option list" where
  "truncate_datetime trunc_fn datetime format output_size =
     (case format of
        Column_Format fs \<Rightarrow> map (trunc_fn datetime (Format_Column fs)) [0..<output_size]
      | Scalar_Format s \<Rightarrow>
          (let fmt = parse_format s
           in if fmt = INVALID then replicate output_size None
              else map (trunc_fn datetime (Format_Scalar fmt)) [0..<output_size]))"

definition truncate_dispatcher :: "type_id \<Rightarrow> int option list \<Rightarrow> format_arg \<Rightarrow> nat \<Rightarrow> int option list" where
  "truncate_dispatcher t datetime format output_size =
     (if t = TIMESTAMP_DAYS then truncate_datetime truncate_date_fn datetime format output_size
      else truncate_datetime truncate_timestamp_fn datetime format output_size)"

datatype truncate_error = Bad_Datetime_Type | Bad_Format_Type | Size_Mismatch

definition check_type :: "type_id \<Rightarrow> bool" where
  "check_type t \<longleftrightarrow> t = TIMESTAMP_DAYS \<or> t = TIMESTAMP_MICROSECONDS"

text \<open>The two overloads; for a column of formats its type, a flag here, is checked first.\<close>

definition truncate_column ::
  "type_id \<Rightarrow> int option list \<Rightarrow> bool \<Rightarrow> string option list \<Rightarrow> truncate_error + int option list" where
  "truncate_column t datetime format_is_string format =
     (if \<not> check_type t then Inl Bad_Datetime_Type
      else if \<not> format_is_string then Inl Bad_Format_Type
      else if \<not> (length datetime = 1 \<or> length datetime = length format) then Inl Size_Mismatch
      else let size = length format
           in if size = 0 \<or> length datetime = length (filter (\<lambda>x. x = None) datetime) \<or>
                 length format = length (filter (\<lambda>x. x = None) format)
              then Inr (replicate size None)
              else Inr (truncate_dispatcher t datetime (Column_Format format) size))"

definition truncate_scalar :: "type_id \<Rightarrow> int option list \<Rightarrow> string \<Rightarrow> truncate_error + int option list" where
  "truncate_scalar t datetime format =
     (if \<not> check_type t then Inl Bad_Datetime_Type
      else let size = length datetime
           in if length datetime = 0 \<or> length datetime = length (filter (\<lambda>x. x = None) datetime)
              then Inr (replicate size None)
              else Inr (truncate_dispatcher t datetime (Scalar_Format format) size))"

section \<open>Parsing\<close>

lemma equal_upper_iff:
  "length ptr = length fmt \<Longrightarrow> equal_upper (length fmt) fmt ptr \<longleftrightarrow> map to_upper fmt = ptr"
proof (induction fmt arbitrary: ptr)
  case (Cons c fmt)
  then show ?case by (cases ptr) auto
qed simp

lemma parse_loop_lookup:
  "list_all (\<lambda>((f, ptr), n). length ptr = n) xs \<Longrightarrow>
     parse_loop s xs = (case map_of (map (prod.swap \<circ> fst) xs) (map to_upper s) of Some f \<Rightarrow> f | None \<Rightarrow> INVALID)"
proof (induction s xs rule: parse_loop.induct)
  case (2 s f ptr n rest)
  have n: "length ptr = n" and rest: "list_all (\<lambda>((f, ptr), n). length ptr = n) rest" using 2(3) by simp_all
  show ?case
  proof (cases "length s = n")
    case True
    then have "equal_upper (length s) s ptr \<longleftrightarrow> map to_upper s = ptr" using n by (intro equal_upper_iff) simp
    then show ?thesis using 2(2) [OF _ _ rest] True by (cases "map to_upper s = ptr") simp_all
  next
    case False
    then have "map to_upper s \<noteq> ptr" using n by auto
    then show ?thesis using 2(1) [OF False rest] False by simp
  qed
qed simp

text \<open>
  Parsing a format is looking up its upper-case form among the names of the formats; every
  other string is invalid.
\<close>
theorem parse_format_lookup:
  "parse_format s =
     (case map_of (map prod.swap components) (map to_upper s) of Some f \<Rightarrow> f | None \<Rightarrow> INVALID)"
proof -
  have "list_all (\<lambda>((f, ptr), n). length ptr = n) (zip components comp_sizes)"
    "map (prod.swap \<circ> fst) (zip components comp_sizes) = map prod.swap components" by code_simp+
  then show ?thesis using parse_loop_lookup [of "zip components comp_sizes" s] by (simp add: parse_format_def)
qed

section \<open>Truncating days\<close>

lemma first_of_period:
  assumes "chrono_range d" "chrono_ymd d = (y, m, e)" "1 \<le> k" "k \<le> m"
  defines "r \<equiv> chrono_days (y, k, 1)"
  shows "r \<le> d" "chrono_range r" "chrono_ymd r = (y, k, 1)"
proof -
  obtain y' m' e' where g: "greg_date d = (y', m', e')" by (cases "greg_date d")
  note c = chrono_ymd_range [OF assms(1) g]
  have eq: "y' = y" "m' = m" "e' = e" using c(1) assms(2) by simp_all
  note g = g [unfolded eq] and c = c [unfolded eq]
  define n where "n = greg_days (y, k, 1)"
  have "is_valid_month_day y k 1"
    using assms(3,4) c(5) by (simp add: is_valid_month_day_def days_in_month_def)
  then have gn: "greg_date n = (y, k, 1)" unfolding n_def by (rule greg_days_bounds)
  have "\<not> d < n" using greg.date_less_iff [of d n] g gn assms(4) c(6) by auto
  moreover have "\<not> n < - 12687428"
    using greg.date_less_iff [of n "- 12687428"] gn key_dates(1) c(2) assms(3) by auto
  ultimately have n: "n \<le> d" "- 12687428 \<le> n" by simp_all
  have "r = n" unfolding r_def chrono_days_def n_def [symmetric]
    using n assms(1) by (simp add: chrono_range_def s32_id)
  with n show "r \<le> d" "chrono_range r" using assms(1) by (simp_all add: chrono_range_def)
  then show "chrono_ymd r = (y, k, 1)" using chrono_ymd_range(1) [of r y k 1] gn \<open>r = n\<close> by simp
qed

lemma trunc_quarter_val: "1 \<le> m \<Longrightarrow> m \<le> 12 \<Longrightarrow> trunc_quarter_month m = (m - 1) div 3 * 3 + 1"
  by (simp add: trunc_quarter_month_def u32_id)

lemma trunc_to_monday_val:
  assumes "chrono_range d"
  shows "trunc_to_monday d = d - (d + 3) mod 7"
proof -
  have "weekday_minus (chrono_weekday d) 1 = (d + 3) mod 7"
    by (simp add: weekday_minus_def chrono_weekday_def mod_diff_left_eq add.commute)
  moreover have "0 \<le> (d + 3) mod 7" "(d + 3) mod 7 < 7" by simp_all
  ultimately show ?thesis using assms by (auto simp: trunc_to_monday_def Let_def chrono_range_def s32_id)
qed

text \<open>The first month of the period of a month.\<close>

definition period_month :: "truncation_format \<Rightarrow> int \<Rightarrow> int" where
  "period_month fmt m =
     (if fmt \<in> {YEAR, YYYY, YY} then 1 else if fmt = QUARTER then (m - 1) div 3 * 3 + 1 else m)"

lemma trunc_month:
  assumes "chrono_range d" "chrono_ymd d = (y, m, e)" "trunc_date d (y, m, e) fmt = Some r" "fmt \<noteq> WEEK"
  shows "1 \<le> period_month fmt m \<and> period_month fmt m \<le> m \<and> r = chrono_days (y, period_month fmt m, 1) \<and>
         period_month fmt (period_month fmt m) = period_month fmt m"
proof -
  obtain y' m' e' where g: "greg_date d = (y', m', e')" by (cases "greg_date d")
  have m: "1 \<le> m" "m \<le> 12" using chrono_ymd_range(1,4,5) [OF assms(1) g] assms(2) by auto
  have "1 \<le> (m - 1) div 3 * 3 + 1 \<and> (m - 1) div 3 * 3 + 1 \<le> m" 
    using m(1) div_mult_mod_eq [of "m - 1" 3] pos_mod_sign [of 3 "m - 1"] pos_imp_zdiv_nonneg_iff [of 3 "m - 1"] by simp
  then show ?thesis
    using assms(3,4) m trunc_quarter_val [OF m] by (auto simp: period_month_def split: if_splits)
qed

text \<open>
  C38: Truncating a date to its year, quarter or month gives the first day of the period that holds
  it, truncating to the week the Monday on or before it; truncating again changes nothing. The date
  and the result have years that \<^verbatim>\<open>cuda::std::chrono::year\<close> can hold (\<open>chrono_range\<close>).
\<close>
theorem trunc_date_first_day:
  assumes "chrono_range d" "chrono_ymd d = (y, m, e)" "trunc_date d (y, m, e) fmt = Some r" "- 12687428 \<le> r"
  shows "r \<le> d \<and> trunc_date r (chrono_ymd r) fmt = Some r \<and>
         (if fmt = WEEK then d - 6 \<le> r \<and> weekday_from_days r = 0
          else chrono_ymd r = (y, period_month fmt m, 1))"
proof (cases "fmt = WEEK")
  case True
  then have r: "r = d - (d + 3) mod 7" using assms(1,3) by (simp add: trunc_to_monday_val)
  have b: "0 \<le> (d + 3) mod 7" "(d + 3) mod 7 < 7" by simp_all
  then have "r \<le> d" using r by linarith
  then have rr: "chrono_range r" using assms(1,4) unfolding chrono_range_def by linarith
  have "(r + 3) mod 7 = ((d + 3) - (d + 3) mod 7) mod 7" by (simp add: r algebra_simps)
  also have "\<dots> = 0" by (simp add: minus_mod_eq_mult_div)
  finally have z: "(r + 3) mod 7 = 0" .
  obtain y' m' e' where "chrono_ymd r = (y', m', e')" by (cases "chrono_ymd r")
  then show ?thesis
    using True r b z trunc_to_monday_val [OF rr] weekday_mod [of r] rr by (simp add: chrono_range_def)
next
  case False
  note t = trunc_month [OF assms(1-3) False]
  note f = first_of_period [OF assms(1,2), of "period_month fmt m"]
  have f': "r \<le> d" "chrono_ymd r = (y, period_month fmt m, 1)" "chrono_range r" using t f by simp_all
  have m: "1 \<le> period_month fmt m" "period_month fmt m \<le> 12"
  proof -
    obtain y' m' e' where g: "greg_date r = (y', m', e')" by (cases "greg_date r")
    then show "1 \<le> period_month fmt m" "period_month fmt m \<le> 12"
      using chrono_ymd_range(1,4,5) [OF f'(3) g] f'(2) by auto
  qed
  have "trunc_date r (y, period_month fmt m, 1) fmt = Some r"
    using assms(3) False t trunc_quarter_val [OF m] by (auto simp: period_month_def split: if_splits)
  then show ?thesis using False f' by simp
qed

theorem trunc_date_first_day_witness:
  "trunc_date 20420 (2025, 11, 28) QUARTER = Some 20362 \<and> (20362 :: int) \<le> 20420
    \<and> trunc_date 20362 (chrono_ymd 20362) QUARTER = Some 20362 \<and> chrono_ymd 20362 = (2025, 10, 1)"
proof -
  have "chrono_ymd 20420 = (2025, 11, 28)" "trunc_date 20420 (2025, 11, 28) QUARTER = Some 20362" by code_simp+
  then show ?thesis
    using trunc_date_first_day [of 20420 2025 11 28 QUARTER 20362]
    by (simp add: chrono_range_def trunc_quarter_val period_month_def)
qed

section \<open>Truncating timestamps\<close>

definition unit_micros :: "truncation_format \<Rightarrow> int option" where
  "unit_micros fmt =
     (case fmt of DAY \<Rightarrow> Some 86400000000 | DD \<Rightarrow> Some 86400000000 | HOUR \<Rightarrow> Some 3600000000
      | MINUTE \<Rightarrow> Some 60000000 | SECOND \<Rightarrow> Some 1000000 | MILLISECOND \<Rightarrow> Some 1000
      | MICROSECOND \<Rightarrow> Some 1 | _ \<Rightarrow> None)"

lemma floor_in_day:
  assumes "0 < u" "k * u = D" "0 < D"
  shows "t div D * D + (t mod D) div u * u = t - t mod (u :: int)"
proof -
  have "t = (t div D * k) * u + t mod D" using assms(2) div_mult_mod_eq [of t D] by (simp add: mult.assoc)
  then have "t div u = t div D * k + (t mod D) div u" using assms(1) by (metis div_mult_self3 less_irrefl)
  then have "t div u * u = t div D * D + (t mod D) div u * u" using assms(2) by (simp add: distrib_right mult.assoc)
  then show ?thesis by (simp add: minus_mod_eq_div_mult)
qed

lemma micros_of_days_val: "chrono_range d \<Longrightarrow> micros_of_days d = d * 86400000000"
  by (simp add: micros_of_days_def chrono_range_def s64_id)

text \<open>
  C39: Truncating a timestamp to the day or a smaller unit gives the last multiple of the unit that
  is not after it, for timestamps before and after the epoch alike whose years
  \<^verbatim>\<open>cuda::std::chrono::year\<close> can hold (\<open>chrono_range\<close>); \<open>far_timestamps_wrong\<close> shows one beyond them.
\<close>
theorem trunc_timestamp_floor:
  assumes "- (2 ^ 63) \<le> t" "t < 2 ^ 63" "chrono_range (t div 86400000000)" "unit_micros fmt = Some u"
  shows "trunc_timestamp t fmt = Some (t - t mod u) \<and> 0 \<le> t mod u \<and> t mod u < u"
proof -
  define d where "d = t div 86400000000"
  have d: "chrono_range d" "floor_days t = d" using assms(3) floor_days_val [OF assms(1,2)] by (simp_all add: d_def)
  obtain y m e where g: "greg_date d = (y, m, e)" by (cases "greg_date d")
  have ymd: "chrono_ymd d = (y, m, e)" using chrono_ymd_range(1) [OF d(1) g] .
  have "greg_days (y, m, e) = d" using greg.days_of_date [of d] g by simp
  then have days: "chrono_days (y, m, e) = d" using d(1) unfolding chrono_days_def by (simp add: chrono_range_def s32_id)
  have time: "t - d * 86400000000 = t mod 86400000000" by (simp add: d_def minus_div_mult_eq_mod)
  have tm: "0 \<le> t mod 86400000000" "t mod 86400000000 < 86400000000" by simp_all
  have tt: "trunc_timestamp t fmt = trunc_time d (t mod 86400000000) fmt" if "fmt \<noteq> MICROSECOND"
    using that assms(4) d(2) ymd days micros_of_days_val [OF d(1)] time tm
    by (auto simp: trunc_timestamp_def Let_def unit_micros_def s64_id split: truncation_format.splits)
  have fl: "s64 (d * 86400000000 + (t mod 86400000000) div u * u) = t - t mod u"
    if u: "0 < u" "k * u = 86400000000" for u k :: int
  proof -
    have "d * 86400000000 + (t mod 86400000000) div u * u = t - t mod u"
      unfolding d_def by (rule floor_in_day [OF u]) simp
    moreover have "(t mod 86400000000) div u * u \<le> t mod 86400000000"
      using div_mult_mod_eq [of "t mod 86400000000" u] pos_mod_sign [OF u(1), of "t mod 86400000000"] by linarith
    moreover have "0 \<le> (t mod 86400000000) div u * u" using u(1) tm(1) by (simp add: pos_imp_zdiv_nonneg_iff)
    moreover have "- 9000000000000000000 \<le> d * 86400000000" "d * 86400000000 + t mod 86400000000 < 9000000000000000000"
      using d(1) tm unfolding chrono_range_def by linarith+
    ultimately show ?thesis by (simp add: s64_id)
  qed
  note units = fl [of 3600000000 24, simplified] fl [of 60000000 1440, simplified] fl [of 1000000 86400, simplified]
    fl [of 1000 86400000, simplified]
  have day: "d * 86400000000 = t - t mod 86400000000" using time by linarith
  have "trunc_timestamp t fmt = Some (t - t mod u)"
  proof (cases "fmt = MICROSECOND")
    case True
    then show ?thesis using assms(4) by (simp add: unit_micros_def trunc_timestamp_def)
  next
    case False
    then show ?thesis
      unfolding tt [OF False] trunc_time_def Let_def micros_of_days_val [OF d(1)]
      using assms(4) False by (cases fmt) (auto simp: unit_micros_def units [unfolded day] day)
  qed
  moreover have "0 < u" using assms(4) by (auto simp: unit_micros_def split: truncation_format.splits)
  ultimately show ?thesis by simp
qed

theorem trunc_timestamp_floor_witness: "trunc_timestamp (- 1) HOUR = Some (- 3600000000)"
  using trunc_timestamp_floor [of "- 1" HOUR 3600000000] by (simp add: chrono_range_def unit_micros_def)

text \<open>Midnight of the first day of the year 32768 is truncated to a day of the year -32768.\<close>

lemma far_timestamps_wrong: "trunc_timestamp (11248738 * 86400000000) DAY = Some (- 12687794 * 86400000000)"
  by code_simp

section \<open>Columns\<close>

definition truncate_value :: "type_id \<Rightarrow> truncation_format \<Rightarrow> int \<Rightarrow> int option" where
  "truncate_value t fmt ts =
     (if t = TIMESTAMP_DAYS then if fmt = INVALID then None else trunc_date ts (chrono_ymd ts) fmt
      else trunc_timestamp ts fmt)"

lemma all_filtered: "length xs = length (filter P xs) \<longleftrightarrow> (\<forall>x \<in> set xs. P x)"
proof
  assume *: "length xs = length (filter P xs)"
  show "\<forall>x \<in> set xs. P x"
  proof
    fix x assume "x \<in> set xs"
    then show "P x" using length_filter_less [of x xs P] * by (cases "P x") simp_all
  qed
qed simp

lemma truncate_invalid: "truncate_value t INVALID ts = None"
  by (simp add: truncate_value_def trunc_timestamp_def)

lemma dispatcher_rows:
  assumes "i < n"
  shows "truncate_dispatcher t datetime (Column_Format fs) n ! i =
      Option.bind (datetime ! (if length datetime > 1 then i else 0))
        (\<lambda>ts. Option.bind (fs ! i) (\<lambda>s. truncate_value t (parse_format s) ts))"
    and "truncate_dispatcher t datetime (Scalar_Format s) n ! i =
      Option.bind (datetime ! (if length datetime > 1 then i else 0)) (truncate_value t (parse_format s))"
proof -
  let ?x = "datetime ! (if length datetime > 1 then i else 0)"
  show "truncate_dispatcher t datetime (Column_Format fs) n ! i =
      Option.bind ?x (\<lambda>ts. Option.bind (fs ! i) (\<lambda>s. truncate_value t (parse_format s) ts))"
    using assms by (cases ?x; cases "fs ! i")
      (simp_all add: truncate_dispatcher_def truncate_datetime_def truncate_date_fn_def truncate_timestamp_fn_def
        row_format_def truncate_value_def Let_def)
  show "truncate_dispatcher t datetime (Scalar_Format s) n ! i = Option.bind ?x (truncate_value t (parse_format s))"
    using assms by (cases ?x; cases "parse_format s = INVALID")
      (simp_all add: truncate_dispatcher_def truncate_datetime_def truncate_date_fn_def truncate_timestamp_fn_def
        row_format_def truncate_value_def Let_def trunc_timestamp_def)
qed

lemma dispatcher_length: "length (truncate_dispatcher t datetime format n) = n"
  by (simp add: truncate_dispatcher_def truncate_datetime_def Let_def split: format_arg.splits)

text \<open>
  With one format for all rows, every row is truncated on its own and is null where the input
  is; the early returns for empty, all-null and invalid inputs agree with this.
\<close>
lemma truncate_scalar_rows:
  assumes "check_type t"
  shows "truncate_scalar t datetime s = Inr (map (\<lambda>x. Option.bind x (truncate_value t (parse_format s))) datetime)"
proof (cases "\<forall>x \<in> set datetime. x = None")
  case True
  then have "map (\<lambda>x. Option.bind x (truncate_value t (parse_format s))) datetime = replicate (length datetime) None"
    by (induction datetime) simp_all
  then show ?thesis
    using True assms by (simp add: truncate_scalar_def all_filtered Let_def)
next
  case False
  then have "datetime \<noteq> []" by auto
  have "truncate_dispatcher t datetime (Scalar_Format s) (length datetime) =
      map (\<lambda>x. Option.bind x (truncate_value t (parse_format s))) datetime"
  proof (rule nth_equalityI)
    fix i assume "i < length (truncate_dispatcher t datetime (Scalar_Format s) (length datetime))"
    then have i: "i < length datetime" by (simp add: dispatcher_length)
    moreover from this have "(if length datetime > 1 then i else 0) = i" by auto
    ultimately show "truncate_dispatcher t datetime (Scalar_Format s) (length datetime) ! i =
        map (\<lambda>x. Option.bind x (truncate_value t (parse_format s))) datetime ! i"
      using dispatcher_rows(2) [OF i, of t datetime s] by simp
  qed (simp add: dispatcher_length)
  then show ?thesis
    using False \<open>datetime \<noteq> []\<close> assms unfolding truncate_scalar_def all_filtered Let_def by auto
qed

text \<open>
  With a format per row, the call fails on a column that is not a timestamp, on formats that
  are not strings and on mismatched sizes, in this order; otherwise row \<open>i\<close> truncates the \<open>i\<close>-th value, or
  the only one, to the \<open>i\<close>-th format, and is null where either is.
\<close>
theorem truncate_column_rows:
  "truncate_column t datetime format_is_string format =
     (if \<not> check_type t then Inl Bad_Datetime_Type
      else if \<not> format_is_string then Inl Bad_Format_Type
      else if length datetime \<noteq> 1 \<and> length datetime \<noteq> length format then Inl Size_Mismatch
      else Inr (map (\<lambda>(x, f). Option.bind x (\<lambda>ts. Option.bind f (\<lambda>s. truncate_value t (parse_format s) ts)))
             (zip (if length datetime = 1 then replicate (length format) (datetime ! 0) else datetime) format)))"
proof (cases "check_type t \<and> format_is_string \<and> (length datetime = 1 \<or> length datetime = length format)")
  case True
  define xs where "xs = (if length datetime = 1 then replicate (length format) (datetime ! 0) else datetime)"
  define rows where "rows = map (\<lambda>(x, f). Option.bind x (\<lambda>ts. Option.bind f (\<lambda>s. truncate_value t (parse_format s) ts))) (zip xs format)"
  have len: "length xs = length format" using True by (auto simp: xs_def)
  have nth: "rows ! i = Option.bind (xs ! i) (\<lambda>ts. Option.bind (format ! i) (\<lambda>s. truncate_value t (parse_format s) ts))"
    if "i < length format" for i using that len by (simp add: rows_def)
  have x: "xs ! i = datetime ! (if length datetime > 1 then i else 0)" if "i < length format" for i
    using that True by (auto simp: xs_def)
  have "truncate_dispatcher t datetime (Column_Format format) (length format) = rows"
    by (rule nth_equalityI) (simp_all add: dispatcher_length dispatcher_rows(1) nth x, simp add: rows_def len)
  moreover have "rows = replicate (length format) None"
    if "(\<forall>x \<in> set datetime. x = None) \<or> (\<forall>f \<in> set format. f = None)"
  proof (rule nth_equalityI)
    fix i assume "i < length rows"
    then have i: "i < length format" by (simp add: rows_def len)
    have "xs ! i = None \<or> format ! i = None"
    proof (cases "\<forall>f \<in> set format. f = None")
      case False
      then have "\<forall>x \<in> set datetime. x = None" using that by blast
      then show ?thesis using i True by (auto simp: xs_def)
    qed (use i in simp)
    then show "rows ! i = replicate (length format) None ! i" using i nth [OF i] by (auto simp: bind_eq_None_conv)
  qed (simp add: rows_def len)
  moreover have "rows = []" if "length format = 0" using that by (simp add: rows_def)
  ultimately have "truncate_column t datetime format_is_string format = Inr rows"
    using True unfolding truncate_column_def all_filtered Let_def by (simp split: if_splits)
  then show ?thesis using True unfolding rows_def xs_def by simp
next
  case False
  then show ?thesis by (auto simp: truncate_column_def)
qed

end
