(* ===== verification/TimeZone.thy ===== *)
theory TimeZone
  imports Rebase "HOL-Library.Monad_Syntax"
begin

text \<open>
  Time zone conversion: the daylight saving rules and \<^verbatim>\<open>convert_timestamp\<close> of \<^verbatim>\<open>datetime_utils.cuh\<close>, and
  the column functions of \<^verbatim>\<open>timezones.cu\<close>. A time zone is a table of transitions, sorted by instant,
  and at most two rules for the years after it. Timestamps are counts of a unit of \<open>ticks\<close> per
  second. Reading outside of a table is undefined behaviour, the value \<open>None\<close>.
\<close>

section \<open>Daylight saving rules\<close>

record transition_rule =
  rule_month :: int
  dom :: int
  dow :: int
  time_diff_compared_to_midnight :: int
  rule_offset_before :: int
  rule_offset_after :: int

record transition_info =
  utc_seconds :: int
  offset_before :: int
  offset_after :: int

definition is_gap :: "transition_info \<Rightarrow> bool" where
  "is_gap info \<longleftrightarrow> offset_after info > offset_before info"

definition transition_day :: "int \<Rightarrow> transition_rule \<Rightarrow> int" where
  "transition_day year rule =
     (if dom rule > 0 then
        let days = to_epoch_day year (rule_month rule) (dom rule)
        in if dow rule \<ge> 0 then next_or_same_weekday days (dow rule) else days
      else
        let day_of_month = s32 (days_in_month year (rule_month rule) + 1 + dom rule);
            days = to_epoch_day year (rule_month rule) day_of_month
        in if dow rule \<ge> 0 then previous_or_same_weekday days (dow rule) else days)"

definition create_transition_info :: "int \<Rightarrow> transition_rule \<Rightarrow> transition_info" where
  "create_transition_info year rule =
     (let days = transition_day year rule;
          local_seconds = s64 (days * 86400 + time_diff_compared_to_midnight rule)
      in \<lparr>utc_seconds = s64 (local_seconds - rule_offset_before rule),
          offset_before = rule_offset_before rule, offset_after = rule_offset_after rule\<rparr>)"

definition get_offset_for_utc_time :: "int \<Rightarrow> transition_rule \<Rightarrow> transition_rule \<Rightarrow> int" where
  "get_offset_for_utc_time seconds start_rule end_rule =
     (let year = get_year seconds;
          info0 = create_transition_info year start_rule;
          info1 = create_transition_info year end_rule
      in if seconds < utc_seconds info0 then offset_before info0
         else if seconds \<ge> utc_seconds info0 \<and> seconds < utc_seconds info1 then offset_after info0
         else offset_after info1)"

definition get_offset_for_local_time :: "int \<Rightarrow> transition_rule \<Rightarrow> transition_rule \<Rightarrow> int" where
  "get_offset_for_local_time seconds start_rule end_rule =
     (let year = get_year seconds;
          info0 = create_transition_info year start_rule;
          info1 = create_transition_info year end_rule
      in if is_gap info0 then
           if seconds < s64 (utc_seconds info0 + offset_after info0) then offset_before info0
           else if seconds \<ge> s64 (utc_seconds info0 + offset_after info0) \<and>
                   seconds < s64 (utc_seconds info1 + offset_before info1) then offset_after info0
           else offset_after info1
         else
           if seconds < s64 (utc_seconds info0 + offset_before info0) then offset_before info0
           else if seconds \<ge> s64 (utc_seconds info0 + offset_before info0) \<and>
                   seconds < s64 (utc_seconds info1 + offset_after info1) then offset_after info0
           else offset_after info1)"

fun create_dst_rules :: "int list \<Rightarrow> (transition_rule \<times> transition_rule) option" where
  "create_dst_rules (m1 # d1 # w1 # t1 # b1 # a1 # m2 # d2 # w2 # t2 # b2 # a2 # _) =
     Some (\<lparr>rule_month = m1, dom = d1, dow = w1, time_diff_compared_to_midnight = t1,
            rule_offset_before = b1, rule_offset_after = a1\<rparr>,
           \<lparr>rule_month = m2, dom = d2, dow = w2, time_diff_compared_to_midnight = t2,
            rule_offset_before = b2, rule_offset_after = a2\<rparr>)"
| "create_dst_rules _ = None"

section \<open>One timestamp\<close>

text \<open>The rows of the two list columns for one time zone.\<close>

record zone =
  utc_instants :: "int list"
  tz_instants :: "int list"
  utc_offsets :: "int list"
  dst_integers :: "int list"

text \<open>\<^verbatim>\<open>thrust::upper_bound\<close> on a sorted range: the index of the first element above the value.\<close>

definition upper_bound :: "int list \<Rightarrow> int \<Rightarrow> nat" where
  "upper_bound xs v = length (takeWhile (\<lambda>x. x \<le> v) xs)"

text \<open>Adding or subtracting an offset in seconds.\<close>

definition shift_timestamp :: "int \<Rightarrow> bool \<Rightarrow> int \<Rightarrow> int \<Rightarrow> int" where
  "shift_timestamp ticks to_utc offset_seconds timestamp =
     (let offset = s64 (offset_seconds * ticks)
      in s64 (if to_utc then timestamp - offset else timestamp + offset))"

definition convert_fixed :: "int \<Rightarrow> zone \<Rightarrow> bool \<Rightarrow> int \<Rightarrow> int option" where
  "convert_fixed ticks z to_utc timestamp =
     (let epoch_seconds = timestamp sdiv ticks;
          transition_times = (if to_utc then tz_instants z else utc_instants z);
          idx = upper_bound transition_times epoch_seconds
      in if 0 < idx \<and> idx \<le> length (utc_offsets z)
         then Some (shift_timestamp ticks to_utc (utc_offsets z ! (idx - 1)) timestamp) else None)"

definition convert_timestamp :: "int \<Rightarrow> zone \<Rightarrow> bool \<Rightarrow> int \<Rightarrow> int option" where
  "convert_timestamp ticks z to_utc timestamp =
     (let epoch_seconds = timestamp sdiv ticks;
          transition_times = (if to_utc then tz_instants z else utc_instants z);
          list_size = length transition_times
      in if length (dst_integers z) > 0 then
           if list_size = 0 then None
           else do { (rule1, rule2) \<leftarrow> create_dst_rules (dst_integers z);
                     (if epoch_seconds > transition_times ! (list_size - 1)
                      then let offset_seconds = (if to_utc then get_offset_for_local_time epoch_seconds rule1 rule2
                                                 else get_offset_for_utc_time epoch_seconds rule1 rule2)
                           in Some (shift_timestamp ticks to_utc offset_seconds timestamp)
                      else convert_fixed ticks z to_utc timestamp) }
         else convert_fixed ticks z to_utc timestamp)"

section \<open>Columns\<close>

definition convert_timestamp_tz :: "int \<Rightarrow> column \<Rightarrow> zone list \<Rightarrow> nat \<Rightarrow> bool \<Rightarrow> type_id \<times> int option list \<times> bool list" where
  "convert_timestamp_tz ticks input transitions tz_index to_utc =
     (col_type input, map (convert_timestamp ticks (transitions ! tz_index) to_utc) (col_data input), col_valid input)"

definition convert_timestamp_column ::
  "column \<Rightarrow> zone list \<Rightarrow> nat \<Rightarrow> bool \<Rightarrow> (type_id \<times> int option list \<times> bool list) option" where
  "convert_timestamp_column input transitions tz_index to_utc =
     (case col_type input of
        TIMESTAMP_SECONDS \<Rightarrow> Some (convert_timestamp_tz 1 input transitions tz_index to_utc)
      | TIMESTAMP_MILLISECONDS \<Rightarrow> Some (convert_timestamp_tz 1000 input transitions tz_index to_utc)
      | TIMESTAMP_MICROSECONDS \<Rightarrow> Some (convert_timestamp_tz 1000000 input transitions tz_index to_utc)
      | TIMESTAMP_NANOSECONDS \<Rightarrow> Some (convert_timestamp_tz 1000000000 input transitions tz_index to_utc)
      | _ \<Rightarrow> None)"

definition convert_timestamp_to_utc ::
  "column \<Rightarrow> zone list \<Rightarrow> nat \<Rightarrow> (type_id \<times> int option list \<times> bool list) option" where
  "convert_timestamp_to_utc input transitions tz_index = convert_timestamp_column input transitions tz_index True"

definition convert_utc_timestamp_to_timezone ::
  "column \<Rightarrow> zone list \<Rightarrow> nat \<Rightarrow> (type_id \<times> int option list \<times> bool list) option" where
  "convert_utc_timestamp_to_timezone input transitions tz_index = convert_timestamp_column input transitions tz_index False"

text \<open>
  A row of a cast from string: the fields of its row, the result a null (\<open>Some None\<close>) or a timestamp
  in microseconds.
\<close>

record parsed_row =
  input_seconds :: int
  input_microseconds :: int
  invalid :: bool
  fixed_tz :: bool
  tz_offset :: int
  row_tz_index :: nat

definition convert_with_timezones_fn :: "zone list \<Rightarrow> parsed_row \<Rightarrow> int option option" where
  "convert_with_timezones_fn transitions r =
     (if invalid r then Some None
      else do { converted_seconds \<leftarrow>
                  (if fixed_tz r then Some (s64 (input_seconds r - tz_offset r))
                   else convert_timestamp 1 (transitions ! row_tz_index r) True (input_seconds r));
                Some (case get_timestamp_overflow converted_seconds (input_microseconds r) of
                        (overflowed, result) \<Rightarrow> if overflowed then None else Some result) })"

text \<open>The two flags are the checks of the types of the columns of seconds and microseconds.\<close>

datatype timezone_error = Seconds_Not_Int64 | Microseconds_Not_Int32

definition convert_to_utc_with_multiple_timezones ::
  "bool \<Rightarrow> bool \<Rightarrow> zone list \<Rightarrow> parsed_row list \<Rightarrow> timezone_error + int option option list" where
  "convert_to_utc_with_multiple_timezones seconds_int64 microseconds_int32 transitions rows =
     (if \<not> seconds_int64 then Inl Seconds_Not_Int64
      else if \<not> microseconds_int32 then Inl Microseconds_Not_Int32
      else Inr (map (convert_with_timezones_fn transitions) rows))"

section \<open>ORC time zones\<close>

definition get_transition_index :: "int list \<Rightarrow> int \<Rightarrow> int list \<Rightarrow> int \<Rightarrow> int" where
  "get_transition_index trans_begin time_ms offset_begin raw =
     (if trans_begin = [] then raw
      else let index = upper_bound trans_begin time_ms
           in if index = length trans_begin then raw
              else if trans_begin ! index = time_ms then offset_begin ! index
              else if index = 0 then raw
              else offset_begin ! (index - 1))"

record orc_zone =
  trans_times :: "int list"
  trans_offsets :: "int list"
  raw_offset :: int

definition convert_timestamp_between_timezones :: "int \<Rightarrow> orc_zone \<Rightarrow> orc_zone \<Rightarrow> int" where
  "convert_timestamp_between_timezones ts writer reader =
     (let epoch_millis = ts sdiv 1000;
          index = (\<lambda>z t. get_transition_index (trans_times z) t (trans_offsets z) (raw_offset z));
          writer_offset_millis = index writer epoch_millis;
          reader_offset_millis = index reader epoch_millis;
          adjusted_milliseconds = s64 (epoch_millis + s32 (writer_offset_millis - reader_offset_millis));
          reader_adjusted_offset = index reader adjusted_milliseconds;
          final_offset_millis = s32 (writer_offset_millis - reader_adjusted_offset)
      in s64 (ts + final_offset_millis * 1000))"

text \<open>A missing table, a null pointer, is a zone of fixed offset.\<close>

definition orc_zone_of :: "(int list \<times> int list) option \<Rightarrow> int \<Rightarrow> orc_zone" where
  "orc_zone_of tz_info_table raw =
     (case tz_info_table of
        None \<Rightarrow> \<lparr>trans_times = [], trans_offsets = [], raw_offset = raw\<rparr>
      | Some (t, os) \<Rightarrow> \<lparr>trans_times = t, trans_offsets = os, raw_offset = raw\<rparr>)"

definition convert_timezones ::
  "column \<Rightarrow> (int list \<times> int list) option \<Rightarrow> int \<Rightarrow> (int list \<times> int list) option \<Rightarrow> int \<Rightarrow> rebase_error + column" where
  "convert_timezones input writer_table writer_raw reader_table reader_raw =
     (if col_type input \<noteq> TIMESTAMP_MICROSECONDS then Inl Not_A_Timestamp
      else Inr (input\<lparr>col_data := map (\<lambda>ts. convert_timestamp_between_timezones ts
             (orc_zone_of writer_table writer_raw) (orc_zone_of reader_table reader_raw)) (col_data input)\<rparr>))"

section \<open>Tables of transitions\<close>

text \<open>
  What the builder of the tables (\<^verbatim>\<open>GpuTimeZoneDB.java\<close>) guarantees: the first entry is below every
  time, the instants increase, and the local instant of a transition is its UTC instant plus the
  larger of the offsets before and after it.
\<close>

definition wf_zone :: "zone \<Rightarrow> bool" where
  "wf_zone z \<longleftrightarrow> utc_instants z \<noteq> [] \<and> length (tz_instants z) = length (utc_instants z) \<and>
     length (utc_offsets z) = length (utc_instants z) \<and>
     hd (utc_instants z) = - (2 ^ 63) \<and> hd (tz_instants z) = - (2 ^ 63) \<and>
     sorted_wrt (<) (utc_instants z) \<and> sorted_wrt (<) (tz_instants z) \<and>
     (\<forall>i. 0 < i \<longrightarrow> i < length (utc_instants z) \<longrightarrow>
        tz_instants z ! i = utc_instants z ! i + max (utc_offsets z ! (i - 1)) (utc_offsets z ! i)) \<and>
     (\<forall>off \<in> set (utc_offsets z). \<bar>off\<bar> \<le> 64800)"

lemma upper_bound_eq:
  assumes "sorted_wrt (<) xs" "i < length xs" "xs ! i \<le> v" "i + 1 < length xs \<Longrightarrow> v < xs ! (i + 1)"
  shows "upper_bound xs v = i + 1"
proof -
  have "takeWhile (\<lambda>x. x \<le> v) xs = take (i + 1) xs"
  proof (rule takeWhile_eq_take_P_nth)
    fix j assume "j < i + 1" "j < length xs"
    then show "xs ! j \<le> v"
      using sorted_wrt_nth_less [OF assms(1), of j i] assms(2,3) by (cases "j = i") auto
  next
    assume "i + 1 < length xs"
    then show "\<not> xs ! (i + 1) \<le> v" using assms(4) by simp
  qed
  then show ?thesis using assms(2) by (simp add: upper_bound_def)
qed

text \<open>The entry in force at a time.\<close>

definition in_force :: "int list \<Rightarrow> nat \<Rightarrow> int \<Rightarrow> bool" where
  "in_force xs i v \<longleftrightarrow> i < length xs \<and> xs ! i \<le> v \<and> (i + 1 < length xs \<longrightarrow> v < xs ! (i + 1))"

lemma convert_fixed_in_force:
  assumes "wf_zone z" "in_force (if to_utc then tz_instants z else utc_instants z) i (t sdiv ticks)"
  shows "convert_fixed ticks z to_utc t = Some (shift_timestamp ticks to_utc (utc_offsets z ! i) t)"
proof -
  define xs where "xs = (if to_utc then tz_instants z else utc_instants z)"
  have xs: "sorted_wrt (<) xs" "length xs = length (utc_offsets z)" using assms(1) by (simp_all add: xs_def wf_zone_def)
  have i: "i < length xs" "xs ! i \<le> t sdiv ticks" "i + 1 < length xs \<Longrightarrow> t sdiv ticks < xs ! (i + 1)"
    using assms(2) by (simp_all add: in_force_def xs_def)
  show ?thesis
    using upper_bound_eq [OF xs(1) i] i(1) xs(2) by (simp add: convert_fixed_def Let_def xs_def [symmetric])
qed

text \<open>
  From UTC to local time the local instant falls in the period of the same entry, unless the local
  time is the second pass through the hours that a transition repeats.
\<close>

lemma in_force_local:
  assumes "wf_zone z" "in_force (utc_instants z) i s" "- (2 ^ 62) \<le> s"
    and "0 < i \<Longrightarrow> s \<ge> utc_instants z ! i + utc_offsets z ! (i - 1) - utc_offsets z ! i"
  shows "in_force (tz_instants z) i (s + utc_offsets z ! i)"
proof -
  have i: "i < length (utc_instants z)" "utc_instants z ! i \<le> s" using assms(2) by (simp_all add: in_force_def)
  have "tz_instants z ! i \<le> s + utc_offsets z ! i"
  proof (cases "i = 0")
    case True
    have "\<bar>utc_offsets z ! 0\<bar> \<le> 64800" using assms(1) i True by (auto simp: wf_zone_def)
    moreover have "tz_instants z ! 0 = - (2 ^ 63)" using assms(1) by (cases "tz_instants z") (auto simp: wf_zone_def)
    ultimately show ?thesis using True assms(3) by simp
  next
    case False
    then have "tz_instants z ! i = utc_instants z ! i + max (utc_offsets z ! (i - 1)) (utc_offsets z ! i)"
      using assms(1) i by (simp add: wf_zone_def)
    then show ?thesis using assms(4) False i(2) by (simp add: max_def)
  qed
  moreover have "s + utc_offsets z ! i < tz_instants z ! (i + 1)" if "i + 1 < length (utc_instants z)"
  proof -
    have "tz_instants z ! (i + 1) = utc_instants z ! (i + 1) + max (utc_offsets z ! i) (utc_offsets z ! (i + 1))"
      using assms(1) that by (simp add: wf_zone_def)
    moreover have "s < utc_instants z ! (i + 1)" using assms(2) that by (simp add: in_force_def)
    ultimately show ?thesis by (simp add: max_def)
  qed
  ultimately show ?thesis using i(1) assms(1) by (simp add: in_force_def wf_zone_def)
qed

text \<open>Whole seconds, and times after the epoch, are divided as on the number line.\<close>

lemma sdiv_whole: "0 < n \<Longrightarrow> n dvd t \<or> 0 \<le> t \<Longrightarrow> t sdiv n = t div n" for n t :: int
proof -
  assume n: "0 < n" and "n dvd t \<or> 0 \<le> t"
  from this(2) show "t sdiv n = t div n"
  proof
    assume "n dvd t"
    then obtain k where "t = n * k" ..
    then show ?thesis using n by (simp add: signed_divide_int_def abs_mult sgn_mult mult_sgn_abs)
  qed (use n in \<open>auto simp: signed_divide_int_def sgn_if\<close>)
qed

text \<open>
  C40: For a zone without daylight saving rules and timestamps of every resolution (\<open>ticks\<close> per second),
  converting a UTC timestamp to local time and back gives the timestamp again, when it is a number of
  whole seconds or neither the timestamp nor its local time is before the epoch, and it does not lie
  in the second pass through the hours that a transition repeats. Fractions of a second before the epoch
  are excluded: \<open>early_roundtrip_fails\<close> shows one that does not come back.
\<close>
theorem zone_roundtrip:
  assumes "wf_zone z" "dst_integers z = []" "0 < ticks" "ticks \<le> 1000000000"
    and "ticks dvd t \<or> 0 \<le> t \<and> 0 \<le> t + utc_offsets z ! i * ticks" "- (2 ^ 62) \<le> t" "t \<le> 2 ^ 62"
    and "in_force (utc_instants z) i (t sdiv ticks)"
    and "0 < i \<longrightarrow> t sdiv ticks \<ge> utc_instants z ! i + utc_offsets z ! (i - 1) - utc_offsets z ! i"
  shows "\<exists>l. convert_timestamp ticks z False t = Some l \<and> l = t + utc_offsets z ! i * ticks
    \<and> convert_timestamp ticks z True l = Some t"
proof -
  let ?o = "utc_offsets z ! i"
  have "?o \<in> set (utc_offsets z)" using assms(1,8) by (simp add: wf_zone_def in_force_def)
  then have o: "\<bar>?o\<bar> \<le> 64800" using assms(1) by (auto simp: wf_zone_def)
  have "\<bar>?o * ticks\<bar> \<le> 64800 * 1000000000" unfolding abs_mult using o assms(3,4) by (intro mult_mono) simp_all
  then have w: "s64 (?o * ticks) = ?o * ticks" "s64 (t + ?o * ticks) = t + ?o * ticks" "s64 t = t"
    using assms(6,7) by (auto intro!: s64_id)
  have d: "t sdiv ticks = t div ticks" "(t + ?o * ticks) sdiv ticks = t div ticks + ?o"
    using assms(3,5) sdiv_whole [of ticks t] sdiv_whole [of ticks "t + ?o * ticks"] by auto
  have "- (2 ^ 62) * ticks \<le> t" using assms(3,6) by simp
  from zdiv_mono1 [OF this assms(3)] have "- (2 ^ 62) \<le> t sdiv ticks"
    using nonzero_mult_div_cancel_right [of ticks "- (2 ^ 62)"] assms(3) d(1) by linarith
  note l = in_force_local [OF assms(1,8) this]
  have "convert_timestamp ticks z False t = Some (t + ?o * ticks)"
    using convert_fixed_in_force [OF assms(1), of False i t ticks] assms(2,8)
    by (simp add: convert_timestamp_def shift_timestamp_def w)
  moreover have "in_force (tz_instants z) i (t div ticks + ?o)" using l assms(9) d(1) by simp
  then have "convert_timestamp ticks z True (t + ?o * ticks) = Some t"
    using convert_fixed_in_force [OF assms(1), of True i "t + ?o * ticks" ticks] assms(2) d(2)
    by (simp add: convert_timestamp_def shift_timestamp_def w)
  ultimately show ?thesis by blast
qed

definition demo_zone :: zone where
  "demo_zone = \<lparr>utc_instants = [- (2 ^ 63), - 1000, 5000], tz_instants = [- (2 ^ 63), 2600, 8600],
     utc_offsets = [0, 3600, 0], dst_integers = []\<rparr>"

lemma demo_zone_wf: "wf_zone demo_zone"
  by (auto simp: wf_zone_def demo_zone_def nth_Cons' less_Suc_eq numeral_eq_Suc)

theorem zone_roundtrip_witness:
  "convert_timestamp 1000000 demo_zone False 100500000 = Some 3700500000
    \<and> convert_timestamp 1000000 demo_zone True 3700500000 = Some 100500000"
proof -
  have "in_force (utc_instants demo_zone) 1 (100500000 sdiv 1000000)" "utc_offsets demo_zone ! 1 = 3600"
    "utc_instants demo_zone ! 1 = - 1000" "utc_offsets demo_zone ! 0 = 0" "dst_integers demo_zone = []"
    by (simp_all add: in_force_def demo_zone_def signed_divide_int_def)
  then show ?thesis using zone_roundtrip [OF demo_zone_wf, of 1000000 100500000 1] by (simp add: signed_divide_int_def)
qed

text \<open>
  The seconds of a timestamp are truncated towards zero, so half a second before a transition
  in 1969 and earlier the offset after the transition is applied already.
\<close>
theorem early_transition:
  "convert_timestamp 1000000 demo_zone False (- 1000500000) = Some (- 1000500000 + 3600000000) \<and>
   utc_offsets demo_zone ! 0 = 0 \<and> - 1000500000 < utc_instants demo_zone ! 1 * 1000000"
  by code_simp

text \<open>The local time is then taken for one after the transition, and does not come back.\<close>

lemma early_roundtrip_fails:
  "Option.bind (convert_timestamp 1000000 demo_zone False (- 1000500000)) (convert_timestamp 1000000 demo_zone True)
     \<noteq> Some (- 1000500000)"
  by code_simp

end
