(* ===== verification/Hash.thy ===== *)
theory Hash
  imports Prelude
begin

text \<open>
  The Spark variant of the 32-bit Murmur hash (\<open>hash.cuh\<close>, \<open>murmur_hash.cuh\<close> and the row hasher
  of \<open>murmur_hash.cu\<close>): the mixing of blocks and tail bytes, the finalizer, the specialisations for
  each element type, the conversion of a decimal to the bytes of a Java \<open>BigDecimal\<close>, and the
  chaining of the columns of a row. \<open>int32_t\<close> and \<open>uint32_t\<close> values are both \<open>32 word\<close>: the code
  converts between them freely and none of the operations on them depends on the sign. Floating
  point values are their IEEE bit patterns. An object in memory is its list of bytes, in
  little-endian order on the device.
\<close>

unbundle bit_operations_syntax

section \<open>Bytes of an object\<close>


text \<open>\<open>reinterpret_cast\<close> of a scalar to its \<open>n\<close> bytes.\<close>

definition le_bytes :: "nat \<Rightarrow> 'a::len word \<Rightarrow> byte list" where
  "le_bytes n w = map (\<lambda>k. ucast (drop_bit (8 * k) w)) [0..<n]"

section \<open>Normalisation of floating point keys\<close>

definition is_nan32 :: "32 word \<Rightarrow> bool" where
  "is_nan32 x \<longleftrightarrow> x AND 0x7F800000 = 0x7F800000 \<and> x AND 0x007FFFFF \<noteq> 0"

definition is_nan64 :: "64 word \<Rightarrow> bool" where
  "is_nan64 x \<longleftrightarrow> x AND 0x7FF0000000000000 = 0x7FF0000000000000 \<and> x AND 0x000FFFFFFFFFFFFF \<noteq> 0"

definition normalize_nans32 :: "32 word \<Rightarrow> 32 word" where
  "normalize_nans32 key = (if is_nan32 key then 0x7FC00000 else key)"

definition normalize_nans64 :: "64 word \<Rightarrow> 64 word" where
  "normalize_nans64 key = (if is_nan64 key then 0x7FF8000000000000 else key)"

text \<open>A floating point number equals \<open>0.0\<close> when it is the positive or the negative zero.\<close>

definition normalize_nans_and_zeros32 :: "32 word \<Rightarrow> 32 word" where
  "normalize_nans_and_zeros32 key = (if key AND 0x7FFFFFFF = 0 then 0 else normalize_nans32 key)"

definition normalize_nans_and_zeros64 :: "64 word \<Rightarrow> 64 word" where
  "normalize_nans_and_zeros64 key =
     (if key AND 0x7FFFFFFFFFFFFFFF = 0 then 0 else normalize_nans64 key)"

section \<open>Decimals as Java big decimals\<close>

text \<open>
  The result is the 128-bit integer of the code, given as its sixteen bytes, and the number of
  bytes that count.
\<close>

definition to_java_bigdecimal :: "128 word \<Rightarrow> byte list \<times> nat" where
  "to_java_bigdecimal val =
     (let key_size = 16;
          data = le_bytes key_size val;
          is_negative = val <s 0;
          zero_value = (if is_negative then 0xFF else 0);
          first_nonzero_byte = size (dropWhile (\<lambda>v. v = zero_value) (rev data));
          len = max 1 first_nonzero_byte;
          len = (if len < key_size \<and> is_negative \<noteq> (data ! (len - 1) AND 0x80 \<noteq> 0)
                 then len + 1 else len);
          big_endian_data = rev (take len data) @ replicate (key_size - len) 0
      in (big_endian_data, len))"

section \<open>Murmur hash of bytes\<close>

definition rotate_bits_left :: "32 word \<Rightarrow> nat \<Rightarrow> 32 word" where
  "rotate_bits_left x r = push_bit r x OR drop_bit (32 - r) x"

definition murmur_c1 :: "32 word" where "murmur_c1 = 0xcc9e2d51"
definition murmur_c2 :: "32 word" where "murmur_c2 = 0x1b873593"
definition murmur_c3 :: "32 word" where "murmur_c3 = 0xe6546b64"

definition fmix32 :: "32 word \<Rightarrow> 32 word" where
  "fmix32 h =
     (let h = h XOR drop_bit 16 h;
          h = h * 0x85ebca6b;
          h = h XOR drop_bit 13 h;
          h = h * 0xc2b2ae35
      in h XOR drop_bit 16 h)"

definition getblock32 :: "byte list \<Rightarrow> nat \<Rightarrow> 32 word" where
  "getblock32 data offset =
     ucast (data ! offset) OR push_bit 8 (ucast (data ! (offset + 1)))
       OR push_bit 16 (ucast (data ! (offset + 2))) OR push_bit 24 (ucast (data ! (offset + 3)))"

text \<open>The loop body shared by the blocks and the tail.\<close>

definition murmur_mix :: "32 word \<Rightarrow> 32 word \<Rightarrow> 32 word" where
  "murmur_mix h k1 =
     (let k1 = k1 * murmur_c1;
          k1 = rotate_bits_left k1 15;
          k1 = k1 * murmur_c2;
          h = h XOR k1;
          h = rotate_bits_left h 13
      in h * 5 + murmur_c3)"

definition compute_remaining_bytes :: "byte list \<Rightarrow> nat \<Rightarrow> nat \<Rightarrow> 32 word \<Rightarrow> 32 word" where
  "compute_remaining_bytes data len tail_offset h =
     fold (\<lambda>i h. murmur_mix h (scast (data ! i))) [tail_offset..<len] h"

definition compute_bytes :: "32 word \<Rightarrow> byte list \<Rightarrow> 32 word" where
  "compute_bytes m_seed data =
     (let len = length data;
          nblocks = len div 4;
          tail_offset = nblocks * 4;
          h = fold (\<lambda>i h. murmur_mix h (getblock32 data (i * 4))) [0..<nblocks] m_seed;
          h = compute_remaining_bytes data len tail_offset h
      in fmix32 (h XOR of_nat len))"

section \<open>Elements and rows\<close>

text \<open>The element types of a column that is not nested.\<close>

datatype element =
    BoolE bool
  | Int8E "8 word" | UInt8E "8 word" | Int16E "16 word" | UInt16E "16 word"
  | Word32E "32 word" | Word64E "64 word"
  | FloatE "32 word" | DoubleE "64 word"
  | StringE "byte list"
  | Decimal32E "32 word" | Decimal64E "64 word" | Decimal128E "128 word"

primrec MurmurHash3_32 :: "32 word \<Rightarrow> element \<Rightarrow> 32 word" where
  "MurmurHash3_32 seed (BoolE key) = compute_bytes seed (le_bytes 4 (of_bool key :: 32 word))"
| "MurmurHash3_32 seed (Int8E key) = compute_bytes seed (le_bytes 4 (scast key :: 32 word))"
| "MurmurHash3_32 seed (UInt8E key) = compute_bytes seed (le_bytes 4 (ucast key :: 32 word))"
| "MurmurHash3_32 seed (Int16E key) = compute_bytes seed (le_bytes 4 (scast key :: 32 word))"
| "MurmurHash3_32 seed (UInt16E key) = compute_bytes seed (le_bytes 4 (ucast key :: 32 word))"
| "MurmurHash3_32 seed (Word32E key) = compute_bytes seed (le_bytes 4 key)"
| "MurmurHash3_32 seed (Word64E key) = compute_bytes seed (le_bytes 8 key)"
| "MurmurHash3_32 seed (FloatE key) = compute_bytes seed (le_bytes 4 (normalize_nans32 key))"
| "MurmurHash3_32 seed (DoubleE key) = compute_bytes seed (le_bytes 8 (normalize_nans64 key))"
| "MurmurHash3_32 seed (StringE key) = compute_bytes seed key"
| "MurmurHash3_32 seed (Decimal32E key) = compute_bytes seed (le_bytes 8 (scast key :: 64 word))"
| "MurmurHash3_32 seed (Decimal64E key) = compute_bytes seed (le_bytes 8 key)"
| "MurmurHash3_32 seed (Decimal128E key) =
     (let (bytes, len) = to_java_bigdecimal key in compute_bytes seed (take len bytes))"

text \<open>
  A row of columns that are not nested; \<open>None\<close> is a null, whose hash is the seed. The hash of a
  column is the seed of the next.
\<close>

definition hash_element :: "element option \<Rightarrow> 32 word \<Rightarrow> 32 word" where
  "hash_element e seed = (case e of None \<Rightarrow> seed | Some x \<Rightarrow> MurmurHash3_32 seed x)"

definition murmur_device_row_hasher :: "32 word \<Rightarrow> element option list \<Rightarrow> 32 word" where
  "murmur_device_row_hasher seed row = fold hash_element row seed"

text \<open>The types of the columns of a table, for the check of unsupported nesting.\<close>

datatype column_type = FlatT | ListT column_type | StructT "column_type list"

datatype hash_error = List_of_struct

primrec check_column :: "column_type \<Rightarrow> hash_error option" where
  "check_column FlatT = None"
| "check_column (ListT c) =
     (case c of StructT _ \<Rightarrow> Some List_of_struct | _ \<Rightarrow> check_column c)"
| "check_column (StructT cs) = List.find (\<lambda>_. True) (List.map_filter id (map check_column cs))"

definition check_hash_compatibility :: "column_type list \<Rightarrow> hash_error option" where
  "check_hash_compatibility cs = List.find (\<lambda>_. True) (List.map_filter check_column cs)"

section \<open>Every mixing step is invertible\<close>

lemma rotate_bits_left_inv:
  assumes "0 < r" "r < 32"
  shows "rotate_bits_left (rotate_bits_left x r) (32 - r) = x"
  using assms unfolding rotate_bits_left_def
  by (intro bit_word_eqI) (auto simp: bit_simps)

lemma inj_rotate_bits_left: "0 < r \<Longrightarrow> r < 32 \<Longrightarrow> inj (\<lambda>x. rotate_bits_left x r)"
  by (rule inj_on_inverseI [where g = "\<lambda>y. rotate_bits_left y (32 - r)"])
    (simp add: rotate_bits_left_inv)

lemma xorshift_inv:
  fixes x :: "32 word"
  assumes "32 \<le> 3 * r" "y = x XOR drop_bit r x"
  shows "y XOR drop_bit r y XOR drop_bit (r + r) y = x"
  using assms by (intro bit_word_eqI) (auto simp: bit_simps add.assoc dest: bit_imp_le_length)

lemma inj_xorshift: "32 \<le> 3 * r \<Longrightarrow> inj (\<lambda>x :: 32 word. x XOR drop_bit r x)"
  by (rule inj_on_inverseI [where g = "\<lambda>y. y XOR drop_bit r y XOR drop_bit (r + r) y"])
    (simp only: xorshift_inv [OF _ refl])

text \<open>An odd constant has an inverse modulo a power of two.\<close>

lemma inj_mult_unit: "c * d = 1 \<Longrightarrow> inj (\<lambda>x :: 'a::len word. x * c)"
  by (rule inj_on_inverseI [where g = "\<lambda>y. y * d"]) (simp add: mult.assoc)

lemma inj_xor_const: "inj (\<lambda>x :: 'a::len word. x XOR k)"
  by (rule inj_on_inverseI [where g = "\<lambda>y. y XOR k"]) (simp add: xor.assoc)

lemma fmix32_inj: "inj fmix32"
proof -
  have eq: "fmix32 = (\<lambda>h. h XOR drop_bit 16 h) \<circ> (\<lambda>h. h * 0xc2b2ae35) \<circ> (\<lambda>h. h XOR drop_bit 13 h)
      \<circ> (\<lambda>h. h * 0x85ebca6b) \<circ> (\<lambda>h. h XOR drop_bit 16 h)"
    by (simp add: fun_eq_iff fmix32_def Let_def)
  have c: "inj (\<lambda>h :: 32 word. h * 0xc2b2ae35)"
    by (rule inj_mult_unit [where d = "0x7ed1b41d"]) simp
  have d: "inj (\<lambda>h :: 32 word. h * 0x85ebca6b)"
    by (rule inj_mult_unit [where d = "0xa5cb9243"]) simp
  show ?thesis unfolding eq by (intro inj_compose inj_xorshift c d) simp_all
qed

lemma inj_times5: "inj (\<lambda>h :: 32 word. h * 5 + murmur_c3)"
proof -
  have "inj (\<lambda>h :: 32 word. h * 5)"
    by (rule inj_mult_unit [where d = "0xcccccccd"]) simp
  then show ?thesis by (simp add: inj_def)
qed

lemma murmur_mix_inj_hash: "inj (\<lambda>h. murmur_mix h k)"
proof -
  let ?k = "rotate_bits_left (k * murmur_c1) 15 * murmur_c2"
  have "(\<lambda>h. murmur_mix h k) = (\<lambda>h. h * 5 + murmur_c3) \<circ> (\<lambda>h. rotate_bits_left h 13) \<circ> (\<lambda>h. h XOR ?k)"
    by (simp add: fun_eq_iff murmur_mix_def Let_def)
  then show ?thesis by (simp add: inj_compose inj_times5 inj_rotate_bits_left inj_xor_const)
qed

lemma murmur_mix_inj_key: "inj (murmur_mix h)"
proof -
  have "murmur_mix h = (\<lambda>h. h * 5 + murmur_c3) \<circ> (\<lambda>h. rotate_bits_left h 13) \<circ> (\<lambda>k. k XOR h)
      \<circ> (\<lambda>k. k * murmur_c2) \<circ> (\<lambda>k. rotate_bits_left k 15) \<circ> (\<lambda>k. k * murmur_c1)"
    by (simp add: fun_eq_iff murmur_mix_def Let_def xor.commute)
  moreover have "inj (\<lambda>k. k * murmur_c1)"
    by (rule inj_mult_unit [where d = "0xdee13bb1"]) (simp add: murmur_c1_def)
  moreover have "inj (\<lambda>k. k * murmur_c2)"
    by (rule inj_mult_unit [where d = "0x56ed309b"]) (simp add: murmur_c2_def)
  ultimately show ?thesis
    by (simp add: inj_compose inj_times5 inj_rotate_bits_left inj_xor_const)
qed

lemma inj_fold: "(\<And>x. inj (f x)) \<Longrightarrow> inj (fold f xs)"
  by (induction xs) (simp_all add: inj_compose)

text \<open>For fixed bytes the hash is an injective function of the seed.\<close>

lemma compute_bytes_inj_seed: "inj (\<lambda>seed. compute_bytes seed data)"
proof -
  let ?n = "length data div 4"
  have "(\<lambda>seed. compute_bytes seed data) = fmix32 \<circ> (\<lambda>h. h XOR of_nat (length data))
      \<circ> fold (\<lambda>i h. murmur_mix h (scast (data ! i))) [?n * 4..<length data]
      \<circ> fold (\<lambda>i h. murmur_mix h (getblock32 data (i * 4))) [0..<?n]"
    by (simp add: fun_eq_iff compute_bytes_def compute_remaining_bytes_def Let_def)
  then show ?thesis
    by (simp add: inj_compose fmix32_inj inj_xor_const inj_fold murmur_mix_inj_hash)
qed

lemma MurmurHash3_32_inj_seed: "inj (\<lambda>seed. MurmurHash3_32 seed e)"
  using compute_bytes_inj_seed by (cases e) (simp_all add: split_beta inj_def)

lemma hash_element_inj: "inj (hash_element e)"
  using MurmurHash3_32_inj_seed by (cases e) (simp_all add: hash_element_def inj_def)

text \<open>The four little-endian bytes of a word are read back as the word.\<close>

lemma length_le_bytes [simp]: "length (le_bytes n w) = n"
  by (simp add: le_bytes_def)

lemma nth_le_bytes: "k < n \<Longrightarrow> le_bytes n w ! k = ucast (drop_bit (8 * k) w)"
  by (simp add: le_bytes_def)

lemma getblock32_le_bytes: "getblock32 (le_bytes 4 w) 0 = (w :: 32 word)"
proof (rule bit_word_eqI)
  fix n assume "n < LENGTH(32)"
  then consider "n < 8" | "8 \<le> n" "n < 16" | "16 \<le> n" "n < 24" | "24 \<le> n" "n < 32"
    by fastforce
  then show "bit (getblock32 (le_bytes 4 w) 0) n = bit w n"
    by cases (auto simp: getblock32_def nth_le_bytes bit_simps simp del: push_bit_numeral)
qed

lemma compute_bytes_word: "compute_bytes seed (le_bytes 4 w) = fmix32 (murmur_mix seed w XOR 4)"
  for w :: "32 word"
  by (simp add: compute_bytes_def compute_remaining_bytes_def Let_def getblock32_le_bytes)

section \<open>Java big decimals\<close>

text \<open>The value of the bytes of a two's complement big-endian integer, as Java reads them.\<close>

definition be_unsigned :: "byte list \<Rightarrow> int" where
  "be_unsigned bs = foldl (\<lambda>a b. a * 256 + uint b) 0 bs"

definition be_value :: "byte list \<Rightarrow> int" where
  "be_value bs =
     (if bs \<noteq> [] \<and> bit (hd bs) 7 then be_unsigned bs - 256 ^ length bs else be_unsigned bs)"

text \<open>An integer fits into \<open>k\<close> bytes when it is in the range of that width.\<close>

definition fits_bytes :: "nat \<Rightarrow> int \<Rightarrow> bool" where
  "fits_bytes k x \<longleftrightarrow> 0 < k \<and> - (2 ^ (8 * k - 1)) \<le> x \<and> x < 2 ^ (8 * k - 1)"

lemma le_bytes_Suc: "le_bytes (Suc n) w = le_bytes n w @ [ucast (drop_bit (8 * n) w)]"
  by (simp add: le_bytes_def)

lemma take_le_bytes: "m \<le> n \<Longrightarrow> take m (le_bytes n w) = le_bytes m w"
  by (simp add: le_bytes_def take_map)

lemma foldl_le_bytes:
  "foldl (\<lambda>a b. a * 256 + uint b) a (rev (le_bytes n w)) = a * 256 ^ n + take_bit (8 * n) (uint w)"
proof (induction n arbitrary: a)
  case (Suc n)
  have "take_bit (8 * n + 8) (uint w)
      = take_bit (8 * n) (uint w) + 2 ^ (8 * n) * take_bit 8 (drop_bit (8 * n) (uint w))"
    by (simp add: take_bit_eq_mod drop_bit_eq_div power_add mod_mult2_eq zmod_zmult2_eq)
  moreover have "uint (ucast (drop_bit (8 * n) w) :: byte) = take_bit 8 (drop_bit (8 * n) (uint w))"
    by (rule bit_eqI) (auto simp: bit_simps dest: bit_imp_le_length)
  moreover have "(256 :: int) ^ n = 2 ^ (8 * n)" by (simp add: power_mult)
  ultimately show ?case using Suc by (simp add: le_bytes_Suc add.commute distrib_right)
qed (simp add: le_bytes_def)

lemma be_value_le_bytes:
  assumes "0 < n"
  shows "be_value (rev (le_bytes n w)) = signed_take_bit (8 * n - 1) (uint w)"
proof -
  from assms obtain m where n: "n = Suc m" by (cases n) auto
  have "hd (rev (le_bytes n w)) = ucast (drop_bit (8 * m) w)" by (simp add: n le_bytes_Suc)
  then have "bit (hd (rev (le_bytes n w))) 7 = bit (uint w) (8 * n - 1)"
    by (simp add: n bit_simps add.commute)
  moreover have "rev (le_bytes n w) \<noteq> []" by (simp add: n le_bytes_Suc)
  moreover have "(256 :: int) ^ n = 2 ^ (8 * n)" by (simp add: power_mult)
  ultimately show ?thesis
    by (simp add: be_value_def be_unsigned_def foldl_le_bytes signed_take_bit_eq_take_bit_minus
        assms Suc_diff_1)
qed

lemma signed_take_bit_fits:
  fixes w :: "128 word"
  assumes "m < 128"
  shows "signed_take_bit m (sint w) = sint w \<longleftrightarrow> (\<forall>j. m \<le> j \<and> j < 128 \<longrightarrow> bit w j = bit w 127)"
proof -
  have bs: "bit (sint w) j = bit w (min 127 j)" for j
    using bit_imp_le_length [of w j]
    by (cases "j < 127"; cases "j = 127") (auto simp: bit_sint_iff min_def)
  have "signed_take_bit m (sint w) = sint w \<longleftrightarrow> (\<forall>j. bit w (min 127 (min j m)) = bit w (min 127 j))"
    by (simp add: bit_eq_iff bit_signed_take_bit_iff bs min.commute)
  also have "\<dots> \<longleftrightarrow> (\<forall>j. m \<le> j \<and> j < 128 \<longrightarrow> bit w j = bit w 127)"
  proof
    assume h: "\<forall>j. bit w (min 127 (min j m)) = bit w (min 127 j)"
    have "min 127 (min 127 m) = m" using assms by simp
    with h [rule_format, of 127] have "bit w m = bit w 127" by simp
    show "\<forall>j. m \<le> j \<and> j < 128 \<longrightarrow> bit w j = bit w 127"
    proof (intro allI impI)
      fix j assume j: "m \<le> j \<and> j < 128"
      then have "min 127 (min j m) = m" "min 127 j = j" by auto
      with h have "bit w m = bit w j" by metis
      with \<open>bit w m = bit w 127\<close> show "bit w j = bit w 127" by simp
    qed
  next
    assume h: "\<forall>j. m \<le> j \<and> j < 128 \<longrightarrow> bit w j = bit w 127"
    show "\<forall>j. bit w (min 127 (min j m)) = bit w (min 127 j)"
    proof
      fix j
      show "bit w (min 127 (min j m)) = bit w (min 127 j)"
        using h [rule_format, of m] h [rule_format, of "min 127 j"] assms
        by (cases "j \<le> m") (auto simp: min_def)
    qed
  qed
  finally show ?thesis .
qed

lemma fits_bytes_bits:
  fixes w :: "128 word"
  assumes "0 < k" "k \<le> 16"
  shows "fits_bytes k (sint w) \<longleftrightarrow> (\<forall>j. 8 * k - 1 \<le> j \<and> j < 128 \<longrightarrow> bit w j = bit w 127)"
proof -
  have "fits_bytes k (sint w) \<longleftrightarrow> signed_take_bit (8 * k - 1) (sint w) = sint w"
    using assms by (auto simp: fits_bytes_def signed_take_bit_int_eq_self_iff)
  then show ?thesis using assms by (simp add: signed_take_bit_fits)
qed

lemma length_dropWhile_rev:
  assumes "n = length (dropWhile P (rev xs))"
  shows "n \<le> length xs" "n \<le> k \<Longrightarrow> k < length xs \<Longrightarrow> P (xs ! k)"
    "0 < n \<Longrightarrow> \<not> P (xs ! (n - 1))"
  using assms by (induction xs rule: rev_induct)
    (auto simp: nth_append le_Suc_eq less_Suc_eq split: if_splits,
      drule length_pos_if_in_set, linarith)

text \<open>A byte is the filler exactly when all its bits are the sign of the value.\<close>

lemma filler_byte:
  fixes w :: "128 word"
  assumes "k < 16"
  shows "le_bytes 16 w ! k = (if w <s 0 then 0xFF else 0)
    \<longleftrightarrow> (\<forall>j. 8 * k \<le> j \<and> j < 8 * k + 8 \<longrightarrow> bit w j = bit w 127)"
proof -
  have s: "w <s 0 \<longleftrightarrow> bit w 127" using bit_last_iff [of w] by (simp add: word_sless_alt)
  have "(0xFF :: byte) = - 1" by simp
  then have f: "bit (if b then 0xFF else 0 :: byte) j = (b \<and> j < 8)" for b j
    by (simp only: bit_minus_1_iff if_bool_eq_conj) (simp add: exp_eq_0_imp_not_bit bit_simps)
  have "le_bytes 16 w ! k = (if w <s 0 then 0xFF else 0)
    \<longleftrightarrow> (\<forall>j<8. bit w (8 * k + j) = bit w 127)"
    using assms by (auto simp: bit_eq_iff nth_le_bytes bit_simps f s)
  also have "\<dots> \<longleftrightarrow> (\<forall>j. 8 * k \<le> j \<and> j < 8 * k + 8 \<longrightarrow> bit w j = bit w 127)"
    by (auto simp: le_iff_add)
  finally show ?thesis .
qed

lemma fits_bytes_mono: "fits_bytes k x \<Longrightarrow> k \<le> l \<Longrightarrow> fits_bytes l x"
proof -
  assume a: "fits_bytes k x" "k \<le> l"
  then have "(2 :: int) ^ (8 * k - 1) \<le> 2 ^ (8 * l - 1)" by (intro power_increasing) auto
  with a show ?thesis unfolding fits_bytes_def by linarith
qed

lemma sign_byte: "k < 16 \<Longrightarrow> le_bytes 16 w ! k AND 0x80 \<noteq> 0 \<longleftrightarrow> bit w (8 * k + 7)" for w :: "128 word"
proof -
  assume k: "k < 16"
  have "(0x80 :: byte) = push_bit 7 1" by simp
  then have "le_bytes 16 w ! k AND 0x80 \<noteq> 0 \<longleftrightarrow> bit (le_bytes 16 w ! k) 7"
    by (simp add: bit_iff_and_push_bit_not_eq_0)
  also have "\<dots> \<longleftrightarrow> bit w (8 * k + 7)" using k by (simp add: nth_le_bytes bit_simps)
  finally show ?thesis .
qed

lemma java_length_fits:
  fixes val :: "128 word"
  assumes "len = snd (to_java_bigdecimal val)"
  shows "0 < len" "len \<le> 16" "fits_bytes len (sint val)" "\<not> fits_bytes (len - 1) (sint val)"
proof -
  let ?z = "if val <s 0 then 0xFF else 0 :: byte"
  let ?d = "le_bytes 16 val"
  define n where "n = length (dropWhile (\<lambda>v. v = ?z) (rev ?d))"
  define m where "m = max 1 n"
  have s: "val <s 0 \<longleftrightarrow> bit val 127" using bit_last_iff [of val] by (simp add: word_sless_alt)
  note dw = length_dropWhile_rev [OF n_def]
  have m: "0 < m" "m \<le> 16" using dw(1) by (auto simp: m_def)
  have top: "bit val j = bit val 127" if "8 * m \<le> j" "j < 128" for j
  proof -
    have "?d ! (j div 8) = ?z" using that dw(2) [of "j div 8"] by (simp add: m_def)
    then show ?thesis using filler_byte [of "j div 8" val] that by simp
  qed
  have sb: "?d ! (m - 1) AND 0x80 \<noteq> 0 \<longleftrightarrow> bit val (8 * m - 1)"
    using m sign_byte [of "m - 1" val] by (cases m) (auto simp: add.commute)
  have len: "len = (if m < 16 \<and> bit val 127 \<noteq> bit val (8 * m - 1) then m + 1 else m)"
    using assms
    unfolding to_java_bigdecimal_def Let_def snd_conv n_def [symmetric]
    unfolding m_def [symmetric] sb s .
  show "0 < len" "len \<le> 16" using len m by auto
  have low: "bit val j = bit val 127" if "8 * len - 1 \<le> j" "j < 128" for j
  proof (cases "8 * m \<le> j")
    case False
    with that len m have "j = 8 * m - 1" "m = 16 \<or> bit val (8 * m - 1) = bit val 127"
      by (auto split: if_splits)
    then show ?thesis by auto
  qed (use top that in blast)
  show "fits_bytes len (sint val)"
    unfolding fits_bytes_bits [OF \<open>0 < len\<close> \<open>len \<le> 16\<close>] using low by blast
  show "\<not> fits_bytes (len - 1) (sint val)"
  proof (cases "len = m")
    case True
    show ?thesis
    proof (cases "m = 1")
      case False
      then have n: "1 < n" "m = n" by (auto simp: m_def)
      then have "n - 1 < 16" using m by simp
      note fb = filler_byte [OF this, of val]
      then obtain j where "8 * (n - 1) \<le> j" "j < 8 * (n - 1) + 8" "bit val j \<noteq> bit val 127"
        using dw(3) fb n by auto
      then show ?thesis using True n m by (auto simp: fits_bytes_bits intro!: exI [of _ j])
    qed (simp add: True fits_bytes_def)
  next
    case False
    then have "len - 1 = m" "bit val (8 * m - 1) \<noteq> bit val 127" "m < 16"
      using len by (auto split: if_splits)
    then show ?thesis using m by (auto simp: fits_bytes_bits intro!: exI [of _ "8 * m - 1"])
  qed
qed

text \<open>
  a 128-bit decimal is hashed over the shortest big-endian two's complement representation of
  its unscaled value: the bytes that count denote the value, their number is the least number of
  bytes that can hold it, and the rest of the sixteen bytes is zero.
\<close>

theorem java_bigdecimal_minimal:
  "case to_java_bigdecimal val of (bytes, len) \<Rightarrow>
     be_value (take len bytes) = sint val
     \<and> len = (LEAST k. fits_bytes k (sint val))
     \<and> length bytes = 16 \<and> drop len bytes = replicate (16 - len) 0"
proof -
  obtain bytes len where r: "to_java_bigdecimal val = (bytes, len)" by fastforce
  then have l: "len = snd (to_java_bigdecimal val)" by simp
  note f = java_length_fits [OF l]
  have b: "bytes = rev (le_bytes len val) @ replicate (16 - len) 0"
    using r f(2) by (auto simp: to_java_bigdecimal_def Let_def take_le_bytes)
  have t: "take len bytes = rev (le_bytes len val)" "length bytes = 16"
      "drop len bytes = replicate (16 - len) 0"
    using f(2) by (simp_all add: b)
  have "be_value (take len bytes) = signed_take_bit (8 * len - 1) (sint val)"
    using f(1,2) le_SucI by (simp add: t be_value_le_bytes sint_uint min_absorb1)
  also have "\<dots> = sint val"
    using f(1,3) by (auto simp: fits_bytes_def signed_take_bit_int_eq_self_iff)
  finally have v: "be_value (take len bytes) = sint val" .
  have "(LEAST k. fits_bytes k (sint val)) = len"
  proof (rule Least_equality)
    fix k assume k: "fits_bytes k (sint val)"
    show "len \<le> k"
    proof (rule ccontr)
      assume "\<not> len \<le> k"
      then have "k \<le> len - 1" by simp
      with k f(4) show False using fits_bytes_mono by blast
    qed
  qed (rule f(3))
  with r t v show ?thesis by simp
qed

section \<open>Rows\<close>

text \<open>The 32-bit integer that the hash of a small element is computed from.\<close>

fun int_key :: "element \<Rightarrow> 32 word option" where
  "int_key (BoolE k) = Some (of_bool k)"
| "int_key (Int8E k) = Some (scast k)"
| "int_key (UInt8E k) = Some (ucast k)"
| "int_key (Int16E k) = Some (scast k)"
| "int_key (UInt16E k) = Some (ucast k)"
| "int_key (Word32E k) = Some k"
| "int_key _ = None"

lemma MurmurHash3_32_int_key:
  "int_key e = Some k \<Longrightarrow> MurmurHash3_32 seed e = fmix32 (murmur_mix seed k XOR 4)"
  by (cases e) (auto simp: compute_bytes_word)

text \<open>
  C19: two rows that differ in one element only, where both elements are present and of a boolean or
  integer type of at most 32 bits (\<open>int_key\<close>), collide only when the two elements stand for the same
  integer, for every seed and whatever the other columns hold. Nothing is said of floating point
  elements, whose NaNs collide, of null elements, which leave the seed and collide with one key, and of
  longer types.
\<close>

theorem murmur_single_column_injective:
  assumes "int_key x = Some k" "int_key y = Some l"
  shows "murmur_device_row_hasher seed (before @ Some x # after)
       = murmur_device_row_hasher seed (before @ Some y # after) \<longleftrightarrow> k = l"
proof -
  let ?s = "fold hash_element before seed"
  have "murmur_device_row_hasher seed (before @ Some e # after)
      = fold hash_element after (MurmurHash3_32 ?s e)" for e
    by (simp add: murmur_device_row_hasher_def hash_element_def)
  then have "murmur_device_row_hasher seed (before @ Some x # after)
       = murmur_device_row_hasher seed (before @ Some y # after)
     \<longleftrightarrow> MurmurHash3_32 ?s x = MurmurHash3_32 ?s y"
    by (simp add: inj_eq [OF inj_fold] hash_element_inj)
  also have "\<dots> \<longleftrightarrow> k = l"
    by (simp add: assms MurmurHash3_32_int_key inj_eq [OF fmix32_inj]
        inj_eq [OF inj_xor_const] inj_eq [OF murmur_mix_inj_key])
  finally show ?thesis .
qed

theorem murmur_single_column_injective_witness:
  "murmur_device_row_hasher 42 [None, Some (Word32E 7), Some (StringE [104, 105])]
     \<noteq> murmur_device_row_hasher 42 [None, Some (Int8E (- 7)), Some (StringE [104, 105])]"
  using murmur_single_column_injective
    [of "Word32E 7" 7 "Int8E (- 7)" "- 7" 42 "[None]" "[Some (StringE [104, 105])]"]
  by simp

end
