(* ===== verification/Interleaving.thy ===== *)
theory Interleaving
  imports Main "HOL-Library.Multiset"
begin

text \<open>
  Threads that execute lists of atomic operations on a shared memory: the schedules of a set of
  threads, the execution of a schedule, and the interface of a memory whose operations commute,
  for which the schedule does not matter.
\<close>

section \<open>Schedules\<close>

text \<open>Each step of a schedule is the next operation of some thread.\<close>

inductive interleaves :: "'a list list \<Rightarrow> 'a list \<Rightarrow> bool" where
  finished: "(\<forall>t \<in> set ts. t = []) \<Longrightarrow> interleaves ts []"
| step: "i < length ts \<Longrightarrow> ts ! i = x # xs \<Longrightarrow> interleaves (ts[i := xs]) sched
    \<Longrightarrow> interleaves ts (x # sched)"

inductive_cases interleaves_ConsE: "interleaves ts (x # sched)"

lemma mset_concat_update:
  "i < length ts \<Longrightarrow> ts ! i = x # xs
    \<Longrightarrow> mset (concat ts) = add_mset x (mset (concat (ts[i := xs])))"
  by (induction ts arbitrary: i) (auto split: nat.splits)

lemma interleaves_mset: "interleaves ts sched \<Longrightarrow> mset sched = mset (concat ts)"
  by (induction rule: interleaves.induct) (auto simp: mset_concat_update)

text \<open>Executing the threads one after the other is a schedule.\<close>

lemma interleaves_concat: "interleaves ts (concat ts)"
proof (induction "length (concat ts)" arbitrary: ts)
  case 0
  then have "concat ts = []" "\<forall>t \<in> set ts. t = []" by simp_all
  then show ?case by (simp only: interleaves.finished)
next
  case (Suc n)
  then have "concat ts \<noteq> []" by (metis length_0_conv nat.distinct(1))
  then have "\<exists>t \<in> set ts. t \<noteq> []" by simp
  from split_list_first_prop [OF this] obtain pre t post
    where t: "ts = pre @ t # post" "t \<noteq> []" and e: "\<forall>t \<in> set pre. t = []" by auto
  then obtain x xs where "t = x # xs" by (cases t) auto
  with t have ts: "ts = pre @ (x # xs) # post" by simp
  then have u: "ts[length pre := xs] = pre @ xs # post" by simp
  have c: "concat pre = []" using e by simp
  have "interleaves (pre @ xs # post) (concat (pre @ xs # post))"
    using Suc(2) by (intro Suc(1)) (simp add: ts c)
  then have "interleaves ts (x # concat (pre @ xs # post))"
    using ts u by (intro interleaves.step [of "length pre" ts x xs]) simp_all
  then show ?case unfolding ts concat_append concat.simps c by simp
qed

section \<open>Execution\<close>

primrec run_steps :: "('op \<Rightarrow> 'm \<Rightarrow> 'm option) \<Rightarrow> 'op list \<Rightarrow> 'm \<Rightarrow> 'm option" where
  "run_steps step [] m = Some m"
| "run_steps step (x # xs) m = Option.bind (step x m) (run_steps step xs)"

lemma run_steps_append:
  "run_steps step (xs @ ys) m = Option.bind (run_steps step xs m) (run_steps step ys)"
  by (induction xs arbitrary: m) (auto split: bind_splits)

section \<open>Memories with commuting operations\<close>

locale commuting_memory =
  fixes step :: "'op \<Rightarrow> 'm \<Rightarrow> 'm option"
  assumes commute: "Option.bind (step a m) (step b) = Option.bind (step b m) (step a)"
begin

lemma run_move_front:
  "run_steps step (xs @ a # ys) m = run_steps step (a # xs @ ys) m"
proof (induction xs arbitrary: m)
  case (Cons x xs)
  have "run_steps step ((x # xs) @ a # ys) m
      = Option.bind (Option.bind (step x m) (step a)) (run_steps step (xs @ ys))"
    using Cons by (cases "step x m") simp_all
  also have "\<dots> = run_steps step (a # (x # xs) @ ys) m"
    by (subst commute) (cases "step a m"; simp)
  finally show ?case .
qed simp

lemma run_mset: "mset xs = mset ys \<Longrightarrow> run_steps step xs m = run_steps step ys m"
proof (induction xs arbitrary: ys m)
  case (Cons a xs)
  then have "a \<in> set ys" by (metis list.set_intros(1) set_mset_mset)
  then obtain us vs where ys: "ys = us @ a # vs" by (meson split_list)
  with Cons(2) have "mset xs = mset (us @ vs)" by simp
  with Cons(1) have "run_steps step xs = run_steps step (us @ vs)" by blast
  then show ?case by (simp add: ys run_move_front)
qed simp

text \<open>Every schedule of the threads has the effect of running them one after the other.\<close>

lemma run_interleaving:
  "interleaves ts sched \<Longrightarrow> run_steps step sched m = run_steps step (concat ts) m"
  by (rule run_mset) (rule interleaves_mset)

end

end
