(* ===== verification/BloomFilter.thy ===== *)
theory BloomFilter
  imports Hash Interleaving
begin

text \<open>
  The Spark bloom filter of \<open>bloom_filter.cu\<close>. A filter is the byte buffer the code works on: a
  header of three big-endian integers and the bits, which the kernels read and write as 32-bit
  words of the device. The kernel that inserts values is a list of atomic operations per thread,
  so that any interleaving of the threads can be considered. An access outside of the buffer is
  the value \<open>None\<close> of the kernels.
\<close>

unbundle bit_operations_syntax

section \<open>Interface of the bitmask helpers\<close>

text \<open>
  \<open>cudf::word_index\<close>, \<open>cudf::intra_word_index\<close> and \<open>cudf::num_bitmask_words\<close> are functions of
  cuDF. They are parameters of the model; their documentation promises the word that holds a bit
  of a bitmask of 32-bit words, the position in that word and the number of words for a number of
  bits.
\<close>

record bitmask_ops =
  word_index :: "nat \<Rightarrow> nat"
  intra_word_index :: "nat \<Rightarrow> nat"
  num_bitmask_words :: "nat \<Rightarrow> nat"

definition bitmask_ops_ok :: "bitmask_ops \<Rightarrow> bool" where
  "bitmask_ops_ok ops \<longleftrightarrow>
     (\<forall>i. word_index ops i = i div 32) \<and> (\<forall>i. intra_word_index ops i = i mod 32)
     \<and> (\<forall>n. num_bitmask_words ops n = (n + 31) div 32)"

section \<open>Header and buffer\<close>

record bloom_filter_header =
  version :: "32 word"
  num_hashes :: "32 word"
  num_longs :: "32 word"

definition bloom_filter_header_size :: nat where
  "bloom_filter_header_size = 12"

definition spark_bloom_filter_version :: "32 word" where
  "spark_bloom_filter_version = 1"

text \<open>Each \<open>CUDF_EXPECTS\<close>, and the failures of the allocation and of \<open>cudaMemsetAsync\<close>.\<close>

datatype bloom_error =
    Truncated_filter | Unexpected_version | Empty_filter | Length_mismatch | Invalid_buffer
  | Parameter_mismatch | Bad_alloc | Cuda_error | Out_of_bounds

type_synonym 'a bloom_result = "bloom_error + 'a"

definition bswap_32 :: "32 word \<Rightarrow> 32 word" where
  "bswap_32 x =
     push_bit 24 (x AND 0xFF) OR push_bit 8 (x AND 0xFF00)
       OR (drop_bit 8 x AND 0xFF00) OR drop_bit 24 x"

definition byte_swap_header :: "bloom_filter_header \<Rightarrow> bloom_filter_header" where
  "byte_swap_header header =
     \<lparr>version = bswap_32 (version header), num_hashes = bswap_32 (num_hashes header),
      num_longs = bswap_32 (num_longs header)\<rparr>"

text \<open>A header copied between a variable and the buffer.\<close>

definition header_bytes :: "bloom_filter_header \<Rightarrow> byte list" where
  "header_bytes h = le_bytes 4 (version h) @ le_bytes 4 (num_hashes h) @ le_bytes 4 (num_longs h)"

definition header_at :: "byte list \<Rightarrow> nat \<Rightarrow> bloom_filter_header" where
  "header_at buf p =
     \<lparr>version = getblock32 buf p, num_hashes = getblock32 buf (p + 4),
      num_longs = getblock32 buf (p + 8)\<rparr>"

definition pack_bloom_filter_header :: "bloom_filter_header \<Rightarrow> byte list" where
  "pack_bloom_filter_header header = header_bytes (byte_swap_header header)"

text \<open>The result is the header, the number of bitmask words and the number of bits.\<close>

definition unpack_bloom_filter ::
  "bitmask_ops \<Rightarrow> byte list \<Rightarrow> (bloom_filter_header \<times> nat \<times> 32 word) bloom_result" where
  "unpack_bloom_filter ops bloom_filter =
     (if length bloom_filter < bloom_filter_header_size then Inl Truncated_filter
      else
        let header_swizzled = header_at bloom_filter 0;
            header = byte_swap_header header_swizzled;
            bloom_filter_bits = num_longs header * 64;
            num_words = unat ((scast (num_longs header) :: 64 word) * 2)
        in
          if version header \<noteq> 1 then Inl Unexpected_version
          else if \<not> 0 <s bloom_filter_bits then Inl Empty_filter
          else if num_words \<noteq> num_bitmask_words ops (unat bloom_filter_bits)
          then Inl Length_mismatch
          else Inr (header, num_words, bloom_filter_bits))"

definition get_bloom_filter_stride :: "32 word \<Rightarrow> 32 word \<times> 32 word" where
  "get_bloom_filter_stride bloom_filter_longs =
     (let bloom_filter_size = (scast bloom_filter_longs :: 64 word) * 8;
          buf_size = of_nat bloom_filter_header_size + bloom_filter_size
      in (ucast bloom_filter_size, ucast buf_size))"

section \<open>Kernels\<close>

definition gpu_get_hash_mask :: "bitmask_ops \<Rightarrow> 32 word \<Rightarrow> 32 word \<Rightarrow> nat \<times> 32 word" where
  "gpu_get_hash_mask ops h bloom_filter_bits =
     (let index = unat ((if h <s 0 then NOT h else h) mod bloom_filter_bits);
          word_ix = word_index ops index XOR 1;
          bit_ix = intra_word_index ops index XOR 0x18
      in (word_ix, push_bit bit_ix 1))"

text \<open>A 32-bit word of the filter; the words start behind the header.\<close>

definition filter_word :: "byte list \<Rightarrow> nat \<Rightarrow> 32 word option" where
  "filter_word buf w =
     (let p = bloom_filter_header_size + 4 * w in
      if p + 4 \<le> length buf then Some (getblock32 buf p) else None)"

definition store_word :: "byte list \<Rightarrow> nat \<Rightarrow> 32 word \<Rightarrow> byte list" where
  "store_word buf w v =
     (let p = bloom_filter_header_size + 4 * w in take p buf @ le_bytes 4 v @ drop (p + 4) buf)"

definition atomicOr :: "nat \<times> 32 word \<Rightarrow> byte list \<Rightarrow> byte list option" where
  "atomicOr op buf =
     (case filter_word buf (fst op) of
        None \<Rightarrow> None
      | Some v \<Rightarrow> Some (store_word buf (fst op) (v OR snd op)))"

text \<open>The combined hashes of a value, in the order of the loops of both kernels.\<close>

definition bloom_hashes :: "32 word \<Rightarrow> 64 word \<Rightarrow> 32 word list" where
  "bloom_hashes n el =
     (let h1 = MurmurHash3_32 0 (Word64E el);
          h2 = MurmurHash3_32 h1 (Word64E el)
      in map (\<lambda>idx. h1 + of_nat idx * h2) [1..<Suc (nat (sint n))])"

text \<open>The operations of the thread of one row; a null row does nothing.\<close>

definition put_thread_ops ::
  "bitmask_ops \<Rightarrow> 32 word \<Rightarrow> 32 word \<Rightarrow> 64 word option \<Rightarrow> (nat \<times> 32 word) list" where
  "put_thread_ops ops bits n el =
     (case el of None \<Rightarrow> [] | Some v \<Rightarrow> map (\<lambda>h. gpu_get_hash_mask ops h bits) (bloom_hashes n v))"

definition gpu_bloom_filter_put ::
  "bitmask_ops \<Rightarrow> 32 word \<Rightarrow> 64 word option list \<Rightarrow> 32 word \<Rightarrow> byte list \<Rightarrow> byte list option" where
  "gpu_bloom_filter_put ops bits input n buf =
     run_steps atomicOr (concat (map (put_thread_ops ops bits n) input)) buf"

text \<open>The probe returns at the first bit that is not set.\<close>

primrec probe_loop :: "bitmask_ops \<Rightarrow> 32 word \<Rightarrow> byte list \<Rightarrow> 32 word list \<Rightarrow> bool option" where
  "probe_loop ops bits buf [] = Some True"
| "probe_loop ops bits buf (h # hs) =
     (let (word_ix, mask) = gpu_get_hash_mask ops h bits in
      case filter_word buf word_ix of
        None \<Rightarrow> None
      | Some v \<Rightarrow> if v AND mask = 0 then Some False else probe_loop ops bits buf hs)"

definition bloom_probe_functor ::
  "bitmask_ops \<Rightarrow> byte list \<Rightarrow> 32 word \<Rightarrow> 32 word \<Rightarrow> 64 word \<Rightarrow> bool option" where
  "bloom_probe_functor ops buf bits n input = probe_loop ops bits buf (bloom_hashes n input)"

section \<open>Operations\<close>

text \<open>
  The allocator is a parameter: whether a block of a size can be had. The contents of a fresh
  block are not defined, but the header and the zeros overwrite all of it.
\<close>

definition bloom_filter_create ::
  "(nat \<Rightarrow> bool) \<Rightarrow> 32 word \<Rightarrow> 32 word \<Rightarrow> byte list bloom_result" where
  "bloom_filter_create can_alloc n bloom_filter_longs =
     (let (bloom_filter_size, buf_size) = get_bloom_filter_stride bloom_filter_longs;
          buf_len = unat (scast buf_size :: 64 word);
          zero_len = unat (scast bloom_filter_size :: 64 word)
      in
        if \<not> can_alloc buf_len then Inl Bad_alloc
        else if buf_len < bloom_filter_header_size + zero_len then Inl Cuda_error
        else Inr (pack_bloom_filter_header
                    \<lparr>version = spark_bloom_filter_version, num_hashes = n,
                     num_longs = bloom_filter_longs\<rparr> @ replicate zero_len 0))"

definition bloom_filter_put ::
  "bitmask_ops \<Rightarrow> byte list \<Rightarrow> 64 word option list \<Rightarrow> byte list bloom_result" where
  "bloom_filter_put ops bloom_filter input =
     (case unpack_bloom_filter ops bloom_filter of
        Inl e \<Rightarrow> Inl e
      | Inr (header, words, bits) \<Rightarrow>
          if length bloom_filter \<noteq> words * 4 + bloom_filter_header_size then Inl Invalid_buffer
          else
            case gpu_bloom_filter_put ops bits input (num_hashes header) bloom_filter of
              None \<Rightarrow> Inl Out_of_bounds
            | Some buf \<Rightarrow> Inr buf)"

text \<open>
  A column of filters is the concatenation of its buffers and the number of rows; the code does
  not look at the offsets of the rows.
\<close>

definition bloom_filter_same :: "byte list \<Rightarrow> bloom_filter_header \<Rightarrow> nat \<Rightarrow> nat \<Rightarrow> bool" where
  "bloom_filter_same child header stride i \<longleftrightarrow> header_at child (stride * i) = header"

definition merged_word :: "byte list \<Rightarrow> nat \<Rightarrow> nat \<Rightarrow> nat \<Rightarrow> 32 word" where
  "merged_word child num_buffers stride w =
     (let src = (\<lambda>idx. getblock32 child (bloom_filter_header_size + idx * stride + 4 * w)) in
      fold (\<lambda>idx out. out OR src idx) [1..<num_buffers] (src 0))"

definition bloom_filter_merge ::
  "bitmask_ops \<Rightarrow> (nat \<Rightarrow> bool) \<Rightarrow> byte list \<Rightarrow> nat \<Rightarrow> byte list bloom_result" where
  "bloom_filter_merge ops can_alloc child rows =
     (case unpack_bloom_filter ops child of
        Inl e \<Rightarrow> Inl e
      | Inr (header, words, bits) \<Rightarrow>
          if length child \<noteq> (words * 4 + bloom_filter_header_size) * rows then Inl Invalid_buffer
          else
            let (bloom_filter_size, buf_size) = get_bloom_filter_stride (num_longs header);
                stride = unat (scast buf_size :: 64 word);
                header_swizzled = byte_swap_header header
            in
              if \<not> list_all (bloom_filter_same child header_swizzled stride) [1..<rows]
              then Inl Parameter_mismatch
              else if \<not> can_alloc stride then Inl Bad_alloc
              else
                let num_words = nat (sint (num_longs header * 2)) in
                Inr (pack_bloom_filter_header header
                     @ concat (map (\<lambda>w. le_bytes 4 (merged_word child rows stride w)) [0..<num_words])))"

definition probe_row ::
  "bitmask_ops \<Rightarrow> byte list \<Rightarrow> 32 word \<Rightarrow> 32 word \<Rightarrow> 64 word option \<Rightarrow> bool option bloom_result" where
  "probe_row ops buf bits n el =
     (case el of
        None \<Rightarrow> Inr None
      | Some v \<Rightarrow>
          (case bloom_probe_functor ops buf bits n v of None \<Rightarrow> Inl Out_of_bounds | Some b \<Rightarrow> Inr (Some b)))"

primrec probe_rows ::
  "bitmask_ops \<Rightarrow> byte list \<Rightarrow> 32 word \<Rightarrow> 32 word \<Rightarrow> 64 word option list
     \<Rightarrow> bool option list bloom_result" where
  "probe_rows ops buf bits n [] = Inr []"
| "probe_rows ops buf bits n (el # els) =
     (case probe_row ops buf bits n el of
        Inl e \<Rightarrow> Inl e
      | Inr b \<Rightarrow> (case probe_rows ops buf bits n els of Inl e \<Rightarrow> Inl e | Inr bs \<Rightarrow> Inr (b # bs)))"

definition bloom_filter_probe ::
  "bitmask_ops \<Rightarrow> 64 word option list \<Rightarrow> byte list \<Rightarrow> bool option list bloom_result" where
  "bloom_filter_probe ops input bloom_filter =
     (case unpack_bloom_filter ops bloom_filter of
        Inl e \<Rightarrow> Inl e
      | Inr (header, words, bits) \<Rightarrow>
          if length bloom_filter \<noteq> words * 4 + bloom_filter_header_size then Inl Invalid_buffer
          else probe_rows ops bloom_filter bits (num_hashes header) input)"

section \<open>Bits of the buffer\<close>

lemma bit_getblock32:
  "bit (getblock32 data p) b \<longleftrightarrow> b < 32 \<and> bit (data ! (p + b div 8)) (b mod 8)"
proof (cases "b < 32")
  case True
  then consider "b < 8" | "8 \<le> b" "b < 16" | "16 \<le> b" "b < 24" | "24 \<le> b" "b < 32" by fastforce
  then show ?thesis
  proof cases
    case 1
    then show ?thesis by (auto simp: getblock32_def bit_simps simp del: push_bit_numeral)
  next
    case 2
    then have "b div 8 = 1" "b mod 8 = b - 8" by (auto simp: mod_if div_if)
    with 2 show ?thesis
      by (auto simp: getblock32_def bit_simps simp del: push_bit_numeral dest: bit_imp_le_length)
  next
    case 3
    then have "b div 8 = 2" "b mod 8 = b - 16" by (auto simp: mod_if div_if)
    with 3 show ?thesis
      by (auto simp: getblock32_def bit_simps simp del: push_bit_numeral dest: bit_imp_le_length)
  next
    case 4
    then have "b div 8 = 3" "b mod 8 = b - 24" by (auto simp: mod_if div_if)
    with 4 show ?thesis
      by (auto simp: getblock32_def bit_simps simp del: push_bit_numeral dest: bit_imp_le_length)
  qed
qed (auto dest: bit_imp_le_length)

text \<open>The byte of a mask that an atomic operation combines with byte \<open>k\<close> of the buffer.\<close>

definition mask_byte :: "nat \<times> 32 word \<Rightarrow> nat \<Rightarrow> byte" where
  "mask_byte op k =
     (let p = bloom_filter_header_size + 4 * fst op in
      if p \<le> k \<and> k < p + 4 then ucast (drop_bit (8 * (k - p)) (snd op)) else 0)"

definition in_buffer :: "nat \<times> 32 word \<Rightarrow> nat \<Rightarrow> bool" where
  "in_buffer op n \<longleftrightarrow> bloom_filter_header_size + 4 * fst op + 4 \<le> n"

lemma atomicOr_eq:
  "atomicOr op buf =
     (if in_buffer op (length buf) then Some (map (\<lambda>k. buf ! k OR mask_byte op k) [0..<length buf])
      else None)"
proof -
  let ?p = "bloom_filter_header_size + 4 * fst op"
  let ?v = "getblock32 buf ?p OR snd op"
  have "take ?p buf @ le_bytes 4 ?v @ drop (?p + 4) buf
      = map (\<lambda>k. buf ! k OR mask_byte op k) [0..<length buf]" (is "?l = ?r")
    if p: "?p + 4 \<le> length buf"
  proof (rule nth_equalityI)
    show "length ?l = length ?r" using p by simp
    fix k assume "k < length ?l"
    then have k: "k < length buf" using p by simp
    consider "k < ?p" | j where "k = ?p + j" "j < 4" | "?p + 4 \<le> k" 
      by (metis add_less_cancel_left le_iff_add linorder_not_less)
    then show "?l ! k = ?r ! k"
    proof cases
      case 1
      with p k show ?thesis by (simp add: nth_append mask_byte_def)
    next
      case 2
      have "?l ! k = ucast (drop_bit (8 * j) ?v)"
        using 2 p by (simp add: nth_append nth_le_bytes)
      moreover have "?r ! k = buf ! k OR ucast (drop_bit (8 * j) (snd op))"
        using 2 k by (simp add: mask_byte_def)
      moreover have "ucast (drop_bit (8 * j) ?v) = buf ! k OR (ucast (drop_bit (8 * j) (snd op)) :: byte)"
        using 2 by (intro bit_word_eqI) (auto simp: bit_simps bit_getblock32)
      ultimately show ?thesis by simp
    next
      case 3
      then obtain j where "k = ?p + 4 + j" using le_iff_add by blast
      with p k show ?thesis by (simp add: nth_append mask_byte_def)
    qed
  qed
  then show ?thesis
    by (simp add: atomicOr_def filter_word_def store_word_def in_buffer_def Let_def)
qed

lemma atomicOr_commute:
  "Option.bind (atomicOr a buf) (atomicOr b) = Option.bind (atomicOr b buf) (atomicOr a)"
  by (auto simp: atomicOr_eq ac_simps)

interpretation filter_memory: commuting_memory atomicOr
  by unfold_locales (rule atomicOr_commute)

text \<open>The effect of a list of operations on each bit.\<close>

lemma run_steps_atomicOr:
  assumes "list_all (\<lambda>op. in_buffer op (length buf)) ops"
  obtains buf' where "run_steps atomicOr ops buf = Some buf'" "length buf' = length buf"
    "\<And>k c. k < length buf \<Longrightarrow>
       bit (buf' ! k) c \<longleftrightarrow> bit (buf ! k) c \<or> (\<exists>op \<in> set ops. bit (mask_byte op k) c)"
  using assms
proof (induction ops arbitrary: buf thesis)
  case Nil
  then show ?case by simp
next
  case (Cons op ops)
  let ?b = "map (\<lambda>k. buf ! k OR mask_byte op k) [0..<length buf]"
  have a: "atomicOr op buf = Some ?b" using Cons(3) by (simp add: atomicOr_eq)
  obtain buf' where b: "run_steps atomicOr ops ?b = Some buf'" "length buf' = length ?b"
    and h: "\<And>k c. k < length ?b \<Longrightarrow>
       bit (buf' ! k) c \<longleftrightarrow> bit (?b ! k) c \<or> (\<exists>op \<in> set ops. bit (mask_byte op k) c)"
    using Cons(1) [of ?b] Cons(3) by auto
  show ?case
    by (rule Cons(2) [of buf']) (use a b h in \<open>auto simp: bit_or_iff\<close>)
qed

section \<open>The bits as Spark reads them\<close>

text \<open>
  Spark serializes the bits as big-endian 64-bit integers behind the header; bit \<open>i\<close> of the filter
  is bit \<open>i mod 64\<close> of the integer \<open>i div 64\<close>.
\<close>

definition spark_long :: "byte list \<Rightarrow> nat \<Rightarrow> 64 word" where
  "spark_long buf k = word_rcat (take 8 (drop (bloom_filter_header_size + 8 * k) buf))"

definition spark_bit :: "byte list \<Rightarrow> nat \<Rightarrow> bool" where
  "spark_bit buf i \<longleftrightarrow> bit (spark_long buf (i div 64)) (i mod 64)"

definition spark_bits :: "byte list \<Rightarrow> nat set" where
  "spark_bits buf = {i. i < 8 * (length buf - bloom_filter_header_size) \<and> spark_bit buf i}"

text \<open>The byte that holds a bit.\<close>

definition byte_of :: "nat \<Rightarrow> nat" where
  "byte_of i = bloom_filter_header_size + 8 * (i div 64) + (7 - i mod 64 div 8)"

lemma byte_of_ge: "bloom_filter_header_size \<le> byte_of i"
  unfolding byte_of_def by (simp only: add.assoc le_add1)

definition sized :: "byte list \<Rightarrow> bool" where
  "sized buf \<longleftrightarrow> (\<exists>n. length buf = bloom_filter_header_size + 8 * n)"

lemma spark_bit_byte:
  assumes "sized buf" "i < 8 * (length buf - bloom_filter_header_size)"
  shows "spark_bit buf i \<longleftrightarrow> bit (buf ! byte_of i) (i mod 8)" "byte_of i < length buf"
proof -
  obtain n where n: "length buf = bloom_filter_header_size + 8 * n"
    using assms(1) by (auto simp: sized_def)
  with assms have d: "i div 64 < n" by (simp add: div_less_iff_less_mult)
  let ?p = "bloom_filter_header_size + 8 * (i div 64)"
  let ?bs = "take 8 (drop ?p buf)"
  have l: "length ?bs = 8" using n d by simp
  have r: "rev ?bs ! (i mod 64 div 8) = buf ! byte_of i"
    using l n d by (simp add: rev_nth byte_of_def less_mult_imp_div_less)
  have "bit (spark_long buf (i div 64)) j
      \<longleftrightarrow> j < 64 \<and> j div 8 < 8 \<and> bit (rev ?bs ! (j div 8)) (j mod 8)" for j
    using l bit_horner_sum_uint_exp_iff [of "rev ?bs" j]
    by (simp add: spark_long_def word_rcat_def bit_word_of_int_iff)
  from this [of "i mod 64"] show "spark_bit buf i \<longleftrightarrow> bit (buf ! byte_of i) (i mod 8)"
    by (simp add: spark_bit_def r less_mult_imp_div_less mod_mod_cancel)
  show "byte_of i < length buf" using n d by (simp add: byte_of_def)
qed

lemma byte_of_inj: "byte_of i = byte_of j \<Longrightarrow> i mod 8 = j mod 8 \<Longrightarrow> i = j"
proof -
  assume a: "byte_of i = byte_of j" "i mod 8 = j mod 8"
  have "i mod 64 div 8 < 8" "j mod 64 div 8 < 8" by (simp_all add: less_mult_imp_div_less)
  moreover have "u < 8 \<Longrightarrow> v < 8 \<Longrightarrow> h + 8 * x + (7 - u) = h + 8 * y + (7 - v) \<Longrightarrow> x = y \<and> u = v"
    for h u v x y :: nat by presburger
  ultimately have "i div 64 = j div 64" "i mod 64 div 8 = j mod 64 div 8"
    using a(1) unfolding byte_of_def by metis+
  moreover have "i mod 64 mod 8 = j mod 64 mod 8" using a by (simp add: mod_mod_cancel)
  ultimately show ?thesis by (metis div_mult_mod_eq)
qed

text \<open>The swizzled word and bit of the kernels are the byte and bit of Spark's layout.\<close>

lemma xor_1_nat: "(q :: nat) XOR 1 = (if even q then q + 1 else q - 1)"
  by (simp add: xor_Suc_0_eq)

lemma xor_24_nat:
  assumes "r < 32"
  shows "(r XOR 24 :: nat) = 8 * (3 - r div 8) + r mod 8"
proof -
  have "\<forall>r \<in> set [0..<32]. (r XOR 24 :: nat) = 8 * (3 - r div 8) + r mod 8" by code_simp
  with assms show ?thesis by simp
qed

lemma swizzle:
  assumes "w = (i div 32) XOR 1" "b = (i mod 32) XOR 24"
  shows "b < 32" "bloom_filter_header_size + 4 * w + b div 8 = byte_of i" "b mod 8 = i mod 8"
proof -
  let ?r = "i mod 32"
  have r: "?r < 32" "?r div 8 < 4" by (simp_all add: less_mult_imp_div_less)
  have b: "b = 8 * (3 - ?r div 8) + ?r mod 8" using assms(2) r(1) by (simp add: xor_24_nat)
  moreover have "?r mod 8 < 8" by simp
  ultimately show "b < 32" using r by linarith
  show "b mod 8 = i mod 8" using b by (simp add: mod_mod_cancel)
  have bd: "b div 8 = 3 - ?r div 8" using b by simp
  have i: "i mod 64 = 32 * (i div 32 mod 2) + ?r" "i div 64 = i div 32 div 2"
    using mod_mult2_eq [of i 32 2] by (simp_all add: div_mult2_eq [symmetric])
  have "i mod 64 div 8 = 4 * (i div 32 mod 2) + ?r div 8" unfolding i by simp
  then show "bloom_filter_header_size + 4 * w + b div 8 = byte_of i"
    using r unfolding byte_of_def bd assms(1) xor_1_nat i(2)
    by (cases "even (i div 32)"; auto elim!: evenE oddE) (simp add: ac_simps)
qed

section \<open>Positions of a hash\<close>

text \<open>The bit that a hash selects.\<close>

definition bloom_index :: "32 word \<Rightarrow> 32 word \<Rightarrow> nat" where
  "bloom_index h bits = unat ((if h <s 0 then NOT h else h) mod bits)"

definition bloom_positions :: "32 word \<Rightarrow> 32 word \<Rightarrow> 64 word \<Rightarrow> nat set" where
  "bloom_positions bits n v = (\<lambda>h. bloom_index h bits) ` set (bloom_hashes n v)"

lemma bloom_index_less: "0 < bits \<Longrightarrow> bloom_index h bits < unat bits"
  by (simp add: bloom_index_def unat_mod_distrib word_greater_zero_iff unat_gt_0)

lemma gpu_get_hash_mask_eq:
  assumes "bitmask_ops_ok ops" "i = bloom_index h bits"
  shows "gpu_get_hash_mask ops h bits = ((i div 32) XOR 1, push_bit ((i mod 32) XOR 24) 1)"
  using assms by (simp add: gpu_get_hash_mask_def bitmask_ops_ok_def bloom_index_def Let_def)

lemma bit_mask_byte:
  assumes "w = (i div 32) XOR 1" "b = (i mod 32) XOR 24"
  shows "bit (mask_byte (w, push_bit b 1) k) c \<longleftrightarrow> k = byte_of i \<and> c = i mod 8"
proof -
  note sw = swizzle [OF assms]
  let ?p = "bloom_filter_header_size + 4 * w"
  have bits: "bit (2 ^ b :: 32 word) m \<longleftrightarrow> m = b" for m
    using sw(1) by (auto simp: bit_simps)
  have "bit (mask_byte (w, push_bit b 1) k) c \<longleftrightarrow> ?p \<le> k \<and> k < ?p + 4 \<and> c < 8 \<and> 8 * (k - ?p) + c = b"
    by (auto simp: mask_byte_def Let_def bit_unsigned_iff bit_drop_bit_eq bits)
  also have "\<dots> \<longleftrightarrow> k = ?p + b div 8 \<and> c = b mod 8"
    using sw(1) by (auto simp: less_mult_imp_div_less)
  finally show ?thesis using sw(2,3) by simp
qed

lemma in_buffer_index:
  assumes "sized buf" "i < 8 * (length buf - bloom_filter_header_size)"
  shows "in_buffer ((i div 32) XOR 1, m) (length buf)"
proof -
  obtain n where n: "length buf = bloom_filter_header_size + 8 * n"
    using assms(1) by (auto simp: sized_def)
  with assms(2) have "i div 32 < 2 * n" by (simp add: div_less_iff_less_mult)
  then have "(i div 32) XOR 1 < 2 * n" unfolding xor_1_nat by (auto elim!: evenE)
  then show ?thesis by (simp add: in_buffer_def n)
qed

lemma test_word:
  assumes "sized buf" "i < 8 * (length buf - bloom_filter_header_size)"
    "w = (i div 32) XOR 1" "b = (i mod 32) XOR 24"
  obtains v where "filter_word buf w = Some v" "v AND push_bit b 1 = 0 \<longleftrightarrow> \<not> spark_bit buf i"
proof -
  note sw = swizzle [OF assms(3,4)]
  let ?v = "getblock32 buf (bloom_filter_header_size + 4 * w)"
  have "filter_word buf w = Some ?v"
    using in_buffer_index [OF assms(1,2)] assms(3)
    by (simp add: filter_word_def in_buffer_def Let_def)
  moreover have "?v AND push_bit b 1 = 0 \<longleftrightarrow> \<not> bit ?v b"
    using bit_iff_and_push_bit_not_eq_0 [of ?v b] by simp
  moreover have "bit ?v b \<longleftrightarrow> spark_bit buf i"
    using sw by (simp add: bit_getblock32 spark_bit_byte(1) [OF assms(1,2)])
  ultimately show ?thesis using that by blast
qed

lemma probe_loop_eq:
  assumes "bitmask_ops_ok ops" "sized buf" "0 < bits"
    "unat bits = 8 * (length buf - bloom_filter_header_size)"
  shows "probe_loop ops bits buf hs = Some ((\<lambda>h. bloom_index h bits) ` set hs \<subseteq> spark_bits buf)"
proof (induction hs)
  case (Cons h hs)
  let ?i = "bloom_index h bits"
  have i: "?i < 8 * (length buf - bloom_filter_header_size)"
    using bloom_index_less [OF assms(3), of h] assms(4) by simp
  obtain v where "filter_word buf ((?i div 32) XOR 1) = Some v"
    "v AND push_bit ((?i mod 32) XOR 24) 1 = 0 \<longleftrightarrow> \<not> spark_bit buf ?i"
    by (rule test_word [OF assms(2) i refl refl])
  with Cons i show ?case
    by (simp add: gpu_get_hash_mask_eq [OF assms(1) refl] spark_bits_def)
qed simp

lemma run_hashes:
  assumes "bitmask_ops_ok ops" "sized buf" "0 < bits"
    "unat bits = 8 * (length buf - bloom_filter_header_size)"
  obtains buf' where
    "run_steps atomicOr (map (\<lambda>h. gpu_get_hash_mask ops h bits) hs) buf = Some buf'"
    "length buf' = length buf"
    "take bloom_filter_header_size buf' = take bloom_filter_header_size buf"
    "spark_bits buf' = spark_bits buf \<union> (\<lambda>h. bloom_index h bits) ` set hs"
proof -
  let ?ops = "map (\<lambda>h. gpu_get_hash_mask ops h bits) hs"
  have i: "bloom_index h bits < 8 * (length buf - bloom_filter_header_size)" for h
    using bloom_index_less [OF assms(3), of h] assms(4) by simp
  have "list_all (\<lambda>op. in_buffer op (length buf)) ?ops"
    using in_buffer_index [OF assms(2) i]
    by (simp add: list_all_iff gpu_get_hash_mask_eq [OF assms(1) refl])
  then obtain buf' where r: "run_steps atomicOr ?ops buf = Some buf'" "length buf' = length buf"
    and h: "\<And>k c. k < length buf \<Longrightarrow>
       bit (buf' ! k) c \<longleftrightarrow> bit (buf ! k) c \<or> (\<exists>op \<in> set ?ops. bit (mask_byte op k) c)"
    by (rule run_steps_atomicOr) blast
  have m: "(\<exists>op \<in> set ?ops. bit (mask_byte op k) c)
      \<longleftrightarrow> (\<exists>h \<in> set hs. k = byte_of (bloom_index h bits) \<and> c = bloom_index h bits mod 8)" for k c
    by (simp add: gpu_get_hash_mask_eq [OF assms(1) refl] bit_mask_byte [OF refl refl, simplified])
  have "take bloom_filter_header_size buf' = take bloom_filter_header_size buf"
  proof (rule nth_equalityI)
    fix k assume k: "k < length (take bloom_filter_header_size buf')"
    then have "k < length buf" "k < bloom_filter_header_size" using r(2) by simp_all
    moreover have "\<not> byte_of j < bloom_filter_header_size" for j by (simp add: byte_of_def)
    ultimately have "bit (buf' ! k) c \<longleftrightarrow> bit (buf ! k) c" for c
      unfolding h [OF \<open>k < length buf\<close>] m by blast
    then show "take bloom_filter_header_size buf' ! k = take bloom_filter_header_size buf ! k"
      using k by (simp add: bit_eq_iff)
  qed (use r in simp)
  moreover have "spark_bits buf' = spark_bits buf \<union> (\<lambda>h. bloom_index h bits) ` set hs"
  proof -
    have "sized buf'" using assms(2) r(2) by (simp add: sized_def)
    have "spark_bit buf' j \<longleftrightarrow> spark_bit buf j \<or> j \<in> (\<lambda>h. bloom_index h bits) ` set hs"
      if j: "j < 8 * (length buf - bloom_filter_header_size)" for j
    proof -
      note b = spark_bit_byte [OF assms(2) j]
      have "spark_bit buf' j \<longleftrightarrow> bit (buf' ! byte_of j) (j mod 8)"
        using spark_bit_byte(1) [OF \<open>sized buf'\<close>] j r(2) by simp
      also have "\<dots> \<longleftrightarrow> spark_bit buf j \<or> (\<exists>h \<in> set hs. byte_of j = byte_of (bloom_index h bits)
          \<and> j mod 8 = bloom_index h bits mod 8)"
        unfolding h [OF b(2)] m b(1) by blast
      also have "\<dots> \<longleftrightarrow> spark_bit buf j \<or> j \<in> (\<lambda>h. bloom_index h bits) ` set hs"
        using byte_of_inj by blast
      finally show ?thesis .
    qed
    then show ?thesis using i r(2) by (auto simp: spark_bits_def)
  qed
  ultimately show ?thesis using that r by blast
qed

section \<open>Headers and well-formed filters\<close>

lemma bswap_32_bswap_32 [simp]: "bswap_32 (bswap_32 x) = x"
proof (rule bit_word_eqI)
  fix n assume "n < LENGTH(32)"
  then consider "n < 8" | "8 \<le> n" "n < 16" | "16 \<le> n" "n < 24" | "24 \<le> n" "n < 32" by fastforce
  moreover have ff: "(0xFF :: 32 word) = mask 8" "(0xFF00 :: 32 word) = push_bit 8 (mask 8)"
    by (simp_all add: mask_eq_exp_minus_1)
  ultimately show "bit (bswap_32 (bswap_32 x)) n = bit x n"
    by cases (auto simp: bswap_32_def ff bit_simps simp del: push_bit_mask_eq dest: bit_imp_le_length)
qed

lemma byte_swap_header_twice [simp]: "byte_swap_header (byte_swap_header h) = h"
  by (simp add: byte_swap_header_def)

lemma getblock32_append:
  "length xs = p \<Longrightarrow> getblock32 (xs @ le_bytes 4 w @ ys) p = (w :: 32 word)"
  by (rule bit_word_eqI)
    (auto simp: bit_getblock32 nth_append nth_le_bytes bit_simps less_mult_imp_div_less)

lemma header_at_header_bytes: "header_at (header_bytes h @ ys) 0 = h"
proof -
  let ?v = "le_bytes 4 (version h)" and ?n = "le_bytes 4 (num_hashes h)"
    and ?l = "le_bytes 4 (num_longs h)"
  have "getblock32 ([] @ ?v @ (?n @ ?l @ ys)) 0 = version h"
    "getblock32 (?v @ ?n @ (?l @ ys)) 4 = num_hashes h"
    "getblock32 ((?v @ ?n) @ ?l @ ys) 8 = num_longs h"
    by (rule getblock32_append, simp)+
  then show ?thesis by (simp add: header_at_def header_bytes_def)
qed

lemma length_pack_header [simp]: "length (pack_bloom_filter_header h) = bloom_filter_header_size"
  by (simp add: pack_bloom_filter_header_def header_bytes_def bloom_filter_header_size_def)

definition filter_header :: "byte list \<Rightarrow> bloom_filter_header" where
  "filter_header buf = byte_swap_header (header_at buf 0)"

lemma filter_header_pack [simp]: "filter_header (pack_bloom_filter_header h @ ys) = h"
  by (simp add: filter_header_def pack_bloom_filter_header_def header_at_header_bytes)

lemma filter_header_cong:
  assumes "take bloom_filter_header_size a = take bloom_filter_header_size b"
    "bloom_filter_header_size \<le> length a" "bloom_filter_header_size \<le> length b"
  shows "filter_header a = filter_header b"
proof -
  have "a ! k = b ! k" if "k < 12" for k
    using assms that by (metis bloom_filter_header_size_def nth_take)
  then show ?thesis by (simp add: filter_header_def header_at_def getblock32_def)
qed

lemma filter_header_pack_only [simp]: "filter_header (pack_bloom_filter_header h) = h"
  using filter_header_pack [of h "[]"] by simp

text \<open>The sizes a filter may have: between 1 and \<open>2 ^ 25 - 1\<close> longs.\<close>

definition valid_header :: "bloom_filter_header \<Rightarrow> bool" where
  "valid_header h \<longleftrightarrow> version h = 1 \<and> 0 < sint (num_longs h) \<and> sint (num_longs h) < 2 ^ 25"

definition longs_of :: "byte list \<Rightarrow> nat" where
  "longs_of buf = nat (sint (num_longs (filter_header buf)))"

definition bits_of :: "byte list \<Rightarrow> 32 word" where
  "bits_of buf = num_longs (filter_header buf) * 64"

definition valid_filter :: "byte list \<Rightarrow> bool" where
  "valid_filter buf \<longleftrightarrow>
     valid_header (filter_header buf)
     \<and> length buf = bloom_filter_header_size + 8 * longs_of buf"

lemma num_longs_checks_int:
  fixes x :: int
  assumes "- (2 ^ 31) \<le> x" "x < 2 ^ 31" "y = 64 * x mod 2 ^ 32"
  shows "0 < y \<and> y < 2 ^ 31 \<and> 2 * x mod 2 ^ 64 = (y + 31) div 32 \<longleftrightarrow> 0 < x \<and> x < 2 ^ 25"
proof
  assume a: "0 < y \<and> y < 2 ^ 31 \<and> 2 * x mod 2 ^ 64 = (y + 31) div 32"
  have "(y + 31) div 32 \<le> (2 ^ 31 + 31) div 32" using a by (intro zdiv_mono1) simp_all
  then have bnd: "(y + 31) div 32 \<le> 2 ^ 26" by simp
  have "0 \<le> x"
  proof (rule ccontr)
    assume "\<not> 0 \<le> x"
    then have "(2 * x + 2 ^ 64) mod 2 ^ 64 = 2 * x + 2 ^ 64"
      using assms(1) by (intro mod_pos_pos_trivial) simp_all
    then have "2 * x mod 2 ^ 64 = 2 * x + 2 ^ 64" by (simp only: mod_add_self2)
    moreover have "2 * x mod 2 ^ 64 = (y + 31) div 32" using a by blast
    ultimately have "2 * x + 2 ^ 64 \<le> 2 ^ 26" using bnd by metis
    with assms(1) show False by simp
  qed
  with a assms have x: "2 * x = (y + 31) div 32" by simp
  with bnd have "x \<le> 2 ^ 25" by simp
  moreover have "x \<noteq> 2 ^ 25" "x \<noteq> 0" using a assms(3) by auto
  ultimately show "0 < x \<and> x < 2 ^ 25" using \<open>0 \<le> x\<close> by linarith
next
  assume x: "0 < x \<and> x < 2 ^ 25"
  then have "y = 64 * x" using assms(3) by simp
  with x show "0 < y \<and> y < 2 ^ 31 \<and> 2 * x mod 2 ^ 64 = (y + 31) div 32" by simp
qed

lemma sint_eq_uint_less: "uint w < 2 ^ 31 \<Longrightarrow> sint w = uint w" for w :: "32 word"
  unfolding sint_uint
  by (intro signed_take_bit_int_eq_self order.trans [OF _ uint_ge_0]) simp_all

lemma sless_zero_uint: "0 <s w \<longleftrightarrow> 0 < uint w \<and> uint w < 2 ^ 31" for w :: "32 word"
proof (cases "uint w < 2 ^ 31")
  case True
  then have "sint w = uint w" by (rule sint_eq_uint_less)
  with True show ?thesis by (simp add: word_sless_alt)
next
  case False
  have "uint w div 2 ^ 31 = 1"
    using False unsigned_less [of w, where 'a = int]
    by (intro int_div_pos_eq [of _ _ _ "uint w - 2 ^ 31"]) simp_all
  then have "bit (uint w) 31" by (simp add: bit_iff_odd)
  then have "sint w < 0" by (simp add: sint_uint signed_take_bit_negative_iff)
  then show ?thesis using False by (simp add: word_sless_alt)
qed

lemma eq_div_32_int: "a = (b + 31) div 32 \<longleftrightarrow> int a = (int b + 31) div 32"
proof -
  have "(int b + 31) div 32 = int ((b + 31) div 32)" by (simp add: zdiv_int)
  then show ?thesis by (simp only: of_nat_eq_iff)
qed

lemma num_longs_checks:
  fixes n :: "32 word"
  shows "0 <s n * 64 \<and> unat ((scast n :: 64 word) * 2) = (unat (n * 64) + 31) div 32
    \<longleftrightarrow> 0 < sint n \<and> sint n < 2 ^ 25"
proof -
  let ?x = "sint n" and ?y = "64 * sint n mod 2 ^ 32"
  have "n * 64 = word_of_int (64 * ?x)" by simp
  then have y: "uint (n * 64) = ?y" by (simp only: uint_word_of_int) simp
  have "(scast n :: 64 word) = word_of_int ?x" by (fact scast_eq)
  then have "(scast n :: 64 word) * 2 = word_of_int (2 * ?x)" by (simp only: ) simp
  then have z: "uint ((scast n :: 64 word) * 2) = 2 * ?x mod 2 ^ 64"
    by (simp only: uint_word_of_int) simp
  have "unat ((scast n :: 64 word) * 2) = (unat (n * 64) + 31) div 32
      \<longleftrightarrow> 2 * ?x mod 2 ^ 64 = (?y + 31) div 32"
    unfolding y [symmetric] z [symmetric] uint_nat by (rule eq_div_32_int)
  then show ?thesis
    unfolding sless_zero_uint y using num_longs_checks_int [of ?x ?y] sint_lt [of n] sint_ge [of n] by simp
qed

lemma valid_longs_words:
  fixes n :: "32 word"
  assumes "0 < sint n" "sint n < 2 ^ 25"
  shows "unat (n * 64) = 64 * nat (sint n)" "unat ((scast n :: 64 word) * 2) = 2 * nat (sint n)"
    "unat (n * 2) = 2 * nat (sint n)" "0 < n * 64"
proof -
  have "0 <s n" using assms(1) by (simp add: word_sless_alt)
  then have u: "uint n = sint n" unfolding sless_zero_uint using sint_eq_uint_less by metis
  then have n: "unat n = nat (sint n)" by (simp add: unat_eq_nat_uint)
  with assms have "unat n < 2 ^ 25" by (simp add: nat_less_iff)
  then show a: "unat (n * 64) = 64 * nat (sint n)" "unat (n * 2) = 2 * nat (sint n)"
    by (simp_all add: unat_word_ariths n [symmetric])
  then show "0 < n * 64" using assms(1) by (simp add: word_greater_zero_iff unat_eq_0 [symmetric])
  have "unat ((scast n :: 64 word) * 2) = (unat (n * 64) + 31) div 32"
    using num_longs_checks [of n] assms by blast
  then show "unat ((scast n :: 64 word) * 2) = 2 * nat (sint n)" by (simp add: a)
qed

lemma unpack_bloom_filter_eq:
  assumes "bitmask_ops_ok ops"
  shows "unpack_bloom_filter ops buf =
    (if length buf < bloom_filter_header_size then Inl Truncated_filter
     else if version (filter_header buf) \<noteq> 1 then Inl Unexpected_version
     else if \<not> 0 <s bits_of buf then Inl Empty_filter
     else if \<not> valid_header (filter_header buf) then Inl Length_mismatch
     else Inr (filter_header buf, 2 * longs_of buf, bits_of buf))"
proof -
  let ?n = "num_longs (filter_header buf)"
  have "unat ((scast ?n :: 64 word) * 2) = num_bitmask_words ops (unat (?n * 64))
      \<longleftrightarrow> 0 < sint ?n \<and> sint ?n < 2 ^ 25" if "0 <s ?n * 64"
    using that num_longs_checks [of ?n] assms by (simp add: bitmask_ops_ok_def)
  then show ?thesis
    by (auto simp: unpack_bloom_filter_def Let_def filter_header_def [symmetric] bits_of_def
        valid_header_def longs_of_def valid_longs_words)
qed

lemma unpack_valid:
  assumes "bitmask_ops_ok ops" "valid_header (filter_header buf)"
    "bloom_filter_header_size \<le> length buf"
  shows "unpack_bloom_filter ops buf = Inr (filter_header buf, 2 * longs_of buf, bits_of buf)"
proof -
  have "0 <s bits_of buf"
    using num_longs_checks [of "num_longs (filter_header buf)"] assms(2)
    by (simp add: valid_header_def bits_of_def)
  with assms show ?thesis by (simp add: unpack_bloom_filter_eq valid_header_def)
qed

lemma valid_filterD:
  assumes "valid_filter buf"
  shows "valid_header (filter_header buf)" "bloom_filter_header_size \<le> length buf" "sized buf"
    "length buf = 2 * longs_of buf * 4 + bloom_filter_header_size" "0 < bits_of buf"
    "unat (bits_of buf) = 8 * (length buf - bloom_filter_header_size)"
  using assms valid_longs_words [of "num_longs (filter_header buf)"]
  by (auto simp: valid_filter_def valid_header_def sized_def longs_of_def bits_of_def)

lemma valid_filter_iff:
  assumes "bitmask_ops_ok ops"
  shows "valid_filter buf \<longleftrightarrow> (case unpack_bloom_filter ops buf of Inl e \<Rightarrow> False
    | Inr (h, words, bits) \<Rightarrow> length buf = words * 4 + bloom_filter_header_size)"
proof (cases "valid_header (filter_header buf) \<and> bloom_filter_header_size \<le> length buf")
  case True
  then show ?thesis using unpack_valid [OF assms] by (auto simp: valid_filter_def)
next
  case False
  then show ?thesis by (auto simp: valid_filter_def unpack_bloom_filter_eq [OF assms])
qed

section \<open>Refinement of the set of bits\<close>

lemma concat_put_thread_ops:
  "concat (map (put_thread_ops ops bits n) input) =
     map (\<lambda>h. gpu_get_hash_mask ops h bits)
       (concat (map (\<lambda>el. case el of None \<Rightarrow> [] | Some v \<Rightarrow> bloom_hashes n v) input))"
  by (induction input) (auto simp: put_thread_ops_def split: option.splits)

definition positions_of :: "byte list \<Rightarrow> 64 word \<Rightarrow> nat set" where
  "positions_of buf = bloom_positions (bits_of buf) (num_hashes (filter_header buf))"

lemma bloom_filter_put_refines:
  assumes "bitmask_ops_ok ops" "valid_filter buf"
  obtains buf' where "bloom_filter_put ops buf input = Inr buf'" "valid_filter buf'"
    "filter_header buf' = filter_header buf"
    "spark_bits buf' = spark_bits buf \<union> (\<Union>v \<in> {v. Some v \<in> set input}. positions_of buf v)"
proof -
  note v = valid_filterD [OF assms(2)]
  let ?n = "num_hashes (filter_header buf)"
  let ?hs = "concat (map (\<lambda>el. case el of None \<Rightarrow> [] | Some v \<Rightarrow> bloom_hashes ?n v) input)"
  obtain buf' where r: "gpu_bloom_filter_put ops (bits_of buf) input ?n buf = Some buf'"
    and b: "length buf' = length buf"
      "take bloom_filter_header_size buf' = take bloom_filter_header_size buf"
      "spark_bits buf' = spark_bits buf \<union> (\<lambda>h. bloom_index h (bits_of buf)) ` set ?hs"
    using run_hashes [OF assms(1) v(3,5,6), of ?hs]
    by (auto simp: gpu_bloom_filter_put_def concat_put_thread_ops)
  have h: "filter_header buf' = filter_header buf"
    using b(1,2) v(2) by (intro filter_header_cong) simp_all
  have p: "bloom_filter_put ops buf input = Inr buf'"
    using r v(4) by (simp add: bloom_filter_put_def unpack_valid [OF assms(1) v(1,2)])
  have "(\<lambda>h. bloom_index h (bits_of buf)) ` set ?hs
      = (\<Union>v \<in> {v. Some v \<in> set input}. positions_of buf v)"
    by (auto simp: positions_of_def bloom_positions_def split: option.splits)
  moreover have "valid_filter buf'" using assms(2) b(1) h by (simp add: valid_filter_def longs_of_def)
  ultimately show ?thesis using that p h b(3) by simp
qed

lemma probe_rows_eq:
  assumes "\<And>v. bloom_probe_functor ops buf bits n v = Some (f v)"
  shows "probe_rows ops buf bits n input = Inr (map (map_option f) input)"
  by (induction input) (auto simp: probe_row_def assms split: option.splits)

lemma bloom_filter_probe_refines:
  assumes "bitmask_ops_ok ops" "valid_filter buf"
  shows "bloom_filter_probe ops input buf
    = Inr (map (map_option (\<lambda>v. positions_of buf v \<subseteq> spark_bits buf)) input)"
proof -
  note v = valid_filterD [OF assms(2)]
  have "bloom_probe_functor ops buf (bits_of buf) (num_hashes (filter_header buf)) x
      = Some (positions_of buf x \<subseteq> spark_bits buf)" for x
    by (simp add: bloom_probe_functor_def probe_loop_eq [OF assms(1) v(3,5,6)] positions_of_def
        bloom_positions_def)
  from probe_rows_eq [OF this] show ?thesis
    using v(4) by (simp add: bloom_filter_probe_def unpack_valid [OF assms(1) v(1,2)])
qed

section \<open>Creation and merge\<close>

lemma unat_scast_small: "unat v < 2 ^ 31 \<Longrightarrow> unat (scast v :: 64 word) = unat (v :: 32 word)"
proof -
  assume a: "unat v < 2 ^ 31"
  have "k < 2 ^ 31 \<Longrightarrow> int k < 2 ^ 31" for k by simp
  from this [OF a] have u: "uint v < 2 ^ 31" by (simp only: uint_nat)
  then have "(scast v :: 64 word) = word_of_int (uint v)"
    using scast_eq [of v, where 'a = 64] sint_eq_uint_less [OF u] by simp
  moreover have "uint (word_of_int (uint v) :: 64 word) = uint v"
    unfolding uint_word_of_int using u by (intro mod_pos_pos_trivial) simp_all
  ultimately have "uint (scast v :: 64 word) = uint v" by (simp only:)
  then show ?thesis by (simp only: unat_eq_nat_uint)
qed

lemma stride_valid:
  fixes n :: "32 word"
  assumes "0 < sint n" "sint n < 2 ^ 25"
  shows "unat (scast (fst (get_bloom_filter_stride n)) :: 64 word) = 8 * nat (sint n)"
    "unat (scast (snd (get_bloom_filter_stride n)) :: 64 word)
       = bloom_filter_header_size + 8 * nat (sint n)"
proof -
  define m where "m = nat (sint n)"
  have m: "m < 2 ^ 25" "(scast n :: 64 word) = of_nat m"
    using assms scast_eq [of n, where 'a = 64] by (simp_all add: m_def nat_less_iff)
  have k: "unat (scast (ucast (of_nat k :: 64 word) :: 32 word) :: 64 word) = k" if "k < 2 ^ 31" for k
  proof -
    have "unat (of_nat k :: 64 word) = k" using that by (simp add: unat_of_nat)
    then have "unat (ucast (of_nat k :: 64 word) :: 32 word) = k" using that
      by (simp add: unsigned_ucast_eq take_bit_nat_eq_self)
    then show ?thesis using unat_scast_small [of "ucast (of_nat k :: 64 word)"] that by simp
  qed
  have "get_bloom_filter_stride n = (ucast (of_nat (8 * m) :: 64 word), ucast (of_nat (12 + 8 * m) :: 64 word))"
    by (simp add: get_bloom_filter_stride_def Let_def m bloom_filter_header_size_def mult.commute)
  then show "unat (scast (fst (get_bloom_filter_stride n)) :: 64 word) = 8 * nat (sint n)"
    "unat (scast (snd (get_bloom_filter_stride n)) :: 64 word)
       = bloom_filter_header_size + 8 * nat (sint n)"
    using m(1) k [of "8 * m"] k [of "12 + 8 * m"]
    by (simp_all only: fst_conv snd_conv bloom_filter_header_size_def m_def [symmetric]) simp_all
qed

lemma spark_bits_union:
  assumes "sized buf" "\<And>f. f \<in> set fs \<Longrightarrow> length f = length buf"
    "\<And>k c. bloom_filter_header_size \<le> k \<Longrightarrow> k < length buf
       \<Longrightarrow> bit (buf ! k) c \<longleftrightarrow> (\<exists>f \<in> set fs. bit (f ! k) c)"
  shows "spark_bits buf = (\<Union>f \<in> set fs. spark_bits f)"
proof -
  have s: "sized f" if "f \<in> set fs" for f using assms(1,2) that by (auto simp: sized_def)
  have "spark_bit buf i \<longleftrightarrow> (\<exists>f \<in> set fs. spark_bit f i)"
    if i: "i < 8 * (length buf - bloom_filter_header_size)" for i
  proof -
    have "spark_bit buf i \<longleftrightarrow> (\<exists>f \<in> set fs. bit (f ! byte_of i) (i mod 8))"
      using spark_bit_byte [OF assms(1) i] assms(3) by (simp add: byte_of_def)
    also have "\<dots> \<longleftrightarrow> (\<exists>f \<in> set fs. spark_bit f i)"
      using spark_bit_byte(1) [OF s] assms(2) i by (intro bex_cong) auto
    finally show ?thesis .
  qed
  then show ?thesis using assms(2) by (auto simp: spark_bits_def)
qed

lemma nth_concat_uniform:
  "\<forall>f \<in> set fs. length f = l \<Longrightarrow> i < length fs \<Longrightarrow> k < l \<Longrightarrow> concat fs ! (l * i + k) = fs ! i ! k"
proof (induction fs arbitrary: i)
  case (Cons f fs)
  then show ?case
  proof (cases i)
    case (Suc j)
    then have "concat (f # fs) ! (l * i + k) = concat fs ! (l * j + k)"
      using Cons(2) by (simp add: nth_append)
    with Suc Cons show ?thesis by simp
  qed (simp add: nth_append)
qed simp

lemma length_concat_uniform:
  "\<forall>f \<in> set fs. length f = l \<Longrightarrow> length (concat fs) = l * length fs"
  by (induction fs) simp_all

lemma bex_set_nth: "(\<exists>x \<in> set xs. P x) \<longleftrightarrow> (\<exists>i < length xs. P (xs ! i))"
  by (metis in_set_conv_nth)

lemma ex_less_head: "0 < n \<Longrightarrow> P 0 \<or> (\<exists>i \<in> set [1..<n]. P i) \<longleftrightarrow> (\<exists>i < n. P i)"
proof -
  assume "0 < n"
  then have "[0..<n] = 0 # [1..<n]" by (simp add: upt_conv_Cons)
  moreover have "(\<exists>i < n. P i) \<longleftrightarrow> (\<exists>i \<in> set [0..<n]. P i)" by auto
  ultimately show ?thesis by simp
qed

lemma bit_merged_word:
  assumes "\<forall>f \<in> set fs. length f = l" "fs \<noteq> []" "b < 32"
    "bloom_filter_header_size + 4 * w + 4 \<le> l"
  shows "bit (merged_word (concat fs) (length fs) l w) b
    \<longleftrightarrow> (\<exists>f \<in> set fs. bit (f ! (bloom_filter_header_size + 4 * w + b div 8)) (b mod 8))"
proof -
  let ?src = "\<lambda>idx. getblock32 (concat fs) (bloom_filter_header_size + idx * l + 4 * w)"
  have "bit (fold (\<lambda>idx out. out OR ?src idx) xs v) b \<longleftrightarrow> bit v b \<or> (\<exists>i \<in> set xs. bit (?src i) b)"
    for xs v by (induction xs arbitrary: v) (auto simp: bit_or_iff)
  then have "bit (merged_word (concat fs) (length fs) l w) b
      \<longleftrightarrow> bit (?src 0) b \<or> (\<exists>i \<in> set [1..<length fs]. bit (?src i) b)"
    by (simp add: merged_word_def Let_def)
  also have "\<dots> \<longleftrightarrow> (\<exists>i < length fs. bit (?src i) b)"
    using assms(2) by (intro ex_less_head) simp
  also have "\<dots> \<longleftrightarrow> (\<exists>i < length fs.
      bit (fs ! i ! (bloom_filter_header_size + 4 * w + b div 8)) (b mod 8))"
  proof (intro ex_cong1 conj_cong refl)
    fix i assume i: "i < length fs"
    have "bloom_filter_header_size + 4 * w + b div 8 < l"
      using assms(3,4) by (simp add: less_mult_imp_div_less)
    from nth_concat_uniform [OF assms(1) i this]
    show "bit (?src i) b \<longleftrightarrow> bit (fs ! i ! (bloom_filter_header_size + 4 * w + b div 8)) (b mod 8)"
      using assms(3) by (simp add: bit_getblock32 ac_simps)
  qed
  finally show ?thesis unfolding bex_set_nth .
qed

lemma header_at_concat:
  assumes "\<forall>f \<in> set fs. length f = l" "i < length fs" "bloom_filter_header_size \<le> l"
  shows "header_at (concat fs) (l * i) = header_at (fs ! i) 0"
proof -
  have "getblock32 (concat fs) (l * i + p) = getblock32 (fs ! i) p" if "p + 4 \<le> 12" for p
  proof (rule bit_word_eqI)
    fix b assume "b < LENGTH(32)"
    then have "p + b div 8 < l"
      using that assms(3) by (simp add: bloom_filter_header_size_def less_mult_imp_div_less)
    from nth_concat_uniform [OF assms(1,2) this]
    show "bit (getblock32 (concat fs) (l * i + p)) b = bit (getblock32 (fs ! i) p) b"
      by (simp add: bit_getblock32 add.assoc)
  qed
  from this [of 0] this [of 4] this [of 8] show ?thesis by (simp add: header_at_def)
qed

lemma bloom_filter_merge_refines:
  assumes "bitmask_ops_ok ops" "fs \<noteq> []" "\<forall>f \<in> set fs. valid_filter f \<and> filter_header f = h"
    "can_alloc (length (hd fs))"
  obtains buf where "bloom_filter_merge ops can_alloc (concat fs) (length fs) = Inr buf"
    "valid_filter buf" "filter_header buf = h" "spark_bits buf = (\<Union>f \<in> set fs. spark_bits f)"
proof -
  define m where "m = nat (sint (num_longs h))"
  let ?l = "bloom_filter_header_size + 8 * m" and ?c = "concat fs"
  have hd: "hd fs \<in> set fs" using assms(2) by simp
  have vh: "valid_header h" using assms(3) hd by (auto simp: valid_filter_def)
  then have n: "0 < sint (num_longs h)" "sint (num_longs h) < 2 ^ 25" by (simp_all add: valid_header_def)
  have len: "\<forall>f \<in> set fs. length f = ?l"
    using assms(3) by (auto simp: valid_filter_def longs_of_def m_def)
  have lc: "length ?c = ?l * length fs" by (rule length_concat_uniform [OF len])
  have hc: "header_at ?c (?l * i) = byte_swap_header h" if "i < length fs" for i
  proof -
    have "header_at ?c (?l * i) = header_at (fs ! i) 0"
      using header_at_concat [OF len that] by simp
    also have "\<dots> = byte_swap_header (filter_header (fs ! i))" by (simp add: filter_header_def)
    also have "\<dots> = byte_swap_header h" using assms(3) that by simp
    finally show ?thesis .
  qed
  from hc [of 0] assms(2) have fh: "filter_header ?c = h" by (simp add: filter_header_def)
  then have lo: "longs_of ?c = m" by (simp add: longs_of_def m_def)
  have "?l \<le> length ?c" using lc assms(2) by (cases fs) auto
  then have up: "unpack_bloom_filter ops ?c = Inr (h, 2 * m, bits_of ?c)"
    using unpack_valid [OF assms(1), of ?c] vh fh lo by simp
  let ?w = "\<lambda>w. le_bytes 4 (merged_word ?c (length fs) ?l w)"
  let ?ws = "map ?w [0..<2 * m]"
  define buf where "buf = pack_bloom_filter_header h @ concat ?ws"
  have "k < 2 ^ 31 \<Longrightarrow> int k < 2 ^ 31" for k by simp
  moreover have "unat (num_longs h * 2) < 2 ^ 31"
    using valid_longs_words(3) [OF n] n(2) by simp
  ultimately have "uint (num_longs h * 2) < 2 ^ 31" unfolding uint_nat by blast
  then have nw: "nat (sint (num_longs h * 2)) = 2 * m"
    using valid_longs_words(3) [OF n] unfolding m_def unat_eq_nat_uint
    by (simp only: sint_eq_uint_less)
  have st: "unat (scast (snd (get_bloom_filter_stride (num_longs h))) :: 64 word) = ?l"
    using stride_valid(2) [OF n] by (simp add: m_def)
  have same: "list_all (bloom_filter_same ?c (byte_swap_header h) ?l) [1..<length fs]"
    using hc by (simp add: list_all_iff bloom_filter_same_def)
  have al: "can_alloc ?l" using assms(4) len hd by auto
  have r: "bloom_filter_merge ops can_alloc ?c (length fs) = Inr buf"
    using up lc same al
    by (simp add: bloom_filter_merge_def Let_def split_beta st nw buf_def mult.commute)
  have lw: "\<forall>x \<in> set ?ws. length x = 4" by simp
  have lb: "length buf = ?l" using length_concat_uniform [OF lw] by (simp add: buf_def)
  have hb: "filter_header buf = h" by (simp add: buf_def)
  have "spark_bits buf = (\<Union>f \<in> set fs. spark_bits f)"
  proof (rule spark_bits_union)
    show "sized buf" by (auto simp: sized_def lb)
    show "length f = length buf" if "f \<in> set fs" for f using that len lb by simp
    fix k c assume k: "bloom_filter_header_size \<le> k" "k < length buf"
    then obtain j where j: "k = bloom_filter_header_size + j" "j < 8 * m"
      using lb le_iff_add by auto
    have jw: "j div 4 < 2 * m" using j(2) by (simp add: div_less_iff_less_mult)
    have "buf ! k = concat ?ws ! (4 * (j div 4) + j mod 4)" by (simp add: buf_def j(1) nth_append)
    also have "\<dots> = ?w (j div 4) ! (j mod 4)"
      using nth_concat_uniform [OF lw, of "j div 4" "j mod 4"] jw by simp
    finally have e: "buf ! k = ucast (drop_bit (8 * (j mod 4)) (merged_word ?c (length fs) ?l (j div 4)))"
      by (simp add: nth_le_bytes)
    show "bit (buf ! k) c \<longleftrightarrow> (\<exists>f \<in> set fs. bit (f ! k) c)"
    proof (cases "c < 8")
      case True
      let ?b = "8 * (j mod 4) + c"
      have b: "?b < 32" "?b div 8 = j mod 4" "?b mod 8 = c" using True by auto
      have "bit (buf ! k) c \<longleftrightarrow> bit (merged_word ?c (length fs) ?l (j div 4)) ?b"
        using True b(1) unfolding e by (simp add: bit_simps)
      also have "\<dots> \<longleftrightarrow> (\<exists>f \<in> set fs. bit (f ! k) c)"
        using bit_merged_word [OF len assms(2) b(1), of "j div 4"] jw j(1) unfolding b by (simp add: ac_simps)
      finally show ?thesis .
    qed (auto dest: bit_imp_le_length)
  qed
  moreover have "valid_filter buf" using vh lb by (simp add: valid_filter_def longs_of_def hb m_def)
  ultimately show ?thesis using that r hb by blast
qed

lemma bloom_filter_create_valid:
  assumes "0 < sint longs" "sint longs < 2 ^ 25" "can_alloc (bloom_filter_header_size + 8 * nat (sint longs))"
  obtains buf where "bloom_filter_create can_alloc n longs = Inr buf" "valid_filter buf"
    "filter_header buf = \<lparr>version = 1, num_hashes = n, num_longs = longs\<rparr>" "spark_bits buf = {}"
proof -
  let ?h = "\<lparr>version = 1, num_hashes = n, num_longs = longs\<rparr>"
  let ?k = "8 * nat (sint longs)"
  define buf where "buf = pack_bloom_filter_header ?h @ replicate ?k 0"
  have r: "bloom_filter_create can_alloc n longs = Inr buf"
    using stride_valid [OF assms(1,2)] assms(3)
    by (simp add: bloom_filter_create_def Let_def split_beta buf_def spark_bloom_filter_version_def)
  have h: "filter_header buf = ?h" by (simp add: buf_def)
  have l: "length buf = bloom_filter_header_size + ?k" by (simp add: buf_def)
  have s: "sized buf" using l by (auto simp: sized_def)
  have z: "buf ! k = 0" if "bloom_filter_header_size \<le> k" "k < length buf" for k
    using that by (simp add: buf_def nth_append)
  have "\<not> spark_bit buf i" if "i < 8 * (length buf - bloom_filter_header_size)" for i
    using spark_bit_byte [OF s that] z [of "byte_of i"] by (simp add: byte_of_ge)
  then have "spark_bits buf = {}" by (auto simp: spark_bits_def)
  moreover have "valid_filter buf"
    using assms(1,2) l by (simp add: valid_filter_def valid_header_def longs_of_def h)
  ultimately show ?thesis using that r h by blast
qed

section \<open>Properties\<close>

text \<open>The documented behaviour of the cuDF helpers, for concrete runs.\<close>

definition cudf_bitmask_ops :: bitmask_ops where
  "cudf_bitmask_ops =
     \<lparr>word_index = (\<lambda>i. i div 32), intra_word_index = (\<lambda>i. i mod 32),
      num_bitmask_words = (\<lambda>n. (n + 31) div 32)\<rparr>"

lemma cudf_bitmask_ops_ok: "bitmask_ops_ok cudf_bitmask_ops"
  by (simp add: bitmask_ops_ok_def cudf_bitmask_ops_def)

lemma valid_filter_cleared:
  assumes "0 < sint longs" "sint longs < 2 ^ 25"
  shows "valid_filter (pack_bloom_filter_header \<lparr>version = 1, num_hashes = n, num_longs = longs\<rparr>
    @ replicate (8 * nat (sint longs)) 0)"
  using assms by (simp add: valid_filter_def valid_header_def longs_of_def)

text \<open>
  C15: a bloom filter has no false negatives: when the values are split into any number of columns
  that are inserted into copies of a new filter, and the copies are merged, every operation
  succeeds and every inserted value is reported as present.
\<close>

theorem bloom_no_false_negatives:
  assumes "bitmask_ops_ok ops" "0 < sint longs" "sint longs < 2 ^ 25" "\<forall>k. can_alloc k"
    "input \<in> set inputs" "Some v \<in> set input"
  shows "\<exists>empty parts merged.
    bloom_filter_create can_alloc n longs = Inr empty
    \<and> map (bloom_filter_put ops empty) inputs = map Inr parts
    \<and> bloom_filter_merge ops can_alloc (concat parts) (length parts) = Inr merged
    \<and> bloom_filter_probe ops [Some v] merged = Inr [Some True]"
proof -
  obtain empty where e: "bloom_filter_create can_alloc n longs = Inr empty" "valid_filter empty"
    by (rule bloom_filter_create_valid [OF assms(2,3), of can_alloc n]) (use assms(4) in auto)
  define put where "put = (\<lambda>i. case bloom_filter_put ops empty i of Inr b \<Rightarrow> b | Inl _ \<Rightarrow> [])"
  have p: "bloom_filter_put ops empty i = Inr (put i)" "valid_filter (put i)"
    "filter_header (put i) = filter_header empty"
    "spark_bits (put i) = spark_bits empty \<union> (\<Union>v \<in> {v. Some v \<in> set i}. positions_of empty v)" for i
    by (rule bloom_filter_put_refines [OF assms(1) e(2), of i]; simp add: put_def)+
  let ?parts = "map put inputs"
  have parts: "?parts \<noteq> []"
      "\<forall>f \<in> set ?parts. valid_filter f \<and> filter_header f = filter_header empty"
      "can_alloc (length (hd ?parts))"
    using assms(4,5) p by auto
  obtain merged where m: "bloom_filter_merge ops can_alloc (concat ?parts) (length ?parts) = Inr merged"
    "valid_filter merged" "filter_header merged = filter_header empty"
    "spark_bits merged = (\<Union>f \<in> set ?parts. spark_bits f)"
    by (rule bloom_filter_merge_refines [where can_alloc = can_alloc and fs = ?parts, OF assms(1) parts])
  have "positions_of empty v \<subseteq> spark_bits (put input)" using p(4) [of input] assms(6) by auto
  then have "positions_of merged v \<subseteq> spark_bits merged"
    using m(3,4) assms(5) by (auto simp: positions_of_def bits_of_def)
  then have "bloom_filter_probe ops [Some v] merged = Inr [Some True]"
    by (simp add: bloom_filter_probe_refines [OF assms(1) m(2)])
  moreover have "map (bloom_filter_put ops empty) inputs = map Inr ?parts" using p(1) by simp
  ultimately show ?thesis using e(1) m(1) by blast
qed

theorem bloom_no_false_negatives_witness:
  "\<exists>empty parts merged.
    bloom_filter_create (\<lambda>_. True) 3 2 = Inr empty
    \<and> map (bloom_filter_put cudf_bitmask_ops empty) [[Some 5], [None, Some 7]] = map Inr parts
    \<and> bloom_filter_merge cudf_bitmask_ops (\<lambda>_. True) (concat parts) (length parts) = Inr merged
    \<and> bloom_filter_probe cudf_bitmask_ops [Some 7] merged = Inr [Some True]"
  by (rule bloom_no_false_negatives [OF cudf_bitmask_ops_ok, of _ _ "[None, Some 7]"]) simp_all

text \<open>
  C16: on every well-formed filter the code implements the set of bits that Spark reads from the
  serialized filter: insertion keeps the header and adds exactly the positions of the values that
  are not null, and a probe reports for each row whether its positions are all in the set, nulls
  as nulls.
\<close>

theorem bloom_refines_spark:
  assumes "bitmask_ops_ok ops" "valid_filter buf"
  shows "(\<exists>buf'. bloom_filter_put ops buf input = Inr buf' \<and> valid_filter buf'
        \<and> filter_header buf' = filter_header buf
        \<and> spark_bits buf' = spark_bits buf \<union> (\<Union>v \<in> {v. Some v \<in> set input}. positions_of buf v))
     \<and> bloom_filter_probe ops input buf
        = Inr (map (map_option (\<lambda>v. positions_of buf v \<subseteq> spark_bits buf)) input)"
  using bloom_filter_put_refines [OF assms, of input] bloom_filter_probe_refines [OF assms, of input]
  by metis

theorem bloom_refines_spark_witness:
  "\<exists>buf. bloom_filter_probe cudf_bitmask_ops [None, Some 4] buf
     = Inr (map (map_option (\<lambda>v. positions_of buf v \<subseteq> spark_bits buf)) [None, Some 4])"
  using bloom_refines_spark [OF cudf_bitmask_ops_ok valid_filter_cleared [of 1 3], of "[None, Some 4]"]
  by auto

text \<open>
  merging filters with the same header gives a filter with that header whose bits are the union
  of theirs.
\<close>

theorem bloom_merge_union:
  assumes "bitmask_ops_ok ops" "fs \<noteq> []" "\<forall>f \<in> set fs. valid_filter f \<and> filter_header f = h"
    "can_alloc (length (hd fs))"
  shows "\<exists>buf. bloom_filter_merge ops can_alloc (concat fs) (length fs) = Inr buf
    \<and> valid_filter buf \<and> filter_header buf = h \<and> spark_bits buf = (\<Union>f \<in> set fs. spark_bits f)"
  by (rule bloom_filter_merge_refines [where can_alloc = can_alloc and fs = fs, OF assms]) blast

theorem bloom_merge_union_witness:
  "\<exists>f buf. bloom_filter_merge cudf_bitmask_ops (\<lambda>_. True) (concat [f, f]) (length [f, f]) = Inr buf
    \<and> spark_bits buf = (\<Union>g \<in> set [f, f]. spark_bits g)"
proof -
  define f where "f = pack_bloom_filter_header \<lparr>version = 1, num_hashes = 3, num_longs = 1\<rparr>
    @ replicate 8 0"
  have "valid_filter f" using valid_filter_cleared [of 1 3] by (simp add: f_def)
  then show ?thesis
    using bloom_merge_union [of cudf_bitmask_ops "[f, f]" "filter_header f" "\<lambda>_. True"]
    by (auto simp: cudf_bitmask_ops_ok)
qed

text \<open>
  C17: the insertion kernel does not depend on the schedule of its threads: every interleaving of
  the atomic operations of the rows leaves the buffer that the rows leave one after the other, and
  accesses memory outside of the buffer exactly when they do.
\<close>

theorem bloom_put_any_schedule:
  assumes "interleaves (map (put_thread_ops ops bits n) input) sched"
  shows "run_steps atomicOr sched buf = gpu_bloom_filter_put ops bits input n buf"
  unfolding gpu_bloom_filter_put_def by (rule filter_memory.run_interleaving [OF assms])

theorem bloom_put_any_schedule_witness:
  "run_steps atomicOr
     (put_thread_ops cudf_bitmask_ops 64 1 (Some 9) @ put_thread_ops cudf_bitmask_ops 64 1 (Some 8)) (replicate 20 0)
   = gpu_bloom_filter_put cudf_bitmask_ops 64 [Some 8, None, Some 9] 1 (replicate 20 0)"
proof -
  obtain a b where ab: "put_thread_ops cudf_bitmask_ops 64 1 (Some 8) = [a]"
    "put_thread_ops cudf_bitmask_ops 64 1 (Some 9) = [b]" "put_thread_ops cudf_bitmask_ops 64 1 None = []"
    by (simp add: put_thread_ops_def bloom_hashes_def Let_def)
  have "interleaves [[a], [], [b]] [b, a]"
    by (rule interleaves.step [of 2 _ b "[]"], simp_all)
      (rule interleaves.step [of 0 _ a "[]"], auto intro: interleaves.finished)
  with ab show ?thesis
    using bloom_put_any_schedule [of cudf_bitmask_ops 64 1 "[Some 8, None, Some 9]" "[b, a]" "replicate 20 0"] by simp
qed

text \<open>
  C18: insertion and probe succeed exactly on the well-formed buffers; every other buffer is
  rejected by both with the same error, that of the first check it fails, and no access is ever
  outside of the buffer.
\<close>

theorem bloom_errors:
  assumes "bitmask_ops_ok ops"
  shows "((\<exists>buf'. bloom_filter_put ops buf input = Inr buf') \<longleftrightarrow> valid_filter buf)
    \<and> ((\<exists>r. bloom_filter_probe ops input buf = Inr r) \<longleftrightarrow> valid_filter buf)
    \<and> (valid_filter buf \<or>
       (let e = (if length buf < bloom_filter_header_size then Truncated_filter
           else if version (filter_header buf) \<noteq> 1 then Unexpected_version
           else if \<not> 0 <s bits_of buf then Empty_filter
           else if \<not> valid_header (filter_header buf) then Length_mismatch
           else Invalid_buffer)
        in bloom_filter_put ops buf input = Inl e \<and> bloom_filter_probe ops input buf = Inl e))"
proof (cases "valid_filter buf")
  case True
  obtain buf' where "bloom_filter_put ops buf input = Inr buf'"
    by (rule bloom_filter_put_refines [OF assms True])
  with True bloom_filter_probe_refines [OF assms True, of input] show ?thesis by simp
next
  case False
  then show ?thesis
    by (auto simp: bloom_filter_put_def bloom_filter_probe_def unpack_bloom_filter_eq [OF assms]
        valid_filter_def Let_def)
qed

theorem bloom_errors_witness:
  "bloom_filter_put cudf_bitmask_ops [0, 0] [Some 1] = Inl Truncated_filter
    \<and> bloom_filter_probe cudf_bitmask_ops [Some 1] [0, 0] = Inl Truncated_filter"
  using bloom_errors [OF cudf_bitmask_ops_ok, of "[0, 0]" "[Some 1]"]
  by (simp add: valid_filter_def bloom_filter_header_size_def)

text \<open>
  A new filter is not checked: with \<open>2 ^ 29\<close> longs the sizes wrap around and a buffer without any bits
  is created, which no operation accepts.
\<close>

lemma bloom_create_unusable:
  "\<exists>buf. bloom_filter_create (\<lambda>_. True) n (2 ^ 29) = Inr buf \<and> length buf = 12 \<and> \<not> valid_filter buf"
  by (simp add: bloom_filter_create_def get_bloom_filter_stride_def Let_def
      bloom_filter_header_size_def valid_filter_def valid_header_def spark_bloom_filter_version_def)

end
