(* ===== verification/CastString.thy ===== *)
theory CastString
  imports Prelude
begin

text \<open>
  The casts of strings to integers and decimals of \<open>cast_string.cu\<close>. A character is a byte; the
  comparisons of the code with the ASCII digits do not depend on whether \<open>char\<close> is signed. The
  integer kernel is modelled on the characters of a row, the decimal kernel on the characters from
  the start of its row to the end of the buffer, because it reads one character too far.
\<close>

section \<open>Characters and integer types\<close>

definition is_whitespace :: "8 word \<Rightarrow> bool" where
  "is_whitespace chr \<longleftrightarrow> chr \<le> 0x1F \<or> chr = 0x20"

definition is_digit_char :: "8 word \<Rightarrow> bool" where
  "is_digit_char chr \<longleftrightarrow> \<not> (chr > 57 \<or> chr < 48)"

datatype int_type =
    INT8 | INT16 | INT32 | INT64 | INT128 | UINT8 | UINT16 | UINT32 | UINT64

primrec type_bits :: "int_type \<Rightarrow> nat" where
  "type_bits INT8 = 8" | "type_bits INT16 = 16" | "type_bits INT32 = 32" | "type_bits INT64 = 64"
| "type_bits INT128 = 128" | "type_bits UINT8 = 8" | "type_bits UINT16 = 16"
| "type_bits UINT32 = 32" | "type_bits UINT64 = 64"

primrec is_signed :: "int_type \<Rightarrow> bool" where
  "is_signed INT8 = True" | "is_signed INT16 = True" | "is_signed INT32 = True"
| "is_signed INT64 = True" | "is_signed INT128 = True" | "is_signed UINT8 = False"
| "is_signed UINT16 = False" | "is_signed UINT32 = False" | "is_signed UINT64 = False"

definition type_min :: "int_type \<Rightarrow> int" where
  "type_min t = (if is_signed t then - (2 ^ (type_bits t - 1)) else 0)"

definition type_max :: "int_type \<Rightarrow> int" where
  "type_max t = (if is_signed t then 2 ^ (type_bits t - 1) - 1 else 2 ^ type_bits t - 1)"

section \<open>Accumulating digits\<close>

definition will_overflow_mul :: "int_type \<Rightarrow> int \<Rightarrow> bool \<Rightarrow> bool" where
  "will_overflow_mul t val adding =
     (if is_signed t \<and> \<not> adding then val < type_min t sdiv 10 else val > type_max t sdiv 10)"

definition will_overflow_add :: "int_type \<Rightarrow> int \<Rightarrow> int \<Rightarrow> bool \<Rightarrow> bool" where
  "will_overflow_add t lhs rhs adding =
     (if is_signed t \<and> \<not> adding then lhs < type_min t + rhs else lhs > type_max t - rhs)"

text \<open>\<open>None\<close> is a failure.\<close>

definition process_value :: "int_type \<Rightarrow> bool \<Rightarrow> int \<Rightarrow> int \<Rightarrow> bool \<Rightarrow> int option" where
  "process_value t first_value current_val new_digit adding =
     (if \<not> first_value \<and> will_overflow_mul t current_val adding then None
      else
        let current_val = (if first_value then current_val else current_val * 10) in
        if will_overflow_add t current_val new_digit adding then None
        else Some (if adding then current_val + new_digit else current_val - new_digit))"

section \<open>Strings to integers\<close>

text \<open>The loop over the characters behind the sign.\<close>

fun integer_loop ::
  "int_type \<Rightarrow> bool \<Rightarrow> bool \<Rightarrow> bool \<Rightarrow> bool \<Rightarrow> bool \<Rightarrow> bool \<Rightarrow> int \<Rightarrow> 8 word list \<Rightarrow> int option" where
  "integer_loop t ansi strip adding first truncating trailing val [] = Some val"
| "integer_loop t ansi strip adding first truncating trailing val (chr # cs) =
     (let continue = (\<lambda>truncating trailing.
            if \<not> truncating \<and> \<not> trailing
            then case process_value t first val (uint chr - 48) adding of
                   None \<Rightarrow> None
                 | Some v \<Rightarrow> integer_loop t ansi strip adding False truncating trailing v cs
            else integer_loop t ansi strip adding False truncating trailing val cs)
      in
        if trailing \<and> \<not> is_whitespace chr then None
        else if \<not> truncating \<and> chr = 46 \<and> \<not> ansi then continue True trailing
        else if \<not> is_digit_char chr then
          (if is_whitespace chr \<and> \<not> first \<and> strip then continue truncating True else None)
        else continue truncating trailing)"

text \<open>The leading sign: whether it is a minus, and what follows.\<close>

definition leading_sign :: "bool \<Rightarrow> 8 word list \<Rightarrow> bool \<times> 8 word list" where
  "leading_sign sgnd s =
     (case s of
        c # cs \<Rightarrow> if sgnd \<and> (c = 43 \<or> c = 45) then (c = 45, cs) else (False, s)
      | [] \<Rightarrow> (False, []))"

definition string_to_integer_kernel ::
  "int_type \<Rightarrow> bool \<Rightarrow> bool \<Rightarrow> 8 word list option \<Rightarrow> int option" where
  "string_to_integer_kernel t ansi strip row =
     (case row of
        None \<Rightarrow> None
      | Some chars \<Rightarrow>
          if chars = [] then None
          else
            let chars = (if strip then dropWhile is_whitespace chars else chars);
                (negative, rest) = leading_sign (is_signed t) chars
            in if rest = [] then None
               else integer_loop t ansi strip (\<not> negative) True False False 0 rest)"

text \<open>The error of the ANSI mode holds the row and its string.\<close>

datatype cast_error = Cast_error nat "8 word list" | Unsupported_precision int

definition null_count :: "'a option list \<Rightarrow> nat" where
  "null_count col = length (filter (\<lambda>x. x = None) col)"

definition row_valid_fn :: "'a option list \<Rightarrow> 8 word list option list \<Rightarrow> nat \<Rightarrow> bool" where
  "row_valid_fn col source_col row \<longleftrightarrow> col ! row = None \<and> source_col ! row \<noteq> None"

definition validate_ansi_column ::
  "'a option list \<Rightarrow> 8 word list option list \<Rightarrow> cast_error option" where
  "validate_ansi_column col source_col =
     (let num_errors = int (null_count col) - int (null_count source_col) in
      if num_errors > 0 then
        (case List.find (row_valid_fn col source_col) [0..<length col] of
           None \<Rightarrow> None
         | Some first_error \<Rightarrow> map_option (Cast_error first_error) (source_col ! first_error))
      else None)"

definition string_to_integer ::
  "int_type \<Rightarrow> 8 word list option list \<Rightarrow> bool \<Rightarrow> bool \<Rightarrow> cast_error + int option list" where
  "string_to_integer t string_col ansi strip =
     (if string_col = [] then Inr []
      else
        let col = map (string_to_integer_kernel t ansi strip) string_col in
        case (if ansi then validate_ansi_column col string_col else None) of
          Some e \<Rightarrow> Inl e
        | None \<Rightarrow> Inr col)"

section \<open>Strings to decimals\<close>

text \<open>The first pass validates the string and finds the place of the decimal point.\<close>

datatype processing_state =
    ST_DIGITS | ST_EXPONENT | ST_DECIMAL_POINT | ST_EXPONENT_OR_SIGN | ST_EXPONENT_SIGN
  | ST_VALIDATING_ONLY | ST_TRAILING_WHITESPACE | ST_INVALID

text \<open>\<open>validate_char\<close> sets the place of the point and the sign of the exponent.\<close>

definition validate_char ::
  "bool \<Rightarrow> processing_state \<Rightarrow> 8 word \<Rightarrow> int \<Rightarrow> int \<Rightarrow> bool \<Rightarrow> processing_state \<times> int \<times> bool" where
  "validate_char strip st chr chr_idx decimal_location exponent_positive =
     (case st of
        ST_TRAILING_WHITESPACE \<Rightarrow>
          (if \<not> is_whitespace chr then ST_INVALID else st, decimal_location, exponent_positive)
      | ST_EXPONENT_OR_SIGN \<Rightarrow>
          if chr = 43 then (ST_EXPONENT_SIGN, decimal_location, exponent_positive)
          else if chr = 45 then (ST_EXPONENT_SIGN, decimal_location, False)
          else if strip \<and> is_whitespace chr \<and> chr_idx \<noteq> 0
          then (ST_TRAILING_WHITESPACE, decimal_location, exponent_positive)
          else if \<not> is_digit_char chr then (ST_INVALID, decimal_location, exponent_positive)
          else (ST_EXPONENT, decimal_location, exponent_positive)
      | ST_VALIDATING_ONLY \<Rightarrow> (st, decimal_location, exponent_positive)
      | ST_INVALID \<Rightarrow> (st, decimal_location, exponent_positive)
      | _ \<Rightarrow>
          if st = ST_EXPONENT_SIGN \<or> st = ST_EXPONENT
          then (if \<not> is_digit_char chr then ST_INVALID else ST_EXPONENT, decimal_location, exponent_positive)
          else if \<not> is_digit_char chr then
            (if chr = 46 \<and> decimal_location = -1 then (ST_DECIMAL_POINT, chr_idx, exponent_positive)
             else if chr = 101 \<or> chr = 69 then (ST_EXPONENT_OR_SIGN, decimal_location, exponent_positive)
             else if strip \<and> is_whitespace chr \<and> chr_idx \<noteq> 0
             then (ST_TRAILING_WHITESPACE, decimal_location, exponent_positive)
             else (ST_INVALID, decimal_location, exponent_positive))
          else (ST_DIGITS, decimal_location, exponent_positive))"

record validation =
  vstate :: processing_state
  vlocation :: int
  vpositive :: bool
  vexponent :: int
  vlast :: int

text \<open>The loop over the characters; \<open>c\<close> is the index in the string and \<open>i\<close> that of the first digit.\<close>

fun validate_loop ::
  "int_type \<Rightarrow> bool \<Rightarrow> int \<Rightarrow> int \<Rightarrow> 8 word list \<Rightarrow> validation \<Rightarrow> validation option" where
  "validate_loop t strip i c [] v = Some v"
| "validate_loop t strip i c (chr # cs) v =
     (let char_num = c - i;
          last_state = vstate v;
          (st, location, pos) = validate_char strip last_state chr char_num (vlocation v) (vpositive v)
      in
        if st = ST_INVALID then None
        else
          let last_digit =
                (if last_state = ST_DIGITS \<and> st \<noteq> ST_DIGITS \<and> st \<noteq> ST_DECIMAL_POINT then c else vlast v);
              exponent =
                (if st = ST_EXPONENT
                 then process_value t (vexponent v = 0) (vexponent v) (uint chr - 48) pos
                 else Some (vexponent v))
          in case exponent of
               None \<Rightarrow> None
             | Some e \<Rightarrow>
                 validate_loop t strip i (c + 1) cs
                   \<lparr>vstate = st, vlocation = location, vpositive = pos, vexponent = e, vlast = last_digit\<rparr>)"

text \<open>
  \<open>chars\<close> are the characters from the start of the row to the end of the buffer and \<open>len\<close> the
  length of the row. The character behind a row of blanks is read before its index is compared
  with the length; when the buffer ends there, the read is out of bounds.
\<close>

datatype access_error = Out_of_buffer

definition validate_and_exponent ::
  "int_type \<Rightarrow> 8 word list \<Rightarrow> nat \<Rightarrow> bool \<Rightarrow> access_error + (bool \<times> int \<times> nat) option" where
  "validate_and_exponent t chars len strip =
     (if len = 0 then Inr None
      else
        let i = (if strip then length (takeWhile is_whitespace (take len chars)) else 0) in
        if length chars \<le> i then Inl Out_of_buffer
        else
          let positive = (chars ! i \<noteq> 45);
              i = (if chars ! i = 45 \<or> chars ! i = 43 then i + 1 else i)
          in
            if i = len then Inr None
            else
              Inr (case validate_loop t strip (int i) (int i) (drop i (take len chars))
                          \<lparr>vstate = ST_DIGITS, vlocation = -1, vpositive = True, vexponent = 0,
                           vlast = int len\<rparr> of
                     None \<Rightarrow> None
                   | Some v \<Rightarrow>
                       let location = (if vlocation v < 0 then vlast v - int i else vlocation v) in
                       Some (positive, s32 (location + vexponent v), i)))"

fun count_significant_loop :: "8 word list \<Rightarrow> int \<Rightarrow> int \<Rightarrow> int \<Rightarrow> int" where
  "count_significant_loop [] num_digits digits_found count = count"
| "count_significant_loop (c # cs) num_digits digits_found count =
     (if \<not> digits_found < num_digits then count
      else if c = 101 \<or> c = 69 then count
      else if c \<noteq> 46 then
        count_significant_loop cs num_digits (digits_found + 1)
          (if count \<noteq> 0 \<or> c \<noteq> 48 then count + 1 else count)
      else count_significant_loop cs num_digits digits_found count)"

definition count_significant_digits :: "8 word list \<Rightarrow> int \<Rightarrow> int" where
  "count_significant_digits str num_digits = count_significant_loop str num_digits 0 0"

function count_digits :: "int \<Rightarrow> int" where
  "count_digits val = (if val = 0 then 0 else 1 + count_digits (val sdiv 10))"
  by auto
termination
  by (relation "measure (\<lambda>v. nat \<bar>v\<bar>)") (auto simp: sdiv_pos split: if_splits)

declare count_digits.simps [simp del]

record decimal_digits =
  dvalid :: bool
  dvalue :: int
  dprecise :: int
  dtotal :: int
  dfound :: bool
  drounding :: int
  dlocation :: int

text \<open>The digit behind the last one that is kept rounds the value, away from zero from 5 on.\<close>

definition round_digit :: "int_type \<Rightarrow> bool \<Rightarrow> int \<Rightarrow> decimal_digits \<Rightarrow> decimal_digits" where
  "round_digit t positive new_digit d =
     (if new_digit \<ge> 5 then
        let orig_val = dvalue d in
        if will_overflow_add t orig_val 1 positive then d\<lparr>dvalid := False\<rparr>
        else
          let val = (if positive then orig_val + 1 else orig_val - 1);
              d = d\<lparr>dvalue := val\<rparr>
          in
            if orig_val \<noteq> 0 \<and> count_digits val > count_digits orig_val
            then d\<lparr>dtotal := dtotal d + 1, dprecise := dprecise d + 1,
                   dlocation := s32 (dlocation d + 1), drounding := drounding d + 1\<rparr>
            else d
      else d)"

fun decimal_loop ::
  "int_type \<Rightarrow> bool \<Rightarrow> int \<Rightarrow> int \<Rightarrow> bool \<Rightarrow> 8 word list \<Rightarrow> decimal_digits \<Rightarrow> decimal_digits" where
  "decimal_loop t positive precision last_digit first [] d = d"
| "decimal_loop t positive precision last_digit first (chr # cs) d =
     (if chr = 46 then decimal_loop t positive precision last_digit False cs d
      else if \<not> is_digit_char chr then d
      else
        let new_digit = uint chr - 48 in
        if dprecise d + 1 > precision \<or> dtotal d + 1 > last_digit
        then round_digit t positive new_digit d
        else
          let d = d\<lparr>dtotal := dtotal d + 1\<rparr>;
              d = (if dfound d \<or> dtotal d > dlocation d \<or> new_digit \<noteq> 0
                   then d\<lparr>dfound := True, dprecise := dprecise d + 1\<rparr> else d)
          in case process_value t first (dvalue d) new_digit positive of
               None \<Rightarrow> d\<lparr>dvalid := False\<rparr>
             | Some v \<Rightarrow> decimal_loop t positive precision last_digit False cs (d\<lparr>dvalue := v\<rparr>))"

text \<open>Appending \<open>n\<close> zeros: whether all fit, and the number.\<close>

primrec pad_zeros :: "int_type \<Rightarrow> bool \<Rightarrow> nat \<Rightarrow> int \<Rightarrow> bool \<times> int" where
  "pad_zeros t positive 0 val = (True, val)"
| "pad_zeros t positive (Suc n) val =
     (if will_overflow_mul t val positive then (False, val) else pad_zeros t positive n (val * 10))"

definition string_to_decimal_kernel ::
  "int_type \<Rightarrow> int \<Rightarrow> int \<Rightarrow> bool \<Rightarrow> bool \<Rightarrow> 8 word list \<Rightarrow> nat \<Rightarrow> access_error + int option" where
  "string_to_decimal_kernel t scale precision strip valid_entry chars len =
     (if \<not> (valid_entry \<and> len > 0) then Inr None
      else
        case validate_and_exponent t chars len strip of
          Inl e \<Rightarrow> Inl e
        | Inr None \<Rightarrow> Inr None
        | Inr (Some (positive, decimal_location, first_digit)) \<Rightarrow>
            let max_digits_before_decimal = s32 (precision + scale);
                str = drop first_digit (take len chars);
                significant_in_string = count_significant_digits str decimal_location;
                last_digit = s32 (decimal_location - scale);
                start = \<lparr>dvalid = True, dvalue = 0, dprecise = 0, dtotal = 0, dfound = False,
                         drounding = 0, dlocation = decimal_location\<rparr>;
                d = (if last_digit \<ge> 0 then decimal_loop t positive precision last_digit True str start
                     else start);
                preceding_zeros = (if dlocation d < 0 then s32 (- dlocation d) else 0);
                zeros_to_decimal =
                  max 0 (if scale > 0 then s32 (dlocation d - dtotal d - scale)
                         else s32 (dlocation d - dtotal d));
                significant_before = significant_in_string + zeros_to_decimal + drounding d;
                leading_zeros = dtotal d - dprecise d;
                valid = (dvalid d \<and> \<not> max_digits_before_decimal < s32 (dlocation d - leading_zeros));
                (ok1, val1) = pad_zeros t positive (nat zeros_to_decimal) (dvalue d);
                digits_after = dprecise d + zeros_to_decimal - significant_before + preceding_zeros;
                digits_needed = min (precision - significant_before) (- scale);
                (ok2, val2) = pad_zeros t positive (nat (digits_needed - digits_after)) val1
            in Inr (if valid \<and> ok1 \<and> ok2 then Some val2 else None))"

text \<open>
  A column of strings is the list of its rows, whether they are valid and their characters; the
  buffer holds the characters of all rows one after the other. An access out of the buffer makes
  the cast undefined, \<open>None\<close>.
\<close>

definition decimal_type :: "int \<Rightarrow> int_type option" where
  "decimal_type precision =
     (if precision \<le> 9 then Some INT32 else if precision \<le> 18 then Some INT64
      else if precision \<le> 38 then Some INT128 else None)"

definition decimal_row ::
  "int_type \<Rightarrow> int \<Rightarrow> int \<Rightarrow> bool \<Rightarrow> (bool \<times> 8 word list) list \<Rightarrow> nat \<Rightarrow> access_error + int option" where
  "decimal_row t scale precision strip col i =
     string_to_decimal_kernel t scale precision strip (fst (col ! i))
       (concat (map snd (drop i col))) (length (snd (col ! i)))"

definition string_to_decimal ::
  "int \<Rightarrow> int \<Rightarrow> (bool \<times> 8 word list) list \<Rightarrow> bool \<Rightarrow> bool \<Rightarrow> (cast_error + int option list) option" where
  "string_to_decimal precision scale string_col ansi strip =
     (case decimal_type precision of
        None \<Rightarrow> Some (Inl (Unsupported_precision precision))
      | Some t \<Rightarrow>
          if string_col = [] then Some (Inr [])
          else
            let rows = map (decimal_row t scale precision strip string_col) [0..<length string_col] in
            if list_ex isl rows then None
            else
              let col = map projr rows;
                  source = map (\<lambda>(v, s). if v then Some s else None) string_col
              in Some (case (if ansi then validate_ansi_column col source else None) of
                         Some e \<Rightarrow> Inl e
                       | None \<Rightarrow> Inr col))"

section \<open>Exactness of the overflow checks\<close>

definition in_type :: "int_type \<Rightarrow> int \<Rightarrow> bool" where
  "in_type t v \<longleftrightarrow> type_min t \<le> v \<and> v \<le> type_max t"

definition signed_value :: "bool \<Rightarrow> int \<Rightarrow> int" where
  "signed_value adding u = (if adding then u else - u)"

lemma type_max_pos: "9 < type_max t"
  by (cases t) (simp_all add: type_max_def)

lemma type_min_neg: "is_signed t \<Longrightarrow> type_min t < - 9"
  by (cases t) (simp_all add: type_min_def)

lemma process_value_eq:
  assumes "0 \<le> u" "0 \<le> d" "d \<le> 9" "first \<Longrightarrow> u = 0" "adding \<or> is_signed t"
  shows "process_value t first (signed_value adding u) d adding =
    (if in_type t (signed_value adding (10 * u + d)) then Some (signed_value adding (10 * u + d))
     else None)"
proof -
  have m: "type_min t \<le> 0" "0 \<le> type_max t"
    using type_max_pos [of t] type_min_neg [of t] by (auto simp: type_min_def)
  have "process_value t first (signed_value adding u) d adding =
    process_value t False (signed_value adding u) d adding"
  proof (cases first)
    case True
    with assms m show ?thesis
      by (auto simp: process_value_def signed_value_def will_overflow_mul_def sdiv_pos Let_def)
  qed simp
  also have "\<dots> = (if in_type t (signed_value adding (10 * u + d))
      then Some (signed_value adding (10 * u + d)) else None)"
  proof (cases adding)
    case True
    then show ?thesis using assms m
      by (auto simp: process_value_def signed_value_def will_overflow_mul_def will_overflow_add_def
          sdiv_pos Let_def in_type_def)
  next
    case False
    then show ?thesis using assms m
      by (auto simp: process_value_def signed_value_def will_overflow_mul_def will_overflow_add_def
          sdiv_pos Let_def in_type_def)
  qed
  finally show ?thesis .
qed

section \<open>The language of integers\<close>

text \<open>The value of decimal digits.\<close>

definition digits_value :: "int \<Rightarrow> 8 word list \<Rightarrow> int" where
  "digits_value u ds = foldl (\<lambda>a c. 10 * a + (uint c - 48)) u ds"

text \<open>
  The integers a row may hold: blanks, a sign, digits, the digits of a fraction that is cut off
  unless in ANSI mode, and blanks.
\<close>

definition integer_literal ::
  "int_type \<Rightarrow> bool \<Rightarrow> bool \<Rightarrow> 8 word list \<Rightarrow> int option" where
  "integer_literal t ansi strip s =
     (let s = (if strip then dropWhile is_whitespace s else s);
          (negative, u) = leading_sign (is_signed t) s;
          ds = takeWhile is_digit_char u;
          r = dropWhile is_digit_char u;
          r = (if \<not> ansi \<and> r \<noteq> [] \<and> hd r = 46 then dropWhile is_digit_char (tl r) else r);
          v = signed_value (\<not> negative) (digits_value 0 ds)
      in
        if u \<noteq> [] \<and> \<not> is_whitespace (hd u)
          \<and> (r = [] \<or> strip \<and> list_all is_whitespace r) \<and> in_type t v
        then Some v else None)"

lemma digit_bounds: "is_digit_char c \<Longrightarrow> 0 \<le> uint c - 48 \<and> uint c - 48 \<le> 9"
  by (simp add: is_digit_char_def word_less_def not_less)

lemma whitespace_not_digit: "is_whitespace c \<Longrightarrow> \<not> is_digit_char c"
  by (auto simp: is_whitespace_def is_digit_char_def word_le_def word_less_def)

lemma dot_char [simp]: "\<not> is_digit_char 46" "\<not> is_whitespace 46"
  by (simp_all add: is_whitespace_def is_digit_char_def)

lemma digits_value_ge: "0 \<le> u \<Longrightarrow> list_all is_digit_char ds \<Longrightarrow> u \<le> digits_value u ds"
proof (induction ds arbitrary: u)
  case (Cons c ds)
  then have d: "0 \<le> uint c - 48" using digit_bounds [of c] by simp
  with Cons have "10 * u + (uint c - 48) \<le> digits_value (10 * u + (uint c - 48)) ds"
    by (intro Cons.IH) simp_all
  moreover have "digits_value u (c # ds) = digits_value (10 * u + (uint c - 48)) ds"
    by (simp add: digits_value_def)
  ultimately show ?case using Cons.prems(1) d by linarith
qed (simp add: digits_value_def)

lemma in_type_mono: "0 \<le> u \<Longrightarrow> u \<le> v \<Longrightarrow> in_type t (signed_value a v) \<Longrightarrow> in_type t (signed_value a u)"
  using type_max_pos [of t] type_min_neg [of t]
  by (auto simp: in_type_def signed_value_def type_min_def split: if_splits)

text \<open>The loop behind the digits: nothing, a fraction or blanks.\<close>

lemma loop_trailing:
  "strip \<Longrightarrow> integer_loop t ansi strip adding False tr True v r
    = (if list_all is_whitespace r then Some v else None)"
  by (induction r arbitrary: tr) (auto simp: whitespace_not_digit)

lemma loop_truncating:
  "integer_loop t ansi strip adding False True False v r =
    (let r = dropWhile is_digit_char r in
     if r = [] \<or> strip \<and> list_all is_whitespace r then Some v else None)"
  by (induction r) (auto simp: Let_def loop_trailing whitespace_not_digit)

lemma loop_behind_digits:
  assumes "r = [] \<or> \<not> is_digit_char (hd r)"
  shows "integer_loop t ansi strip adding False False False v r =
    (let r = (if \<not> ansi \<and> r \<noteq> [] \<and> hd r = 46 then dropWhile is_digit_char (tl r) else r) in
     if r = [] \<or> strip \<and> list_all is_whitespace r then Some v else None)"
  using assms by (cases r) (auto simp: Let_def loop_truncating loop_trailing)

lemma loop_digits:
  assumes "0 \<le> u" "first \<Longrightarrow> u = 0" "adding \<or> is_signed t" "list_all is_digit_char ds"
    "in_type t (signed_value adding u)" "ds \<noteq> []"
  shows "integer_loop t ansi strip adding first False False (signed_value adding u) (ds @ r) =
    (if in_type t (signed_value adding (digits_value u ds))
     then integer_loop t ansi strip adding False False False (signed_value adding (digits_value u ds)) r
     else None)"
  using assms
proof (induction ds arbitrary: u first)
  case (Cons c ds)
  let ?u = "10 * u + (uint c - 48)"
  have c: "is_digit_char c" using Cons.prems by simp
  then have b: "0 \<le> uint c - 48" "uint c - 48 \<le> 9" and "c \<noteq> 46" "\<not> is_whitespace c"
    using digit_bounds whitespace_not_digit by auto
  then have step: "integer_loop t ansi strip adding first False False (signed_value adding u) (c # ds @ r) =
    (if in_type t (signed_value adding ?u)
     then integer_loop t ansi strip adding False False False (signed_value adding ?u) (ds @ r) else None)"
    using process_value_eq [OF Cons.prems(1) b Cons.prems(2,3)] c by (simp add: Let_def)
  have u: "0 \<le> ?u" using b Cons.prems by simp
  have dv: "digits_value u (c # ds) = digits_value ?u ds" by (simp add: digits_value_def)
  show ?case
  proof (cases "in_type t (signed_value adding ?u)")
    case True
    show ?thesis
    proof (cases "ds = []")
      case True
      then show ?thesis using step by (simp add: dv digits_value_def)
    next
      case False
      then show ?thesis
        using Cons.IH [of ?u False] Cons.prems u True step by (simp add: dv)
    qed
  next
    case False
    have "\<not> in_type t (signed_value adding (digits_value ?u ds))"
      using False in_type_mono [OF u digits_value_ge [OF u]] Cons.prems by auto
    with False step show ?thesis by (simp add: dv)
  qed
qed simp

lemma in_type_zero: "in_type t (signed_value a 0)"
  using type_max_pos [of t] type_min_neg [of t] by (auto simp: in_type_def signed_value_def type_min_def)

lemma integer_loop_eq:
  assumes "adding \<or> is_signed t" "u \<noteq> []"
  shows "integer_loop t ansi strip adding True False False 0 u =
    (let ds = takeWhile is_digit_char u; r = dropWhile is_digit_char u;
         r = (if \<not> ansi \<and> r \<noteq> [] \<and> hd r = 46 then dropWhile is_digit_char (tl r) else r);
         v = signed_value adding (digits_value 0 ds)
     in if \<not> is_whitespace (hd u) \<and> (r = [] \<or> strip \<and> list_all is_whitespace r) \<and> in_type t v
        then Some v else None)"
proof (cases "is_digit_char (hd u)")
  case True
  let ?ds = "takeWhile is_digit_char u" and ?r = "dropWhile is_digit_char u"
  have ds: "?ds \<noteq> []" "list_all is_digit_char ?ds" "?r = [] \<or> \<not> is_digit_char (hd ?r)"
    using True assms(2) hd_dropWhile [of is_digit_char u]
    by (cases u; auto simp: list_all_iff dest: set_takeWhileD)+
  have "integer_loop t ansi strip adding True False False (signed_value adding 0) (?ds @ ?r) =
    (if in_type t (signed_value adding (digits_value 0 ?ds))
     then integer_loop t ansi strip adding False False False (signed_value adding (digits_value 0 ?ds)) ?r
     else None)"
    by (rule loop_digits) (use assms(1) ds in_type_zero in auto)
  moreover have "\<not> is_whitespace (hd u)" using True whitespace_not_digit by blast
  moreover have "signed_value adding 0 = 0" by (simp add: signed_value_def)
  ultimately show ?thesis
    by (simp only: takeWhile_dropWhile_id loop_behind_digits [OF ds(3)] Let_def) auto
next
  case False
  then obtain c cs where u: "u = c # cs" "\<not> is_digit_char c" using assms(2) by (cases u) auto
  have z: "signed_value adding 0 = 0" by (simp add: signed_value_def)
  show ?thesis
    using u in_type_zero [of t adding]
    by (auto simp: Let_def loop_truncating digits_value_def z)
qed

lemma string_to_integer_kernel_eq:
  "string_to_integer_kernel t ansi strip row = Option.bind row (integer_literal t ansi strip)"
proof (cases row)
  case (Some s)
  let ?s = "if strip then dropWhile is_whitespace s else s"
  obtain negative u where ls: "leading_sign (is_signed t) ?s = (negative, u)" by fastforce
  have sg: "\<not> negative \<or> is_signed t"
    using ls by (auto simp: leading_sign_def split: list.splits if_splits)
  have u: "u = []" if "s = []" using ls that by (cases strip) (auto simp: leading_sign_def)
  show ?thesis
  proof (cases "u = []")
    case True
    then show ?thesis
      unfolding Some string_to_integer_kernel_def integer_literal_def Let_def option.case bind.simps
        ls prod.case by simp
  next
    case False
    with u have "s \<noteq> []" by blast
    with False show ?thesis
      unfolding Some string_to_integer_kernel_def integer_literal_def Let_def option.case bind.simps
        ls prod.case integer_loop_eq [OF sg False] by simp
  qed
qed (simp add: string_to_integer_kernel_def)

text \<open>
  Casting a string to an integer type accepts exactly the literals described above whose value
  is in the range of the type, the least value of a signed type included, and returns that value.
\<close>

theorem string_to_integer_exact:
  "string_to_integer_kernel t ansi strip row = Option.bind row (integer_literal t ansi strip)"
  by (rule string_to_integer_kernel_eq)

section \<open>Round trip and columns\<close>

text \<open>The usual decimal notation.\<close>

fun print_nat :: "nat \<Rightarrow> 8 word list" where
  "print_nat n = (if n < 10 then [of_nat (48 + n)] else print_nat (n div 10) @ [of_nat (48 + n mod 10)])"

declare print_nat.simps [simp del]

definition print_int :: "int \<Rightarrow> 8 word list" where
  "print_int v = (if v < 0 then 45 # print_nat (nat (- v)) else print_nat (nat v))"

lemma digit_of_nat: "d < 10 \<Longrightarrow> is_digit_char (of_nat (48 + d)) \<and> uint (of_nat (48 + d) :: 8 word) = 48 + int d"
proof -
  have "\<forall>d \<in> set [0..<10]. is_digit_char (of_nat (48 + d)) \<and> uint (of_nat (48 + d) :: 8 word) = 48 + int d"
    by (simp add: is_digit_char_def upt_rec)
  then show "d < 10 \<Longrightarrow> ?thesis" by simp
qed

lemma print_nat_digits: "list_all is_digit_char (print_nat n)" "print_nat n \<noteq> []"
  by (induction n rule: print_nat.induct; subst print_nat.simps; use digit_of_nat in auto)+

lemma print_nat_value: "digits_value 0 (print_nat n) = int n"
proof (induction n rule: print_nat.induct)
  case (1 n)
  show ?case
  proof (cases "n < 10")
    case True
    then show ?thesis using digit_of_nat [OF True] by (simp add: print_nat.simps digits_value_def)
  next
    case False
    then show ?thesis
      using 1 digit_of_nat [of "n mod 10"]
      by (subst print_nat.simps) (simp add: digits_value_def zdiv_int zmod_int)
  qed
qed

text \<open>
  C24: printing any integer in the range of a type and casting the string back gives the integer, in
  every mode.
\<close>

theorem print_cast_roundtrip:
  assumes "in_type t v"
  shows "string_to_integer_kernel t ansi strip (Some (print_int v)) = Some v"
proof -
  let ?n = "print_nat (nat \<bar>v\<bar>)"
  note n = print_nat_digits [of "nat \<bar>v\<bar>"]
  have h: "is_digit_char (hd ?n)" using n by (cases ?n) auto
  then have nh: "\<not> is_whitespace (hd ?n)" "hd ?n \<noteq> 43" "hd ?n \<noteq> 45"
    using whitespace_not_digit by (auto simp: is_digit_char_def)
  have m: "\<not> is_whitespace 45" by (simp add: is_whitespace_def)
  have sg: "is_signed t" if "v < 0" using assms that by (auto simp: in_type_def type_min_def split: if_splits)
  have p: "print_int v = (if v < 0 then 45 # ?n else ?n)" by (simp add: print_int_def)
  have d: "dropWhile is_whitespace (print_int v) = print_int v"
    using n(2) nh(1) m by (cases ?n) (auto simp: p)
  have l: "leading_sign (is_signed t) (print_int v) = (v < 0, ?n)"
    using n(2) nh sg by (cases ?n) (auto simp: p leading_sign_def)
  have t: "takeWhile is_digit_char ?n = ?n" "dropWhile is_digit_char ?n = []"
    using n(1) by (simp_all add: list_all_iff)
  have "signed_value (\<not> v < 0) (digits_value 0 ?n) = v"
    by (simp add: print_nat_value signed_value_def)
  then show ?thesis
    using assms nh n(2) by (simp add: string_to_integer_kernel_eq integer_literal_def d l t Let_def)
qed

theorem print_cast_roundtrip_witness:
  "string_to_integer_kernel INT8 True False (Some (print_int (- 128))) = Some (- 128)"
  by (rule print_cast_roundtrip) (simp add: in_type_def type_min_def type_max_def)

text \<open>Counting nulls is enough to find out whether a row failed, because no null row becomes valid.\<close>

lemma validate_ansi_column_eq:
  assumes "length col = length source_col"
    "\<And>i. i < length source_col \<Longrightarrow> source_col ! i = None \<Longrightarrow> col ! i = None"
  shows "validate_ansi_column col source_col =
    map_option (\<lambda>i. Cast_error i (the (source_col ! i)))
      (List.find (row_valid_fn col source_col) [0..<length col])"
proof -
  let ?c = "{i. i < length col \<and> col ! i = None}" and ?s = "{i. i < length source_col \<and> source_col ! i = None}"
  have sub: "?s \<subseteq> ?c" using assms by auto
  have n: "null_count col = card ?c" "null_count source_col = card ?s"
    by (simp_all add: null_count_def length_filter_conv_card)
  show ?thesis
  proof (cases "?s = ?c")
    case True
    have "\<not> row_valid_fn col source_col i" if "i < length col" for i
    proof
      assume "row_valid_fn col source_col i"
      then have "i \<in> ?c" "i \<notin> ?s" using that by (auto simp: row_valid_fn_def)
      with True show False by blast
    qed
    then have "List.find (row_valid_fn col source_col) [0..<length col] = None"
      by (simp add: find_None_iff)
    then show ?thesis using True n by (simp add: validate_ansi_column_def)
  next
    case False
    with sub have "card ?s < card ?c" by (intro psubset_card_mono) auto
    then have d: "int (null_count col) - int (null_count source_col) > 0" using n by simp
    show ?thesis
    proof (cases "List.find (row_valid_fn col source_col) [0..<length col]")
      case None
      with d show ?thesis by (simp add: validate_ansi_column_def)
    next
      case (Some i)
      then have "source_col ! i \<noteq> None" by (auto simp: find_Some_iff row_valid_fn_def)
      with Some d show ?thesis by (auto simp: validate_ansi_column_def)
    qed
  qed
qed

text \<open>
  C23: casting a column to an integer type fails only in ANSI mode, and then with the first row that
  is not null and not a literal of the type; otherwise every row is cast on its own and nulls stay
  null.
\<close>

theorem string_to_integer_columns:
  "string_to_integer t col ansi strip =
    (let out = map (\<lambda>row. Option.bind row (integer_literal t ansi strip)) col in
     case (if ansi then List.find (\<lambda>i. col ! i \<noteq> None \<and> out ! i = None) [0..<length col] else None) of
       Some i \<Rightarrow> Inl (Cast_error i (the (col ! i)))
     | None \<Rightarrow> Inr out)"
proof -
  let ?out = "map (\<lambda>row. Option.bind row (integer_literal t ansi strip)) col"
  have o: "map (string_to_integer_kernel t ansi strip) col = ?out"
    by (simp add: string_to_integer_kernel_eq [abs_def])
  have v: "validate_ansi_column ?out col = map_option (\<lambda>i. Cast_error i (the (col ! i)))
      (List.find (row_valid_fn ?out col) [0..<length col])"
    by (subst validate_ansi_column_eq) auto
  have "row_valid_fn ?out col = (\<lambda>i. col ! i \<noteq> None \<and> ?out ! i = None)"
    by (auto simp: row_valid_fn_def fun_eq_iff)
  with v show ?thesis
    unfolding string_to_integer_def Let_def o
    by (cases "List.find (\<lambda>i. col ! i \<noteq> None \<and> ?out ! i = None) [0..<length col]") auto
qed

end
