(* ===== verification/CastDecimal.thy ===== *)
theory CastDecimal
  imports CastString
begin

text \<open>
  The properties of the cast of strings to decimals: on plain decimal notation the kernel is exact
  arithmetic followed by one rounding, and inputs where it departs from Spark.
\<close>

section \<open>Validation of plain notation\<close>

lemma whitespace_char:
  "is_whitespace c \<Longrightarrow> c \<noteq> 46 \<and> c \<noteq> 43 \<and> c \<noteq> 45 \<and> c \<noteq> 101 \<and> c \<noteq> 69 \<and> \<not> is_digit_char c"
  by (auto simp: is_whitespace_def is_digit_char_def word_le_def word_less_def)

lemma digit_char: "is_digit_char c \<Longrightarrow> c \<noteq> 46 \<and> c \<noteq> 43 \<and> c \<noteq> 45 \<and> c \<noteq> 101 \<and> c \<noteq> 69 \<and> \<not> is_whitespace c"
  using whitespace_char by (auto simp: is_digit_char_def)

lemma validate_loop_digits:
  assumes "list_all is_digit_char ds" "vstate v = ST_DIGITS \<or> vstate v = ST_DECIMAL_POINT"
  shows "validate_loop t strip i c (ds @ r) v
    = validate_loop t strip i (c + int (length ds)) r
        (if ds = [] then v else v\<lparr>vstate := ST_DIGITS\<rparr>)"
  using assms
proof (induction ds arbitrary: c v)
  case (Cons d ds)
  have "validate_loop t strip i c (d # (ds @ r)) v
      = validate_loop t strip i (c + 1) (ds @ r) (v\<lparr>vstate := ST_DIGITS\<rparr>)"
    using Cons.prems by (cases v) (auto simp: validate_char_def Let_def)
  then show ?case using Cons.IH [of "v\<lparr>vstate := ST_DIGITS\<rparr>" "c + 1"] Cons.prems
    by (simp add: add.assoc)
qed simp

lemma validate_loop_dot:
  assumes "vstate v = ST_DIGITS" "vlocation v = - 1"
  shows "validate_loop t strip i c (46 # r) v
    = validate_loop t strip i (c + 1) r (v\<lparr>vstate := ST_DECIMAL_POINT, vlocation := c - i\<rparr>)"
  using assms by (cases v) (simp add: validate_char_def Let_def)

lemma validate_loop_trailing:
  assumes "list_all is_whitespace ws" "vstate v = ST_TRAILING_WHITESPACE"
  shows "validate_loop t strip i c ws v = Some v"
  using assms by (cases v, induction ws arbitrary: c) (auto simp: validate_char_def Let_def)

lemma validate_loop_blanks:
  assumes "list_all is_whitespace ws" "vstate v = ST_DIGITS \<or> vstate v = ST_DECIMAL_POINT"
    "ws \<noteq> [] \<Longrightarrow> strip" "i < c"
  shows "\<exists>v'. validate_loop t strip i c ws v = Some v' \<and> vlocation v' = vlocation v
    \<and> vexponent v' = vexponent v
    \<and> (vstate v = ST_DIGITS \<longrightarrow> vlast v' = (if ws = [] then vlast v else c))"
proof (cases ws)
  case (Cons w ws')
  define v' where "v' = v\<lparr>vstate := ST_TRAILING_WHITESPACE,
    vlast := if vstate v = ST_DIGITS then c else vlast v\<rparr>"
  have "validate_loop t strip i c ws v = validate_loop t strip i (c + 1) ws' v'"
    using assms Cons whitespace_char [of w] by (cases v) (auto simp: validate_char_def Let_def v'_def)
  also have "\<dots> = Some v'"
    using assms(1) Cons by (intro validate_loop_trailing) (simp_all add: v'_def)
  finally show ?thesis by (simp add: v'_def Cons)
qed simp

declare validate_loop.simps [simp del]

text \<open>The parts of a string in plain notation: blanks, sign, digits, fraction, blanks.\<close>

definition plain_notation ::
  "bool \<Rightarrow> 8 word list \<Rightarrow> 8 word list \<Rightarrow> 8 word list \<Rightarrow> bool \<Rightarrow> 8 word list \<Rightarrow> 8 word list \<Rightarrow> bool" where
  "plain_notation strip pre sg ds dot fs post \<longleftrightarrow>
     list_all is_whitespace pre \<and> list_all is_whitespace post \<and> (strip \<or> pre = [] \<and> post = [])
     \<and> sg \<in> {[], [43], [45]} \<and> list_all is_digit_char ds \<and> list_all is_digit_char fs
     \<and> (dot \<or> fs = [] \<and> ds \<noteq> [])"

definition plain_string ::
  "8 word list \<Rightarrow> 8 word list \<Rightarrow> 8 word list \<Rightarrow> bool \<Rightarrow> 8 word list \<Rightarrow> 8 word list \<Rightarrow> 8 word list" where
  "plain_string pre sg ds dot fs post = pre @ sg @ ds @ (if dot then 46 # fs else []) @ post"

lemma validate_plain:
  assumes "plain_notation strip pre sg ds dot fs post"
    "s = plain_string pre sg ds dot fs post" "length s < 2 ^ 30"
  shows "validate_and_exponent t (s @ rest) (length s) strip
    = Inr (Some (sg \<noteq> [45], int (length ds), length pre + length sg))"
proof -
  let ?body = "ds @ (if dot then 46 # fs else []) @ post"
  let ?i = "length pre + length sg"
  let ?v0 = "\<lparr>vstate = ST_DIGITS, vlocation = -1, vpositive = True, vexponent = 0,
    vlast = int (length s)\<rparr>"
  note p = assms(1) [unfolded plain_notation_def]
  have s: "s = pre @ sg @ ?body" using assms(2) by (simp add: plain_string_def)
  obtain b bs where b: "sg @ ?body = b # bs" "\<not> is_whitespace b"
    using p digit_char whitespace_char [of 43] whitespace_char [of 45]
    by (cases sg; cases ds) (auto simp: is_whitespace_def)
  have tw: "(if strip then length (takeWhile is_whitespace (take (length s) (s @ rest))) else 0) = length pre"
    using p b by (auto simp: s takeWhile_append list_all_iff)
  have at: "(s @ rest) ! length pre = b" using b(1) by (simp add: s nth_append)
  have len: "length pre < length s" using b(1) by (simp add: s)
  have sgf: "(b \<noteq> 45) = (sg \<noteq> [45])"
    "(if b = 45 \<or> b = 43 then length pre + 1 else length pre) = ?i"
    using p b(1) digit_char by (cases ds; auto split: if_splits)+
  have ne: "?i \<noteq> length s" using p by (auto simp: s)
  have dr: "drop ?i (take (length s) (s @ rest)) = ?body" by (simp add: s)
  have pw: "list_all is_whitespace post" and ps: "post \<noteq> [] \<Longrightarrow> strip" using p by auto
  obtain v where v: "validate_loop t strip (int ?i) (int ?i) ?body ?v0 = Some v"
    "vexponent v = 0" "(if vlocation v < 0 then vlast v - int ?i else vlocation v) = int (length ds)"
  proof (cases dot)
    case True
    let ?v1 = "?v0\<lparr>vstate := ST_DECIMAL_POINT, vlocation := int (length ds)\<rparr>"
    let ?v2 = "if fs = [] then ?v1 else ?v1\<lparr>vstate := ST_DIGITS\<rparr>"
    let ?c = "int ?i + int (length ds) + 1 + int (length fs)"
    have "validate_loop t strip (int ?i) (int ?i) ?body ?v0
        = validate_loop t strip (int ?i) (int ?i + int (length ds)) (46 # fs @ post) ?v0"
      using p True validate_loop_digits [of ds ?v0] by simp
    also have "\<dots> = validate_loop t strip (int ?i) (int ?i + int (length ds) + 1) (fs @ post) ?v1"
      by (subst validate_loop_dot) simp_all
    also have "\<dots> = validate_loop t strip (int ?i) ?c post ?v2"
      using p by (subst validate_loop_digits) simp_all
    finally have e: "validate_loop t strip (int ?i) (int ?i) ?body ?v0
        = validate_loop t strip (int ?i) ?c post ?v2" .
    have st: "vstate ?v2 = ST_DIGITS \<or> vstate ?v2 = ST_DECIMAL_POINT" by simp
    have c: "int ?i < ?c" by simp
    from validate_loop_blanks [OF pw st ps c] obtain v' where
      "validate_loop t strip (int ?i) ?c post ?v2 = Some v'"
      "vlocation v' = vlocation ?v2" "vexponent v' = vexponent ?v2" by blast
    with e show ?thesis by (intro that [of v']) simp_all
  next
    case False
    then have d: "ds \<noteq> []" "fs = []" using p by auto
    let ?c = "int ?i + int (length ds)"
    have e: "validate_loop t strip (int ?i) (int ?i) ?body ?v0
        = validate_loop t strip (int ?i) ?c post ?v0"
      using p False validate_loop_digits [of ds ?v0] by simp
    have st: "vstate ?v0 = ST_DIGITS \<or> vstate ?v0 = ST_DECIMAL_POINT" by simp
    have c: "int ?i < ?c" using d by simp
    from validate_loop_blanks [OF pw st ps c] obtain v' where
      "validate_loop t strip (int ?i) ?c post ?v0 = Some v'" "vlocation v' = vlocation ?v0"
      "vexponent v' = vexponent ?v0" "vlast v' = (if post = [] then vlast ?v0 else ?c)" by auto
    with e False show ?thesis by (intro that [of v']) (simp_all add: s)
  qed
  have ll: "length ds < 2 ^ 30" using assms(3) by (simp add: s)
  have "s32 (int (length ds)) = int (length ds)" using ll by (intro s32_id) simp_all
  then show ?thesis
    unfolding validate_and_exponent_def Let_def tw at sgf dr
    using len ne v by auto
qed

section \<open>Significant digits\<close>

lemma count_significant_found:
  "0 < k \<Longrightarrow> list_all is_digit_char ds \<Longrightarrow>
    count_significant_loop (ds @ r) (f + int (length ds)) f k = k + int (length ds)"
proof (induction ds arbitrary: f k)
  case Nil
  then show ?case by (cases r) simp_all
next
  case (Cons d ds)
  then show ?case using Cons.IH [of "k + 1" "f + 1"] digit_char [of d] by (simp add: ac_simps)
qed

lemma count_significant_digits_eq:
  assumes "list_all is_digit_char ds"
  shows "count_significant_digits (ds @ r) (int (length ds))
    = int (length (dropWhile (\<lambda>c. c = 48) ds))"
proof -
  have "count_significant_loop (ds @ r) (f + int (length ds)) f 0
    = int (length (dropWhile (\<lambda>c. c = 48) ds))" for f
    using assms
  proof (induction ds arbitrary: f)
    case Nil
    then show ?case by (cases r) simp_all
  next
    case (Cons d ds)
    then show ?case
      using Cons.IH [of "f + 1"] count_significant_found [of 1 ds r "f + 1"] digit_char [of d]
      by (simp add: ac_simps)
  qed
  from this [of 0] show ?thesis by (simp add: count_significant_digits_def)
qed

section \<open>Values of digit strings\<close>

lemma digits_value_Cons: "digits_value u (d # ds) = digits_value (10 * u + (uint d - 48)) ds"
  by (simp add: digits_value_def)

lemma digits_value_append: "digits_value u (xs @ ys) = digits_value (digits_value u xs) ys"
  by (simp add: digits_value_def)

lemma digits_value_split: "digits_value u ds = u * 10 ^ length ds + digits_value 0 ds"
proof (induction ds arbitrary: u)
  case (Cons d ds)
  show ?case
    using Cons [of "10 * u + (uint d - 48)"] Cons [of "uint d - 48"]
    by (simp add: digits_value_Cons algebra_simps)
qed (simp add: digits_value_def)

lemma digits_value_bounds:
  "list_all is_digit_char ds \<Longrightarrow> 0 \<le> digits_value 0 ds \<and> digits_value 0 ds < 10 ^ length ds"
proof (induction ds)
  case (Cons d ds)
  then have b: "0 \<le> uint d - 48" "uint d - 48 \<le> 9" using digit_bounds [of d] by auto
  have "digits_value 0 (d # ds) = (uint d - 48) * 10 ^ length ds + digits_value 0 ds"
    using digits_value_split [of "uint d - 48" ds] by (simp add: digits_value_Cons)
  moreover have "0 \<le> (uint d - 48) * 10 ^ length ds" "(uint d - 48) * 10 ^ length ds \<le> 9 * 10 ^ length ds"
    using b by simp_all
  moreover have "(10 :: int) ^ length (d # ds) = 9 * 10 ^ length ds + 10 ^ length ds" by simp
  moreover have "0 \<le> digits_value 0 ds" "digits_value 0 ds < 10 ^ length ds" using Cons by auto
  ultimately show ?case by (intro conjI; linarith)
qed (simp add: digits_value_def)

lemma digits_value_zeros: "digits_value 0 (replicate n 48 @ ds) = digits_value 0 ds"
  by (induction n) (simp_all add: digits_value_Cons)

text \<open>The first \<open>n\<close> digits of a string with \<open>z\<close> leading zeros.\<close>

lemma digits_value_take:
  assumes "list_all is_digit_char ds" "take z ds = replicate z 48" "z \<le> length ds" "n \<le> length ds"
  shows "0 \<le> digits_value 0 (take n ds)" "digits_value 0 (take n ds) < 10 ^ (n - z)"
proof -
  have ld: "list_all is_digit_char (take n ds)" using assms(1) by (auto simp: list_all_iff dest: in_set_takeD)
  then show "0 \<le> digits_value 0 (take n ds)" using digits_value_bounds by blast
  show "digits_value 0 (take n ds) < 10 ^ (n - z)"
  proof (cases "n \<le> z")
    case True
    then have "take n ds = take n (take z ds)" by (simp add: min_def)
    then have "take n ds = replicate n 48 @ []" using assms(2) True by (simp add: min_def)
    then show ?thesis using True by (simp only: digits_value_zeros) (simp add: digits_value_def)
  next
    case False
    then have "take n ds = take z ds @ take (n - z) (drop z ds)"
      by (metis le_add_diff_inverse nat_le_linear take_add)
    then have "digits_value 0 (take n ds) = digits_value 0 (take (n - z) (drop z ds))"
      by (simp add: assms(2) digits_value_zeros)
    moreover have "list_all is_digit_char (take (n - z) (drop z ds))"
      using assms(1) by (auto simp: list_all_iff dest: in_set_takeD in_set_dropD)
    moreover have "length (take (n - z) (drop z ds)) = n - z" using assms(4) by simp
    ultimately show ?thesis using digits_value_bounds by metis
  qed
qed

lemma count_digits_pos:
  "0 < u \<Longrightarrow> \<exists>c. count_digits u = int c \<and> 10 ^ (c - 1) \<le> u \<and> u < 10 ^ c \<and> 0 < c"
proof (induction "nat u" arbitrary: u rule: less_induct)
  case less
  show ?case
  proof (cases "u < 10")
    case True
    then have "count_digits u = 1"
      using less(2) by (subst count_digits.simps) (simp add: sdiv_pos count_digits.simps [of 0])
    with True less(2) show ?thesis by (intro exI [of _ 1]) simp
  next
    case False
    then have p: "0 < u div 10" "nat (u div 10) < nat u" by auto
    from less(1) [OF p(2,1)] obtain c where c: "count_digits (u div 10) = int c"
      "10 ^ (c - 1) \<le> u div 10" "u div 10 < 10 ^ c" "0 < c" by blast
    have "count_digits u = 1 + count_digits (u div 10)"
      using less(2) by (subst count_digits.simps) (simp add: sdiv_pos)
    moreover have "10 ^ c \<le> u"
    proof -
      have "(10 :: int) ^ c = 10 * 10 ^ (c - 1)" using c(4) by (cases c) simp_all
      also have "\<dots> \<le> 10 * (u div 10)" using c(2) by simp
      also have "\<dots> \<le> u" by simp
      finally show ?thesis .
    qed
    moreover have "u < 10 ^ Suc c"
    proof -
      have "u div 10 + 1 \<le> 10 ^ c" using c(3) by simp
      then have "10 * (u div 10 + 1) \<le> 10 ^ Suc c" by simp
      moreover have "u < 10 * (u div 10 + 1)" by presburger
      ultimately show ?thesis by (rule less_le_trans [rotated])
    qed
    ultimately show ?thesis using c(1) by (intro exI [of _ "Suc c"]) simp
  qed
qed

lemma count_digits_signed: "count_digits (signed_value a u) = count_digits u" if "0 \<le> u"
  using that
proof (induction "nat u" arbitrary: u rule: less_induct)
  case less
  show ?case
  proof (cases "u = 0")
    case False
    have d: "signed_value a u sdiv 10 = signed_value a (u div 10)"
      using less(2) by (auto simp: signed_value_def sdiv_pos)
    have "count_digits (signed_value a (u div 10)) = count_digits (u div 10)"
      using less(2) False by (intro less(1)) auto
    then show ?thesis
      using False less(2) by (subst (1 2) count_digits.simps) (auto simp: d sdiv_pos signed_value_def)
  qed (simp add: signed_value_def)
qed

text \<open>Adding one adds a digit exactly when the result is a power of ten.\<close>

lemma count_digits_carry:
  assumes "0 < u"
  obtains c where "0 < c" "10 ^ (c - 1) \<le> u" "u < 10 ^ c"
    "count_digits (u + 1) > count_digits u \<longleftrightarrow> u + 1 = 10 ^ c"
proof -
  obtain c where c: "count_digits u = int c" "10 ^ (c - 1) \<le> u" "u < 10 ^ c" "0 < c"
    using count_digits_pos [OF assms] by blast
  obtain e where e: "count_digits (u + 1) = int e" "10 ^ (e - 1) \<le> u + 1" "u + 1 < 10 ^ e" "0 < e"
    using count_digits_pos [of "u + 1"] assms by auto
  have "c < e \<longleftrightarrow> u + 1 = 10 ^ c"
  proof
    assume "c < e"
    then have "(10 :: int) ^ c \<le> 10 ^ (e - 1)" by (intro power_increasing) auto
    with e(2) c(3) show "u + 1 = 10 ^ c" by linarith
  next
    assume "u + 1 = 10 ^ c"
    with e(3) have "(10 :: int) ^ c < 10 ^ e" by simp
    then show "c < e" by (simp add: power_strict_increasing_iff)
  qed
  with c e(1) show ?thesis by (intro that [of c]) simp_all
qed

section \<open>The digits of the value\<close>

lemma decimal_fits:
  assumes "decimal_type p = Some t" "0 \<le> u" "u \<le> 10 ^ nat p" "0 \<le> p"
  shows "in_type t (signed_value a u)" "is_signed t"
proof -
  have "p \<le> 9 \<and> t = INT32 \<or> p \<le> 18 \<and> t = INT64 \<or> p \<le> 38 \<and> t = INT128"
    using assms(1) by (auto simp: decimal_type_def split: if_splits)
  moreover have "(10 :: int) ^ nat p \<le> 10 ^ k" if "p \<le> int k" for k
    using that by (intro power_increasing) simp_all
  from this [of 9] this [of 18] this [of 38]
  have "p \<le> 9 \<Longrightarrow> u \<le> 10 ^ 9" "p \<le> 18 \<Longrightarrow> u \<le> 10 ^ 18" "p \<le> 38 \<Longrightarrow> u \<le> 10 ^ 38"
    using assms(3) by (auto intro: order_trans)
  ultimately show "in_type t (signed_value a u)" "is_signed t"
    using assms(2) by (auto simp: in_type_def type_min_def type_max_def signed_value_def)
qed

text \<open>The state of the loop behind the first \<open>n\<close> digits of \<open>ds\<close>, \<open>z\<close> of which are leading zeros.\<close>

definition digits_state :: "bool \<Rightarrow> nat \<Rightarrow> nat \<Rightarrow> 8 word list \<Rightarrow> nat \<Rightarrow> decimal_digits" where
  "digits_state pos l z ds n =
     \<lparr>dvalid = True, dvalue = signed_value pos (digits_value 0 (take n ds)), dprecise = int (n - z),
      dtotal = int n, dfound = (z < n), drounding = 0, dlocation = int l\<rparr>"

definition leading_zeros_of :: "8 word list \<Rightarrow> nat \<Rightarrow> nat \<Rightarrow> bool" where
  "leading_zeros_of ds l z \<longleftrightarrow>
     take z ds = replicate z 48 \<and> z \<le> l \<and> l \<le> length ds \<and> (z < l \<longrightarrow> ds ! z \<noteq> 48)"

lemma uint_48: "uint d - 48 = 0 \<longleftrightarrow> d = (48 :: 8 word)"
  by (simp add: word_uint_eq_iff)

lemma digits_state_step:
  assumes "decimal_type p = Some t" "0 < p" "list_all is_digit_char ds" "leading_zeros_of ds l z"
    "n < length ds" "int n < limit" "int (n - z) < p" "first \<Longrightarrow> n = 0"
  shows "decimal_loop t pos p limit first (ds ! n # r) (digits_state pos l z ds n)
    = decimal_loop t pos p limit False r (digits_state pos l z ds (Suc n))"
proof -
  note lz = assms(4) [unfolded leading_zeros_of_def]
  let ?u = "digits_value 0 (take n ds)" and ?d = "uint (ds ! n) - 48"
  have d: "is_digit_char (ds ! n)" using assms(3,5) by (simp add: list_all_length)
  have b: "0 \<le> ?d" "?d \<le> 9" using digit_bounds [OF d] by auto
  have tk: "take (Suc n) ds = take n ds @ [ds ! n]" using assms(5) by (rule take_Suc_conv_app_nth)
  have v: "digits_value 0 (take (Suc n) ds) = 10 * ?u + ?d"
    by (simp add: tk digits_value_append) (simp add: digits_value_def)
  have z: "z \<le> length ds" using lz by linarith
  have bu: "0 \<le> ?u" using digits_value_take(1) [OF assms(3) _ z, of n] lz assms(5) by simp
  have bv: "0 \<le> 10 * ?u + ?d" "10 * ?u + ?d < 10 ^ (Suc n - z)"
    using digits_value_take [OF assms(3) _ z, of "Suc n"] lz assms(5) unfolding v by auto
  have "(10 :: int) ^ (Suc n - z) \<le> 10 ^ nat p" using assms(7) by (intro power_increasing) auto
  with bv have "10 * ?u + ?d \<le> 10 ^ nat p" by linarith
  then have "in_type t (signed_value pos (10 * ?u + ?d))" "is_signed t"
    using decimal_fits [OF assms(1) bv(1)] assms(2) by auto
  moreover have "first \<Longrightarrow> ?u = 0" using assms(8) by (simp add: digits_value_def)
  ultimately have pv: "process_value t first (signed_value pos ?u) ?d pos
      = Some (signed_value pos (10 * ?u + ?d))"
    using process_value_eq [OF bu b, of first pos t] by simp
  have f: "(z < n \<or> int n + 1 > int l \<or> ?d \<noteq> 0) \<longleftrightarrow> z < Suc n"
  proof (cases "n < z")
    case True
    then have "ds ! n = (take z ds) ! n" by simp
    also have "\<dots> = 48" using lz True by simp
    finally show ?thesis using True lz by simp
  next
    case False
    then show ?thesis using lz uint_48 [of "ds ! n"] by (cases "n = z"; cases "z < l") auto
  qed
  have "ds ! n \<noteq> 46" using digit_char [OF d] by simp
  moreover have "\<not> (int (n - z) + 1 > p \<or> int n + 1 > limit)" using assms(6,7) by auto
  ultimately show ?thesis
    using d f pv by (auto simp: digits_state_def Let_def v Suc_diff_le not_less add.commute)
qed

lemma digits_state_stop:
  assumes "is_digit_char c" "p \<le> int (n - z) \<or> limit \<le> int n"
  shows "decimal_loop t pos p limit first (c # r) (digits_state pos l z ds n)
    = round_digit t pos (uint c - 48) (digits_state pos l z ds n)"
  using assms digit_char [OF assms(1)] by (auto simp: digits_state_def Let_def)

lemma decimal_loop_blanks:
  "list_all is_whitespace ws \<Longrightarrow> decimal_loop t pos p limit first ws d = d"
  using whitespace_char by (cases ws) auto

lemma decimal_loop_dot: "decimal_loop t pos p limit first (46 # r) d = decimal_loop t pos p limit False r d"
  by simp

declare decimal_loop.simps [simp del]

lemma digits_state_steps:
  assumes "decimal_type p = Some t" "0 < p" "list_all is_digit_char ds" "leading_zeros_of ds l z"
    "n + m \<le> length ds" "int (n + m) \<le> limit" "int (n + m) \<le> int z + p" "first \<Longrightarrow> n = 0"
  shows "decimal_loop t pos p limit first (take m (drop n ds) @ r) (digits_state pos l z ds n)
    = decimal_loop t pos p limit (first \<and> m = 0) r (digits_state pos l z ds (n + m))"
  using assms(5-8)
proof (induction m arbitrary: n first)
  case (Suc m)
  have n: "n < length ds" using Suc.prems by simp
  have np: "int (n - z) < p" using Suc.prems assms(2) by (cases "z \<le> n") auto
  from n have "take (Suc m) (drop n ds) = ds ! n # take m (drop (Suc n) ds)"
    by (simp add: Cons_nth_drop_Suc [symmetric])
  then have "decimal_loop t pos p limit first (take (Suc m) (drop n ds) @ r) (digits_state pos l z ds n)
    = decimal_loop t pos p limit False (take m (drop (Suc n) ds) @ r) (digits_state pos l z ds (Suc n))"
    using digits_state_step [OF assms(1-4) n _ np, of limit first] Suc.prems by simp
  also have "\<dots> = decimal_loop t pos p limit False r (digits_state pos l z ds (Suc n + m))"
    using Suc.IH [of "Suc n" False] Suc.prems by simp
  finally show ?case by simp
qed simp

lemma decimal_loop_plain:
  assumes "decimal_type p = Some t" "0 < p"
    "list_all is_digit_char ds" "list_all is_digit_char fs" "list_all is_whitespace post"
    "dot \<or> fs = []" "leading_zeros_of (ds @ fs) (length ds) z"
    "n = min (nat limit) (z + nat p)" "0 \<le> limit"
  shows "decimal_loop t pos p limit True (ds @ (if dot then 46 # fs else []) @ post)
      (digits_state pos (length ds) z (ds @ fs) 0)
    = (if length (ds @ fs) \<le> n then digits_state pos (length ds) z (ds @ fs) (length (ds @ fs))
       else round_digit t pos (uint ((ds @ fs) ! n) - 48) (digits_state pos (length ds) z (ds @ fs) n))"
proof -
  let ?D = "ds @ fs" and ?S = "digits_state pos (length ds) z (ds @ fs)"
  have D: "list_all is_digit_char ?D" using assms(3,4) by simp
  have n: "int n \<le> limit" "int n \<le> int z + p" "p \<le> int (n - z) \<or> limit \<le> int n"
    using assms(2,8,9) by auto
  note steps = digits_state_steps [OF assms(1,2) D assms(7)]
  show ?thesis
  proof (cases "n < length ds")
    case True
    have "ds = take n (drop 0 ?D) @ ?D ! n # drop (Suc n) ds"
      using True by (simp add: nth_append id_take_nth_drop [symmetric])
    then have "decimal_loop t pos p limit True (ds @ (if dot then 46 # fs else []) @ post) (?S 0)
      = decimal_loop t pos p limit True (take n (drop 0 ?D) @ ?D ! n #
          (drop (Suc n) ds @ (if dot then 46 # fs else []) @ post)) (?S 0)"
      by (metis append_Cons append_assoc)
    also have "\<dots> = decimal_loop t pos p limit (n = 0) (?D ! n #
          (drop (Suc n) ds @ (if dot then 46 # fs else []) @ post)) (?S n)"
      using steps [of 0 n limit True] n True by simp
    also have "\<dots> = round_digit t pos (uint (?D ! n) - 48) (?S n)"
      using D True n(3) by (intro digits_state_stop) (simp_all add: list_all_length)
    finally show ?thesis using True by simp
  next
    case False
    let ?m = "min (length fs) (n - length ds)"
    have a: "decimal_loop t pos p limit True (ds @ (if dot then 46 # fs else []) @ post) (?S 0)
      = decimal_loop t pos p limit (ds = []) ((if dot then 46 # fs else []) @ post) (?S (length ds))"
      using steps [of 0 "length ds" limit True] n False by simp
    also have "\<dots> = decimal_loop t pos p limit (ds = [] \<and> \<not> dot) (fs @ post) (?S (length ds))"
      using assms(6) by (auto simp: decimal_loop_dot)
    also have "fs @ post = take ?m (drop (length ds) ?D) @ drop ?m fs @ post" by simp
    also have "decimal_loop t pos p limit (ds = [] \<and> \<not> dot)
        (take ?m (drop (length ds) ?D) @ drop ?m fs @ post) (?S (length ds))
      = decimal_loop t pos p limit (ds = [] \<and> \<not> dot \<and> ?m = 0) (drop ?m fs @ post) (?S (length ds + ?m))"
      using steps [of "length ds" ?m limit "ds = [] \<and> \<not> dot"] n False by simp
    finally have e: "decimal_loop t pos p limit True (ds @ (if dot then 46 # fs else []) @ post) (?S 0)
      = decimal_loop t pos p limit (ds = [] \<and> \<not> dot \<and> ?m = 0) (drop ?m fs @ post) (?S (length ds + ?m))" .
    show ?thesis
    proof (cases "length ?D \<le> n")
      case True
      then show ?thesis using e decimal_loop_blanks [OF assms(5)] by (simp add: min_def)
    next
      case F2: False
      then have m: "?m = n - length ds" "length ds + ?m = n" "?m < length fs" using False by auto
      then have "drop ?m fs = ?D ! n # drop (Suc ?m) fs"
        using False by (simp add: Cons_nth_drop_Suc nth_append)
      moreover have "is_digit_char (?D ! n)" using D F2 by (simp add: list_all_length)
      ultimately show ?thesis using e m F2 digits_state_stop n(3) by simp
    qed
  qed
qed

section \<open>Exactness\<close>

text \<open>Half-up rounding of the last \<open>e\<close> digits of a number.\<close>

definition round_digits :: "int \<Rightarrow> nat \<Rightarrow> int" where
  "round_digits n e = (if e = 0 then n else (n + 5 * 10 ^ (e - 1)) div 10 ^ e)"

lemma round_digits_next:
  assumes "list_all is_digit_char (d # ds)"
  shows "round_digits (digits_value u (d # ds)) (Suc (length ds))
    = (if 5 \<le> uint d - 48 then u + 1 else u)"
proof -
  let ?r = "digits_value 0 ds" and ?k = "uint d - 48"
  let ?p = "(10 :: int) ^ length ds"
  have b: "0 \<le> ?k" "?k \<le> 9" "0 \<le> ?r" "?r < ?p"
    using assms digit_bounds [of d] digits_value_bounds [of ds] by auto
  have e: "digits_value u (d # ds) = u * (10 * ?p) + ?k * ?p + ?r"
    using digits_value_split [of "10 * u + ?k" ds] by (simp add: digits_value_Cons algebra_simps)
  define K where "K = ?k * ?p"
  have "(u * (10 * ?p) + K + ?r + 5 * ?p) div (10 * ?p) = (if 5 \<le> ?k then u + 1 else u)"
  proof (cases "5 \<le> ?k")
    case True
    have "5 * ?p \<le> K" "K \<le> 9 * ?p" unfolding K_def using True b by (intro mult_right_mono; simp)+
    then show ?thesis using b True
      by (intro int_div_pos_eq [of _ _ _ "K + ?r - 5 * ?p"]) (simp_all add: distrib_left)
  next
    case False
    have "0 \<le> K" "K \<le> 4 * ?p"
      unfolding K_def using False b by (intro mult_nonneg_nonneg mult_right_mono; simp)+
    then show ?thesis using b False
      by (intro int_div_pos_eq [of _ _ _ "K + ?r + 5 * ?p"]) simp_all
  qed
  then show ?thesis by (simp add: round_digits_def e K_def)
qed

lemma will_overflow_add_signed:
  "0 \<le> u \<Longrightarrow> pos \<or> is_signed t \<Longrightarrow> in_type t (signed_value pos (u + 1))
    \<Longrightarrow> \<not> will_overflow_add t (signed_value pos u) 1 pos"
  by (auto simp: will_overflow_add_def in_type_def signed_value_def split: if_splits)

lemma pad_zeros_signed:
  assumes "0 \<le> u" "pos \<or> is_signed t" "in_type t (signed_value pos (u * 10 ^ n))"
  shows "pad_zeros t pos n (signed_value pos u) = (True, signed_value pos (u * 10 ^ n))"
  using assms
proof (induction n arbitrary: u)
  case (Suc n)
  have "(u * 10) * 1 \<le> (u * 10) * 10 ^ n" using Suc.prems(1) by (intro mult_left_mono) simp_all
  then have "in_type t (signed_value pos (10 * u + 0))"
    using in_type_mono [of "u * 10" "u * 10 ^ Suc n" t pos] Suc.prems by (simp add: mult.commute)
  then have "process_value t False (signed_value pos u) 0 pos = Some (signed_value pos (10 * u))"
    using process_value_eq [of u 0 False pos t] Suc.prems by simp
  then have "\<not> will_overflow_mul t (signed_value pos u) pos"
    by (auto simp: process_value_def split: if_splits)
  moreover have "signed_value pos u * 10 = signed_value pos (u * 10)" by (simp add: signed_value_def)
  ultimately show ?case using Suc by (simp add: mult.assoc)
qed simp

text \<open>The rounding step, with the carry into a new digit.\<close>

lemma round_digit_eq:
  assumes "decimal_type p = Some t" "0 < p" "0 \<le> u" "u < 10 ^ nat p" "dvalue d = signed_value pos u"
  shows "round_digit t pos k d =
    (if k < 5 then d
     else if u \<noteq> 0 \<and> count_digits (u + 1) > count_digits u
     then d\<lparr>dvalue := signed_value pos (u + 1), dtotal := dtotal d + 1, dprecise := dprecise d + 1,
            dlocation := s32 (dlocation d + 1), drounding := drounding d + 1\<rparr>
     else d\<lparr>dvalue := signed_value pos (u + 1)\<rparr>)"
proof -
  have "in_type t (signed_value pos (u + 1))" "is_signed t"
    using decimal_fits [OF assms(1), of "u + 1"] assms(2-4) by auto
  then have o: "\<not> will_overflow_add t (signed_value pos u) 1 pos"
    using will_overflow_add_signed assms(3) by blast
  have v: "(if pos then signed_value pos u + 1 else signed_value pos u - 1) = signed_value pos (u + 1)"
    by (simp add: signed_value_def)
  have c: "count_digits (signed_value pos (u + 1)) = count_digits (u + 1)"
    "count_digits (signed_value pos u) = count_digits u"
    using assms(3) by (simp_all add: count_digits_signed)
  have z: "signed_value pos u = 0 \<longleftrightarrow> u = 0" by (simp add: signed_value_def)
  show ?thesis using o unfolding round_digit_def Let_def assms(5) v by (simp add: c z not_less)
qed

lemma decimal_type_bounds: "decimal_type p = Some t \<Longrightarrow> p \<le> 38"
  by (auto simp: decimal_type_def split: if_splits)

text \<open>What the kernel makes of the digits it has read.\<close>

lemma kernel_finish:
  assumes "plain_notation strip pre sg ds dot fs post" "s = plain_string pre sg ds dot fs post"
    "length s < 2 ^ 30" "decimal_type p = Some t" "0 \<le> q" "q < p"
    "k = int (length (dropWhile (\<lambda>c. c = 48) ds))"
    "d = decimal_loop t (sg \<noteq> [45]) p (int (length ds) + q) True
       (ds @ (if dot then 46 # fs else []) @ post)
       (digits_state (sg \<noteq> [45]) (length ds) z (ds @ fs) 0)"
    "0 \<le> dlocation d" "dlocation d \<le> 2 ^ 30" "0 \<le> dtotal d" "dtotal d \<le> 2 ^ 30 + 1"
    "0 \<le> dprecise d" "dprecise d \<le> dtotal d"
  shows "\<not> dvalid d \<or> p - q < dlocation d - (dtotal d - dprecise d)
     \<Longrightarrow> string_to_decimal_kernel t (- q) p strip True (s @ rest) (length s) = Inr None"
    "dvalid d \<Longrightarrow> dlocation d - (dtotal d - dprecise d) \<le> p - q \<Longrightarrow> dlocation d \<le> dtotal d
     \<Longrightarrow> dvalue d = signed_value (sg \<noteq> [45]) u \<Longrightarrow> 0 \<le> u
     \<Longrightarrow> m = nat (min (p - (k + drounding d)) q - (dprecise d - (k + drounding d)))
     \<Longrightarrow> in_type t (signed_value (sg \<noteq> [45]) (u * 10 ^ m))
     \<Longrightarrow> string_to_decimal_kernel t (- q) p strip True (s @ rest) (length s)
       = Inr (Some (signed_value (sg \<noteq> [45]) (u * 10 ^ m)))"
proof -
  let ?pos = "sg \<noteq> [45]"
  let ?body = "ds @ (if dot then 46 # fs else []) @ post"
  note p = assms(1) [unfolded plain_notation_def]
  have p38: "p \<le> 38" by (rule decimal_type_bounds [OF assms(4)])
  have s: "s = pre @ sg @ ?body" using assms(2) by (simp add: plain_string_def)
  have len: "0 < length s" "length ds < 2 ^ 30" using p assms(3) by (auto simp: s)
  have dr: "drop (length pre + length sg) (take (length s) (s @ rest)) = ?body" by (simp add: s)
  have cs: "count_significant_digits ?body (int (length ds)) = k"
    using count_significant_digits_eq [of ds] p assms(7) by simp
  have ll: "s32 (int (length ds) - - q) = int (length ds) + q" "0 \<le> int (length ds) + q"
    using len(2) p38 assms(5,6) by (simp_all add: s32_id)
  have mx: "s32 (p + - q) = p - q" using p38 assms(5,6) by (simp add: s32_id)
  have st: "\<lparr>dvalid = True, dvalue = 0, dprecise = 0, dtotal = 0, dfound = False,
      drounding = 0, dlocation = int (length ds)\<rparr> = digits_state ?pos (length ds) z (ds @ fs) 0"
    by (simp add: digits_state_def digits_value_def signed_value_def)
  have w: "s32 (dlocation d - dtotal d) = dlocation d - dtotal d"
    "s32 (dlocation d - (dtotal d - dprecise d)) = dlocation d - (dtotal d - dprecise d)"
    using assms(9-14) by (simp_all add: s32_id)
  have c: "(0 < - q) = False" "(dlocation d < 0) = False" "(0 < length s) = True"
    "(0 \<le> int (length ds) + q) = True"
    using assms(5,9) len(1) by auto
  have K: "string_to_decimal_kernel t (- q) p strip True (s @ rest) (length s) =
    (let zeros = max 0 (dlocation d - dtotal d);
         before = k + zeros + drounding d;
         (ok1, val1) = pad_zeros t ?pos (nat zeros) (dvalue d);
         (ok2, val2) = pad_zeros t ?pos
            (nat (min (p - before) q - (dprecise d + zeros - before))) val1
     in Inr (if (dvalid d \<and> \<not> p - q < dlocation d - (dtotal d - dprecise d)) \<and> ok1 \<and> ok2
             then Some val2 else None))"
    by (simp only: string_to_decimal_kernel_def validate_plain [OF assms(1-3)] Let_def sum.case
        option.case prod.case dr cs ll mx st assms(8) [symmetric] w c if_True if_False simp_thms
        minus_minus add_0_right)
  show "\<not> dvalid d \<or> p - q < dlocation d - (dtotal d - dprecise d)
     \<Longrightarrow> string_to_decimal_kernel t (- q) p strip True (s @ rest) (length s) = Inr None"
    unfolding K by (auto simp: Let_def split: prod.splits)
  assume a: "dvalid d" "dlocation d - (dtotal d - dprecise d) \<le> p - q" "dlocation d \<le> dtotal d"
    "dvalue d = signed_value ?pos u" "0 \<le> u"
    "m = nat (min (p - (k + drounding d)) q - (dprecise d - (k + drounding d)))"
    "in_type t (signed_value ?pos (u * 10 ^ m))"
  have "is_signed t" using decimal_fits(2) [OF assms(4), of 0] assms(5,6) by simp
  then have pd: "pad_zeros t ?pos m (signed_value ?pos u) = (True, signed_value ?pos (u * 10 ^ m))"
    using a by (intro pad_zeros_signed) simp_all
  have z: "max 0 (dlocation d - dtotal d) = 0" using a(3) by simp
  have e: "dprecise d + 0 = dprecise d"
    "k + 0 + drounding d = k + drounding d" and nat_zero: "nat 0 = 0" by simp_all
  show "string_to_decimal_kernel t (- q) p strip True (s @ rest) (length s)
       = Inr (Some (signed_value ?pos (u * 10 ^ m)))"
    unfolding K Let_def z e a(4) nat_zero unfolding a(6) [symmetric] using a(1,2) pd by simp
qed

lemma list_all_take_drop: "list_all P xs \<Longrightarrow> list_all P (take a (drop b xs))"
  by (auto simp: list_all_iff dest: in_set_takeD in_set_dropD)

lemma leading_zeros_plain:
  assumes "z = length (takeWhile (\<lambda>c. c = 48) ds)"
  shows "leading_zeros_of (ds @ fs) (length ds) z"
    "length (dropWhile (\<lambda>c. c = 48) ds) = length ds - z" "z \<le> length ds"
proof -
  show z: "z \<le> length ds" using assms by (simp add: length_takeWhile_le)
  have l: "length (takeWhile (\<lambda>c. c = 48) ds) + length (dropWhile (\<lambda>c. c = 48) ds) = length ds"
    by (metis length_append takeWhile_dropWhile_id)
  then show "length (dropWhile (\<lambda>c. c = 48) ds) = length ds - z" using assms by simp
  have "take z ds = takeWhile (\<lambda>c. c = 48) ds" using assms by (simp add: takeWhile_eq_take [symmetric])
  also have "\<dots> = replicate z 48"
  proof -
    have "\<forall>y \<in> set (takeWhile (\<lambda>c. c = 48) ds). y = 48" by (auto dest: set_takeWhileD)
    from replicate_length_same [OF this] show ?thesis using assms by simp
  qed
  finally have "take z ds = replicate z 48" .
  moreover have "ds ! z \<noteq> 48" if "z < length ds"
    using nth_length_takeWhile [of "\<lambda>c. c = 48" ds] that assms by simp
  ultimately show "leading_zeros_of (ds @ fs) (length ds) z"
    using z by (simp add: leading_zeros_of_def nth_append)
qed

lemma digits_value_take_lower:
  assumes "list_all is_digit_char ds" "leading_zeros_of ds l z" "z < l" "z < m" "m \<le> length ds"
  shows "10 ^ (m - z - 1) \<le> digits_value 0 (take m ds)"
proof -
  note lz = assms(2) [unfolded leading_zeros_of_def]
  have z: "z < length ds" using lz assms(3) by linarith
  have "take m ds = take z ds @ ds ! z # take (m - z - 1) (drop (Suc z) ds)"
    using assms(4) z by (metis Cons_nth_drop_Suc Suc_diff_1 diff_Suc_1 le_add_diff_inverse
        less_imp_le_nat take_Suc_Cons take_add zero_less_diff)
  then have e: "digits_value 0 (take m ds) = digits_value (uint (ds ! z) - 48) (take (m - z - 1) (drop (Suc z) ds))"
    using lz by (simp add: digits_value_zeros digits_value_Cons)
  have d: "is_digit_char (ds ! z)" using assms(1) z by (simp add: list_all_length)
  have "uint (ds ! z) - 48 \<noteq> 0" using uint_48 [of "ds ! z"] lz assms(3) by simp
  then have "1 \<le> uint (ds ! z) - 48" using digit_bounds [OF d] by linarith
  moreover have "length (take (m - z - 1) (drop (Suc z) ds)) = m - z - 1" using assms(4,5) by simp
  moreover have "0 \<le> digits_value 0 (take (m - z - 1) (drop (Suc z) ds))"
    using digits_value_bounds list_all_take_drop [OF assms(1)] by blast
  moreover have "1 * 10 ^ (m - z - 1) \<le> (uint (ds ! z) - 48) * 10 ^ (m - z - 1)"
    using calculation(1) by (intro mult_right_mono) simp_all
  ultimately show ?thesis
    unfolding e digits_value_split [of "uint (ds ! z) - 48"] by (simp only: mult_1)
qed

text \<open>The number that plain notation denotes, at \<open>q\<close> digits behind the point.\<close>

definition plain_value :: "8 word list \<Rightarrow> 8 word list \<Rightarrow> nat \<Rightarrow> int" where
  "plain_value ds fs q =
     (if length fs \<le> q then digits_value 0 (ds @ fs) * 10 ^ (q - length fs)
      else round_digits (digits_value 0 (ds @ fs)) (length fs - q))"

lemma plain_value_split:
  assumes "list_all is_digit_char (ds @ fs)" "q < length fs" "m = length ds + q"
  shows "plain_value ds fs q =
    (if 5 \<le> uint ((ds @ fs) ! m) - 48 then digits_value 0 (take m (ds @ fs)) + 1
     else digits_value 0 (take m (ds @ fs)))"
proof -
  let ?D = "ds @ fs"
  have m: "m < length ?D" using assms(2,3) by simp
  have D: "?D = take m ?D @ ?D ! m # drop (Suc m) ?D" using m by (rule id_take_nth_drop)
  have "list_all is_digit_char (?D ! m # drop (Suc m) ?D)"
    unfolding Cons_nth_drop_Suc [OF m]
    using list_all_take_drop [OF assms(1), of "length ?D" m] by simp
  from round_digits_next [OF this, of "digits_value 0 (take m ?D)"]
  have "round_digits (digits_value 0 ?D) (Suc (length (drop (Suc m) ?D)))
    = (if 5 \<le> uint (?D ! m) - 48 then digits_value 0 (take m ?D) + 1 else digits_value 0 (take m ?D))"
    by (subst D) (simp only: digits_value_append)
  moreover have "Suc (length (drop (Suc m) ?D)) = length fs - q" using assms(2,3) by simp
  ultimately have r: "round_digits (digits_value 0 ?D) (length fs - q) = (if 5 \<le> uint (?D ! m) - 48
      then digits_value 0 (take m ?D) + 1 else digits_value 0 (take m ?D))"
    by (simp only:)
  have "\<not> length fs \<le> q" using assms(2) by simp
  then show ?thesis unfolding plain_value_def r by (simp only: if_False)
qed

lemma plain_value_small:
  assumes "list_all is_digit_char (ds @ fs)" "length fs \<le> q" "leading_zeros_of (ds @ fs) (length ds) z"
  shows "0 \<le> plain_value ds fs q" "plain_value ds fs q < 10 ^ (length ds - z + q)"
    "z < length ds \<Longrightarrow> 10 ^ (length ds - z + q - 1) \<le> plain_value ds fs q"
proof -
  let ?D = "ds @ fs" and ?N = "digits_value 0 (ds @ fs)"
  note lz = assms(3) [unfolded leading_zeros_of_def]
  have v: "plain_value ds fs q = ?N * 10 ^ (q - length fs)" using assms(2) by (simp add: plain_value_def)
  have N: "0 \<le> ?N" "?N < 10 ^ (length ?D - z)"
    using digits_value_take [OF assms(1), of z "length ?D"] lz by auto
  then show "0 \<le> plain_value ds fs q" by (simp add: v)
  have "length ?D - z + (q - length fs) = length ds - z + q" using lz assms(2) by auto
  then have e: "(10 :: int) ^ (length ds - z + q) = 10 ^ (length ?D - z) * 10 ^ (q - length fs)"
    by (simp only: power_add [symmetric])
  show "plain_value ds fs q < 10 ^ (length ds - z + q)"
    unfolding v e using N(2) by (intro mult_strict_right_mono) simp_all
  assume z: "z < length ds"
  have "length ?D - z - 1 + (q - length fs) = length ds - z + q - 1" using z assms(2) by auto
  then have e: "(10 :: int) ^ (length ds - z + q - 1) = 10 ^ (length ?D - z - 1) * 10 ^ (q - length fs)"
    by (simp only: power_add [symmetric])
  show "10 ^ (length ds - z + q - 1) \<le> plain_value ds fs q"
    unfolding v e using digits_value_take_lower [OF assms(1,3) z, of "length ?D"] z
    by (intro mult_right_mono) simp_all
qed

text \<open>A string with more digits in front of the point than the precision leaves room for.\<close>

lemma plain_value_too_big:
  assumes "list_all is_digit_char (ds @ fs)" "leading_zeros_of (ds @ fs) (length ds) z"
    "P < length ds - z + q" "q < P"
  shows "10 ^ P \<le> plain_value ds fs q"
proof -
  have z: "z < length ds" using assms(3,4) by linarith
  have "(10 :: int) ^ P \<le> 10 ^ (length ds - z + q - 1)" using assms(3) by (intro power_increasing) simp_all
  also have "\<dots> \<le> plain_value ds fs q"
  proof (cases "length fs \<le> q")
    case True
    then show ?thesis using plain_value_small(3) [OF assms(1) _ assms(2) z] by simp
  next
    case False
    then have q: "q < length fs" by simp
    have "length ds + q - z - 1 = length ds - z + q - 1" using z by simp
    then have "10 ^ (length ds - z + q - 1) \<le> digits_value 0 (take (length ds + q) (ds @ fs))"
      using digits_value_take_lower [OF assms(1,2) z, of "length ds + q"] z q by simp
    also have "\<dots> \<le> plain_value ds fs q"
      by (simp add: plain_value_split [OF assms(1) q refl])
    finally show ?thesis .
  qed
  finally show ?thesis .
qed

text \<open>A row in plain notation, its leading zeros and the digits the kernel reads.\<close>

definition plain_row ::
  "bool \<Rightarrow> 8 word list \<Rightarrow> 8 word list \<Rightarrow> 8 word list \<Rightarrow> bool \<Rightarrow> 8 word list \<Rightarrow> 8 word list
     \<Rightarrow> 8 word list \<Rightarrow> int_type \<Rightarrow> nat \<Rightarrow> nat \<Rightarrow> bool" where
  "plain_row strip pre sg ds dot fs post s t P q \<longleftrightarrow>
     plain_notation strip pre sg ds dot fs post \<and> s = plain_string pre sg ds dot fs post
     \<and> length s < 2 ^ 30 \<and> decimal_type (int P) = Some t \<and> q < P"

definition row_zeros :: "8 word list \<Rightarrow> nat" where
  "row_zeros ds = length (takeWhile (\<lambda>c. c = 48) ds)"

definition row_digits ::
  "8 word list \<Rightarrow> 8 word list \<Rightarrow> bool \<Rightarrow> 8 word list \<Rightarrow> 8 word list \<Rightarrow> int_type \<Rightarrow> nat \<Rightarrow> nat \<Rightarrow> decimal_digits"
  where
  "row_digits sg ds dot fs post t P q =
     decimal_loop t (sg \<noteq> [45]) (int P) (int (length ds) + int q) True
       (ds @ (if dot then 46 # fs else []) @ post)
       (digits_state (sg \<noteq> [45]) (length ds) (row_zeros ds) (ds @ fs) 0)"

lemma plain_rowD:
  assumes "plain_row strip pre sg ds dot fs post s t P q"
  shows "list_all is_digit_char (ds @ fs)" "length ds + length fs < 2 ^ 30" "0 < P" "P \<le> 38" "q < P"
    "decimal_type (int P) = Some t"
  using assms decimal_type_bounds [of "int P" t]
  by (cases dot; auto simp: plain_row_def plain_notation_def plain_string_def)+

lemma row_digits_eq:
  assumes "plain_row strip pre sg ds dot fs post s t P q"
    "n = min (length ds + q) (row_zeros ds + P)"
  shows "row_digits sg ds dot fs post t P q =
    (if length (ds @ fs) \<le> n then digits_state (sg \<noteq> [45]) (length ds) (row_zeros ds) (ds @ fs) (length (ds @ fs))
     else round_digit t (sg \<noteq> [45]) (uint ((ds @ fs) ! n) - 48)
       (digits_state (sg \<noteq> [45]) (length ds) (row_zeros ds) (ds @ fs) n))"
  unfolding row_digits_def
  by (rule decimal_loop_plain)
    (use assms leading_zeros_plain(1) [OF row_zeros_def] plain_rowD [OF assms(1)] in
      \<open>auto simp: plain_row_def plain_notation_def nat_add_distrib\<close>)

lemma row_finish:
  assumes "plain_row strip pre sg ds dot fs post s t P q"
    "d = row_digits sg ds dot fs post t P q"
    "0 \<le> dlocation d" "dlocation d \<le> 2 ^ 30" "0 \<le> dtotal d" "dtotal d \<le> 2 ^ 30 + 1"
    "0 \<le> dprecise d" "dprecise d \<le> dtotal d" "k = int (length ds - row_zeros ds)"
  shows "\<not> dvalid d \<or> int P - int q < dlocation d - (dtotal d - dprecise d)
     \<Longrightarrow> string_to_decimal_kernel t (- int q) (int P) strip True (s @ rest) (length s) = Inr None"
    "dvalid d \<Longrightarrow> dlocation d - (dtotal d - dprecise d) \<le> int P - int q \<Longrightarrow> dlocation d \<le> dtotal d
     \<Longrightarrow> dvalue d = signed_value (sg \<noteq> [45]) u \<Longrightarrow> 0 \<le> u
     \<Longrightarrow> m = nat (min (int P - (k + drounding d)) (int q) - (dprecise d - (k + drounding d)))
     \<Longrightarrow> u * 10 ^ m < 10 ^ P
     \<Longrightarrow> string_to_decimal_kernel t (- int q) (int P) strip True (s @ rest) (length s)
       = Inr (Some (signed_value (sg \<noteq> [45]) (u * 10 ^ m)))"
proof -
  have k: "k = int (length (dropWhile (\<lambda>c. c = 48) ds))"
    using assms(9) leading_zeros_plain(2) [OF row_zeros_def] by simp
  have pr: "plain_notation strip pre sg ds dot fs post" "s = plain_string pre sg ds dot fs post"
    "length s < 2 ^ 30" "decimal_type (int P) = Some t" and q: "q < P"
    using assms(1) unfolding plain_row_def by blast+
  have pq: "0 \<le> int q" "int q < int P" using q by simp_all
  note fin = kernel_finish [OF pr pq k assms(2) [unfolded row_digits_def] assms(3-8)]
  show "\<not> dvalid d \<or> int P - int q < dlocation d - (dtotal d - dprecise d)
     \<Longrightarrow> string_to_decimal_kernel t (- int q) (int P) strip True (s @ rest) (length s) = Inr None"
    by (rule fin(1))
  show "dvalid d \<Longrightarrow> dlocation d - (dtotal d - dprecise d) \<le> int P - int q \<Longrightarrow> dlocation d \<le> dtotal d
     \<Longrightarrow> dvalue d = signed_value (sg \<noteq> [45]) u \<Longrightarrow> 0 \<le> u
     \<Longrightarrow> m = nat (min (int P - (k + drounding d)) (int q) - (dprecise d - (k + drounding d)))
     \<Longrightarrow> u * 10 ^ m < 10 ^ P
     \<Longrightarrow> string_to_decimal_kernel t (- int q) (int P) strip True (s @ rest) (length s)
       = Inr (Some (signed_value (sg \<noteq> [45]) (u * 10 ^ m)))"
    by (rule fin(2)) (auto intro!: decimal_fits(1) [OF pr(4)])
qed

lemma row_value_bounds:
  assumes "plain_row strip pre sg ds dot fs post s t P q" "n \<le> length (ds @ fs)"
  shows "0 \<le> digits_value 0 (take n (ds @ fs))"
    "digits_value 0 (take n (ds @ fs)) < 10 ^ (n - row_zeros ds)"
proof -
  have "take (row_zeros ds) (ds @ fs) = replicate (row_zeros ds) 48"
    using leading_zeros_plain(1) [OF row_zeros_def] unfolding leading_zeros_of_def by blast
  moreover have "row_zeros ds \<le> length (ds @ fs)"
    using leading_zeros_plain(3) [OF row_zeros_def [of ds]] by simp
  ultimately show "0 \<le> digits_value 0 (take n (ds @ fs))"
    "digits_value 0 (take n (ds @ fs)) < 10 ^ (n - row_zeros ds)"
    using digits_value_take [OF plain_rowD(1) [OF assms(1)] _ _ assms(2)] by blast+
qed

lemma row_too_big:
  assumes "plain_row strip pre sg ds dot fs post s t P q" "P < length ds - row_zeros ds + q"
  shows "string_to_decimal_kernel t (- int q) (int P) strip True (s @ rest) (length s) = Inr None"
proof -
  let ?D = "ds @ fs" and ?z = "row_zeros ds" and ?L = "length ds"
  note r = plain_rowD [OF assms(1)]
  note lz = leading_zeros_plain [OF row_zeros_def [of ds]]
  define d where "d = row_digits sg ds dot fs post t P q"
  have "?z + P \<le> ?L + q" using assms(2) lz(3) by arith
  then have n: "?z + P = min (?L + q) (?z + P)" by simp
  have zL: "?z < ?L" using assms(2) r(5) by linarith
  let ?S = "digits_state (sg \<noteq> [45]) ?L ?z ?D"
  have "\<exists>b. dlocation d = int ?L + b \<and> (0 \<le> b \<and> b \<le> 1)
    \<and> dtotal d - dprecise d = int ?z \<and> 0 \<le> dprecise d \<and> dtotal d \<le> int (length ?D) + b"
  proof (cases "length ?D \<le> ?z + P")
    case True
    then show ?thesis
      using zL unfolding d_def row_digits_eq [OF assms(1) n]
      by (intro exI [of _ 0]) (auto simp: digits_state_def of_nat_diff)
  next
    case False
    let ?u = "digits_value 0 (take (?z + P) ?D)"
    have "?z + P \<le> length ?D" using False by simp
    from row_value_bounds [OF assms(1) this] have u: "0 \<le> ?u" "?u < 10 ^ nat (int P)"
      by (simp_all only: nat_int add_diff_cancel_left')
    have "0 < int P" using r(3) by simp
    moreover have "dvalue (?S (?z + P)) = signed_value (sg \<noteq> [45]) ?u" by (simp add: digits_state_def)
    ultimately have rd: "round_digit t (sg \<noteq> [45]) k (?S (?z + P)) =
      (let S = ?S (?z + P); v = signed_value (sg \<noteq> [45]) (?u + 1) in
       if k < 5 then S
       else if ?u \<noteq> 0 \<and> count_digits (?u + 1) > count_digits ?u
       then S\<lparr>dvalue := v, dtotal := dtotal S + 1, dprecise := dprecise S + 1,
              dlocation := s32 (dlocation S + 1), drounding := drounding S + 1\<rparr>
       else S\<lparr>dvalue := v\<rparr>)" for k
      unfolding Let_def using r(6) u by (intro round_digit_eq)
    have w: "s32 (int ?L + 1) = int ?L + 1" using r(2) by (simp add: s32_id)
    have "d = round_digit t (sg \<noteq> [45]) (uint (?D ! (?z + P)) - 48) (?S (?z + P))"
      unfolding d_def row_digits_eq [OF assms(1) n] using False by (simp only: if_False)
    then show ?thesis
      unfolding rd using False zL r(3)
      by (auto simp: Let_def digits_state_def w simp del: take_append)
  qed
  then obtain b where b: "dlocation d = int ?L + b" "0 \<le> b" "b \<le> 1" "dtotal d - dprecise d = int ?z"
    "0 \<le> dprecise d" "dtotal d \<le> int (length ?D) + b" by blast
  show ?thesis
    by (rule row_finish(1) [OF assms(1) d_def _ _ _ _ b(5) _ refl]) (use b r(2) zL assms(2) in auto)
qed

lemma row_short:
  assumes "plain_row strip pre sg ds dot fs post s t P q" "length ds - row_zeros ds + q \<le> P"
    "length fs \<le> q"
  shows "string_to_decimal_kernel t (- int q) (int P) strip True (s @ rest) (length s)
    = Inr (Some (signed_value (sg \<noteq> [45]) (plain_value ds fs q)))"
    "plain_value ds fs q < 10 ^ P"
proof -
  let ?D = "ds @ fs" and ?z = "row_zeros ds" and ?L = "length ds"
  note r = plain_rowD [OF assms(1)]
  have z: "?z \<le> ?L" using leading_zeros_plain(3) [OF row_zeros_def [of ds]] .
  have "plain_value ds fs q < 10 ^ (?L - ?z + q)"
    using plain_value_small(2) [OF r(1) assms(3) leading_zeros_plain(1) [OF row_zeros_def]] .
  also have "\<dots> \<le> (10 :: int) ^ P" using assms(2) by (intro power_increasing) simp_all
  finally show small: "plain_value ds fs q < 10 ^ P" .
  define d where "d = row_digits sg ds dot fs post t P q"
  have n: "?L + q = min (?L + q) (?z + P)" using assms(2) z by arith
  have d: "d = digits_state (sg \<noteq> [45]) ?L ?z ?D (length ?D)"
    unfolding d_def row_digits_eq [OF assms(1) n] using assms(3) by simp
  define u where "u = digits_value 0 ?D"
  have u: "0 \<le> u" using row_value_bounds(1) [OF assms(1), of "length ?D"] by (simp add: u_def)
  have m: "q - length fs = nat (min (int P - (int (?L - ?z) + drounding d)) (int q)
      - (dprecise d - (int (?L - ?z) + drounding d)))"
    using z assms(2,3) by (simp add: d digits_state_def of_nat_diff)
  have v: "u * 10 ^ (q - length fs) = plain_value ds fs q"
    using assms(3) by (simp add: plain_value_def u_def)
  have "string_to_decimal_kernel t (- int q) (int P) strip True (s @ rest) (length s)
    = Inr (Some (signed_value (sg \<noteq> [45]) (u * 10 ^ (q - length fs))))"
    by (rule row_finish(2) [OF assms(1) d_def _ _ _ _ _ _ refl _ _ _ _ u m])
      (use r(2) z assms(2) small in \<open>auto simp: d digits_state_def of_nat_diff u_def v [unfolded u_def]\<close>)
  then show "string_to_decimal_kernel t (- int q) (int P) strip True (s @ rest) (length s)
    = Inr (Some (signed_value (sg \<noteq> [45]) (plain_value ds fs q)))" unfolding v .
qed

lemma row_rounded:
  assumes "plain_row strip pre sg ds dot fs post s t P q" "length ds - row_zeros ds + q \<le> P"
    "q < length fs"
  shows "string_to_decimal_kernel t (- int q) (int P) strip True (s @ rest) (length s)
    = Inr (if plain_value ds fs q < 10 ^ P
           then Some (signed_value (sg \<noteq> [45]) (plain_value ds fs q)) else None)"
proof -
  let ?D = "ds @ fs" and ?z = "row_zeros ds" and ?L = "length ds" and ?pos = "sg \<noteq> [45]"
  let ?M = "?L + q"
  note r = plain_rowD [OF assms(1)]
  have z: "?z \<le> ?L" using leading_zeros_plain(3) [OF row_zeros_def [of ds]] .
  define d where "d = row_digits sg ds dot fs post t P q"
  define u where "u = digits_value 0 (take ?M ?D)"
  define k where "k = uint (?D ! ?M) - 48"
  have n: "?M = min ?M (?z + P)" using assms(2) z by arith
  have M: "?M < length ?D" using assms(3) by simp
  then have u: "0 \<le> u" "u < 10 ^ (?M - ?z)"
    using row_value_bounds [OF assms(1), of ?M] by (simp_all add: u_def)
  have le: "?M - ?z \<le> P" using assms(2) z by arith
  then have "(10 :: int) ^ (?M - ?z) \<le> 10 ^ P" by (intro power_increasing) simp_all
  with u have uP: "u < 10 ^ P" by linarith
  have v: "plain_value ds fs q = (if 5 \<le> k then u + 1 else u)"
    unfolding k_def u_def by (rule plain_value_split [OF r(1) assms(3) refl])
  let ?S = "digits_state ?pos ?L ?z ?D ?M"
  have d: "d = round_digit t ?pos k ?S"
    unfolding d_def row_digits_eq [OF assms(1) n] k_def using M by simp
  have dv: "dvalue ?S = signed_value ?pos u" by (simp add: digits_state_def u_def)
  have P0: "0 < int P" "u < 10 ^ nat (int P)" using r(3) uP by simp_all
  have w: "s32 (int ?L + 1) = int ?L + 1" using r(2) by (simp add: s32_id)
  note d = d [unfolded round_digit_eq [OF r(6) P0(1) u(1) P0(2) dv]]
  let ?carry = "u \<noteq> 0 \<and> count_digits (u + 1) > count_digits u"
  note fin = row_finish [OF assms(1) d_def _ _ _ _ _ _ refl]
  have plain: "string_to_decimal_kernel t (- int q) (int P) strip True (s @ rest) (length s)
      = Inr (Some (signed_value ?pos (plain_value ds fs q)))"
    if "k < 5 \<or> \<not> ?carry" "plain_value ds fs q < 10 ^ P"
  proof -
    have dd: "d = ?S\<lparr>dvalue := signed_value ?pos (plain_value ds fs q)\<rparr>"
      using d that(1) v by (auto simp: digits_state_def u_def)
    have m: "0 = nat (min (int P - (int (?L - ?z) + drounding d)) (int q)
      - (dprecise d - (int (?L - ?z) + drounding d)))"
      using z assms(2) by (simp add: dd digits_state_def of_nat_diff)
    have "0 \<le> plain_value ds fs q" using v u by simp
    from fin(2) [OF _ _ _ _ _ _ _ _ _ _ this m] show ?thesis
      using r(2) z assms(2,3) that(2) by (simp add: dd digits_state_def of_nat_diff)
  qed
  have carried: "string_to_decimal_kernel t (- int q) (int P) strip True (s @ rest) (length s)
    = Inr (if u + 1 < 10 ^ P then Some (signed_value ?pos (u + 1)) else None)"
    if nk: "\<not> k < 5" and carry: ?carry
  proof -
    have dd: "d = ?S\<lparr>dvalue := signed_value ?pos (u + 1), dtotal := int ?M + 1,
      dprecise := int (?M - ?z) + 1, dlocation := int ?L + 1, drounding := 1\<rparr>"
      using d nk carry w by (simp add: digits_state_def)
    show ?thesis
    proof (cases "?L - ?z + q = P")
      case True
      have lz: "?z < ?L" using True r(5) by linarith
      have "10 ^ (?M - ?z - 1) \<le> u"
        unfolding u_def using digits_value_take_lower [OF r(1) leading_zeros_plain(1) [OF row_zeros_def] lz, of ?M] lz M
        by simp
      moreover have "?M - ?z - 1 = P - 1" using True z by arith
      ultimately have lo: "10 ^ (P - 1) \<le> u" by simp
      obtain c where c: "u + 1 = 10 ^ c"
        using count_digits_carry [of u] carry u(1) by (metis le_less)
      have "(10 :: int) ^ (P - 1) < 10 ^ c" using lo c by linarith
      then have "P \<le> c" by (auto dest: power_less_imp_less_exp [rotated])
      then have "(10 :: int) ^ P \<le> 10 ^ c" by (intro power_increasing) simp_all
      then have "\<not> u + 1 < 10 ^ P" using c by linarith
      moreover have "int P - int q < dlocation d - (dtotal d - dprecise d)"
        using True z by (simp add: dd digits_state_def of_nat_diff)
      with fin(1) have "string_to_decimal_kernel t (- int q) (int P) strip True (s @ rest) (length s) = Inr None"
        using r(2) z assms(3) by (simp add: dd digits_state_def of_nat_diff)
      ultimately show ?thesis by simp
    next
      case False
      have "u + 1 \<le> 10 ^ (?M - ?z)" using u by simp
      also have "(10 :: int) ^ (?M - ?z) < 10 ^ P"
        using False assms(2) z by (intro power_strict_increasing) auto
      finally have lt: "u + 1 < 10 ^ P" .
      have m: "0 = nat (min (int P - (int (?L - ?z) + drounding d)) (int q)
        - (dprecise d - (int (?L - ?z) + drounding d)))"
        using z assms(2) by (simp add: dd digits_state_def of_nat_diff)
      have "0 \<le> u + 1" using u by simp
      from fin(2) [OF _ _ _ _ _ _ _ _ _ _ this m] show ?thesis
        using r(2) z assms(2,3) lt False by (simp add: dd digits_state_def of_nat_diff)
    qed
  qed
  show ?thesis
  proof (cases "5 \<le> k \<and> ?carry")
    case True
    then show ?thesis using carried v by simp
  next
    case False
    have "plain_value ds fs q < 10 ^ P"
    proof (cases "5 \<le> k \<and> u \<noteq> 0")
      case True
      then have "0 < u" using u by simp
      then obtain c where c: "0 < c" "10 ^ (c - 1) \<le> u" "u < 10 ^ c"
        "count_digits (u + 1) > count_digits u \<longleftrightarrow> u + 1 = 10 ^ c" by (rule count_digits_carry)
      have "(10 :: int) ^ (c - 1) < 10 ^ P" using c(2) uP by linarith
      then have "c - 1 < P" by (auto dest: power_less_imp_less_exp [rotated])
      then have "(10 :: int) ^ c \<le> 10 ^ P" by (intro power_increasing) simp_all
      moreover have "u + 1 \<noteq> 10 ^ c" using False True c(4) by auto
      ultimately have "u < 10 ^ P" "u + 1 < 10 ^ P" using c(3) by linarith+
      then show ?thesis by (simp add: v)
    next
      case F2: False
      have "(1 :: int) < 10 ^ P" using r(3) by simp
      then show ?thesis using F2 v uP by auto
    qed
    with plain False show ?thesis by auto
  qed
qed

section \<open>The cast\<close>

text \<open>
  C20: the cast of a plain decimal notation is exact. A row that holds optional blanks, an optional
  sign, digits with or without a point and optional blanks is cast to decimal(P, q), q < P, as its
  value rounded half up at the q-th place, with its sign, when that has at most P digits, and to
  null otherwise; what follows the row in the buffer does not matter.
\<close>

theorem string_to_decimal_exact:
  assumes "plain_row strip pre sg ds dot fs post s t P q"
  shows "string_to_decimal_kernel t (- int q) (int P) strip True (s @ rest) (length s)
    = Inr (if plain_value ds fs q < 10 ^ P
           then Some (signed_value (sg \<noteq> [45]) (plain_value ds fs q)) else None)"
proof -
  note r = plain_rowD [OF assms]
  note lz = leading_zeros_plain [OF row_zeros_def [of ds]]
  consider (big) "P < length ds - row_zeros ds + q" | (short) "length ds - row_zeros ds + q \<le> P" "length fs \<le> q"
    | (rounded) "length ds - row_zeros ds + q \<le> P" "q < length fs" by linarith
  then show ?thesis
  proof cases
    case big
    then show ?thesis
      using row_too_big [OF assms big] plain_value_too_big [OF r(1) lz(1) big r(5)] by simp
  next
    case short
    then show ?thesis using row_short [OF assms short] by simp
  next
    case rounded
    then show ?thesis using row_rounded [OF assms rounded] by simp
  qed
qed

theorem string_to_decimal_exact_witness:
  "string_to_decimal_kernel INT32 (- 2) 5 True True
      [32, 45, 48, 57, 46, 57, 57, 54, 10, 49] 9 = Inr (Some (- 1000))"
proof -
  have p: "plain_row True [32] [45] [48, 57] True [57, 57, 54] [10] [32, 45, 48, 57, 46, 57, 57, 54, 10]
    INT32 5 2"
    by (simp add: plain_row_def plain_notation_def plain_string_def is_whitespace_def is_digit_char_def
        decimal_type_def)
  have v: "plain_value [48, 57] [57, 57, 54] 2 = 1000"
    by (simp add: plain_value_def round_digits_def digits_value_def)
  have l: "length [32, 45, 48, 57, 46, 57, 57, 54, 10 :: 8 word] = 9" by simp
  show ?thesis using string_to_decimal_exact [OF p, of "[49]", unfolded l] by (simp add: v signed_value_def)
qed

section \<open>The type of the results\<close>

definition signed_in_type :: "int_type \<Rightarrow> bool \<Rightarrow> int \<Rightarrow> bool" where
  "signed_in_type t pos v \<longleftrightarrow> in_type t v \<and> (if pos then 0 \<le> v else v \<le> 0)"

lemma signed_in_typeE:
  assumes "signed_in_type t pos v"
  obtains u where "v = signed_value pos u" "0 \<le> u"
  using assms that [of "\<bar>v\<bar>"] by (auto simp: signed_in_type_def signed_value_def split: if_splits)

lemma process_value_typed:
  assumes "is_signed t" "signed_in_type t pos v" "0 \<le> n" "n \<le> 9" "first \<Longrightarrow> v = 0"
    "process_value t first v n pos = Some w"
  shows "signed_in_type t pos w"
proof -
  obtain u where u: "v = signed_value pos u" "0 \<le> u" using assms(2) by (rule signed_in_typeE)
  have "first \<Longrightarrow> u = 0" using assms(5) u by (auto simp: signed_value_def split: if_splits)
  with assms u show ?thesis
    using process_value_eq [of u n first pos t]
    by (auto simp: signed_in_type_def signed_value_def split: if_splits)
qed

lemma round_digit_typed:
  "is_signed t \<Longrightarrow> signed_in_type t pos (dvalue d) \<Longrightarrow> signed_in_type t pos (dvalue (round_digit t pos n d))"
  by (auto simp: round_digit_def Let_def signed_in_type_def in_type_def will_overflow_add_def)

lemma decimal_loop_typed:
  assumes "is_signed t" "signed_in_type t pos (dvalue d)" "first \<Longrightarrow> dvalue d = 0"
  shows "signed_in_type t pos (dvalue (decimal_loop t pos p l first s d))"
  using assms(2,3)
proof (induction s arbitrary: first d)
  case (Cons c s)
  show ?case
  proof (cases "c = 46 \<or> \<not> is_digit_char c")
    case True
    with Cons show ?thesis by (auto simp: decimal_loop.simps)
  next
    case False
    then have b: "0 \<le> uint c - 48" "uint c - 48 \<le> 9" using digit_bounds [of c] by auto
    show ?thesis
      using False Cons.prems round_digit_typed [OF assms(1)]
        process_value_typed [OF assms(1) Cons.prems(1) b Cons.prems(2)]
      by (auto simp: decimal_loop.simps Let_def intro!: Cons.IH split: option.splits)
  qed
qed (simp add: decimal_loop.simps)

lemma pad_zeros_typed:
  "is_signed t \<Longrightarrow> signed_in_type t pos v \<Longrightarrow> signed_in_type t pos (snd (pad_zeros t pos n v))"
proof (induction n arbitrary: v)
  case (Suc n)
  have "signed_in_type t pos (v * 10)" if "\<not> will_overflow_mul t v pos"
    using that Suc.prems type_max_pos [of t] type_min_neg [of t]
    by (auto simp: will_overflow_mul_def signed_in_type_def in_type_def sdiv_pos split: if_splits)
  with Suc show ?case by simp
qed simp

lemma kernel_typed:
  assumes "is_signed t" "string_to_decimal_kernel t sc p strip valid chars len = Inr (Some v)"
  shows "in_type t v"
proof -
  have z: "signed_in_type t pos 0" for pos
    using in_type_zero [of t True] by (simp add: signed_in_type_def signed_value_def)
  have l: "signed_in_type t pos (dvalue (if b then decimal_loop t pos p l True s
      \<lparr>dvalid = True, dvalue = 0, dprecise = 0, dtotal = 0, dfound = False, drounding = 0, dlocation = e\<rparr>
    else \<lparr>dvalid = True, dvalue = 0, dprecise = 0, dtotal = 0, dfound = False, drounding = 0, dlocation = e\<rparr>))"
    for pos b l s e
    using decimal_loop_typed [OF assms(1)] z by auto
  have g: "valid \<and> len > 0"
  proof (rule ccontr)
    assume "\<not> (valid \<and> len > 0)"
    then have "string_to_decimal_kernel t sc p strip valid chars len = Inr None"
      unfolding string_to_decimal_kernel_def by (rule if_P)
    with assms(2) show False by simp
  qed
  then have nn: "(\<not> (valid \<and> len > 0)) = False" by simp
  note k = assms(2) [unfolded string_to_decimal_kernel_def nn if_False]
  obtain r where r: "validate_and_exponent t chars len strip = Inr (Some r)"
  proof (cases "validate_and_exponent t chars len strip")
    case (Inl e)
    show ?thesis using k unfolding Inl sum.case by simp
  next
    case (Inr x)
    show ?thesis
    proof (cases x)
      case None
      show ?thesis using k unfolding Inr None sum.case option.case by simp
    qed (use Inr that in simp)
  qed
  have pick: "Inr (if b then Some x else None) = (Inr (Some y) :: access_error + int option) \<Longrightarrow> x = y" for b x y
    by (simp split: if_splits)
  have "signed_in_type t (fst r) v"
    using k unfolding r sum.case option.case prod.case
      Let_def case_prod_unfold
    by (rule pick [THEN subst]) (intro pad_zeros_typed [OF assms(1)] l)
  then show ?thesis by (simp add: signed_in_type_def)
qed

text \<open>
  C21: a cast to a decimal type returns one entry for each row, and every number in the result is in
  the range of the integer type that stores decimals of that precision, for every input.
\<close>

theorem string_to_decimal_typed:
  assumes "string_to_decimal p sc col ansi strip = Some (Inr out)" "decimal_type p = Some t"
  shows "length out = length col \<and> (\<forall>v. Some v \<in> set out \<longrightarrow> in_type t v)"
proof (cases "col = []")
  case True
  with assms show ?thesis by (simp add: string_to_decimal_def)
next
  case False
  have s: "is_signed t" using assms(2) by (auto simp: decimal_type_def split: if_splits)
  let ?rows = "map (decimal_row t sc p strip col) [0..<length col]"
  have o: "out = map projr ?rows" "\<not> list_ex isl ?rows"
    using assms False by (auto simp: string_to_decimal_def Let_def split: if_splits option.splits)
  have "in_type t v" if "Some v \<in> set out" for v
  proof -
    from that o obtain i where i: "i < length col" "projr (decimal_row t sc p strip col i) = Some v"
      "\<not> isl (decimal_row t sc p strip col i)" by (auto simp: list_ex_iff)
    then have "decimal_row t sc p strip col i = Inr (Some v)"
      by (cases "decimal_row t sc p strip col i") auto
    then show ?thesis unfolding decimal_row_def by (rule kernel_typed [OF s])
  qed
  with o(1) show ?thesis by simp
qed

theorem string_to_decimal_typed_witness:
  "in_type INT32 (- 1234)"
proof -
  have "string_to_decimal 5 (- 2) [(True, [45, 49, 50, 46, 51, 52]), (False, [])] False True
    = Some (Inr [Some (- 1234), None])" by code_simp
  moreover have "decimal_type 5 = Some INT32" by (simp add: decimal_type_def)
  ultimately show ?thesis using string_to_decimal_typed by fastforce
qed

section \<open>Departures\<close>

text \<open>
  C22: the cast of a row of blanks depends on the row behind it. The kernel looks for a sign behind the leading
  blanks before it compares the index with the length of the row. For a row of blanks only, that
  character belongs to the next row: if it is a sign the row is cast to zero instead of null, and
  at the end of the buffer the read is out of bounds.
\<close>

theorem blank_row_reads_next_row:
  assumes "list_all is_whitespace s" "s \<noteq> []" "length s < 2 ^ 30" "decimal_type (int P) = Some t"
    "q \<le> P" "rest = [] \<or> \<not> is_whitespace (hd rest)"
  shows "string_to_decimal_kernel t (- int q) (int P) True True (s @ rest) (length s)
    = (if rest = [] then Inl Out_of_buffer
       else if hd rest = 43 \<or> hd rest = 45 then Inr (Some 0) else Inr None)"
proof (cases rest)
  case Nil
  then show ?thesis
    using assms by (simp add: string_to_decimal_kernel_def validate_and_exponent_def list_all_iff
        takeWhile_eq_all_conv [THEN iffD2])
next
  case (Cons c r)
  have tw: "takeWhile is_whitespace s = s" using assms(1) by (simp add: list_all_iff)
  have p: "P \<le> 38" using decimal_type_bounds [OF assms(4)] by simp
  have w: "s32 (int (length s) - (1 + int (length s))) = - 1" "s32 (- 1 + int q) = int q - 1"
    "s32 (int P - int q) = int P - int q" "s32 (- 1) = - 1" "s32 1 = 1"
    using p assms(5) by (simp_all add: s32_id)
  have z: "pad_zeros t a n 0 = (True, 0)" for a n
    using type_max_pos [of t] type_min_neg [of t]
    by (induction n) (auto simp: will_overflow_mul_def type_min_def sdiv_pos)
  have v: "validate_and_exponent t (s @ rest) (length s) True
    = Inr (if c = 43 \<or> c = 45 then Some (c \<noteq> 45, - 1, Suc (length s)) else None)"
    using assms(2) w by (auto simp: validate_and_exponent_def tw Cons validate_loop.simps Let_def)
  show ?thesis
    using assms(2,5) w unfolding string_to_decimal_kernel_def v
    by (auto simp: Cons Let_def z count_significant_digits_def decimal_loop.simps split: prod.splits)
qed

theorem blank_row_reads_next_row_witness:
  "string_to_decimal_kernel INT64 0 18 True True [32, 45, 49] 1 = Inr (Some 0)"
  using blank_row_reads_next_row [of "[32]" 18 INT64 0 "[45, 49]"]
  by (simp add: is_whitespace_def decimal_type_def)

text \<open>The exponent is added to the place of the point in 32 bits: \<open>1e4294967296\<close> is 1.\<close>

lemma exponent_wraps:
  "string_to_decimal_kernel INT64 0 18 True True [49, 101, 52, 50, 57, 52, 57, 54, 55, 50, 57, 54] 12
    = Inr (Some 1)"
  by code_simp

text \<open>The digits of the exponent and of the mantissa may be missing: \<open>1e\<close>, \<open>1e+\<close> and \<open>e5\<close> are accepted.\<close>

lemma missing_digits_accepted:
  "string_to_decimal_kernel INT64 0 18 True True [49, 101] 2 = Inr (Some 1)"
  "string_to_decimal_kernel INT64 0 18 True True [49, 101, 43] 3 = Inr (Some 1)"
  "string_to_decimal_kernel INT64 0 18 True True [101, 53] 2 = Inr (Some 0)"
  by code_simp+

text \<open>Blanks behind an exponent are not stripped: \<open>1e5\<close> and a blank is rejected.\<close>

lemma blank_after_exponent_rejected:
  "string_to_decimal_kernel INT64 0 18 True True [49, 101, 53, 32] 4 = Inr None"
  by code_simp

text \<open>
  With as many places as digits, a carry counts as a digit in front of the point: \<open>0.099\<close> is null in
  \<open>decimal(2, 2)\<close>, which holds 0.10. This is why the exactness above wants \<open>q < P\<close>.
\<close>

lemma carry_in_fraction_null:
  "string_to_decimal_kernel INT32 (- 2) 2 True True [48, 46, 48, 57, 57] 5 = Inr None"
  by code_simp

end
