(* ===== verification/JsonString.thy ===== *)
theory JsonString
  imports Prelude
begin

text \<open>
  The strings of the JSON parser (\<open>json_parser.cuh\<close>): the scan of a quoted string, the comparison of
  a field name with the name looked for while it is scanned, and the two styles in which a string
  is written out. A character is a byte; the code tests \<open>v >= 0 && v < 32\<close> on a signed \<open>char\<close>, which
  holds of the bytes below 32. A \<open>char_range_reader\<close> is the list of the bytes left to read, and
  \<open>char_range::null()\<close> is \<open>None\<close>.
\<close>

unbundle bit_operations_syntax

section \<open>Characters\<close>

datatype escape_style = UNESCAPED | ESCAPED

definition is_hex_digit :: "byte \<Rightarrow> bool" where
  "is_hex_digit c \<longleftrightarrow> 48 \<le> c \<and> c \<le> 57 \<or> 65 \<le> c \<and> c \<le> 70 \<or> 97 \<le> c \<and> c \<le> 102"

definition hex_value :: "byte \<Rightarrow> byte" where
  "hex_value c =
     (if 48 \<le> c \<and> c \<le> 57 then c - 48
      else if 97 \<le> c \<and> c \<le> 102 then c - 97 + 10
      else if 65 \<le> c \<and> c \<le> 70 then c - 65 + 10
      else 0)"

definition to_hex_char :: "byte \<Rightarrow> byte" where
  "to_hex_char v = (if v < 10 then 48 + v else 65 + (v - 10))"

text \<open>
  The destination of a write: \<open>None\<close> is a null pointer, with which a caller asks for the number of
  bytes only; otherwise the bytes written so far.
\<close>

type_synonym dest = "byte list option"

definition emit :: "byte list \<Rightarrow> dest \<Rightarrow> dest" where
  "emit bs d = map_option (\<lambda>out. out @ bs) d"

definition escape_char :: "byte \<Rightarrow> dest \<Rightarrow> dest \<times> int" where
  "escape_char c output =
     (case output of
        None \<Rightarrow> (None, if c = 8 \<or> c = 9 \<or> c = 10 \<or> c = 12 \<or> c = 13 then 2 else 6)
      | Some out \<Rightarrow>
          if c = 8 then (Some (out @ [92, 98]), 2)
          else if c = 9 then (Some (out @ [92, 116]), 2)
          else if c = 10 then (Some (out @ [92, 110]), 2)
          else if c = 12 then (Some (out @ [92, 102]), 2)
          else if c = 13 then (Some (out @ [92, 114]), 2)
          else (Some (out @ [92, 117, 48, 48, if 16 \<le> c then 49 else 48, to_hex_char (c mod 16)]), 6))"

section \<open>UTF-8\<close>

text \<open>\<open>char_utf8\<close> holds the bytes of a character, the last one in the lowest bits.\<close>

definition bytes_in_char_utf8 :: "32 word \<Rightarrow> nat" where
  "bytes_in_char_utf8 character =
     1 + of_bool (character AND 0x0000FF00 > 0) + of_bool (character AND 0x00FF0000 > 0)
       + of_bool (character AND 0xFF000000 > 0)"

definition codepoint_to_utf8 :: "32 word \<Rightarrow> 32 word" where
  "codepoint_to_utf8 unchr =
     (if unchr < 0x80 then unchr
      else if unchr < 0x800 then
        (push_bit 2 unchr AND 0x1F00) OR (unchr AND 0x3F) OR 0xC080
      else if unchr < 0x10000 then
        (push_bit 4 unchr AND 0x0F0000) OR (push_bit 2 unchr AND 0x3F00) OR (unchr AND 0x3F) OR 0xE08080
      else if unchr < 0x110000 then
        (push_bit 6 unchr AND 0x07000000) OR (push_bit 4 unchr AND 0x3F0000)
          OR (push_bit 2 unchr AND 0x3F00) OR (unchr AND 0x3F) OR 0xF0808080
      else 0)"

primrec char_bytes :: "nat \<Rightarrow> 32 word \<Rightarrow> byte list \<Rightarrow> byte list" where
  "char_bytes 0 character str = str"
| "char_bytes (Suc n) character str = char_bytes n (drop_bit 8 character) (ucast character # str)"

definition from_char_utf8 :: "32 word \<Rightarrow> byte list" where
  "from_char_utf8 character = char_bytes (bytes_in_char_utf8 character) character []"

section \<open>Escape sequences\<close>

text \<open>What the scan of a string reads and writes: the variables passed by reference.\<close>

record scan =
  rest :: "byte list"
  to_match :: "byte list option"
  dest :: dest
  osize :: int
  matched :: bool

fun try_match_char :: "byte list option \<Rightarrow> byte \<Rightarrow> bool \<times> byte list option" where
  "try_match_char None c = (True, None)"
| "try_match_char (Some []) c = (False, Some [])"
| "try_match_char (Some (x # xs)) c = (if x = c then (True, Some xs) else (False, Some (x # xs)))"

definition match_char :: "byte \<Rightarrow> scan \<Rightarrow> scan" where
  "match_char c s =
     (if matched s then
        let (b, r) = try_match_char (to_match s) c in s\<lparr>to_match := r, matched := b\<rparr>
      else s)"

text \<open>
  \<open>put_char\<close> writes the character \<open>c\<close> in both styles, \<open>put_escape\<close> writes it in the unescaped style and as
  the escape sequence of the letter \<open>x\<close> in the escaped one.
\<close>

definition put_char :: "byte \<Rightarrow> scan \<Rightarrow> scan" where
  "put_char c s = match_char c (s\<lparr>dest := emit [c] (dest s), osize := osize s + 1\<rparr>)"

definition put_escape :: "escape_style \<Rightarrow> byte \<Rightarrow> byte \<Rightarrow> scan \<Rightarrow> scan" where
  "put_escape w_style x c s =
     match_char c
       (s\<lparr>dest := emit (if w_style = ESCAPED then [92, x] else [c]) (dest s),
          osize := osize s + (if w_style = ESCAPED then 1 else 0) + 1\<rparr>)"

primrec read_hex :: "nat \<Rightarrow> 32 word \<Rightarrow> byte list \<Rightarrow> (32 word \<times> byte list) option" where
  "read_hex 0 code_point str = Some (code_point, str)"
| "read_hex (Suc n) code_point str =
     (case str of
        [] \<Rightarrow> None
      | c # r \<Rightarrow>
          if \<not> is_hex_digit c then None
          else read_hex n (code_point * 16 + ucast (hex_value c)) r)"

text \<open>A high surrogate takes the low surrogate behind it, when there is one.\<close>

definition low_surrogate :: "byte list \<Rightarrow> 32 word" where
  "low_surrogate str = foldl (\<lambda>v c. v * 16 + ucast (hex_value c)) 0 (take 4 (drop 2 str))"

definition combine_surrogates :: "32 word \<Rightarrow> byte list \<Rightarrow> 32 word \<times> byte list" where
  "combine_surrogates code_point str =
     (if 0xD800 \<le> code_point \<and> code_point \<le> 0xDBFF \<and> 6 \<le> length str
         \<and> str ! 0 = 92 \<and> str ! 1 = 117 \<and> is_hex_digit (str ! 2) \<and> is_hex_digit (str ! 3)
         \<and> is_hex_digit (str ! 4) \<and> is_hex_digit (str ! 5)
         \<and> 0xDC00 \<le> low_surrogate str \<and> low_surrogate str \<le> 0xDFFF
      then (0x10000 + push_bit 10 (code_point - 0xD800) + (low_surrogate str - 0xDC00), drop 6 str)
      else (code_point, str))"

fun match_bytes :: "byte list \<Rightarrow> byte list \<Rightarrow> bool \<times> byte list" where
  "match_bytes [] r = (True, r)"
| "match_bytes (b # bs) [] = (False, [])"
| "match_bytes (b # bs) (x # xs) = (if x \<noteq> b then (False, x # xs) else match_bytes bs xs)"

definition match_utf8 :: "byte list \<Rightarrow> scan \<Rightarrow> scan" where
  "match_utf8 buff s =
     (case to_match s of
        None \<Rightarrow> s
      | Some r \<Rightarrow>
          if matched s then
            let (b, r) = match_bytes buff r in s\<lparr>matched := b, to_match := Some r\<rparr>
          else s)"

definition try_skip_unicode :: "scan \<Rightarrow> scan option" where
  "try_skip_unicode s =
     (case read_hex 4 0 (rest s) of
        None \<Rightarrow> None
      | Some (code_point, str) \<Rightarrow>
          let (code_point, str) = combine_surrogates code_point str;
              buff = from_char_utf8 (codepoint_to_utf8 code_point)
          in Some (match_utf8 buff
               (s\<lparr>rest := str, osize := osize s + int (length buff), dest := emit buff (dest s)\<rparr>)))"

definition try_skip_escape_part :: "escape_style \<Rightarrow> scan \<Rightarrow> scan option" where
  "try_skip_escape_part w_style s =
     (case rest s of
        [] \<Rightarrow> None
      | c # r \<Rightarrow>
          let s = s\<lparr>rest := r\<rparr> in
          if c = 34 then Some (put_escape w_style 34 34 s)
          else if c = 39 then Some (put_char 39 s)
          else if c = 92 then Some (put_escape w_style 92 92 s)
          else if c = 47 then Some (put_char 47 s)
          else if c = 98 then Some (put_escape w_style 98 8 s)
          else if c = 102 then Some (put_escape w_style 102 12 s)
          else if c = 110 then Some (put_escape w_style 110 10 s)
          else if c = 114 then Some (put_escape w_style 114 13 s)
          else if c = 116 then Some (put_escape w_style 116 9 s)
          else if c = 117 then try_skip_unicode s
          else None)"

lemma read_hex_length: "read_hex n v str = Some (w, r) \<Longrightarrow> length str = length r + n"
  by (induction n arbitrary: v str) (auto split: list.splits if_splits)

lemma combine_surrogates_length: "length (snd (combine_surrogates v str)) \<le> length str"
  by (simp add: combine_surrogates_def)

lemma rest_match_char [simp]: "rest (match_char c s) = rest s"
  by (simp add: match_char_def split: prod.split)

lemma rest_put [simp]: "rest (put_char c s) = rest s" "rest (put_escape w x c s) = rest s"
  by (simp_all add: put_char_def put_escape_def)

lemma rest_match_utf8 [simp]: "rest (match_utf8 b s) = rest s"
  by (simp add: match_utf8_def split: option.split prod.split)

lemma try_skip_unicode_length:
  assumes "try_skip_unicode s = Some s'"
  shows "length (rest s') \<le> length (rest s)"
proof -
  obtain v str where r: "read_hex 4 0 (rest s) = Some (v, str)"
    using assms by (auto simp: try_skip_unicode_def split: option.splits)
  with assms have "rest s' = snd (combine_surrogates v str)"
    by (auto simp: try_skip_unicode_def Let_def split: prod.splits)
  with read_hex_length [OF r] combine_surrogates_length [of v str] show ?thesis by simp
qed

lemma try_skip_escape_part_length:
  "try_skip_escape_part w s = Some s' \<Longrightarrow> length (rest s') < length (rest s)"
  by (auto simp: try_skip_escape_part_def Let_def dest: try_skip_unicode_length split: list.splits if_splits)

section \<open>Writing and scanning strings\<close>

text \<open>The loop of \<open>write_string\<close> behind the opening quote.\<close>

function write_loop :: "byte \<Rightarrow> escape_style \<Rightarrow> byte list \<Rightarrow> dest \<Rightarrow> int \<Rightarrow> dest \<times> int" where
  "write_loop quote_char w_style str copy n =
     (case str of
        [] \<Rightarrow> (copy, n)
      | c # r \<Rightarrow>
          if c = quote_char then
            (if w_style = ESCAPED then (emit [34] copy, n + 1) else (copy, n))
          else if c < 32 then
            (if w_style = UNESCAPED then write_loop quote_char w_style r (emit [c] copy) (n + 1)
             else let (copy, k) = escape_char c copy in write_loop quote_char w_style r copy (n + k))
          else if c = 92 then
            (case try_skip_escape_part w_style
                    \<lparr>rest = r, to_match = None, dest = copy, osize = n, matched = False\<rparr> of
               None \<Rightarrow> (copy, n)
             | Some s \<Rightarrow> write_loop quote_char w_style (rest s) (dest s) (osize s))
          else
            let (copy, n) = (if c = 34 \<and> w_style = ESCAPED then (emit [92] copy, n + 1) else (copy, n))
            in write_loop quote_char w_style r (emit [c] copy) (n + 1))"
  by auto
termination
  by (relation "measure (\<lambda>(q, w, str, d, n). length str)")
     (auto dest: try_skip_escape_part_length)

declare write_loop.simps [simp del]

definition write_string :: "byte list \<Rightarrow> dest \<Rightarrow> escape_style \<Rightarrow> dest \<times> int" where
  "write_string str copy_destination w_style =
     (case str of
        [] \<Rightarrow> (copy_destination, 0)
      | quote_char # r \<Rightarrow>
          let (copy, n) = (if w_style = ESCAPED then (emit [34] copy_destination, 1)
                           else (copy_destination, 0))
          in write_loop quote_char w_style r copy n)"

definition try_skip_safe_code_point :: "byte \<Rightarrow> bool" where
  "try_skip_safe_code_point c \<longleftrightarrow> \<not> c < 32"

text \<open>
  The loop of \<open>try_parse_string\<close>: \<open>None\<close> is a failure; otherwise whether the name matched and what is
  left behind the closing quote.
\<close>

function parse_string_loop :: "byte \<Rightarrow> byte list \<Rightarrow> byte list option \<Rightarrow> bool \<Rightarrow> (bool \<times> byte list) option" where
  "parse_string_loop quote_char str name matched_name =
     (case str of
        [] \<Rightarrow> None
      | c # r \<Rightarrow>
          if c = quote_char then Some (matched_name \<and> (name = None \<or> name = Some []), r)
          else if c < 32 then
            (let (b, name') = (if matched_name then try_match_char name c else (False, name))
             in parse_string_loop quote_char r name' b)
          else if c = 92 then
            (case try_skip_escape_part UNESCAPED
                    \<lparr>rest = r, to_match = name, dest = None, osize = 0, matched = matched_name\<rparr> of
               None \<Rightarrow> None
             | Some s \<Rightarrow> parse_string_loop quote_char (rest s) (to_match s) (matched s))
          else if \<not> try_skip_safe_code_point c then None
          else
            (let (b, name') = (if matched_name then try_match_char name c else (False, name))
             in parse_string_loop quote_char r name' b))"
  by auto
termination
  by (relation "measure (\<lambda>(q, str, m, b). length str)")
     (auto dest: try_skip_escape_part_length)

declare parse_string_loop.simps [simp del]

definition try_parse_string :: "byte list \<Rightarrow> byte list option \<Rightarrow> (bool \<times> byte list) option" where
  "try_parse_string str name =
     (case str of
        [] \<Rightarrow> None
      | quote_char # r \<Rightarrow> parse_string_loop quote_char r name (name \<noteq> None))"

end
