(* ===== verification/JsonParser.thy ===== *)
theory JsonParser
  imports JsonString
begin

text \<open>
  The token by token JSON parser of \<open>json_parser.cuh\<close>. A row is the list of its bytes. Two things in
  the state are not determined by the row: the members that the constructor leaves uninitialized,
  and the byte behind the row, which is read once the row ends where a value should start. A loop
  that may run forever is a \<open>partial_function\<close>, where \<open>None\<close> is running forever.
\<close>

section \<open>State\<close>

datatype json_token =
    INIT | SUCCESS | ERROR | START_OBJECT | END_OBJECT | START_ARRAY | END_ARRAY | FIELD_NAME
  | VALUE_STRING | VALUE_NUMBER_INT | VALUE_NUMBER_FLOAT | VALUE_TRUE | VALUE_FALSE | VALUE_NULL

definition MAX_JSON_NESTING_DEPTH :: nat where
  "MAX_JSON_NESTING_DEPTH = 64"

definition max_num_len :: int where
  "max_num_len = 1000"

record json_parser =
  chars :: "byte list"
  beyond :: byte
  curr_pos :: nat
  context_stack :: "64 word"
  stack_size :: nat
  current_token_start_pos :: nat
  number_token_len :: nat
  current_token :: json_token
  max_depth_exceeded :: bool

text \<open>What is in memory where the constructor writes nothing, and behind the row.\<close>

record garbage =
  g_beyond :: byte
  g_context :: "64 word"
  g_start_pos :: nat
  g_number_len :: nat

definition new_json_parser :: "garbage \<Rightarrow> byte list \<Rightarrow> json_parser" where
  "new_json_parser g row =
     \<lparr>chars = row, beyond = g_beyond g, curr_pos = 0, context_stack = g_context g, stack_size = 0,
      current_token_start_pos = g_start_pos g, number_token_len = g_number_len g,
      current_token = INIT, max_depth_exceeded = False\<rparr>"

definition get_bit_value :: "64 word \<Rightarrow> nat \<Rightarrow> bool" where
  "get_bit_value number bitIndex \<longleftrightarrow> signed_drop_bit bitIndex number AND 1 \<noteq> 0"

definition set_bit_value :: "64 word \<Rightarrow> nat \<Rightarrow> bool \<Rightarrow> 64 word" where
  "set_bit_value number bit_index bit_value =
     (let mask = push_bit bit_index 1 in
      if bit_value then number OR mask else number AND NOT mask)"

definition eof :: "json_parser \<Rightarrow> bool" where
  "eof p \<longleftrightarrow> curr_pos p \<ge> length (chars p)"

definition current_char :: "json_parser \<Rightarrow> byte" where
  "current_char p = (if curr_pos p < length (chars p) then chars p ! curr_pos p else beyond p)"

definition advance :: "nat \<Rightarrow> json_parser \<Rightarrow> json_parser" where
  "advance n p = p\<lparr>curr_pos := curr_pos p + n\<rparr>"

definition is_digit_json :: "byte \<Rightarrow> bool" where
  "is_digit_json c \<longleftrightarrow> 48 \<le> c \<and> c \<le> 57"

definition is_whitespace_json :: "byte \<Rightarrow> bool" where
  "is_whitespace_json c \<longleftrightarrow> c = 32 \<or> c = 9 \<or> c = 10 \<or> c = 13"

definition skip_whitespaces :: "json_parser \<Rightarrow> json_parser" where
  "skip_whitespaces p = advance (length (takeWhile is_whitespace_json (drop (curr_pos p) (chars p)))) p"

definition try_skip :: "json_parser \<Rightarrow> byte \<Rightarrow> bool \<times> json_parser" where
  "try_skip p expected =
     (if \<not> eof p \<and> current_char p = expected then (True, advance 1 p) else (False, p))"

definition set_current :: "json_token \<Rightarrow> json_parser \<Rightarrow> json_parser" where
  "set_current t p = p\<lparr>current_token := t\<rparr>"

definition set_current_error :: "json_parser \<Rightarrow> json_parser" where
  "set_current_error p = set_current ERROR p"

definition push_context :: "json_token \<Rightarrow> json_parser \<Rightarrow> json_parser" where
  "push_context token p =
     p\<lparr>context_stack := set_bit_value (context_stack p) (stack_size p) (START_OBJECT = token),
       stack_size := stack_size p + 1\<rparr>"

definition try_push_context :: "json_token \<Rightarrow> json_parser \<Rightarrow> bool \<times> json_parser" where
  "try_push_context token p =
     (if stack_size p < MAX_JSON_NESTING_DEPTH then (True, push_context token p) else (False, p))"

definition is_object_context :: "json_parser \<Rightarrow> bool" where
  "is_object_context p \<longleftrightarrow> get_bit_value (context_stack p) (stack_size p - 1)"

definition pop_curr_context :: "json_parser \<Rightarrow> json_parser" where
  "pop_curr_context p = p\<lparr>stack_size := stack_size p - 1\<rparr>"

section \<open>Numbers and literals\<close>

definition skip_zero_or_more_digits :: "json_parser \<Rightarrow> json_parser \<times> int" where
  "skip_zero_or_more_digits p =
     (let n = length (takeWhile is_digit_json (drop (curr_pos p) (chars p))) in (advance n p, int n))"

text \<open>The functions on numbers return whether they succeed, the parser, and the number of digits.\<close>

definition try_skip_one_or_more_digits :: "json_parser \<Rightarrow> int \<Rightarrow> bool \<times> json_parser \<times> int" where
  "try_skip_one_or_more_digits p number_digits_length =
     (if \<not> eof p \<and> is_digit_json (current_char p) then
        let (p, n) = skip_zero_or_more_digits (advance 1 p) in (True, p, number_digits_length + 1 + n)
      else (False, p, number_digits_length))"

definition try_parse_exp :: "json_parser \<Rightarrow> int \<Rightarrow> bool \<times> json_parser \<times> int" where
  "try_parse_exp p number_digits_length =
     (let p = (if \<not> eof p \<and> (current_char p = 43 \<or> current_char p = 45) then advance 1 p else p)
      in try_skip_one_or_more_digits p number_digits_length)"

text \<open>Also returns whether the number is a float.\<close>

definition parse_number_from_fraction :: "json_parser \<Rightarrow> int \<Rightarrow> bool \<times> bool \<times> json_parser \<times> int" where
  "parse_number_from_fraction p n =
     (let (is_float, p) = try_skip p 46;
          (ok, p, n) = (if is_float then try_skip_one_or_more_digits p n else (True, p, n))
      in if \<not> ok then (False, is_float, p, n)
         else if \<not> eof p \<and> (current_char p = 101 \<or> current_char p = 69) then
           (let (ok, p, n) = try_parse_exp (advance 1 p) n in (ok, True, p, n))
         else (True, is_float, p, n))"

definition try_unsigned_number :: "json_parser \<Rightarrow> bool \<times> bool \<times> json_parser \<times> int" where
  "try_unsigned_number p =
     (if eof p then (False, False, p, 0)
      else
        let c = current_char p in
        if 49 \<le> c \<and> c \<le> 57 then
          (let (p, n) = skip_zero_or_more_digits (advance 1 p) in parse_number_from_fraction p (1 + n))
        else if c = 48 then
          (let p = advance 1 p in
           if \<not> eof p \<and> 48 \<le> current_char p \<and> current_char p \<le> 57 then (False, False, p, 1)
           else parse_number_from_fraction p 1)
        else (False, False, p, 0))"

definition check_max_num_len :: "int \<Rightarrow> bool" where
  "check_max_num_len number_digits_length \<longleftrightarrow>
     max_num_len \<le> 0 \<or> max_num_len > 0 \<and> number_digits_length \<le> max_num_len"

definition parse_number_and_set_current :: "json_parser \<Rightarrow> json_parser" where
  "parse_number_and_set_current p =
     (let (_, p) = try_skip p 45;
          (ok, is_float, p, n) = try_unsigned_number p
      in if ok then
           if check_max_num_len n then
             p\<lparr>current_token := if is_float then VALUE_NUMBER_FLOAT else VALUE_NUMBER_INT,
               number_token_len := curr_pos p - current_token_start_pos p\<rparr>
           else set_current_error p
         else set_current_error p)"

text \<open>The letters behind the first one of \<open>true\<close>, \<open>false\<close> and \<open>null\<close>.\<close>

fun try_skip_all :: "byte list \<Rightarrow> json_parser \<Rightarrow> bool \<times> json_parser" where
  "try_skip_all [] p = (True, p)"
| "try_skip_all (c # cs) p = (case try_skip p c of (True, p) \<Rightarrow> try_skip_all cs p | r \<Rightarrow> r)"

definition parse_literal_and_set_current :: "byte list \<Rightarrow> json_token \<Rightarrow> json_parser \<Rightarrow> json_parser" where
  "parse_literal_and_set_current cs token p =
     (case try_skip_all cs p of
        (True, p) \<Rightarrow> set_current token p
      | (False, p) \<Rightarrow> set_current_error p)"

section \<open>Tokens\<close>

definition parse_string_and_set_current :: "json_parser \<Rightarrow> json_parser" where
  "parse_string_and_set_current p =
     (case try_parse_string (drop (curr_pos p) (chars p)) None of
        Some (_, end) \<Rightarrow> p\<lparr>curr_pos := length (chars p) - length end, current_token := VALUE_STRING\<rparr>
      | None \<Rightarrow> set_current_error p)"

definition start_context :: "json_token \<Rightarrow> json_parser \<Rightarrow> json_parser" where
  "start_context token p =
     (case try_push_context token p of
        (False, p) \<Rightarrow> set_current_error (p\<lparr>max_depth_exceeded := True\<rparr>)
      | (True, p) \<Rightarrow> set_current token (advance 1 p))"

definition parse_first_token_in_value_and_set_current :: "json_parser \<Rightarrow> json_parser" where
  "parse_first_token_in_value_and_set_current p =
     (let p = p\<lparr>current_token_start_pos := curr_pos p\<rparr>;
          c = current_char p
      in if c = 123 then start_context START_OBJECT p
         else if c = 91 then start_context START_ARRAY p
         else if c = 34 \<or> c = 39 then parse_string_and_set_current p
         else if c = 116 then parse_literal_and_set_current [114, 117, 101] VALUE_TRUE (advance 1 p)
         else if c = 102 then parse_literal_and_set_current [97, 108, 115, 101] VALUE_FALSE (advance 1 p)
         else if c = 110 then parse_literal_and_set_current [117, 108, 108] VALUE_NULL (advance 1 p)
         else parse_number_and_set_current p)"

text \<open>
  The flags that \<open>parse_next_token_and_set_current\<close> sets. \<open>matched_name\<close> is \<open>None\<close> when the token is not a
  field name: the variable of the caller is not assigned then.
\<close>

record flags =
  has_comma :: bool
  has_colon :: bool
  matched_name :: "bool option"

definition no_flags :: flags where
  "no_flags = \<lparr>has_comma = False, has_colon = False, matched_name = None\<rparr>"

definition parse_field_name_and_set_current ::
  "byte list option \<Rightarrow> flags \<Rightarrow> json_parser \<Rightarrow> json_parser \<times> flags" where
  "parse_field_name_and_set_current name f p =
     (let p = p\<lparr>current_token_start_pos := curr_pos p\<rparr> in
      case try_parse_string (drop (curr_pos p) (chars p)) name of
        Some (m, end) \<Rightarrow>
          (p\<lparr>curr_pos := length (chars p) - length end, current_token := FIELD_NAME\<rparr>,
           f\<lparr>matched_name := Some m\<rparr>)
      | None \<Rightarrow> (set_current_error p, f))"

definition end_context :: "json_token \<Rightarrow> json_parser \<Rightarrow> json_parser" where
  "end_context token p =
     set_current token (pop_curr_context (advance 1 (p\<lparr>current_token_start_pos := curr_pos p\<rparr>)))"

definition parse_next_token_and_set_current ::
  "byte list option \<Rightarrow> json_parser \<Rightarrow> json_parser \<times> flags" where
  "parse_next_token_and_set_current name p =
     (let p = skip_whitespaces p in
      if \<not> eof p then
        let c = current_char p in
        if stack_size p = 0 then
          (if current_token p = INIT then parse_first_token_in_value_and_set_current p
           else set_current SUCCESS p, no_flags)
        else if is_object_context p then
          (if current_token p = START_OBJECT then
             (if c = 125 then (end_context END_OBJECT p, no_flags)
              else parse_field_name_and_set_current name no_flags p)
           else if current_token p = FIELD_NAME then
             (if c = 58 then
                (parse_first_token_in_value_and_set_current (skip_whitespaces (advance 1 p)),
                 no_flags\<lparr>has_colon := True\<rparr>)
              else (set_current_error p, no_flags))
           else if c = 125 then (end_context END_OBJECT p, no_flags)
           else if c = 44 then
             parse_field_name_and_set_current name (no_flags\<lparr>has_comma := True\<rparr>)
               (skip_whitespaces (advance 1 p))
           else (set_current_error p, no_flags))
        else
          (if current_token p = START_ARRAY then
             (if c = 93 then end_context END_ARRAY p
              else parse_first_token_in_value_and_set_current p, no_flags)
           else if c = 44 then
             (parse_first_token_in_value_and_set_current (skip_whitespaces (advance 1 p)),
              no_flags\<lparr>has_comma := True\<rparr>)
           else if c = 93 then (end_context END_ARRAY p, no_flags)
           else (set_current_error p, no_flags))
      else if stack_size p = 0 \<and> current_token p \<noteq> INIT then (set_current SUCCESS p, no_flags)
      else (set_current_error p, no_flags))"

definition next_token :: "json_parser \<Rightarrow> json_parser" where
  "next_token p = fst (parse_next_token_and_set_current None p)"

text \<open>
  The name is a range of bytes. In the code it is a pointer into the concatenated names of the batch;
  when these are all empty the pointer may be null, and \<open>try_parse_string\<close> then reports no match where
  an empty name would match. Here the name is never null.
\<close>

definition parse_next_token_with_matching :: "byte list \<Rightarrow> json_parser \<Rightarrow> json_parser \<times> bool option" where
  "parse_next_token_with_matching name p =
     (case parse_next_token_and_set_current (Some name) p of (p, f) \<Rightarrow> (p, matched_name f))"

section \<open>Skipping and copying\<close>

partial_function (option) skip_loop :: "int \<Rightarrow> json_parser \<Rightarrow> (bool \<times> json_parser) option" where
  "skip_loop opened p =
     (let p = next_token p; t = current_token p in
      if t = START_OBJECT \<or> t = START_ARRAY then skip_loop (opened + 1) p
      else if t = END_OBJECT \<or> t = END_ARRAY then
        (if opened - 1 = 0 then Some (True, p) else skip_loop (opened - 1) p)
      else if t = ERROR then Some (False, p)
      else if t \<noteq> SUCCESS then skip_loop opened p
      else Some (False, p))"

definition try_skip_children :: "json_parser \<Rightarrow> (bool \<times> json_parser) option" where
  "try_skip_children p =
     (let t = current_token p in
      if t = ERROR \<or> t = INIT \<or> t = SUCCESS then Some (False, p)
      else if t \<noteq> START_OBJECT \<and> t \<noteq> START_ARRAY then Some (True, p)
      else skip_loop 1 p)"

definition current_range :: "json_parser \<Rightarrow> byte list" where
  "current_range p =
     take (curr_pos p - current_token_start_pos p) (drop (current_token_start_pos p) (chars p))"

definition number_text :: "json_parser \<Rightarrow> byte list" where
  "number_text p = take (number_token_len p) (drop (current_token_start_pos p) (chars p))"

text \<open>
  The text of the current token, in either style. \<open>double_normalization\<close> of the value of a float,
  which is done by the floating point formatter, is the parameter \<open>norm\<close>.
\<close>

definition write_text ::
  "escape_style \<Rightarrow> (byte list \<Rightarrow> byte list) \<Rightarrow> json_parser \<Rightarrow> dest \<Rightarrow> dest \<times> int" where
  "write_text w_style norm p destination =
     (let put = (\<lambda>bs. (emit bs destination, int (length bs))) in
      case current_token p of
        VALUE_STRING \<Rightarrow> write_string (current_range p) destination w_style
      | FIELD_NAME \<Rightarrow> write_string (current_range p) destination w_style
      | VALUE_NUMBER_INT \<Rightarrow> put (if number_text p = [45, 48] then [48] else number_text p)
      | VALUE_NUMBER_FLOAT \<Rightarrow> put (norm (number_text p))
      | VALUE_TRUE \<Rightarrow> put [116, 114, 117, 101]
      | VALUE_FALSE \<Rightarrow> put [102, 97, 108, 115, 101]
      | VALUE_NULL \<Rightarrow> put [110, 117, 108, 108]
      | START_ARRAY \<Rightarrow> put [91]
      | END_ARRAY \<Rightarrow> put [93]
      | START_OBJECT \<Rightarrow> put [123]
      | END_OBJECT \<Rightarrow> put [125]
      | _ \<Rightarrow> (destination, 0))"

definition write_unescaped_text :: "(byte list \<Rightarrow> byte list) \<Rightarrow> json_parser \<Rightarrow> dest \<Rightarrow> dest \<times> int" where
  "write_unescaped_text = write_text UNESCAPED"

definition write_escaped_text :: "(byte list \<Rightarrow> byte list) \<Rightarrow> json_parser \<Rightarrow> dest \<Rightarrow> dest \<times> int" where
  "write_escaped_text = write_text ESCAPED"

text \<open>What a copy leaves: whether it succeeded, the length it returns, the bytes written, the parser.\<close>

record copied =
  c_ok :: bool
  c_len :: int
  c_dest :: dest
  c_parser :: json_parser

partial_function (option) copy_loop ::
  "(byte list \<Rightarrow> byte list) \<Rightarrow> nat \<Rightarrow> json_parser \<Rightarrow> dest \<Rightarrow> int \<Rightarrow> copied option" where
  "copy_loop norm backup_stack_size p copy_to n =
     (let (p, f) = parse_next_token_and_set_current None p in
      if current_token p = ERROR then Some \<lparr>c_ok = False, c_len = 0, c_dest = copy_to, c_parser = p\<rparr>
      else
        let (copy_to, n) = (if has_comma f then (emit [44] copy_to, n + 1) else (copy_to, n));
            (copy_to, n) = (if has_colon f then (emit [58] copy_to, n + 1) else (copy_to, n));
            (copy_to, len) = write_escaped_text norm p copy_to;
            n = n + len
        in if int backup_stack_size - 1 = int (stack_size p)
           then Some \<lparr>c_ok = True, c_len = n, c_dest = copy_to, c_parser = p\<rparr>
           else copy_loop norm backup_stack_size p copy_to n)"

definition copy_current_structure_parser ::
  "(byte list \<Rightarrow> byte list) \<Rightarrow> json_parser \<Rightarrow> dest \<Rightarrow> copied option" where
  "copy_current_structure_parser norm p copy_to =
     (let t = current_token p in
      if t \<in> {INIT, ERROR, SUCCESS, FIELD_NAME, END_ARRAY, END_OBJECT} then
        Some \<lparr>c_ok = False, c_len = 0, c_dest = copy_to, c_parser = p\<rparr>
      else
        let (copy_to, n) = write_escaped_text norm p copy_to in
        if t \<noteq> START_ARRAY \<and> t \<noteq> START_OBJECT then
          Some \<lparr>c_ok = True, c_len = n, c_dest = copy_to, c_parser = p\<rparr>
        else copy_loop norm (stack_size p) p copy_to n)"

declare skip_loop.simps [code]
  and copy_loop.simps [code]

end
