(* ===== verification/JsonStringProps.thy ===== *)
theory JsonStringProps
  imports JsonString
begin

text \<open>
  The strings of the JSON parser against a reference: the units of a quoted string, characters and
  escape sequences, each with the bytes it stands for. The scan accepts the strings that consist of
  units and compares the name with their value; the two writers emit the value and its escaped form.
\<close>

section \<open>Reference\<close>

definition simple_escapes :: "(byte \<times> byte) list" where
  "simple_escapes =
     [(34, 34), (39, 39), (92, 92), (47, 47), (98, 8), (102, 12), (110, 10), (114, 13), (116, 9)]"

text \<open>
  The unit behind a backslash: whether it is a \<open>\\u\<close> sequence, the bytes it stands for, and what is left.
\<close>

definition escape_unit :: "byte list \<Rightarrow> ((bool \<times> byte list) \<times> byte list) option" where
  "escape_unit str =
     (case str of
        [] \<Rightarrow> None
      | c # r \<Rightarrow>
          (case map_of simple_escapes c of
             Some v \<Rightarrow> Some ((False, [v]), r)
           | None \<Rightarrow>
               if c = 117 then
                 map_option (\<lambda>(v, r'). let (v, r') = combine_surrogates v r' in
                     ((True, from_char_utf8 (codepoint_to_utf8 v)), r'))
                   (read_hex 4 0 r)
               else None))"

lemma escape_unit_length: "escape_unit str = Some (u, r) \<Longrightarrow> length r < length str"
proof (cases str)
  case (Cons c s)
  assume e: "escape_unit str = Some (u, r)"
  show ?thesis
  proof (cases "map_of simple_escapes c")
    case None
    then have "map_option (\<lambda>(v, r'). snd (combine_surrogates v r')) (read_hex 4 0 s) = Some r"
      using e Cons by (auto simp: escape_unit_def Let_def case_prod_unfold split: if_splits)
    then obtain v s' where h: "read_hex 4 0 s = Some (v, s')" "r = snd (combine_surrogates v s')" by auto
    then show ?thesis
      using read_hex_length [OF h(1)] combine_surrogates_length [of v s'] Cons by simp
  qed (use e Cons in \<open>simp add: escape_unit_def\<close>)
qed (simp add: escape_unit_def)

function string_units :: "byte \<Rightarrow> byte list \<Rightarrow> ((bool \<times> byte list) list \<times> byte list) option" where
  "string_units quote_char str =
     (case str of
        [] \<Rightarrow> None
      | c # r \<Rightarrow>
          if c = quote_char then Some ([], r)
          else
            (case (if c = 92 then escape_unit r else Some ((False, [c]), r)) of
               None \<Rightarrow> None
             | Some (u, r') \<Rightarrow> map_option (\<lambda>(us, z). (u # us, z)) (string_units quote_char r')))"
  by auto
termination
  by (relation "measure (\<lambda>(q, str). length str)") (auto dest: escape_unit_length split: if_splits)

declare string_units.simps [simp del]

definition units_value :: "(bool \<times> byte list) list \<Rightarrow> byte list" where
  "units_value us = concat (map snd us)"

definition json_escape :: "byte \<Rightarrow> byte list" where
  "json_escape c =
     (if c = 34 then [92, 34] else if c = 92 then [92, 92]
      else if c < 32 then the (fst (escape_char c (Some []))) else [c])"

definition unit_text :: "escape_style \<Rightarrow> bool \<times> byte list \<Rightarrow> byte list" where
  "unit_text w u = (if w = ESCAPED \<and> \<not> fst u then concat (map json_escape (snd u)) else snd u)"

section \<open>Escape sequences\<close>

lemma match_char_utf8: "match_char c s = match_utf8 [c] s"
  by (cases "to_match s"; cases "the (to_match s)")
    (auto simp: match_char_def match_utf8_def Let_def)

lemma try_skip_escape_part_unit:
  "try_skip_escape_part w s =
    map_option (\<lambda>(u, r). match_utf8 (snd u)
      (s\<lparr>rest := r, dest := emit (unit_text w u) (dest s), osize := osize s + int (length (unit_text w u))\<rparr>))
      (escape_unit (rest s))"
proof (cases "rest s")
  case Nil
  then show ?thesis by (simp add: try_skip_escape_part_def escape_unit_def)
next
  case (Cons c r)
  show ?thesis
  proof (cases "c = 117")
    case True
    have r: "s\<lparr>rest := a, osize := b, dest := e\<rparr> = s\<lparr>rest := a, dest := e, osize := b\<rparr>" for a b e by simp
    show ?thesis using True Cons
      by (cases "read_hex 4 0 r")
        (auto simp: r try_skip_escape_part_def escape_unit_def simple_escapes_def try_skip_unicode_def
          unit_text_def Let_def split: prod.split)
  next
    case False
    have e: "json_escape 8 = [92, 98]" "json_escape 12 = [92, 102]" "json_escape 10 = [92, 110]"
      "json_escape 13 = [92, 114]" "json_escape 9 = [92, 116]" "json_escape 34 = [92, 34]"
      "json_escape 92 = [92, 92]" "json_escape 39 = [39]" "json_escape 47 = [47]"
      by (simp_all add: json_escape_def escape_char_def)
    show ?thesis
      using Cons False
      by (simp add: try_skip_escape_part_def escape_unit_def simple_escapes_def Let_def put_char_def
          put_escape_def match_char_utf8 unit_text_def e add.commute [of 2])
  qed
qed

lemma match_bytes_append:
  "match_bytes (a @ b) n = (let (m, r) = match_bytes a n in if m then match_bytes b r else (False, r))"
  by (induction a n rule: match_bytes.induct) (auto simp: Let_def)

lemma match_bytes_all: "fst (match_bytes a n) \<and> snd (match_bytes a n) = [] \<longleftrightarrow> n = a"
  by (induction a n rule: match_bytes.induct) auto

text \<open>The comparison with the name, character by character, ends with the comparison of the value.\<close>

definition name_after :: "bool \<Rightarrow> byte list option \<Rightarrow> byte list \<Rightarrow> bool" where
  "name_after b name v \<longleftrightarrow> b \<and> (case name of None \<Rightarrow> True | Some n \<Rightarrow> n = v)"

lemma name_after_match_utf8:
  "name_after (matched (match_utf8 a s)) (to_match (match_utf8 a s)) v
    = name_after (matched s) (to_match s) (a @ v)"
proof (cases "to_match s")
  case (Some n)
  show ?thesis
  proof (cases "matched s")
    case True
    obtain m r where m: "match_bytes a n = (m, r)" by fastforce
    have "n = a @ v \<longleftrightarrow> m \<and> r = v"
    proof (cases m)
      case True
      then show ?thesis
        using match_bytes_all [of "a @ v" n] match_bytes_all [of v r] by (simp add: match_bytes_append m)
    next
      case False
      then show ?thesis using match_bytes_all [of "a @ v" n] by (simp add: match_bytes_append m)
    qed
    then show ?thesis using Some True m by (simp add: match_utf8_def name_after_def)
  qed (use Some in \<open>simp add: match_utf8_def name_after_def\<close>)
qed (simp add: match_utf8_def name_after_def)

lemma name_after_try_match:
  "(if b then try_match_char name c else (False, name)) = (b', name')
    \<Longrightarrow> name_after b' name' v = name_after b name (c # v)"
  by (cases name; cases "the name") (auto simp: name_after_def split: if_splits)

section \<open>The scan\<close>

lemma parse_string_loop_units:
  "parse_string_loop q str name b
    = map_option (\<lambda>(us, r). (name_after b name (units_value us), r)) (string_units q str)"
proof (induction "length str" arbitrary: str name b rule: less_induct)
  case less
  show ?case
  proof (cases str)
    case Nil
    then show ?thesis by (simp add: parse_string_loop.simps string_units.simps)
  next
    case (Cons c r)
    show ?thesis
    proof (cases "c = q \<or> c \<noteq> 92")
      case True
      obtain b' name' where m: "(if b then try_match_char name c else (False, name)) = (b', name')"
        by fastforce
      have IH: "parse_string_loop q r name' b' =
        map_option (\<lambda>(us, r). (name_after b' name' (units_value us), r)) (string_units q r)"
        using Cons by (intro less) simp
      have "parse_string_loop q str name b = (if c = q then Some (name_after b name [], r) else parse_string_loop q r name' b')"
        using True m Cons
        by (subst parse_string_loop.simps) (auto simp: try_skip_safe_code_point_def name_after_def split: option.split)
      moreover have "string_units q str = (if c = q then Some ([], r)
        else map_option (\<lambda>(us, z). ((False, [c]) # us, z)) (string_units q r))"
        using True Cons by (subst string_units.simps) (auto simp: case_prod_unfold)
      ultimately show ?thesis
        by (simp add: IH units_value_def name_after_try_match [OF m] option.map_comp o_def case_prod_unfold)
    next
      case False
      then have c: "c = 92" "q \<noteq> 92" by auto
      let ?s = "\<lparr>rest = r, to_match = name, dest = None, osize = 0, matched = b\<rparr>"
      show ?thesis
      proof (cases "escape_unit r")
        case None
        then show ?thesis using c Cons
          by (subst parse_string_loop.simps, subst string_units.simps) (simp add: try_skip_escape_part_unit)
      next
        case (Some z)
        obtain u r' where z: "z = (u, r')" by (cases z)
        obtain s where s: "try_skip_escape_part UNESCAPED ?s = Some s" "rest s = r'"
          "\<And>v. name_after (matched s) (to_match s) v = name_after b name (snd u @ v)"
          using Some z by (simp add: try_skip_escape_part_unit name_after_match_utf8)
        have "parse_string_loop q r' (to_match s) (matched s) =
          map_option (\<lambda>(us, r). (name_after (matched s) (to_match s) (units_value us), r)) (string_units q r')"
          using escape_unit_length [OF Some [unfolded z]] Cons by (intro less) simp
        then show ?thesis using c Cons Some z s
          by (subst parse_string_loop.simps, subst string_units.simps)
            (simp add: units_value_def option.map_comp o_def case_prod_unfold)
      qed
    qed
  qed
qed

lemma try_parse_string_units:
  "try_parse_string (q # str) name
    = map_option (\<lambda>(us, r). (name = Some (units_value us), r)) (string_units q str)"
  unfolding try_parse_string_def list.case parse_string_loop_units
  by (rule option.map_cong0) (auto simp: name_after_def split: option.split)

section \<open>The writers\<close>

lemma escape_char_some: "c < 32 \<Longrightarrow> escape_char c (Some d) = (Some (d @ json_escape c), int (length (json_escape c)))"
  by (auto simp: json_escape_def escape_char_def)

lemma escape_char_none: "c < 32 \<Longrightarrow> escape_char c None = (None, int (length (json_escape c)))"
  by (auto simp: json_escape_def escape_char_def)

lemma emit_simps [simp]: "emit bs None = None" "emit bs (Some d) = Some (d @ bs)"
  by (simp_all add: emit_def)

lemma dest_match_utf8 [simp]: "dest (match_utf8 b s) = dest s" "osize (match_utf8 b s) = osize s"
  by (simp_all add: match_utf8_def split: option.split prod.split)

text \<open>One step of the writer: the text of the unit it consumes.\<close>

lemma write_loop_unit:
  assumes "c \<noteq> q" "(if c = 92 then escape_unit r else Some ((False, [c]), r)) = Some (u, r')"
  shows "write_loop q w (c # r) d n
    = write_loop q w r' (emit (unit_text w u) d) (n + int (length (unit_text w u)))"
proof (cases "c = 92")
  case True
  then show ?thesis using assms
    by (subst write_loop.simps) (simp add: try_skip_escape_part_unit)
next
  case False
  then have u: "u = (False, [c])" "r' = r" using assms(2) by auto
  show ?thesis
  proof (cases "c < 32")
    case True
    have w: "w = UNESCAPED \<or> w = ESCAPED" by (cases w) simp_all
    show ?thesis using True w False assms(1) u
      by (subst write_loop.simps; cases d) (auto simp: unit_text_def escape_char_some escape_char_none)
  next
    case F: False
    have "json_escape c = (if c = 34 then [92, 34] else [c])" using F False by (auto simp: json_escape_def)
    then show ?thesis using F False assms(1) u
      by (subst write_loop.simps; cases d) (auto simp: unit_text_def Let_def add.commute [of 2])
  qed
qed

lemma write_loop_units:
  "string_units q str = Some (us, r) \<Longrightarrow>
    write_loop q w str d n = (let t = concat (map (unit_text w) us) @ (if w = ESCAPED then [34] else [])
      in (emit t d, n + int (length t)))"
proof (induction "length str" arbitrary: str us d n rule: less_induct)
  case less
  then obtain c r0 where str: "str = c # r0" by (cases str) (auto simp: string_units.simps)
  show ?case
  proof (cases "c = q")
    case True
    then have "us = []" using less.prems str by (simp add: string_units.simps)
    then show ?thesis using True str by (subst write_loop.simps) (cases d; simp)
  next
    case False
    then obtain u r1 us' where u: "(if c = 92 then escape_unit r0 else Some ((False, [c]), r0)) = Some (u, r1)"
      "string_units q r1 = Some (us', r)" "us = u # us'"
      using less.prems str
      by (subst (asm) string_units.simps) (auto split: option.splits prod.splits)
    have "length r1 < length str"
      using u(1) str by (auto dest: escape_unit_length split: if_splits)
    from less.hyps [OF this u(2)] show ?thesis
      using write_loop_unit [OF False u(1)] u(3) str by (cases d) (simp_all add: Let_def)
  qed
qed

text \<open>
  The writers return the number of bytes they write, for every input, whole or cut off; with a null
  destination they return the same number.
\<close>

lemma write_loop_size: "\<exists>b. \<forall>d n. write_loop q w str d n = (emit b d, n + int (length b))"
proof (induction "length str" arbitrary: str rule: less_induct)
  case less
  have e: "emit [] d = d" for d by (cases d) simp_all
  show ?case
  proof (cases str)
    case Nil
    then show ?thesis by (intro exI [of _ "[]"]) (simp add: write_loop.simps e)
  next
    case (Cons c r)
    consider (quote) "c = q" | (bad) "c \<noteq> q" "c = 92" "escape_unit r = None"
      | (good) u r' where "c \<noteq> q" "(if c = 92 then escape_unit r else Some ((False, [c]), r)) = Some (u, r')"
      by (cases "c = 92"; cases "escape_unit r") fastforce+
    then show ?thesis
    proof cases
      case quote
      then show ?thesis using Cons
        by (intro exI [of _ "if w = ESCAPED then [34] else []"]) (subst write_loop.simps, simp add: e)
    next
      case bad
      then show ?thesis using Cons
        by (intro exI [of _ "[]"]) (subst write_loop.simps, simp add: e try_skip_escape_part_unit)
    next
      case good
      have "length r' < length str"
        using good(2) Cons by (auto dest: escape_unit_length split: if_splits)
      from less [OF this] obtain b where
        b: "\<And>d n. write_loop q w r' d n = (emit b d, n + int (length b))" by blast
      show ?thesis
      proof (intro exI [of _ "unit_text w u @ b"] allI)
        fix d n
        show "write_loop q w str d n = (emit (unit_text w u @ b) d, n + int (length (unit_text w u @ b)))"
          unfolding Cons write_loop_unit [OF good] b by (cases d) simp_all
      qed
    qed
  qed
qed

text \<open>What a writer writes.\<close>

definition written :: "byte list \<Rightarrow> escape_style \<Rightarrow> byte list" where
  "written str w = the (fst (write_string str (Some []) w))"

lemma write_string_size: "write_string str d w = (emit (written str w) d, int (length (written str w)))"
proof -
  have "\<exists>b. \<forall>d. write_string str d w = (emit b d, int (length b))"
  proof (cases str)
    case Nil
    have "emit [] d = d" for d by (cases d) simp_all
    then show ?thesis using Nil by (intro exI [of _ "[]"]) (simp add: write_string_def)
  next
    case (Cons q r)
    obtain b where b: "\<And>d n. write_loop q w r d n = (emit b d, n + int (length b))"
      using write_loop_size [of q w r] by blast
    show ?thesis
    proof (intro exI [of _ "(if w = ESCAPED then [34] else []) @ b"] allI)
      fix d
      show "write_string str d w = (emit ((if w = ESCAPED then [34] else []) @ b) d,
          int (length ((if w = ESCAPED then [34] else []) @ b)))"
        unfolding write_string_def Cons list.case using b by (cases w; cases d) (simp_all add: Let_def)
    qed
  qed
  then obtain b where b: "\<And>d. write_string str d w = (emit b d, int (length b))" by blast
  have "written str w = b" by (simp add: written_def b)
  then show ?thesis by (simp add: b)
qed

lemma written_units:
  assumes "string_units q str = Some (us, r)"
  shows "written (q # str) w
    = (if w = ESCAPED then [34] @ concat (map (unit_text w) us) @ [34] else units_value us)"
proof -
  have "unit_text UNESCAPED = snd" by (simp add: fun_eq_iff unit_text_def)
  then show ?thesis
    by (cases w) (simp_all add: written_def write_string_def write_loop_units [OF assms] units_value_def Let_def)
qed

section \<open>The escaped form is JSON again\<close>

text \<open>
  An escaped character is one unit of a string in double quotes, and stands for the character.
\<close>

lemma hex_of_control:
  assumes "c < 32"
  shows "is_hex_digit (if 16 \<le> c then 49 else 48)" "is_hex_digit (to_hex_char (c mod 16))"
    "ucast (hex_value (if 16 \<le> c then 49 else 48)) * 16 + ucast (hex_value (to_hex_char (c mod 16)))
      = (ucast c :: 32 word)"
    "from_char_utf8 (codepoint_to_utf8 (ucast c)) = [c]"
proof -
  have "list_all (\<lambda>c. is_hex_digit (if 16 \<le> c then 49 else 48) \<and> is_hex_digit (to_hex_char (c mod 16))
    \<and> ucast (hex_value (if 16 \<le> c then 49 else 48)) * 16 + ucast (hex_value (to_hex_char (c mod 16)))
      = (ucast c :: 32 word)
    \<and> from_char_utf8 (codepoint_to_utf8 (ucast c)) = [c]) (map of_nat [0..<32])"
    by code_simp
  moreover have "c \<in> set (map of_nat [0..<32])"
    using assms by (auto simp: word_less_nat_alt image_iff intro!: bexI [of _ "unat c"])
  ultimately show "is_hex_digit (if 16 \<le> c then 49 else 48)" "is_hex_digit (to_hex_char (c mod 16))"
    "ucast (hex_value (if 16 \<le> c then 49 else 48)) * 16 + ucast (hex_value (to_hex_char (c mod 16)))
      = (ucast c :: 32 word)"
    "from_char_utf8 (codepoint_to_utf8 (ucast c)) = [c]"
    unfolding list_all_iff by blast+
qed

lemma escape_unit_control:
  assumes "c < 32"
  shows "\<exists>e. json_escape c = 92 # e \<and> (\<exists>b. escape_unit (e @ r) = Some ((b, [c]), r))"
proof (cases "c = 8 \<or> c = 9 \<or> c = 10 \<or> c = 12 \<or> c = 13")
  case True
  then show ?thesis by (auto simp: json_escape_def escape_char_def escape_unit_def simple_escapes_def)
next
  case False
  note h = hex_of_control [OF assms]
  have n: "c \<noteq> 34" "c \<noteq> 92" using assms by auto
  have z: "is_hex_digit 48" "hex_value 48 = 0" by (simp_all add: is_hex_digit_def hex_value_def)
  have lt: "ucast c < (0xD800 :: 32 word)"
    using assms by (simp add: word_less_nat_alt unsigned_ucast_eq take_bit_nat_eq_self)
  then have cs: "combine_surrogates (ucast c) r = (ucast c, r)"
    by (simp add: combine_surrogates_def not_le [symmetric])
  let ?e = "[117, 48, 48, if 16 \<le> c then 49 else 48, to_hex_char (c mod 16)]"
  have "json_escape c = 92 # ?e" using False n assms by (simp add: json_escape_def escape_char_def)
  moreover have "read_hex 4 0 (tl ?e @ r) = Some (ucast c, r)"
    using h z by (simp add: numeral_eq_Suc)
  then have "escape_unit (?e @ r) = Some ((True, [c]), r)"
    by (simp add: escape_unit_def simple_escapes_def cs h(4))
  ultimately show ?thesis by blast
qed

lemma string_units_escape:
  "\<exists>b. string_units 34 (json_escape c @ r) = map_option (\<lambda>(us, z). ((b, [c]) # us, z)) (string_units 34 r)"
proof (cases "c < 32")
  case True
  from escape_unit_control [OF True, of r] obtain e b where "json_escape c = 92 # e"
    "escape_unit (e @ r) = Some ((b, [c]), r)" by blast
  then show ?thesis by (intro exI [of _ b], subst string_units.simps) simp
next
  case False
  then have "json_escape c = (if c = 34 \<or> c = 92 then [92, c] else [c])" by (auto simp: json_escape_def)
  then show ?thesis
    by (intro exI [of _ False], subst string_units.simps) (simp add: escape_unit_def simple_escapes_def)
qed

lemma string_units_escaped:
  "\<exists>us. string_units 34 (concat (map json_escape v) @ 34 # r) = Some (us, r) \<and> units_value us = v"
proof (induction v)
  case Nil
  show ?case by (subst string_units.simps) (simp add: units_value_def)
next
  case (Cons c v)
  then obtain us where "string_units 34 (concat (map json_escape v) @ 34 # r) = Some (us, r)"
    "units_value us = v" by blast
  with string_units_escape [of c "concat (map json_escape v) @ 34 # r"] show ?case
    by (auto simp: units_value_def)
qed

end
