(* ===== verification/JsonText.thy ===== *)
theory JsonText
  imports JsonParser JsonStringProps
begin

text \<open>
  The parser on JSON texts. The grammar of JSON is a relation between values and texts with
  arbitrary whitespace; the parser runs through the text of a value token by token, and a copy of
  the value is its compact form.
\<close>

section \<open>JSON values and their texts\<close>

datatype json =
    Scalar json_token "byte list"
  | Arr "json list"
  | Obj "(byte list \<times> json) list"

definition string_literal :: "byte list \<Rightarrow> bool" where
  "string_literal s \<longleftrightarrow> (\<exists>q body us. s = q # body \<and> (q = 34 \<or> q = 39) \<and> string_units q body = Some (us, []))"

definition digits :: "byte list \<Rightarrow> bool" where
  "digits ds \<longleftrightarrow> ds \<noteq> [] \<and> list_all is_digit_json ds"

text \<open>A number: sign, integer part without leading zeros, fraction and exponent.\<close>

definition number_literal ::
  "bool \<Rightarrow> byte list \<Rightarrow> byte list option \<Rightarrow> (byte \<times> byte list \<times> byte list) option \<Rightarrow> byte list" where
  "number_literal neg ip fp ep =
     (if neg then [45] else []) @ ip @ (case fp of None \<Rightarrow> [] | Some ds \<Rightarrow> 46 # ds)
       @ (case ep of None \<Rightarrow> [] | Some (e, sg, ds) \<Rightarrow> e # sg @ ds)"

definition number_parts ::
  "byte list \<Rightarrow> byte list option \<Rightarrow> (byte \<times> byte list \<times> byte list) option \<Rightarrow> bool" where
  "number_parts ip fp ep \<longleftrightarrow>
     digits ip \<and> (hd ip = 48 \<longrightarrow> ip = [48]) \<and> (\<forall>ds. fp = Some ds \<longrightarrow> digits ds)
     \<and> (\<forall>e sg ds. ep = Some (e, sg, ds) \<longrightarrow> (e = 101 \<or> e = 69) \<and> sg \<in> {[], [43], [45]} \<and> digits ds)
     \<and> length ip + (case fp of None \<Rightarrow> 0 | Some ds \<Rightarrow> length ds)
         + (case ep of None \<Rightarrow> 0 | Some (e, sg, ds) \<Rightarrow> length ds) \<le> 1000"

definition scalar_text :: "json_token \<Rightarrow> byte list \<Rightarrow> bool" where
  "scalar_text t s \<longleftrightarrow>
     t = VALUE_STRING \<and> string_literal s
     \<or> t = VALUE_TRUE \<and> s = [116, 114, 117, 101]
     \<or> t = VALUE_FALSE \<and> s = [102, 97, 108, 115, 101]
     \<or> t = VALUE_NULL \<and> s = [110, 117, 108, 108]
     \<or> (\<exists>neg ip fp ep. number_parts ip fp ep \<and> s = number_literal neg ip fp ep
          \<and> t = (if fp = None \<and> ep = None then VALUE_NUMBER_INT else VALUE_NUMBER_FLOAT))"

definition blank :: "byte list \<Rightarrow> bool" where
  "blank w \<longleftrightarrow> list_all is_whitespace_json w"

inductive json_text :: "json \<Rightarrow> byte list \<Rightarrow> bool"
  and elems_text :: "json list \<Rightarrow> byte list \<Rightarrow> bool"
  and elems_tail :: "json list \<Rightarrow> byte list \<Rightarrow> bool"
  and fields_text :: "(byte list \<times> json) list \<Rightarrow> byte list \<Rightarrow> bool"
  and fields_tail :: "(byte list \<times> json) list \<Rightarrow> byte list \<Rightarrow> bool" where
  scalar: "scalar_text t s \<Longrightarrow> json_text (Scalar t s) s"
| arr: "elems_text vs s \<Longrightarrow> json_text (Arr vs) (91 # s)"
| obj: "fields_text fs s \<Longrightarrow> json_text (Obj fs) (123 # s)"
| no_elems: "blank w \<Longrightarrow> elems_text [] (w @ [93])"
| elems: "blank w \<Longrightarrow> json_text v s \<Longrightarrow> elems_tail vs t \<Longrightarrow> elems_text (v # vs) (w @ s @ t)"
| elems_end: "blank w \<Longrightarrow> elems_tail [] (w @ [93])"
| elems_more: "blank w \<Longrightarrow> blank w' \<Longrightarrow> json_text v s \<Longrightarrow> elems_tail vs t
    \<Longrightarrow> elems_tail (v # vs) (w @ 44 # w' @ s @ t)"
| no_fields: "blank w \<Longrightarrow> fields_text [] (w @ [125])"
| fields: "blank w \<Longrightarrow> string_literal k \<Longrightarrow> blank w1 \<Longrightarrow> blank w2 \<Longrightarrow> json_text v s \<Longrightarrow> fields_tail fs t
    \<Longrightarrow> fields_text ((k, v) # fs) (w @ k @ w1 @ 58 # w2 @ s @ t)"
| fields_end: "blank w \<Longrightarrow> fields_tail [] (w @ [125])"
| fields_more: "blank w \<Longrightarrow> blank w' \<Longrightarrow> string_literal k \<Longrightarrow> blank w1 \<Longrightarrow> blank w2 \<Longrightarrow> json_text v s
    \<Longrightarrow> fields_tail fs t \<Longrightarrow> fields_tail ((k, v) # fs) (w @ 44 # w' @ k @ w1 @ 58 # w2 @ s @ t)"

primrec depth :: "json \<Rightarrow> nat" where
  "depth (Scalar t s) = 0"
| "depth (Arr vs) = Suc (foldr max (map depth vs) 0)"
| "depth (Obj fs) = Suc (foldr max (map snd (map (map_prod id depth) fs)) 0)"

section \<open>Bits of the context stack\<close>

lemma get_bit_value_bit: "i < 64 \<Longrightarrow> get_bit_value n i \<longleftrightarrow> bit n i"
proof -
  assume i: "i < 64"
  have "signed_drop_bit i n AND 1 = of_bool (bit (signed_drop_bit i n) 0)"
    by (simp add: and_one_eq mod_2_eq_odd bit_0)
  moreover have "bit (signed_drop_bit i n) 0 = bit n i"
    using i by (simp add: bit_signed_drop_bit_iff)
  ultimately show ?thesis by (simp add: get_bit_value_def)
qed

lemma bit_set_bit_value:
  "i < 64 \<Longrightarrow> j < 64 \<Longrightarrow> bit (set_bit_value n i b) j = (if j = i then b else bit n j)"
  by (auto simp: set_bit_value_def Let_def bit_or_iff bit_and_iff bit_not_iff bit_exp_iff)

definition contexts :: "json_parser \<Rightarrow> bool list" where
  "contexts p = map (bit (context_stack p)) [0..<stack_size p]"

lemma length_contexts [simp]: "length (contexts p) = stack_size p"
  by (simp add: contexts_def)

lemma is_object_context_last:
  "0 < stack_size p \<Longrightarrow> stack_size p \<le> 64 \<Longrightarrow> is_object_context p = last (contexts p)"
  by (simp add: is_object_context_def get_bit_value_bit contexts_def last_map)

section \<open>Positions\<close>

text \<open>The parser stands in front of the rest \<open>r\<close> of the row.\<close>

definition standing :: "json_parser \<Rightarrow> byte list \<Rightarrow> bool" where
  "standing p r \<longleftrightarrow> drop (curr_pos p) (chars p) = r \<and> curr_pos p \<le> length (chars p)"

definition same_row :: "json_parser \<Rightarrow> json_parser \<Rightarrow> bool" where
  "same_row p q \<longleftrightarrow> chars q = chars p \<and> beyond q = beyond p \<and> max_depth_exceeded q = max_depth_exceeded p"

lemma same_row_refl [simp]: "same_row p p" by (simp add: same_row_def)

lemma same_row_trans [trans]: "same_row p q \<Longrightarrow> same_row q r \<Longrightarrow> same_row p r"
  by (simp add: same_row_def)

lemma standing_eof: "standing p r \<Longrightarrow> eof p \<longleftrightarrow> r = []"
  by (auto simp: standing_def eof_def)

lemma standing_char: "standing p (c # r) \<Longrightarrow> current_char p = c"
  unfolding standing_def current_char_def
  by (metis drop_eq_Nil2 hd_drop_conv_nth linorder_not_less list.distinct(1) list.sel(1))

lemma standing_advance: "standing p (s @ r) \<Longrightarrow> standing (advance (length s) p) r"
  unfolding standing_def advance_def
  by (auto simp: add.commute [of "curr_pos p"] drop_drop [symmetric]) (metis add_le_cancel_left append_take_drop_id
      diff_add_inverse2 le_add1 le_add_diff_inverse length_append length_drop)

lemma standing_advance1: "standing p (c # r) \<Longrightarrow> standing (advance 1 p) r"
  using standing_advance [of p "[c]" r] by simp

lemma advance_simps [simp]:
  "chars (advance n p) = chars p" "beyond (advance n p) = beyond p" "context_stack (advance n p) = context_stack p"
  "stack_size (advance n p) = stack_size p" "current_token_start_pos (advance n p) = current_token_start_pos p"
  "number_token_len (advance n p) = number_token_len p" "current_token (advance n p) = current_token p"
  "max_depth_exceeded (advance n p) = max_depth_exceeded p" "curr_pos (advance n p) = curr_pos p + n"
  by (simp_all add: advance_def)

lemma contexts_advance [simp]: "contexts (advance n p) = contexts p"
  by (simp add: contexts_def)

lemma blank_takeWhile:
  "blank w \<Longrightarrow> r = [] \<or> \<not> is_whitespace_json (hd r) \<Longrightarrow> takeWhile is_whitespace_json (w @ r) = w"
  by (cases r) (auto simp: blank_def list_all_iff takeWhile_append)

lemma standing_skip_whitespaces:
  assumes "standing p (w @ r)" "blank w" "r = [] \<or> \<not> is_whitespace_json (hd r)"
  shows "skip_whitespaces p = advance (length w) p" "standing (skip_whitespaces p) r"
proof -
  show s: "skip_whitespaces p = advance (length w) p"
    using assms blank_takeWhile by (simp add: skip_whitespaces_def standing_def)
  show "standing (skip_whitespaces p) r" using standing_advance assms(1) s by simp
qed

section \<open>Strings\<close>

lemma read_hex_append: "read_hex n v s = Some (w, z) \<Longrightarrow> read_hex n v (s @ r) = Some (w, z @ r)"
  by (induction n arbitrary: v s) (auto split: list.splits if_splits)

lemma read_hex_few: "length s < n \<Longrightarrow> read_hex n v s = None"
  by (induction n arbitrary: v s) (auto split: list.splits)

lemma combine_surrogates_append:
  assumes "q = 34 \<or> q = 39" "string_units q (snd (combine_surrogates v s)) = Some z"
  shows "combine_surrogates v (s @ r) = (fst (combine_surrogates v s), snd (combine_surrogates v s) @ r)"
proof (cases "6 \<le> length s")
  case True
  then show ?thesis by (simp add: combine_surrogates_def low_surrogate_def nth_append)
next
  case False
  then have c: "combine_surrogates v s = (v, s)" by (simp add: combine_surrogates_def)
  have "\<not> (length (s @ r) \<ge> 6 \<and> (s @ r) ! 0 = 92 \<and> (s @ r) ! 1 = 117 \<and> is_hex_digit ((s @ r) ! 2)
    \<and> is_hex_digit ((s @ r) ! 3) \<and> is_hex_digit ((s @ r) ! 4) \<and> is_hex_digit ((s @ r) ! 5))"
  proof
    assume a: "length (s @ r) \<ge> 6 \<and> (s @ r) ! 0 = 92 \<and> (s @ r) ! 1 = 117 \<and> is_hex_digit ((s @ r) ! 2)
      \<and> is_hex_digit ((s @ r) ! 3) \<and> is_hex_digit ((s @ r) ! 4) \<and> is_hex_digit ((s @ r) ! 5)"
    obtain c0 s0 where s0: "s = c0 # s0"
      using assms(2) c by (cases s) (auto simp: string_units.simps [of q "[]"])
    then have "c0 = 92" using a by simp
    then obtain u s1 where e: "escape_unit s0 = Some (u, s1)"
      using assms(1,2) c s0 by (subst (asm) string_units.simps) (auto split: option.splits)
    then obtain c1 s2 where s2: "s0 = c1 # s2" by (cases s0) (auto simp: escape_unit_def)
    then have "c1 = 117" using a s0 by simp
    moreover have "length s2 < 4" using False s0 s2 by simp
    ultimately show False using e s2 by (simp add: escape_unit_def simple_escapes_def read_hex_few)
  qed
  then have "combine_surrogates v (s @ r) = (v, s @ r)"
    unfolding combine_surrogates_def by (intro if_not_P) blast
  with c show ?thesis by simp
qed

lemma string_units_append:
  "q = 34 \<or> q = 39 \<Longrightarrow> string_units q s = Some (us, z) \<Longrightarrow> string_units q (s @ r) = Some (us, z @ r)"
proof (induction "length s" arbitrary: s us rule: less_induct)
  case less
  then obtain c s0 where s: "s = c # s0" by (cases s) (auto simp: string_units.simps)
  show ?case
  proof (cases "c = q")
    case True
    then show ?thesis using less.prems s by (simp add: string_units.simps)
  next
    case False
    then obtain u s1 us' where u: "(if c = 92 then escape_unit s0 else Some ((False, [c]), s0)) = Some (u, s1)"
      "string_units q s1 = Some (us', z)" "us = u # us'"
      using less.prems s by (subst (asm) string_units.simps) (auto split: option.splits prod.splits)
    have l: "length s1 < length s" using u(1) s by (auto dest: escape_unit_length split: if_splits)
    have "(if c = 92 then escape_unit (s0 @ r) else Some ((False, [c]), s0 @ r)) = Some (u, s1 @ r)"
    proof (cases "c = 92")
      case True
      then obtain c1 s2 where s2: "s0 = c1 # s2" using u(1) by (cases s0) (auto simp: escape_unit_def)
      show ?thesis
      proof (cases "map_of simple_escapes c1")
        case None
        then obtain v s3 where h: "read_hex 4 0 s2 = Some (v, s3)" "c1 = 117"
          using u(1) s2 True by (auto simp: escape_unit_def split: if_splits)
        then have cs: "u = (True, from_char_utf8 (codepoint_to_utf8 (fst (combine_surrogates v s3))))"
          "s1 = snd (combine_surrogates v s3)"
          using u(1) s2 True None by (auto simp: escape_unit_def Let_def case_prod_unfold)
        have "string_units q (snd (combine_surrogates v s3)) = Some (us', z)" using u(2) cs by simp
        note combine_surrogates_append [OF less.prems(1) this, of r]
        then show ?thesis
          using True s2 None h read_hex_append [OF h(1), of r] cs
          by (simp add: escape_unit_def Let_def)
      qed (use True u(1) s2 in \<open>simp add: escape_unit_def\<close>)
    qed (use u(1) in simp)
    moreover have "string_units q (s1 @ r) = Some (us', z @ r)"
      using less.hyps [OF l less.prems(1) u(2)] .
    ultimately show ?thesis
      using False u(3) s by (subst string_units.simps) simp
  qed
qed

text \<open>The value of a string literal, and its text in either style.\<close>

definition literal_units :: "byte list \<Rightarrow> (bool \<times> byte list) list" where
  "literal_units s =
     (case s of [] \<Rightarrow> [] | q # body \<Rightarrow> (case string_units q body of None \<Rightarrow> [] | Some (us, r) \<Rightarrow> us))"

definition literal_value :: "byte list \<Rightarrow> byte list" where
  "literal_value s = units_value (literal_units s)"

definition literal_text :: "escape_style \<Rightarrow> byte list \<Rightarrow> byte list" where
  "literal_text w s =
     (if w = ESCAPED then [34] @ concat (map (unit_text ESCAPED) (literal_units s)) @ [34] else literal_value s)"

lemma written_literal: "string_literal s \<Longrightarrow> written s w = literal_text w s"
  unfolding string_literal_def
  by (cases w) (auto simp: literal_text_def literal_value_def literal_units_def written_units)

lemma try_parse_literal:
  assumes "string_literal s"
  shows "try_parse_string (s @ r) name = Some (name = Some (literal_value s), r)"
proof -
  obtain q body us where s: "s = q # body" "q = 34 \<or> q = 39" "string_units q body = Some (us, [])"
    using assms unfolding string_literal_def by blast
  have "string_units q (body @ r) = Some (us, r)"
    using string_units_append [OF s(2,3), of r] by simp
  moreover have "literal_value s = units_value us"
    using s(1,3) by (simp add: literal_value_def literal_units_def)
  ultimately show ?thesis by (simp add: s(1) try_parse_string_units)
qed

lemma literal_first: "string_literal s \<Longrightarrow> \<exists>q s'. s = q # s' \<and> (q = 34 \<or> q = 39)"
  unfolding string_literal_def by blast

lemma standing_length: "standing p (s @ r) \<Longrightarrow> length (chars p) - length r = curr_pos p + length s"
proof -
  assume s: "standing p (s @ r)"
  then have "length (chars p) - curr_pos p = length s + length r"
    unfolding standing_def by (metis length_append length_drop)
  moreover have "curr_pos p \<le> length (chars p)" using s by (simp add: standing_def)
  ultimately show ?thesis by arith
qed

lemma parse_string_literal:
  assumes "standing p (s @ r)" "string_literal s"
  shows "parse_string_and_set_current p = set_current VALUE_STRING (advance (length s) p)"
  using try_parse_literal [OF assms(2)] assms(1) standing_length [OF assms(1)]
  by (simp add: parse_string_and_set_current_def standing_def advance_def set_current_def)

section \<open>Numbers\<close>

lemma standing_try_skip: "standing p (c # r) \<Longrightarrow> try_skip p c = (True, advance 1 p)"
  by (simp add: try_skip_def standing_eof standing_char)

lemma standing_no_skip: "standing p r \<Longrightarrow> r = [] \<or> hd r \<noteq> c \<Longrightarrow> try_skip p c = (False, p)"
  by (cases r) (auto simp: try_skip_def standing_eof standing_char)

lemma advance_advance [simp]: "advance m (advance n p) = advance (n + m) p"
  by (simp add: advance_def add.assoc)

lemma standing_digits:
  assumes "standing p (ds @ r)" "list_all is_digit_json ds" "r = [] \<or> \<not> is_digit_json (hd r)"
  shows "skip_zero_or_more_digits p = (advance (length ds) p, int (length ds))"
proof -
  have "takeWhile is_digit_json (ds @ r) = ds"
    using assms(2,3) by (cases r) (auto simp: list_all_iff takeWhile_append)
  then show ?thesis using assms(1) by (simp add: skip_zero_or_more_digits_def standing_def Let_def)
qed

lemma standing_one_or_more:
  assumes "standing p (ds @ r)" "digits ds" "r = [] \<or> \<not> is_digit_json (hd r)"
  shows "try_skip_one_or_more_digits p n = (True, advance (length ds) p, n + int (length ds))"
proof -
  obtain d ds' where ds: "ds = d # ds'" "is_digit_json d" "list_all is_digit_json ds'"
    using assms(2) by (cases ds) (auto simp: digits_def)
  have p: "standing p (d # ds' @ r)" using assms(1) ds by simp
  show ?thesis
    using standing_digits [OF standing_advance1 [OF p] ds(3) assms(3)] ds
    by (simp add: try_skip_one_or_more_digits_def standing_eof [OF p] standing_char [OF p])
qed

text \<open>What may follow a number.\<close>

definition delimits :: "byte list \<Rightarrow> bool" where
  "delimits r \<longleftrightarrow> r = [] \<or> \<not> is_digit_json (hd r) \<and> hd r \<noteq> 46 \<and> hd r \<noteq> 101 \<and> hd r \<noteq> 69"

definition fraction_text :: "byte list option \<Rightarrow> byte list" where
  "fraction_text fp = (case fp of None \<Rightarrow> [] | Some ds \<Rightarrow> 46 # ds)"

definition exponent_text :: "(byte \<times> byte list \<times> byte list) option \<Rightarrow> byte list" where
  "exponent_text ep = (case ep of None \<Rightarrow> [] | Some (e, sg, ds) \<Rightarrow> e # sg @ ds)"

lemma digit_not_sign: "is_digit_json c \<Longrightarrow> c \<noteq> 43 \<and> c \<noteq> 45 \<and> c \<noteq> 46 \<and> c \<noteq> 101 \<and> c \<noteq> 69"
  by (auto simp: is_digit_json_def)

lemma standing_exponent:
  assumes "standing p (e # sg @ ds @ r)" "sg \<in> {[], [43], [45]}" "digits ds" "delimits r"
  shows "try_parse_exp (advance 1 p) n = (True, advance (1 + length sg + length ds) p, n + int (length ds))"
proof -
  have p1: "standing (advance 1 p) (sg @ ds @ r)" using assms(1) by (rule standing_advance1)
  have d: "r = [] \<or> \<not> is_digit_json (hd r)" using assms(4) by (auto simp: delimits_def)
  show ?thesis
  proof (cases sg)
    case Nil
    obtain c ds' where c: "ds = c # ds'" "is_digit_json c" using assms(3) by (cases ds) (auto simp: digits_def)
    have "current_char (advance 1 p) = c" using p1 Nil c by (intro standing_char) simp
    then show ?thesis
      using digit_not_sign [OF c(2)] Nil standing_one_or_more [OF _ assms(3) d, of "advance 1 p"] p1
      by (simp add: try_parse_exp_def)
  next
    case (Cons c sg')
    then have c: "sg = [c]" "c = 43 \<or> c = 45" using assms(2) by auto
    have p1': "standing (advance 1 p) (c # ds @ r)" using p1 c by simp
    show ?thesis
      using c standing_one_or_more [OF standing_advance1 [OF p1'] assms(3) d] standing_char [OF p1']
        standing_eof [OF p1']
      by (auto simp: try_parse_exp_def)
  qed
qed

lemma standing_fraction:
  assumes "standing p (fraction_text fp @ exponent_text ep @ r)" "delimits r"
    "\<forall>ds. fp = Some ds \<longrightarrow> digits ds"
    "\<forall>e sg ds. ep = Some (e, sg, ds) \<longrightarrow> (e = 101 \<or> e = 69) \<and> sg \<in> {[], [43], [45]} \<and> digits ds"
  shows "parse_number_from_fraction p n =
    (True, fp \<noteq> None \<or> ep \<noteq> None, advance (length (fraction_text fp @ exponent_text ep)) p,
     n + int ((case fp of None \<Rightarrow> 0 | Some ds \<Rightarrow> length ds) + (case ep of None \<Rightarrow> 0 | Some (e, sg, ds) \<Rightarrow> length ds)))"
proof -
  let ?x = "exponent_text ep @ r"
  have x: "?x = [] \<or> \<not> is_digit_json (hd ?x)" "?x = [] \<or> hd ?x \<noteq> 46"
    using assms(2,4) by (cases ep; auto simp: exponent_text_def delimits_def is_digit_json_def)+
  let ?q = "advance (length (fraction_text fp)) p"
  let ?k = "case fp of None \<Rightarrow> 0 | Some ds \<Rightarrow> length ds"
  have q: "standing ?q ?x" using standing_advance [OF assms(1)] .
  have f: "parse_number_from_fraction p n =
    (if \<not> eof ?q \<and> (current_char ?q = 101 \<or> current_char ?q = 69)
     then (let (ok, p, n) = try_parse_exp (advance 1 ?q) (n + int ?k) in (ok, True, p, n))
     else (True, fp \<noteq> None, ?q, n + int ?k))"
  proof (cases fp)
    case None
    then have "standing p ?x" using assms(1) by (simp add: fraction_text_def)
    from standing_no_skip [OF this x(2)] show ?thesis
      using None by (simp add: fraction_text_def parse_number_from_fraction_def advance_def)
  next
    case (Some ds)
    then have p: "standing p (46 # ds @ ?x)" using assms(1) by (simp add: fraction_text_def)
    show ?thesis
      using Some assms(3) standing_try_skip [OF p] standing_one_or_more [OF standing_advance1 [OF p] _ x(1)]
      by (simp add: fraction_text_def parse_number_from_fraction_def)
  qed
  have e: "(if \<not> eof ?q \<and> (current_char ?q = 101 \<or> current_char ?q = 69)
      then (let (ok, p, n) = try_parse_exp (advance 1 ?q) m in (ok, True, p, n)) else (True, b, ?q, m))
    = (True, b \<or> ep \<noteq> None, advance (length (exponent_text ep)) ?q,
       m + int (case ep of None \<Rightarrow> 0 | Some (e, sg, ds) \<Rightarrow> length ds))" for b m
  proof (cases ep)
    case None
    then have q': "standing ?q r" using q by (simp add: exponent_text_def)
    then have "eof ?q \<or> current_char ?q \<noteq> 101 \<and> current_char ?q \<noteq> 69"
      using assms(2) standing_char [of ?q] by (cases r) (auto simp: standing_eof delimits_def)
    then show ?thesis using None by (auto simp: exponent_text_def advance_def)
  next
    case (Some z)
    obtain e sg ds where z: "z = (e, sg, ds)" by (cases z)
    then have q': "standing ?q (e # sg @ ds @ r)" using q Some by (simp add: exponent_text_def)
    show ?thesis
      using Some z assms(4) standing_exponent [OF q' _ _ assms(2)] standing_eof [OF q'] standing_char [OF q']
      by (simp add: exponent_text_def)
  qed
  show ?thesis unfolding f e by simp
qed

lemma number_literal_text:
  "number_literal neg ip fp ep = (if neg then [45] else []) @ ip @ fraction_text fp @ exponent_text ep"
  by (simp add: number_literal_def fraction_text_def exponent_text_def)

lemma standing_unsigned:
  assumes "standing p (ip @ fraction_text fp @ exponent_text ep @ r)" "number_parts ip fp ep" "delimits r"
  shows "\<exists>n. try_unsigned_number p =
    (True, fp \<noteq> None \<or> ep \<noteq> None, advance (length (ip @ fraction_text fp @ exponent_text ep)) p, n) \<and> n \<le> 1000"
proof -
  let ?x = "fraction_text fp @ exponent_text ep @ r"
  let ?k = "(case fp of None \<Rightarrow> 0 | Some ds \<Rightarrow> length ds) + (case ep of None \<Rightarrow> 0 | Some (e, sg, ds) \<Rightarrow> length ds)"
  note parts = assms(2) [unfolded number_parts_def]
  have x: "?x = [] \<or> \<not> is_digit_json (hd ?x)"
    using parts assms(3)
    by (cases fp; cases ep; auto simp: fraction_text_def exponent_text_def delimits_def is_digit_json_def)
  obtain c ds where ip: "ip = c # ds" "is_digit_json c" "list_all is_digit_json ds"
    using parts by (cases ip) (auto simp: digits_def)
  have p: "standing p (c # ds @ ?x)" using assms(1) ip by simp
  have q: "standing (advance (length ip) p) ?x" using standing_advance [OF assms(1)] .
  have ex: "\<forall>ds. fp = Some ds \<longrightarrow> digits ds"
    "\<forall>e sg ds. ep = Some (e, sg, ds) \<longrightarrow> (e = 101 \<or> e = 69) \<and> sg \<in> {[], [43], [45]} \<and> digits ds"
    using parts by blast+
  have f: "parse_number_from_fraction (advance (length ip) p) m =
    (True, fp \<noteq> None \<or> ep \<noteq> None, advance (length (ip @ fraction_text fp @ exponent_text ep)) p, m + int ?k)" for m
    using standing_fraction [OF q assms(3) ex] by simp
  have u: "try_unsigned_number p = parse_number_from_fraction (advance (length ip) p) (int (length ip))"
  proof (cases "c = 48")
    case True
    then have l: "ds = []" using parts ip by auto
    have "eof (advance 1 p) \<or> \<not> is_digit_json (current_char (advance 1 p))"
      using standing_advance1 [OF p] x l standing_char [of "advance 1 p"]
      by (cases ?x) (auto simp: standing_eof)
    then show ?thesis using True l ip standing_eof [OF p] standing_char [OF p]
      by (auto simp: try_unsigned_number_def Let_def is_digit_json_def)
  next
    case False
    have "c \<ge> 49 \<and> c \<le> 57"
      using ip(2) False by (simp add: is_digit_json_def word_le_nat_alt word_unat_eq_iff)
    then show ?thesis
      using standing_eof [OF p] standing_char [OF p] standing_digits [OF standing_advance1 [OF p] ip(3) x] ip(1)
      by (simp add: try_unsigned_number_def)
  qed
  show ?thesis using parts unfolding u f by (intro exI [of _ "int (length ip) + int ?k"]) simp
qed

lemma parse_number_literal:
  assumes "standing p (s @ r)" "s = number_literal neg ip fp ep" "number_parts ip fp ep" "delimits r"
  shows "parse_number_and_set_current p =
    (advance (length s) p)\<lparr>current_token := if fp = None \<and> ep = None then VALUE_NUMBER_INT else VALUE_NUMBER_FLOAT,
      number_token_len := curr_pos p + length s - current_token_start_pos p\<rparr>"
proof -
  let ?x = "ip @ fraction_text fp @ exponent_text ep"
  let ?sg = "if neg then [45] else [] :: byte list"
  have s: "s = ?sg @ ?x" using assms(2) by (simp add: number_literal_text)
  obtain c ds where ip: "ip = c # ds" "is_digit_json c"
    using assms(3) by (cases ip) (auto simp: number_parts_def digits_def)
  have q: "snd (try_skip p 45) = advance (length ?sg) p"
  proof (cases neg)
    case True
    then show ?thesis using standing_try_skip [of p 45 "?x @ r"] assms(1) s by simp
  next
    case False
    then show ?thesis
      using standing_no_skip [OF assms(1), of 45] s ip digit_not_sign [OF ip(2)] by (simp add: advance_def)
  qed
  have "standing (advance (length ?sg) p) (?x @ r)"
    using standing_advance [of p ?sg "?x @ r"] assms(1) unfolding s by (simp only: append_assoc)
  from standing_unsigned [OF _ assms(3,4), of "advance (length ?sg) p"] this
  obtain n where n: "try_unsigned_number (advance (length ?sg) p) =
    (True, fp \<noteq> None \<or> ep \<noteq> None, advance (length ?x) (advance (length ?sg) p), n)" "n \<le> 1000" by auto
  have "check_max_num_len n" using n(2) by (simp add: check_max_num_len_def max_num_len_def)
  then show ?thesis
    unfolding parse_number_and_set_current_def case_prod_unfold q Let_def n(1) by (auto simp: s)
qed

section \<open>Scalars\<close>

definition scalar_out :: "escape_style \<Rightarrow> (byte list \<Rightarrow> byte list) \<Rightarrow> json_token \<Rightarrow> byte list \<Rightarrow> byte list" where
  "scalar_out w norm t s =
     (if t = VALUE_STRING then literal_text w s
      else if t = VALUE_NUMBER_INT then (if s = [45, 48] then [48] else s)
      else if t = VALUE_NUMBER_FLOAT then norm s
      else s)"

lemma standing_skip_all:
  "standing p (cs @ r) \<Longrightarrow> try_skip_all cs p = (True, advance (length cs) p)"
proof (induction cs arbitrary: p)
  case (Cons c cs)
  then have p: "standing p (c # cs @ r)" by simp
  show ?case using Cons.IH [OF standing_advance1 [OF p]] standing_try_skip [OF p] by simp
qed (simp add: advance_def)

lemma parse_literal:
  assumes "standing p (c # cs @ r)"
  shows "parse_literal_and_set_current cs t (advance 1 p) = set_current t (advance (Suc (length cs)) p)"
  using standing_skip_all [OF standing_advance1 [OF assms]] by (simp add: parse_literal_and_set_current_def)

lemma scalar_text_first:
  assumes "scalar_text t s"
  shows "\<exists>c s'. s = c # s' \<and> \<not> is_whitespace_json c \<and> c \<notin> {93, 125, 44, 58, 123, 91}"
proof -
  have d: "is_digit_json c \<Longrightarrow> \<not> is_whitespace_json c \<and> c \<notin> {93, 125, 44, 58, 123, 91}" for c
    by (auto simp: is_digit_json_def is_whitespace_json_def)
  show ?thesis
    using assms unfolding scalar_text_def
  proof (elim disjE conjE exE)
    fix neg ip fp ep
    assume "number_parts ip fp ep" "s = number_literal neg ip fp ep"
    then show ?thesis using d
      by (cases neg; cases ip) (auto simp: number_parts_def digits_def number_literal_def is_whitespace_json_def)
  qed (auto dest!: literal_first simp: is_whitespace_json_def)
qed

text \<open>The token of a value whose text is in front of the parser.\<close>

lemma scalar_token:
  assumes "standing p (s @ r)" "scalar_text t s" "delimits r"
    "p1 = parse_first_token_in_value_and_set_current p"
  shows "standing p1 r" "current_token p1 = t" "contexts p1 = contexts p" "same_row p p1"
    "write_text w norm p1 d = (emit (scalar_out w norm t s) d, int (length (scalar_out w norm t s)))"
proof -
  let ?p = "p\<lparr>current_token_start_pos := curr_pos p\<rparr>"
  have p: "standing ?p (s @ r)" using assms(1) by (simp add: standing_def)
  have st: "standing (advance (length s) ?p) r" by (rule standing_advance [OF p])
  have tk: "take (length s) (drop (curr_pos p) (chars p)) = s" using assms(1) by (simp add: standing_def)
  have "\<exists>n. p1 = (advance (length s) ?p)\<lparr>current_token := t, number_token_len := n\<rparr>
    \<and> (t = VALUE_NUMBER_INT \<or> t = VALUE_NUMBER_FLOAT \<longrightarrow> n = length s)
    \<and> t \<in> {VALUE_STRING, VALUE_TRUE, VALUE_FALSE, VALUE_NULL, VALUE_NUMBER_INT, VALUE_NUMBER_FLOAT}
    \<and> (t = VALUE_TRUE \<longrightarrow> s = [116, 114, 117, 101]) \<and> (t = VALUE_FALSE \<longrightarrow> s = [102, 97, 108, 115, 101])
    \<and> (t = VALUE_NULL \<longrightarrow> s = [110, 117, 108, 108])"
    using assms(2) unfolding scalar_text_def
  proof (elim disjE conjE exE)
    assume a: "t = VALUE_STRING" "string_literal s"
    obtain q s' where s: "s = q # s'" "q = 34 \<or> q = 39" using literal_first [OF a(2)] by blast
    have "p1 = parse_string_and_set_current ?p"
      unfolding assms(4) parse_first_token_in_value_and_set_current_def Let_def
      using s standing_char [of ?p q "s' @ r"] p by auto
    then show ?thesis
      using parse_string_literal [OF p a(2)] a(1)
      by (intro exI [of _ "number_token_len p"]) (simp add: set_current_def advance_def)
  next
    fix neg ip fp ep
    assume a: "number_parts ip fp ep" "s = number_literal neg ip fp ep"
      "t = (if fp = None \<and> ep = None then VALUE_NUMBER_INT else VALUE_NUMBER_FLOAT)"
    obtain c s' where c: "s = c # s'" "c = 45 \<or> is_digit_json c"
      using a by (cases neg; cases ip) (auto simp: number_parts_def digits_def number_literal_def)
    have "p1 = parse_number_and_set_current ?p"
      unfolding assms(4) parse_first_token_in_value_and_set_current_def Let_def
      using c standing_char [of ?p c "s' @ r"] p by (auto simp: is_digit_json_def)
    then show ?thesis
      using parse_number_literal [OF p a(2,1) assms(3)] a(3)
      by (intro exI [of _ "length s"]) (simp add: advance_def)
  qed (use standing_char [of ?p "hd s" "tl s @ r"] p parse_literal [of ?p "hd s" "tl s" r] in
      \<open>auto simp: assms(4) parse_first_token_in_value_and_set_current_def Let_def set_current_def advance_def
        intro!: exI [of _ "number_token_len p"]\<close>)
  then obtain n where n: "p1 = (advance (length s) ?p)\<lparr>current_token := t, number_token_len := n\<rparr>"
    "t = VALUE_NUMBER_INT \<or> t = VALUE_NUMBER_FLOAT \<longrightarrow> n = length s"
    "t \<in> {VALUE_STRING, VALUE_TRUE, VALUE_FALSE, VALUE_NULL, VALUE_NUMBER_INT, VALUE_NUMBER_FLOAT}"
    "t = VALUE_TRUE \<longrightarrow> s = [116, 114, 117, 101]" "t = VALUE_FALSE \<longrightarrow> s = [102, 97, 108, 115, 101]"
    "t = VALUE_NULL \<longrightarrow> s = [110, 117, 108, 108]" by blast
  show "standing p1 r" using st by (simp add: n(1) standing_def)
  show "current_token p1 = t" by (simp add: n(1))
  show "contexts p1 = contexts p" by (simp add: n(1) contexts_def)
  show "same_row p p1" by (simp add: n(1) same_row_def)
  have "t = VALUE_STRING \<Longrightarrow> string_literal s" using assms(2) by (auto simp: scalar_text_def split: if_splits)
  then show "write_text w norm p1 d = (emit (scalar_out w norm t s) d, int (length (scalar_out w norm t s)))"
    using n(2-6) tk written_literal [of s w]
    by (auto simp: n(1) write_text_def Let_def current_range_def number_text_def scalar_out_def write_string_size)
qed

end
