(* ===== verification/JsonTokens.thy ===== *)
theory JsonTokens
  imports JsonText
begin

text \<open>
  The tokens of a JSON text: what one step of the parser does at each place of the grammar, and the
  run of the parser through the text of a value, which writes its compact form.
\<close>

section \<open>Single steps\<close>

definition in_array :: "json_parser \<Rightarrow> bool" where
  "in_array p \<longleftrightarrow> 0 < stack_size p \<and> stack_size p \<le> 64 \<and> \<not> last (contexts p)"

definition in_object :: "json_parser \<Rightarrow> bool" where
  "in_object p \<longleftrightarrow> 0 < stack_size p \<and> stack_size p \<le> 64 \<and> last (contexts p)"

definition at_field :: "byte list \<Rightarrow> json_parser \<Rightarrow> json_parser" where
  "at_field k p = (advance (length k) p)\<lparr>current_token_start_pos := curr_pos p, current_token := FIELD_NAME\<rparr>"

definition with_match :: "byte list option \<Rightarrow> byte list \<Rightarrow> flags \<Rightarrow> flags" where
  "with_match name k f = f\<lparr>matched_name := Some (name = Some (literal_value k))\<rparr>"

lemma next_skip:
  assumes "standing p (w @ c # r)" "blank w" "\<not> is_whitespace_json c"
  shows "skip_whitespaces p = advance (length w) p" "\<not> eof (advance (length w) p)"
    "current_char (advance (length w) p) = c" "standing (advance (length w) p) (c # r)"
proof -
  show s: "skip_whitespaces p = advance (length w) p"
    using standing_skip_whitespaces(1) [OF assms(1,2)] assms(3) by simp
  show st: "standing (advance (length w) p) (c # r)" using standing_advance [OF assms(1)] .
  show "\<not> eof (advance (length w) p)" "current_char (advance (length w) p) = c"
    using standing_eof [OF st] standing_char [OF st] by simp_all
qed

lemma structural_chars:
  "\<not> is_whitespace_json 93" "\<not> is_whitespace_json 125" "\<not> is_whitespace_json 44" "\<not> is_whitespace_json 58"
  "\<not> is_whitespace_json 91" "\<not> is_whitespace_json 123" "\<not> is_whitespace_json 34" "\<not> is_whitespace_json 39"
  by (simp_all add: is_whitespace_json_def)

lemma in_array_object: "in_array p \<Longrightarrow> stack_size p \<noteq> 0 \<and> \<not> is_object_context p"
  "in_object p \<Longrightarrow> stack_size p \<noteq> 0 \<and> is_object_context p"
  by (simp_all add: in_array_def in_object_def is_object_context_last)

lemma object_context_advance [simp]: "is_object_context (advance n p) = is_object_context p"
  by (simp add: is_object_context_def)

lemma step_root:
  assumes "stack_size p = 0" "current_token p = INIT" "standing p (w @ c # r)" "blank w" "\<not> is_whitespace_json c"
  shows "parse_next_token_and_set_current name p
    = (parse_first_token_in_value_and_set_current (advance (length w) p), no_flags)"
  using next_skip [OF assms(3-5)] assms(1,2) by (simp add: parse_next_token_and_set_current_def)

lemma step_array_first:
  assumes "in_array p" "current_token p = START_ARRAY" "standing p (w @ c # r)" "blank w"
    "\<not> is_whitespace_json c" "c \<noteq> 93"
  shows "parse_next_token_and_set_current name p
    = (parse_first_token_in_value_and_set_current (advance (length w) p), no_flags)"
  using next_skip [OF assms(3-5)] in_array_object(1) [OF assms(1)] assms(2,6)
  by (simp add: parse_next_token_and_set_current_def)

lemma step_array_comma:
  assumes "in_array p" "current_token p \<noteq> START_ARRAY" "standing p (w @ 44 # w' @ c # r)" "blank w" "blank w'"
    "\<not> is_whitespace_json c"
  shows "parse_next_token_and_set_current name p
    = (parse_first_token_in_value_and_set_current (advance (length w + 1 + length w') p), no_flags\<lparr>has_comma := True\<rparr>)"
proof -
  note n = next_skip [OF assms(3,4) structural_chars(3)]
  have "standing (advance (length w + 1) p) (w' @ c # r)"
    using standing_advance1 [OF n(4)] by simp
  then have "skip_whitespaces (advance (length w + 1) p) = advance (length w + 1 + length w') p"
    using next_skip(1) assms(5,6) by (metis advance_advance)
  then show ?thesis
    using n in_array_object(1) [OF assms(1)] assms(2) by (simp add: parse_next_token_and_set_current_def)
qed

lemma step_array_close:
  assumes "in_array p" "standing p (w @ 93 # r)" "blank w"
  shows "parse_next_token_and_set_current name p = (end_context END_ARRAY (advance (length w) p), no_flags)"
  using next_skip [OF assms(2,3) structural_chars(1)] in_array_object(1) [OF assms(1)]
  by (simp add: parse_next_token_and_set_current_def Let_def)

lemma field_name:
  assumes "standing p (k @ r)" "string_literal k"
  shows "parse_field_name_and_set_current name f p = (at_field k p, with_match name k f)"
  using try_parse_literal [OF assms(2)] assms(1) standing_length [OF assms(1)]
  by (simp add: parse_field_name_and_set_current_def standing_def at_field_def with_match_def advance_def)

lemma literal_first_char:
  "string_literal k \<Longrightarrow> \<exists>c k'. k = c # k' \<and> \<not> is_whitespace_json c \<and> c \<noteq> 125 \<and> c \<noteq> 44"
  by (auto dest!: literal_first simp: is_whitespace_json_def)

lemma step_object_first:
  assumes "in_object p" "current_token p = START_OBJECT" "standing p (w @ k @ r)" "blank w" "string_literal k"
  shows "parse_next_token_and_set_current name p = (at_field k (advance (length w) p), with_match name k no_flags)"
proof -
  obtain c k' where c: "k = c # k'" "\<not> is_whitespace_json c" "c \<noteq> 125" using literal_first_char [OF assms(5)] by blast
  then have "standing p (w @ c # k' @ r)" using assms(3) by simp
  note n = next_skip [OF this assms(4) c(2)]
  have "standing (advance (length w) p) (k @ r)" using n(4) c(1) by simp
  then show ?thesis
    using n in_array_object(2) [OF assms(1)] assms(2,5) c(3)
    by (simp add: parse_next_token_and_set_current_def field_name)
qed

lemma step_object_comma:
  assumes "in_object p" "current_token p \<noteq> START_OBJECT" "current_token p \<noteq> FIELD_NAME"
    "standing p (w @ 44 # w' @ k @ r)" "blank w" "blank w'" "string_literal k"
  shows "parse_next_token_and_set_current name p
    = (at_field k (advance (length w + 1 + length w') p), with_match name k (no_flags\<lparr>has_comma := True\<rparr>))"
proof -
  obtain c k' where c: "k = c # k'" "\<not> is_whitespace_json c" using literal_first_char [OF assms(7)] by blast
  note n = next_skip [OF assms(4,5) structural_chars(3)]
  have "standing (advance (length w + 1) p) (w' @ c # k' @ r)"
    using standing_advance1 [OF n(4)] c by simp
  from next_skip [OF this assms(6) c(2)]
  have "skip_whitespaces (advance (length w + 1) p) = advance (length w + 1 + length w') p"
    "standing (advance (length w + 1 + length w') p) (k @ r)" using c by simp_all
  then show ?thesis
    using n in_array_object(2) [OF assms(1)] assms(2,3,7)
    by (simp add: parse_next_token_and_set_current_def field_name)
qed

lemma step_object_colon:
  assumes "in_object p" "current_token p = FIELD_NAME" "standing p (w @ 58 # w' @ c # r)" "blank w" "blank w'"
    "\<not> is_whitespace_json c"
  shows "parse_next_token_and_set_current name p
    = (parse_first_token_in_value_and_set_current (advance (length w + 1 + length w') p), no_flags\<lparr>has_colon := True\<rparr>)"
proof -
  note n = next_skip [OF assms(3,4) structural_chars(4)]
  have "standing (advance (length w + 1) p) (w' @ c # r)"
    using standing_advance1 [OF n(4)] by simp
  then have "skip_whitespaces (advance (length w + 1) p) = advance (length w + 1 + length w') p"
    using next_skip(1) assms(5,6) by (metis advance_advance)
  then show ?thesis
    using n in_array_object(2) [OF assms(1)] assms(2) by (simp add: parse_next_token_and_set_current_def)
qed

lemma step_object_close:
  assumes "in_object p" "current_token p \<noteq> FIELD_NAME" "standing p (w @ 125 # r)" "blank w"
  shows "parse_next_token_and_set_current name p = (end_context END_OBJECT (advance (length w) p), no_flags)"
  using next_skip [OF assms(3,4) structural_chars(2)] in_array_object(2) [OF assms(1)] assms(2)
  by (simp add: parse_next_token_and_set_current_def Let_def)

text \<open>Opening and closing.\<close>

lemma open_value:
  assumes "standing p (c # r)" "c = 91 \<and> t = START_ARRAY \<or> c = 123 \<and> t = START_OBJECT" "stack_size p < 64"
    "p1 = parse_first_token_in_value_and_set_current p"
  shows "standing p1 r" "current_token p1 = t" "contexts p1 = contexts p @ [t = START_OBJECT]" "same_row p p1"
    "stack_size p1 = Suc (stack_size p)"
proof -
  let ?p = "p\<lparr>current_token_start_pos := curr_pos p\<rparr>"
  have "standing ?p (c # r)" using assms(1) by (simp add: standing_def)
  then have c: "current_char ?p = c" by (rule standing_char)
  have p1: "p1 = set_current t (advance 1 (push_context t ?p))"
    using assms(2,3) unfolding assms(4) parse_first_token_in_value_and_set_current_def Let_def c
    by (auto simp: start_context_def try_push_context_def MAX_JSON_NESTING_DEPTH_def)
  show "standing p1 r"
    using standing_advance1 [OF assms(1)] by (simp add: p1 set_current_def push_context_def standing_def)
  show "current_token p1 = t" "same_row p p1" "stack_size p1 = Suc (stack_size p)"
    by (simp_all add: p1 set_current_def push_context_def same_row_def)
  show "contexts p1 = contexts p @ [t = START_OBJECT]"
    using assms(3) by (auto simp: p1 contexts_def set_current_def push_context_def bit_set_bit_value)
qed

lemma end_context:
  assumes "standing p (c # r)" "p1 = end_context t p" "0 < stack_size p"
  shows "standing p1 r" "current_token p1 = t" "contexts p1 = butlast (contexts p)" "same_row p p1"
    "stack_size p1 = stack_size p - 1"
proof -
  show "standing p1 r"
    using standing_advance1 [OF assms(1)]
    by (simp add: assms(2) end_context_def set_current_def pop_curr_context_def standing_def)
  show "current_token p1 = t" "same_row p p1" "stack_size p1 = stack_size p - 1"
    by (simp_all add: assms(2) end_context_def set_current_def pop_curr_context_def same_row_def)
  show "contexts p1 = butlast (contexts p)"
    using assms(3)
    by (simp add: assms(2) end_context_def set_current_def pop_curr_context_def contexts_def map_butlast [symmetric]
        butlast_conv_take min_def take_map)
qed

lemma at_field_simps [simp]:
  "current_token (at_field k p) = FIELD_NAME" "stack_size (at_field k p) = stack_size p"
  "contexts (at_field k p) = contexts p" "same_row p (at_field k p)"
  by (simp_all add: at_field_def contexts_def same_row_def)

lemma standing_at_field: "standing p (k @ r) \<Longrightarrow> standing (at_field k p) r"
  using standing_advance [of p k r] by (simp add: at_field_def standing_def)

section \<open>The text of a token\<close>

definition token_text :: "escape_style \<Rightarrow> (byte list \<Rightarrow> byte list) \<Rightarrow> json_parser \<Rightarrow> byte list" where
  "token_text w norm p = the (fst (write_text w norm p (Some [])))"

lemma write_text_eq: "write_text w norm p d = (emit (token_text w norm p) d, int (length (token_text w norm p)))"
  by (cases d; cases "current_token p") (simp_all add: token_text_def write_text_def Let_def write_string_size)

lemma token_text_simps:
  "current_token p = START_ARRAY \<Longrightarrow> token_text w norm p = [91]"
  "current_token p = END_ARRAY \<Longrightarrow> token_text w norm p = [93]"
  "current_token p = START_OBJECT \<Longrightarrow> token_text w norm p = [123]"
  "current_token p = END_OBJECT \<Longrightarrow> token_text w norm p = [125]"
  by (simp_all add: token_text_def write_text_def Let_def)

lemma token_text_field:
  "standing p (k @ r) \<Longrightarrow> string_literal k \<Longrightarrow> token_text w norm (at_field k p) = literal_text w k"
  by (simp add: written_literal token_text_def write_text_def Let_def write_string_size current_range_def at_field_def standing_def)

section \<open>Runs\<close>

text \<open>The text that a copy writes for one token, with the separator in front of it.\<close>

definition step_text :: "(byte list \<Rightarrow> byte list) \<Rightarrow> json_parser \<Rightarrow> flags \<Rightarrow> byte list" where
  "step_text norm p f =
     (if has_comma f then [44] else []) @ (if has_colon f then [58] else []) @ token_text ESCAPED norm p"

text \<open>Tokens are read from \<open>p\<close> to \<open>q\<close>, the stack stays above \<open>k\<close>, and \<open>t\<close> is the text of the tokens.\<close>

inductive run :: "(byte list \<Rightarrow> byte list) \<Rightarrow> nat \<Rightarrow> json_parser \<Rightarrow> byte list \<Rightarrow> json_parser \<Rightarrow> bool"
  for norm k where
  run_refl: "run norm k p [] p"
| run_step: "parse_next_token_and_set_current None p = (p1, f) \<Longrightarrow> current_token p1 \<notin> {ERROR, SUCCESS, INIT}
    \<Longrightarrow> k < stack_size p1 \<Longrightarrow> run norm k p1 t q \<Longrightarrow> run norm k p (step_text norm p1 f @ t) q"

lemma run_trans: "run norm k p t q \<Longrightarrow> run norm k q t' r \<Longrightarrow> run norm k p (t @ t') r"
  by (induction rule: run.induct) (auto intro: run_step)

lemma run_mono: "run norm k p t q \<Longrightarrow> k' \<le> k \<Longrightarrow> run norm k' p t q"
  by (induction rule: run.induct) (auto intro: run_refl run_step)

fun join :: "byte list list \<Rightarrow> byte list" where
  "join [] = []"
| "join (x # xs) = x @ concat (map (\<lambda>y. 44 # y) xs)"

definition field_text :: "byte list \<times> byte list \<Rightarrow> byte list" where
  "field_text kv = literal_text ESCAPED (fst kv) @ 58 # snd kv"

text \<open>The compact form of a value.\<close>

primrec compact :: "(byte list \<Rightarrow> byte list) \<Rightarrow> json \<Rightarrow> byte list" where
  "compact norm (Scalar t s) = scalar_out ESCAPED norm t s"
| "compact norm (Arr vs) = 91 # join (map (compact norm) vs) @ [93]"
| "compact norm (Obj fs) = 123 # join (map field_text (map (map_prod id (compact norm)) fs)) @ [125]"

definition value_end :: "json_token \<Rightarrow> bool" where
  "value_end t \<longleftrightarrow> t \<notin> {INIT, SUCCESS, ERROR, START_OBJECT, START_ARRAY, FIELD_NAME}"

text \<open>The parser runs from \<open>p\<close> up to the end of the current array or object, and closes it.\<close>

definition closes ::
  "(byte list \<Rightarrow> byte list) \<Rightarrow> json_parser \<Rightarrow> json_token \<Rightarrow> byte list \<Rightarrow> byte list \<Rightarrow> bool" where
  "closes norm p t r text \<longleftrightarrow>
     (\<exists>p2 p3. run norm (stack_size p - 1) p text p2 \<and> parse_next_token_and_set_current None p2 = (p3, no_flags)
        \<and> current_token p3 = t \<and> standing p3 r \<and> contexts p3 = butlast (contexts p) \<and> same_row p p3)"

text \<open>The value \<open>v\<close> in front of \<open>p\<close>, with \<open>r\<close> behind it.\<close>

definition value_run :: "(byte list \<Rightarrow> byte list) \<Rightarrow> json_parser \<Rightarrow> json \<Rightarrow> byte list \<Rightarrow> bool" where
  "value_run norm p v r \<longleftrightarrow>
     (let p1 = parse_first_token_in_value_and_set_current p in
      same_row p p1 \<and>
      (case v of
         Scalar t s \<Rightarrow>
           current_token p1 = t \<and> value_end t \<and> standing p1 r \<and> contexts p1 = contexts p
           \<and> (\<forall>w. token_text w norm p1 = scalar_out w norm t s)
       | Arr vs \<Rightarrow>
           current_token p1 = START_ARRAY \<and> contexts p1 = contexts p @ [False]
           \<and> closes norm p1 END_ARRAY r (join (map (compact norm) vs))
       | Obj fs \<Rightarrow>
           current_token p1 = START_OBJECT \<and> contexts p1 = contexts p @ [True]
           \<and> closes norm p1 END_OBJECT r (join (map field_text (map (map_prod id (compact norm)) fs)))))"

lemma closes_whole:
  assumes "closes norm p1 t r text" "contexts p1 = contexts p @ [b]" "k < stack_size p"
    "t = END_ARRAY \<and> c = 93 \<or> t = END_OBJECT \<and> c = 125"
  shows "\<exists>q. run norm k p1 (text @ [c]) q \<and> standing q r \<and> contexts q = contexts p \<and> same_row p1 q
    \<and> value_end (current_token q) \<and> k < stack_size p1"
proof -
  obtain p2 p3 where c: "run norm (stack_size p1 - 1) p1 text p2"
    "parse_next_token_and_set_current None p2 = (p3, no_flags)" "current_token p3 = t" "standing p3 r"
    "contexts p3 = butlast (contexts p1)" "same_row p1 p3"
    using assms(1) unfolding closes_def by blast
  have p3: "contexts p3 = contexts p" using c(5) assms(2) by simp
  have s: "stack_size p1 = Suc (stack_size p)" "stack_size p3 = stack_size p"
    using p3 assms(2) by (metis length_append_singleton length_contexts, metis length_contexts)
  have "run norm k p2 (step_text norm p3 no_flags @ []) p3"
    using c(2,3) s assms(3,4) by (intro run_step run_refl) auto
  moreover have "step_text norm p3 no_flags = [c]"
    using assms(4) c(3) by (auto simp: step_text_def no_flags_def token_text_simps)
  moreover have "run norm k p1 text p2" using s assms(3) by (intro run_mono [OF c(1)]) simp
  ultimately have "run norm k p1 (text @ [c]) p3" using run_trans by fastforce
  then show ?thesis using c p3 s assms(3,4) by (intro exI [of _ p3]) (auto simp: value_end_def)
qed

text \<open>A value is read as a whole: its compact form is written and the stack is the same behind it.\<close>

lemma value_whole:
  assumes "value_run norm p v r" "k < stack_size p" "p1 = parse_first_token_in_value_and_set_current p"
  shows "\<exists>t q. run norm k p1 t q \<and> token_text ESCAPED norm p1 @ t = compact norm v \<and> standing q r
    \<and> contexts q = contexts p \<and> same_row p q \<and> value_end (current_token q)
    \<and> current_token p1 \<notin> {ERROR, SUCCESS, INIT} \<and> k < stack_size p1"
proof (cases v)
  case (Scalar t s)
  then have c: "contexts p1 = contexts p" using assms by (simp add: value_run_def Let_def)
  then have "stack_size p1 = stack_size p" by (metis length_contexts)
  then show ?thesis using assms Scalar c
    by (intro exI [of _ "[]"] exI [of _ p1]) (auto simp: value_run_def Let_def value_end_def intro: run_refl)
next
  case (Arr vs)
  let ?t = "join (map (compact norm) vs)"
  have c: "current_token p1 = START_ARRAY" "contexts p1 = contexts p @ [False]"
    "closes norm p1 END_ARRAY r ?t" "same_row p p1"
    using assms Arr by (simp_all add: value_run_def Let_def)
  obtain q where "run norm k p1 (?t @ [93]) q" "standing q r" "contexts q = contexts p" "same_row p1 q"
    "value_end (current_token q)" "k < stack_size p1"
    using closes_whole [OF c(3,2) assms(2), of 93] by blast
  then show ?thesis using c Arr same_row_trans [of p p1 q]
    by (intro exI [of _ "?t @ [93]"] exI [of _ q]) (simp add: token_text_simps)
next
  case (Obj fs)
  let ?t = "join (map field_text (map (map_prod id (compact norm)) fs))"
  have c: "current_token p1 = START_OBJECT" "contexts p1 = contexts p @ [True]"
    "closes norm p1 END_OBJECT r ?t" "same_row p p1"
    using assms Obj by (simp_all add: value_run_def Let_def)
  obtain q where "run norm k p1 (?t @ [125]) q" "standing q r" "contexts q = contexts p" "same_row p1 q"
    "value_end (current_token q)" "k < stack_size p1"
    using closes_whole [OF c(3,2) assms(2), of 125] by blast
  then show ?thesis using c Obj same_row_trans [of p p1 q]
    by (intro exI [of _ "?t @ [125]"] exI [of _ q]) (simp add: token_text_simps)
qed

section \<open>The texts of values\<close>

lemma json_text_first: "json_text v s \<Longrightarrow> \<exists>c s'. s = c # s' \<and> \<not> is_whitespace_json c \<and> c \<noteq> 93"
  by (cases rule: json_text.cases, assumption)
    (auto dest: scalar_text_first simp: is_whitespace_json_def)

lemma blank_delimits: "blank w \<Longrightarrow> c = 44 \<or> c = 93 \<or> c = 125 \<or> c = 58 \<Longrightarrow> delimits (w @ c # r)"
  by (cases w) (auto simp: delimits_def blank_def is_whitespace_json_def is_digit_json_def)

lemma tail_delimits: "elems_tail vs t \<Longrightarrow> delimits (t @ r)" "fields_tail fs t \<Longrightarrow> delimits (t @ r)"
  by (erule elems_tail.cases fields_tail.cases; auto simp: blank_delimits)+

lemma max_list_le: "foldr max (x # xs) (0 :: nat) + n \<le> m \<Longrightarrow> x + n \<le> m \<and> foldr max xs 0 + n \<le> m"
  unfolding foldr_Cons o_apply by linarith

text \<open>A value at the next position, read after a separator.\<close>

lemma closes_step:
  assumes "parse_next_token_and_set_current None p = (p1, f)"
    "p1 = parse_first_token_in_value_and_set_current q" "value_run norm q v s" "contexts q = contexts p"
    "same_row p q" "0 < stack_size p"
    "\<And>z. standing z s \<Longrightarrow> contexts z = contexts p \<Longrightarrow> value_end (current_token z) \<Longrightarrow> closes norm z t r text"
  shows "closes norm p t r ((if has_comma f then [44] else []) @ (if has_colon f then [58] else []) @ compact norm v @ text)"
proof -
  have sq: "stack_size q = stack_size p" using assms(4) by (metis length_contexts)
  have "stack_size p - 1 < stack_size q" using assms(6) sq by simp
  from value_whole [OF assms(3) this assms(2)] obtain u z where
    u: "run norm (stack_size p - 1) p1 u z" "token_text ESCAPED norm p1 @ u = compact norm v" "standing z s"
    "contexts z = contexts q" "same_row q z" "value_end (current_token z)"
    "current_token p1 \<notin> {ERROR, SUCCESS, INIT}" "stack_size p - 1 < stack_size p1" by blast
  have z: "contexts z = contexts p" "stack_size z = stack_size p"
    using u(4) assms(4) sq by (metis length_contexts)+
  from assms(7) [OF u(3) z(1) u(6)] obtain p2 p3 where
    c: "run norm (stack_size z - 1) z text p2" "parse_next_token_and_set_current None p2 = (p3, no_flags)"
    "current_token p3 = t" "standing p3 r" "contexts p3 = butlast (contexts z)" "same_row z p3"
    unfolding closes_def by blast
  have "run norm (stack_size p - 1) p (step_text norm p1 f @ u) z"
    by (rule run_step [OF assms(1) u(7,8,1)])
  from run_trans [OF this, of "text" p2] c(1) z(2)
  have "run norm (stack_size p - 1) p (((if has_comma f then [44] else []) @ (if has_colon f then [58] else [])
      @ compact norm v) @ text) p2"
    using u(2) by (simp add: step_text_def)
  moreover have "same_row p p3" using assms(5) u(5) c(6) same_row_trans by blast
  ultimately show ?thesis unfolding closes_def using c z by auto
qed

lemma closes_now:
  assumes "in_array p \<and> c = 93 \<and> t = END_ARRAY \<or> in_object p \<and> current_token p \<noteq> FIELD_NAME \<and> c = 125 \<and> t = END_OBJECT"
    "standing p ((w @ [c]) @ r)" "blank w"
  shows "closes norm p t r []"
proof -
  let ?q = "advance (length w) p"
  have st: "standing p (w @ c # r)" using assms(2) by simp
  have q: "standing ?q (c # r)" using standing_advance [OF st] .
  have "0 < stack_size ?q" using assms(1) by (auto simp: in_array_def in_object_def)
  note e = end_context [OF q refl this]
  have s: "parse_next_token_and_set_current None p = (end_context t ?q, no_flags)"
    using assms(1) step_array_close [OF _ _ assms(3)] step_object_close [OF _ _ _ assms(3)] st by blast
  have "same_row p ?q" by (simp add: same_row_def)
  then show ?thesis
    unfolding closes_def using e s by (intro exI [of _ p] exI [of _ "end_context t ?q"])
      (auto intro: run_refl same_row_trans)
qed

lemma closes_run:
  assumes "parse_next_token_and_set_current None p = (p1, f)" "current_token p1 \<notin> {ERROR, SUCCESS, INIT}"
    "contexts p1 = contexts p" "0 < stack_size p" "same_row p p1" "closes norm p1 t r tx"
  shows "closes norm p t r (step_text norm p1 f @ tx)"
proof -
  have s: "stack_size p1 = stack_size p" using assms(3) by (metis length_contexts)
  obtain p2 p3 where c: "run norm (stack_size p - 1) p1 tx p2"
    "parse_next_token_and_set_current None p2 = (p3, no_flags)" "current_token p3 = t" "standing p3 r"
    "contexts p3 = butlast (contexts p)" "same_row p1 p3"
    using assms(3,6) s unfolding closes_def by auto
  have "run norm (stack_size p - 1) p (step_text norm p1 f @ tx) p2"
    using assms(1,2,4) s c(1) by (intro run_step) auto
  then show ?thesis unfolding closes_def using c same_row_trans [OF assms(5) c(6)] by blast
qed

lemma in_context_same: "contexts q = contexts p \<Longrightarrow> in_array q = in_array p \<and> in_object q = in_object p"
  unfolding in_array_def in_object_def by (metis length_contexts)

text \<open>From the name of a field on.\<close>

lemma closes_field:
  assumes "in_object q" "standing q ((k @ w1 @ 58 # w2 @ s @ t) @ r)" "string_literal k" "blank w1" "blank w2"
    "json_text v s" "fields_tail fs t" "contexts q = contexts p" "same_row p q"
    "parse_next_token_and_set_current None p = (at_field k q, with_match None k f)" "\<not> has_colon f"
    "\<And>p. standing p (s @ t @ r) \<Longrightarrow> contexts p = contexts q \<Longrightarrow> value_run norm p v (t @ r)"
    "\<And>p. contexts p = contexts q \<Longrightarrow> value_end (current_token p) \<Longrightarrow> standing p (t @ r) \<Longrightarrow> closes norm p END_OBJECT r tx"
  shows "closes norm p END_OBJECT r
    ((if has_comma f then [44] else []) @ field_text (k, compact norm v) @ tx)"
proof -
  have q: "standing q (k @ w1 @ 58 # w2 @ s @ t @ r)" using assms(2) by simp
  let ?p1 = "at_field k q"
  have p1: "standing ?p1 (w1 @ 58 # w2 @ s @ t @ r)" using standing_at_field [OF q] .
  obtain c s' where c: "s = c # s'" "\<not> is_whitespace_json c" using json_text_first [OF assms(6)] by blast
  have io: "in_object ?p1" "0 < stack_size q" using assms(1) by (simp_all add: in_object_def)
  let ?q2 = "advance (length w1 + 1 + length w2) ?p1"
  have st: "parse_next_token_and_set_current None ?p1
    = (parse_first_token_in_value_and_set_current ?q2, no_flags\<lparr>has_colon := True\<rparr>)"
    using step_object_colon [OF io(1) _ _ assms(4,5) c(2)] p1 c(1) by simp
  have q2: "standing ?q2 (s @ t @ r)"
    using standing_advance [of ?p1 "w1 @ 58 # w2" "s @ t @ r"] p1 by (simp add: add.assoc)
  have "closes norm ?p1 END_OBJECT r ([] @ [58] @ compact norm v @ tx)"
    using closes_step [OF st refl assms(12) [OF q2], of END_OBJECT r tx] assms(13) io(2)
    by (simp add: same_row_def no_flags_def)
  from closes_run [OF assms(10) _ _ _ _ this]
  have "closes norm p END_OBJECT r (step_text norm ?p1 (with_match None k f) @ [58] @ compact norm v @ tx)"
    using assms(8,9) io(2) same_row_trans [OF assms(9), of ?p1] by (simp, metis length_contexts)
  moreover have "token_text ESCAPED norm ?p1 = literal_text ESCAPED k" using token_text_field [OF q assms(3)] .
  ultimately show ?thesis using assms(11) by (simp add: step_text_def with_match_def field_text_def)
qed

lemma json_runs:
  "json_text v s \<Longrightarrow> (\<And>p r. standing p (s @ r) \<Longrightarrow> delimits r \<Longrightarrow> depth v + stack_size p \<le> 64
      \<Longrightarrow> value_run norm p v r)"
  "elems_text vs s \<Longrightarrow> (\<And>p r. in_array p \<Longrightarrow> current_token p = START_ARRAY \<Longrightarrow> standing p (s @ r)
      \<Longrightarrow> foldr max (map depth vs) 0 + stack_size p \<le> 64
      \<Longrightarrow> closes norm p END_ARRAY r (join (map (compact norm) vs)))"
  "elems_tail vs s \<Longrightarrow> (\<And>p r. in_array p \<Longrightarrow> value_end (current_token p) \<Longrightarrow> standing p (s @ r)
      \<Longrightarrow> foldr max (map depth vs) 0 + stack_size p \<le> 64
      \<Longrightarrow> closes norm p END_ARRAY r (concat (map (\<lambda>v. 44 # compact norm v) vs)))"
  "fields_text fs s \<Longrightarrow> (\<And>p r. in_object p \<Longrightarrow> current_token p = START_OBJECT \<Longrightarrow> standing p (s @ r)
      \<Longrightarrow> foldr max (map snd (map (map_prod id depth) fs)) 0 + stack_size p \<le> 64
      \<Longrightarrow> closes norm p END_OBJECT r (join (map field_text (map (map_prod id (compact norm)) fs))))"
  "fields_tail fs s \<Longrightarrow> (\<And>p r. in_object p \<Longrightarrow> value_end (current_token p) \<Longrightarrow> standing p (s @ r)
      \<Longrightarrow> foldr max (map snd (map (map_prod id depth) fs)) 0 + stack_size p \<le> 64
      \<Longrightarrow> closes norm p END_OBJECT r (concat (map (\<lambda>kv. 44 # field_text kv) (map (map_prod id (compact norm)) fs))))"
proof (induction rule: json_text_elems_text_elems_tail_fields_text_fields_tail.inducts)
  case (scalar t s)
  have "value_end t" using scalar(1) by (auto simp: scalar_text_def value_end_def split: if_splits)
  then show ?case
    using scalar_token [OF scalar(2,1,3) refl] by (simp add: value_run_def Let_def token_text_def)
next
  case (arr vs s)
  then have p: "standing p (91 # s @ r)" "stack_size p < 64" by simp_all
  note o = open_value [OF p(1) _ p(2) refl, of START_ARRAY]
  show ?case using o arr by (auto simp: value_run_def Let_def in_array_def)
next
  case (obj fs s)
  then have p: "standing p (123 # s @ r)" "stack_size p < 64" by simp_all
  note o = open_value [OF p(1) _ p(2) refl, of START_OBJECT]
  let ?p1 = "parse_first_token_in_value_and_set_current p"
  have "closes norm ?p1 END_OBJECT r (join (map field_text (map (map_prod id (compact norm)) fs)))"
  proof (rule obj(2))
    show "in_object ?p1" using o obj(5) by (simp add: in_object_def)
    show "foldr max (map snd (map (map_prod id depth) fs)) 0 + stack_size ?p1 \<le> 64" using o(5) obj(5) by simp
  qed (use o in simp_all)
  then show ?case using o by (simp add: value_run_def Let_def)
next
  case (no_elems w)
  then show ?case using closes_now [of p 93 END_ARRAY w r] by simp
next
  case (elems w v s vs t)
  obtain c s' where c: "s = c # s'" "\<not> is_whitespace_json c" "c \<noteq> 93" using json_text_first [OF elems(2)] by blast
  let ?q = "advance (length w) p"
  have st: "parse_next_token_and_set_current None p = (parse_first_token_in_value_and_set_current ?q, no_flags)"
    using step_array_first [OF elems(6,7) _ elems(1) c(2,3)] elems(8) c(1) by simp
  have q: "standing ?q (s @ t @ r)" using standing_advance [of p w "s @ t @ r"] elems(8) by simp
  have v: "value_run norm ?q v (t @ r)"
    using elems(9) by (intro elems(4) [OF q tail_delimits(1) [OF elems(3)]]) simp
  have "closes norm p END_ARRAY r ((if has_comma no_flags then [44] else []) @ (if has_colon no_flags then [58] else [])
      @ compact norm v @ concat (map (\<lambda>v. 44 # compact norm v) vs))"
  proof (rule closes_step [OF st refl v])
    fix z assume z: "standing z (t @ r)" "contexts z = contexts p" "value_end (current_token z)"
    have "stack_size z = stack_size p" using z(2) by (metis length_contexts)
    then show "closes norm z END_ARRAY r (concat (map (\<lambda>v. 44 # compact norm v) vs))"
      using elems(6,9) in_context_same [OF z(2)] z by (intro elems(5)) simp_all
  qed (use elems(6) in \<open>simp_all add: same_row_def in_array_def\<close>)
  then show ?case by (simp add: no_flags_def o_def)
next
  case (elems_end w)
  then show ?case using closes_now [of p 93 END_ARRAY w r] by simp
next
  case (elems_more w w' v s vs t)
  obtain c s' where c: "s = c # s'" "\<not> is_whitespace_json c" using json_text_first [OF elems_more(3)] by blast
  let ?q = "advance (length w + 1 + length w') p" and ?f = "no_flags\<lparr>has_comma := True\<rparr>"
  have st: "parse_next_token_and_set_current None p = (parse_first_token_in_value_and_set_current ?q, ?f)"
    using step_array_comma [OF elems_more(7) _ _ elems_more(1,2) c(2)] elems_more(8,9) c(1)
    by (simp add: value_end_def)
  have q: "standing ?q (s @ t @ r)"
    using standing_advance [of p "w @ 44 # w'" "s @ t @ r"] elems_more(9) by (simp add: add.assoc)
  have v: "value_run norm ?q v (t @ r)"
    using elems_more(10) by (intro elems_more(5) [OF q tail_delimits(1) [OF elems_more(4)]]) simp
  have "closes norm p END_ARRAY r ((if has_comma ?f then [44] else []) @ (if has_colon ?f then [58] else [])
      @ compact norm v @ concat (map (\<lambda>v. 44 # compact norm v) vs))"
  proof (rule closes_step [OF st refl v])
    fix z assume z: "standing z (t @ r)" "contexts z = contexts p" "value_end (current_token z)"
    have "stack_size z = stack_size p" using z(2) by (metis length_contexts)
    then show "closes norm z END_ARRAY r (concat (map (\<lambda>v. 44 # compact norm v) vs))"
      using elems_more(7,10) in_context_same [OF z(2)] z by (intro elems_more(6)) simp_all
  qed (use elems_more(7) in \<open>simp_all add: same_row_def in_array_def\<close>)
  then show ?case by (simp add: no_flags_def)
next
  case (no_fields w)
  then show ?case using closes_now [of p 125 END_OBJECT w r] by simp
next
  case (fields w k w1 w2 v s fs t)
  let ?q = "advance (length w) p"
  have q: "standing ?q ((k @ w1 @ 58 # w2 @ s @ t) @ r)"
    using standing_advance [of p w "(k @ w1 @ 58 # w2 @ s @ t) @ r"] fields(11) by simp
  have st: "parse_next_token_and_set_current None p = (at_field k ?q, with_match None k no_flags)"
    using step_object_first [OF fields(9,10) _ fields(1,2)] fields(11) by simp
  have io: "in_object ?q" using fields(9) by (simp add: in_object_def)
  have "closes norm p END_OBJECT r ((if has_comma no_flags then [44] else []) @ field_text (k, compact norm v)
      @ concat (map (\<lambda>kv. 44 # field_text kv) (map (map_prod id (compact norm)) fs)))"
  proof (rule closes_field [OF io q fields(2-6) _ _ st])
    fix z assume z: "standing z (s @ t @ r)" "contexts z = contexts ?q"
    then have "stack_size z = stack_size p" by (metis length_contexts contexts_advance)
    then show "value_run norm z v (t @ r)"
      using fields(12) by (intro fields(7) [OF z(1) tail_delimits(2) [OF fields(6)]]) simp
  next
    fix z assume z: "contexts z = contexts ?q" "value_end (current_token z)" "standing z (t @ r)"
    then have "stack_size z = stack_size p" by (metis length_contexts contexts_advance)
    then show "closes norm z END_OBJECT r (concat (map (\<lambda>kv. 44 # field_text kv) (map (map_prod id (compact norm)) fs)))"
      using fields(12) z in_context_same [OF z(1)] io by (intro fields(8)) simp_all
  qed (simp_all add: same_row_def no_flags_def)
  then show ?case by (simp add: no_flags_def o_def id_def)
next
  case (fields_end w)
  then show ?case using closes_now [of p 125 END_OBJECT w r] by (simp add: value_end_def)
next
  case (fields_more w w' k w1 w2 v s fs t)
  let ?q = "advance (length w + 1 + length w') p" and ?f = "no_flags\<lparr>has_comma := True\<rparr>"
  have q: "standing ?q ((k @ w1 @ 58 # w2 @ s @ t) @ r)"
    using standing_advance [of p "w @ 44 # w'" "(k @ w1 @ 58 # w2 @ s @ t) @ r"] fields_more(12)
    by (simp add: add.assoc)
  have st: "parse_next_token_and_set_current None p = (at_field k ?q, with_match None k ?f)"
    using step_object_comma [OF fields_more(10) _ _ _ fields_more(1-3)] fields_more(11,12)
    by (simp add: value_end_def)
  have io: "in_object ?q" using fields_more(10) by (simp add: in_object_def)
  have "closes norm p END_OBJECT r ((if has_comma ?f then [44] else []) @ field_text (k, compact norm v)
      @ concat (map (\<lambda>kv. 44 # field_text kv) (map (map_prod id (compact norm)) fs)))"
  proof (rule closes_field [OF io q fields_more(3-7) _ _ st])
    fix z assume z: "standing z (s @ t @ r)" "contexts z = contexts ?q"
    then have "stack_size z = stack_size p" by (metis length_contexts contexts_advance)
    then show "value_run norm z v (t @ r)"
      using fields_more(13) by (intro fields_more(8) [OF z(1) tail_delimits(2) [OF fields_more(7)]]) simp
  next
    fix z assume z: "contexts z = contexts ?q" "value_end (current_token z)" "standing z (t @ r)"
    then have "stack_size z = stack_size p" by (metis length_contexts contexts_advance)
    then show "closes norm z END_OBJECT r (concat (map (\<lambda>kv. 44 # field_text kv) (map (map_prod id (compact norm)) fs)))"
      using fields_more(13) z in_context_same [OF z(1)] io by (intro fields_more(9)) simp_all
  qed (simp_all add: same_row_def no_flags_def)
  then show ?case by (simp add: no_flags_def id_def)
qed

end
