(* ===== verification/JsonCopy.thy ===== *)
theory JsonCopy
  imports JsonTokens
begin

text \<open>
  Skipping and copying: on the text of a value both end right behind it, with the same stack, and
  the copy is the compact form. Both come to an end on every input that is inside an array or
  object.
\<close>

section \<open>The stack follows the tokens\<close>

lemma contexts_set_simps [simp]:
  "stack_size (set_current t p) = stack_size p" "stack_size (set_current_error p) = stack_size p"
  "stack_size (skip_whitespaces p) = stack_size p" "current_token (set_current t p) = t"
  "current_token (set_current_error p) = ERROR" "curr_pos (set_current t p) = curr_pos p"
  "chars (set_current t p) = chars p" "curr_pos (set_current_error p) = curr_pos p"
  "chars (set_current_error p) = chars p"
  "chars (skip_whitespaces p) = chars p" "current_token (skip_whitespaces p) = current_token p"
  by (simp_all add: set_current_def set_current_error_def skip_whitespaces_def)

text \<open>The parser moved forward within the row and kept the stack.\<close>

definition forward :: "json_parser \<Rightarrow> json_parser \<Rightarrow> bool" where
  "forward p q \<longleftrightarrow> curr_pos p \<le> curr_pos q \<and> chars q = chars p \<and> stack_size q = stack_size p"

lemma forward_refl [simp]: "forward p p" by (simp add: forward_def)

lemma forward_trans: "forward p q \<Longrightarrow> forward q r \<Longrightarrow> forward p r" by (simp add: forward_def)

lemma forward_advance [simp]: "forward p (advance n p)" by (simp add: forward_def)

lemma forward_try_skip: "forward p (snd (try_skip p c))"
  by (simp add: try_skip_def)

lemma forward_try_skip_all: "forward p (snd (try_skip_all cs p))"
proof (induction cs arbitrary: p)
  case (Cons c cs)
  have e: "try_skip_all (c # cs) p
    = (if fst (try_skip p c) then try_skip_all cs (snd (try_skip p c)) else try_skip p c)"
    by (cases "try_skip p c") (auto split: bool.split)
  show ?case unfolding e using forward_trans [OF forward_try_skip Cons] forward_try_skip by simp
qed simp

lemma forward_one_or_more: "forward p (fst (snd (try_skip_one_or_more_digits p n)))"
  by (simp add: try_skip_one_or_more_digits_def skip_zero_or_more_digits_def Let_def)

lemma forward_exp: "forward p (fst (snd (try_parse_exp p n)))"
  unfolding try_parse_exp_def Let_def by (rule forward_trans [OF _ forward_one_or_more]) simp

lemma forward_fraction: "forward p (fst (snd (snd (parse_number_from_fraction p n))))"
proof -
  let ?q = "snd (try_skip p 46)"
  let ?d = "if fst (try_skip p 46) then try_skip_one_or_more_digits ?q n else (True, ?q, n)"
  let ?r = "fst (snd ?d)"
  have r: "forward p ?r" using forward_trans [OF forward_try_skip forward_one_or_more] forward_try_skip by simp
  have e: "fst (snd (snd (parse_number_from_fraction p n))) =
    (if \<not> fst ?d then ?r
     else if \<not> eof ?r \<and> (current_char ?r = 101 \<or> current_char ?r = 69)
     then fst (snd (try_parse_exp (advance 1 ?r) (snd (snd ?d)))) else ?r)"
    unfolding parse_number_from_fraction_def Let_def case_prod_unfold
    by (simp only: fst_conv snd_conv if_distrib [of fst] if_distrib [of snd])
  have x: "forward p (fst (snd (try_parse_exp (advance 1 ?r) m)))" for m
    using forward_trans [OF r forward_trans [OF forward_advance forward_exp]] .
  show ?thesis unfolding e using r x by (simp only: if_split simp_thms)
qed

lemma forward_unsigned:
  assumes "try_unsigned_number p = (True, fl, q, n)"
  shows "forward p q \<and> curr_pos p < curr_pos q"
proof -
  have f: "forward p r \<Longrightarrow> curr_pos p < curr_pos r \<Longrightarrow> parse_number_from_fraction r m = (True, fl, q, n)
      \<Longrightarrow> forward p q \<and> curr_pos p < curr_pos q" for r m
    using forward_fraction [of r m] forward_trans [of p r q] by (auto simp: forward_def)
  from assms f [of "advance 1 p"] f [of "fst (skip_zero_or_more_digits (advance 1 p))"] show ?thesis
    by (auto simp: try_unsigned_number_def Let_def skip_zero_or_more_digits_def split: if_splits)
qed

lemma forward_number:
  assumes "q = parse_number_and_set_current p" "current_token q \<noteq> ERROR"
  shows "forward p q" "curr_pos p < curr_pos q" "current_token q = VALUE_NUMBER_INT \<or> current_token q = VALUE_NUMBER_FLOAT"
proof -
  let ?s = "snd (try_skip p 45)"
  obtain ok fl z n where u: "try_unsigned_number ?s = (ok, fl, z, n)" by (cases "try_unsigned_number ?s") blast
  have q: "q = (if ok \<and> check_max_num_len n then z\<lparr>current_token := if fl then VALUE_NUMBER_FLOAT else VALUE_NUMBER_INT,
               number_token_len := curr_pos z - current_token_start_pos z\<rparr> else set_current_error z)"
    unfolding assms(1) parse_number_and_set_current_def Let_def case_prod_unfold u by simp
  then have ok: "ok" using assms(2) by (cases ok) simp_all
  then have z: "forward ?s z" "curr_pos ?s < curr_pos z" using forward_unsigned [of ?s fl z n] u by simp_all
  have "forward p z" "curr_pos p < curr_pos z"
    using forward_trans [OF forward_try_skip z(1)] z(2) forward_try_skip [of p 45] by (simp_all add: forward_def)
  then show "forward p q" "curr_pos p < curr_pos q"
    "current_token q = VALUE_NUMBER_INT \<or> current_token q = VALUE_NUMBER_FLOAT"
    using q assms(2) by (auto simp: forward_def split: if_splits)
qed

lemma forward_literal:
  assumes "q = parse_literal_and_set_current cs t p"
  shows "forward p q" "current_token q = t \<or> current_token q = ERROR"
proof -
  have "q = (if fst (try_skip_all cs p) then set_current t (snd (try_skip_all cs p))
      else set_current_error (snd (try_skip_all cs p)))"
    unfolding assms parse_literal_and_set_current_def by (cases "try_skip_all cs p") (auto split: bool.split)
  then show "forward p q" "current_token q = t \<or> current_token q = ERROR"
    using forward_try_skip_all [of p cs] by (auto simp: forward_def)
qed

lemma parse_string_loop_length: "parse_string_loop q str name b = Some (m, r) \<Longrightarrow> length r < length str"
proof (induction "length str" arbitrary: str name b rule: less_induct)
  case less
  then obtain us where "string_units q str = Some (us, r)" by (auto simp: parse_string_loop_units)
  then show ?case
  proof (induction "length str" arbitrary: str us rule: less_induct)
    case (less str)
    then obtain c s where s: "str = c # s" by (cases str) (auto simp: string_units.simps)
    show ?case
    proof (cases "c = q")
      case True
      then show ?thesis using less.prems s by (simp add: string_units.simps)
    next
      case False
      then obtain u s1 us' where u: "(if c = 92 then escape_unit s else Some ((False, [c]), s)) = Some (u, s1)"
        "string_units q s1 = Some (us', r)"
        using less.prems s by (subst (asm) string_units.simps) (auto split: option.splits prod.splits)
      have "length s1 < length str" using u(1) s by (auto dest: escape_unit_length split: if_splits)
      with less.hyps [OF this u(2)] show ?thesis by simp
    qed
  qed
qed

lemma try_parse_string_length: "try_parse_string str name = Some (m, r) \<Longrightarrow> length r < length str"
  by (cases str) (auto simp: try_parse_string_def dest: parse_string_loop_length)

lemma string_position:
  assumes "try_parse_string (drop (curr_pos p) (chars p)) name = Some (m, r)"
  shows "curr_pos p < length (chars p) - length r"
  using try_parse_string_length [OF assms] by simp

definition token_delta :: "json_token \<Rightarrow> int" where
  "token_delta t = (if t = START_OBJECT \<or> t = START_ARRAY then 1
     else if t = END_OBJECT \<or> t = END_ARRAY then - 1 else 0)"

lemma first_token_cases:
  assumes "q = parse_first_token_in_value_and_set_current p" "current_token q \<noteq> ERROR"
  shows "chars q = chars p" "curr_pos p < curr_pos q"
    "int (stack_size q) = int (stack_size p) + token_delta (current_token q)"
    "current_token q \<notin> {INIT, SUCCESS, FIELD_NAME, END_ARRAY, END_OBJECT}"
proof -
  let ?p = "p\<lparr>current_token_start_pos := curr_pos p\<rparr>"
  let ?c = "current_char ?p"
  have fw: "forward ?p z \<Longrightarrow> chars z = chars p \<and> stack_size z = stack_size p" for z by (simp add: forward_def)
  consider (ctx) t where "q = start_context t ?p" "t = START_OBJECT \<or> t = START_ARRAY"
    | (str) "q = parse_string_and_set_current ?p"
    | (lit) cs t where "q = parse_literal_and_set_current cs t (advance 1 ?p)" "t \<in> {VALUE_TRUE, VALUE_FALSE, VALUE_NULL}"
    | (num) "q = parse_number_and_set_current ?p"
    unfolding assms(1) parse_first_token_in_value_and_set_current_def Let_def
    by (cases "?c = 123"; cases "?c = 91"; cases "?c = 34 \<or> ?c = 39"; cases "?c = 116"; cases "?c = 102"; cases "?c = 110")
      auto
  then have "chars q = chars p \<and> curr_pos p < curr_pos q \<and>
    int (stack_size q) = int (stack_size p) + token_delta (current_token q)
    \<and> current_token q \<notin> {INIT, SUCCESS, FIELD_NAME, END_ARRAY, END_OBJECT}"
  proof cases
    case ctx
    then show ?thesis using assms(2)
      by (auto simp: start_context_def try_push_context_def push_context_def token_delta_def split: if_splits)
  next
    case str
    then show ?thesis using assms(2) string_position [of ?p None]
      by (auto simp: parse_string_and_set_current_def token_delta_def split: option.splits)
  next
    case lit
    then show ?thesis using assms(2) forward_literal [OF lit(1)]
      by (auto simp: forward_def token_delta_def)
  next
    case num
    then show ?thesis using forward_number [OF num assms(2)] by (auto simp: forward_def token_delta_def)
  qed
  then show "chars q = chars p" "curr_pos p < curr_pos q"
    "int (stack_size q) = int (stack_size p) + token_delta (current_token q)"
    "current_token q \<notin> {INIT, SUCCESS, FIELD_NAME, END_ARRAY, END_OBJECT}" by blast+
qed

text \<open>Every token that is neither an error nor the end of the row moves the parser forward.\<close>

lemma next_token_cases:
  assumes "parse_next_token_and_set_current name p = (q, f)" "current_token q \<noteq> ERROR" "current_token q \<noteq> SUCCESS"
  shows "chars q = chars p" "curr_pos p < curr_pos q" "curr_pos p < length (chars p)"
    "int (stack_size q) = int (stack_size p) + token_delta (current_token q)" "current_token q \<noteq> INIT"
proof -
  let ?p = "skip_whitespaces p"
  have sk: "curr_pos p \<le> curr_pos ?p" "chars ?p = chars p"
    by (simp_all add: skip_whitespaces_def)
  have ne: "\<not> eof ?p" using assms by (auto simp: parse_next_token_and_set_current_def Let_def split: if_splits)
  have sk2: "curr_pos ?p \<le> curr_pos (skip_whitespaces (advance 1 ?p))"
    "chars (skip_whitespaces (advance 1 ?p)) = chars p" by (simp_all add: skip_whitespaces_def)
  consider (first) z where "q = parse_first_token_in_value_and_set_current z" "curr_pos p \<le> curr_pos z"
      "chars z = chars p" "stack_size z = stack_size p"
    | (field) z g where "(q, f) = parse_field_name_and_set_current name g z" "curr_pos p \<le> curr_pos z"
      "chars z = chars p" "stack_size z = stack_size p"
    | (close) t where "q = end_context t ?p" "t = END_OBJECT \<or> t = END_ARRAY" "0 < stack_size p"
    using assms ne sk sk2
    unfolding parse_next_token_and_set_current_def Let_def
    by (auto split: if_splits) (metis le_trans sk2 advance_simps contexts_set_simps)+
  then have "chars q = chars p \<and> curr_pos p < curr_pos q
    \<and> int (stack_size q) = int (stack_size p) + token_delta (current_token q) \<and> current_token q \<noteq> INIT"
  proof cases
    case first
    then show ?thesis using first_token_cases [OF first(1) assms(2)] by auto
  next
    case field
    then show ?thesis using assms(2) string_position [of z name]
      by (auto simp: parse_field_name_and_set_current_def Let_def token_delta_def split: option.splits)
  next
    case close
    then show ?thesis using sk by (auto simp: end_context_def pop_curr_context_def token_delta_def set_current_def)
  qed
  moreover have "curr_pos p < length (chars p)" using ne sk by (simp add: eof_def)
  ultimately show "chars q = chars p" "curr_pos p < curr_pos q" "curr_pos p < length (chars p)"
    "int (stack_size q) = int (stack_size p) + token_delta (current_token q)" "current_token q \<noteq> INIT" by blast+
qed

lemma parse_literal_token:
  "current_token (parse_literal_and_set_current cs t p) = t \<or> current_token (parse_literal_and_set_current cs t p) = ERROR"
  using forward_literal(2) [OF refl] .

lemma first_token_success: "current_token (parse_first_token_in_value_and_set_current p) \<noteq> SUCCESS"
proof
  assume s: "current_token (parse_first_token_in_value_and_set_current p) = SUCCESS"
  then have "current_token (parse_first_token_in_value_and_set_current p) \<noteq> ERROR" by simp
  from first_token_cases(4) [OF refl this] s show False by simp
qed

lemma success_stack:
  assumes "parse_next_token_and_set_current name p = (q, f)" "current_token q = SUCCESS"
  shows "stack_size p = 0"
  using assms first_token_success
  by (auto simp: parse_next_token_and_set_current_def parse_field_name_and_set_current_def Let_def
      end_context_def split: if_splits option.splits)

section \<open>Both loops end\<close>

lemma skip_loop_ends: "\<exists>r. skip_loop opened p = Some r"
proof (induction "length (chars p) - curr_pos p" arbitrary: p opened rule: less_induct)
  case less
  let ?q = "next_token p"
  obtain f where q: "parse_next_token_and_set_current None p = (?q, f)"
    by (metis next_token_def prod.collapse)
  show ?case
  proof (cases "current_token ?q = ERROR \<or> current_token ?q = SUCCESS")
    case True
    then show ?thesis by (subst skip_loop.simps) (auto simp: Let_def)
  next
    case False
    note n = next_token_cases [OF q]
    have "length (chars ?q) - curr_pos ?q < length (chars p) - curr_pos p" using n False by auto
    from less [OF this] show ?thesis by (subst skip_loop.simps) (auto simp: Let_def)
  qed
qed

lemma try_skip_children_ends: "\<exists>r. try_skip_children p = Some r"
  using skip_loop_ends by (auto simp: try_skip_children_def Let_def)

lemma copy_loop_ends:
  "0 < b \<Longrightarrow> b \<le> stack_size p \<Longrightarrow> \<exists>r. copy_loop norm b p d n = Some r"
proof (induction "length (chars p) - curr_pos p" arbitrary: p d n rule: less_induct)
  case less
  obtain q f where q: "parse_next_token_and_set_current None p = (q, f)" by fastforce
  show ?case
  proof (cases "current_token q = ERROR")
    case True
    then show ?thesis by (subst copy_loop.simps) (simp add: q)
  next
    case False
    have s: "current_token q \<noteq> SUCCESS" using success_stack [OF q] less.prems by auto
    note nt = next_token_cases [OF q False s]
    have m: "length (chars q) - curr_pos q < length (chars p) - curr_pos p" using nt by auto
    have "int (stack_size q) \<ge> int (stack_size p) - 1" using nt(4) by (auto simp: token_delta_def split: if_splits)
    then consider "int b - 1 = int (stack_size q)" | "b \<le> stack_size q" using less.prems by linarith
    then show ?thesis
    proof cases
      case 1
      then show ?thesis using False by (subst copy_loop.simps) (simp add: q Let_def write_escaped_text_def write_text_eq)
    next
      case 2
      from less.hyps [OF m less.prems(1) 2] show ?thesis using False
        by (subst copy_loop.simps) (simp add: q Let_def write_escaped_text_def write_text_eq)
    qed
  qed
qed

lemma copy_ends:
  assumes "current_token p = START_OBJECT \<or> current_token p = START_ARRAY \<Longrightarrow> 0 < stack_size p"
  shows "\<exists>r. copy_current_structure_parser norm p d = Some r"
  using copy_loop_ends [of "stack_size p" p norm] assms
  by (auto simp: copy_current_structure_parser_def Let_def case_prod_unfold)

section \<open>Values are skipped and copied as a whole\<close>

lemma skip_run:
  "run norm k p t q \<Longrightarrow> k < stack_size p \<Longrightarrow>
    skip_loop (int (stack_size p) - int k) p = skip_loop (int (stack_size q) - int k) q"
proof (induction rule: run.induct)
  case (run_step p p1 f t q)
  have n: "next_token p = p1" by (simp add: next_token_def run_step(1))
  have d: "int (stack_size p1) - int k = int (stack_size p) - int k + token_delta (current_token p1)"
    using next_token_cases(4) [OF run_step(1)] run_step(2) by auto
  have pos: "int (stack_size p1) - int k > 0" using run_step(3) by simp
  have u: "skip_loop a p = skip_loop (a + token_delta (current_token p1)) p1"
    if "a + token_delta (current_token p1) > 0" for a
    unfolding skip_loop.simps [of a p] n using run_step(2) that
    by (cases "current_token p1") (simp_all add: token_delta_def Let_def)
  have "skip_loop (int (stack_size p) - int k) p = skip_loop (int (stack_size p1) - int k) p1"
    using u [of "int (stack_size p) - int k"] pos unfolding d [symmetric] by simp
  then show ?case using run_step.IH run_step(3) by simp
qed simp

lemma emit_emit: "emit b (emit a d) = emit (a @ b) d"
  by (cases d) simp_all

lemma copy_run:
  "run norm k p t q \<Longrightarrow> copy_loop norm (Suc k) p d n = copy_loop norm (Suc k) q (emit t d) (n + int (length t))"
proof (induction arbitrary: d n rule: run.induct)
  case (run_refl p)
  have "emit [] d = d" by (cases d) simp_all
  then show ?case by simp
next
  case (run_step p p1 f t q)
  let ?s = "step_text norm p1 f"
  have "copy_loop norm (Suc k) p d n = copy_loop norm (Suc k) p1 (emit ?s d) (n + int (length ?s))"
    using run_step(2,3)
    by (subst copy_loop.simps)
      (auto simp: run_step(1) Let_def write_escaped_text_def write_text_eq step_text_def emit_emit add.assoc)
  also have "\<dots> = copy_loop norm (Suc k) q (emit t (emit ?s d)) (n + int (length ?s) + int (length t))"
    by (rule run_step.IH)
  finally show ?case by (simp add: emit_emit add.assoc)
qed

text \<open>Behind a value: the parser stands at the rest, with the stack as before.\<close>

definition behind :: "json_parser \<Rightarrow> byte list \<Rightarrow> json_parser \<Rightarrow> bool" where
  "behind p r q \<longleftrightarrow> standing q r \<and> contexts q = contexts p \<and> same_row p q \<and> value_end (current_token q)"

lemma closes_loops:
  assumes "closes norm p1 t r tx" "contexts p1 = contexts p @ [b]" "same_row p p1"
    "t = END_ARRAY \<and> c = 93 \<or> t = END_OBJECT \<and> c = 125"
  shows "\<exists>q. behind p r q \<and> skip_loop 1 p1 = Some (True, q)
    \<and> copy_loop norm (stack_size p1) p1 d n
      = Some \<lparr>c_ok = True, c_len = n + int (length tx) + 1, c_dest = emit (tx @ [c]) d, c_parser = q\<rparr>"
proof -
  obtain p2 p3 where c: "run norm (stack_size p1 - 1) p1 tx p2"
    "parse_next_token_and_set_current None p2 = (p3, no_flags)" "current_token p3 = t" "standing p3 r"
    "contexts p3 = butlast (contexts p1)" "same_row p1 p3"
    using assms(1) unfolding closes_def by blast
  have p3: "contexts p3 = contexts p" using c(5) assms(2) by simp
  have s: "stack_size p1 = Suc (stack_size p)" "stack_size p3 = stack_size p"
    using p3 assms(2) by (metis length_append_singleton length_contexts, metis length_contexts)
  let ?k = "stack_size p"
  have r: "run norm ?k p1 tx p2" using c(1) s by simp
  have d2: "int (stack_size p2) = int ?k + 1"
    using next_token_cases(4) [OF c(2)] c(3) s assms(4) by (auto simp: token_delta_def)
  have n: "next_token p2 = p3" by (simp add: next_token_def c(2))
  have "skip_loop 1 p1 = skip_loop 1 p2" using skip_run [OF r] s d2 by simp
  also have "\<dots> = Some (True, p3)"
    using c(3) assms(4) by (subst skip_loop.simps) (auto simp: Let_def n)
  finally have sk: "skip_loop 1 p1 = Some (True, p3)" .
  have tt: "token_text ESCAPED norm p3 = [c]" using assms(4) c(3) by (auto simp: token_text_simps)
  have "copy_loop norm (stack_size p1) p1 d n = copy_loop norm (Suc ?k) p2 (emit tx d) (n + int (length tx))"
    using copy_run [OF r] s by simp
  also have "\<dots> = Some \<lparr>c_ok = True, c_len = n + int (length tx) + 1, c_dest = emit (tx @ [c]) d, c_parser = p3\<rparr>"
    using c(3) assms(4) s
    by (subst copy_loop.simps) (auto simp: c(2) Let_def write_escaped_text_def write_text_eq tt no_flags_def emit_emit)
  finally show ?thesis
    using sk p3 c(3,4) same_row_trans [OF assms(3) c(6)] assms(4)
    by (intro exI [of _ p3]) (auto simp: behind_def value_end_def)
qed

lemma value_skip:
  assumes "value_run norm p v r" "p1 = parse_first_token_in_value_and_set_current p"
  shows "\<exists>q. try_skip_children p1 = Some (True, q) \<and> behind p r q"
proof (cases v)
  case (Scalar t s)
  then show ?thesis using assms
    by (auto simp: value_run_def Let_def try_skip_children_def behind_def value_end_def)
next
  case (Arr vs)
  then have a: "closes norm p1 END_ARRAY r (join (map (compact norm) vs))" "contexts p1 = contexts p @ [False]"
    "same_row p p1" "current_token p1 = START_ARRAY" using assms by (simp_all add: value_run_def Let_def)
  from closes_loops [OF a(1-3), of 93] show ?thesis using a(4) by (auto simp: try_skip_children_def)
next
  case (Obj fs)
  then have a: "closes norm p1 END_OBJECT r (join (map field_text (map (map_prod id (compact norm)) fs)))"
    "contexts p1 = contexts p @ [True]" "same_row p p1" "current_token p1 = START_OBJECT"
    using assms by (simp_all add: value_run_def Let_def)
  from closes_loops [OF a(1-3), of 125] show ?thesis using a(4) by (auto simp: try_skip_children_def)
qed

lemma value_copy:
  assumes "value_run norm p v r" "p1 = parse_first_token_in_value_and_set_current p"
  shows "\<exists>q. copy_current_structure_parser norm p1 d =
      Some \<lparr>c_ok = True, c_len = int (length (compact norm v)), c_dest = emit (compact norm v) d, c_parser = q\<rparr>
    \<and> behind p r q"
proof (cases v)
  case (Scalar t s)
  then have a: "current_token p1 = t" "value_end t" "standing p1 r" "contexts p1 = contexts p" "same_row p p1"
    "token_text ESCAPED norm p1 = scalar_out ESCAPED norm t s" "t \<noteq> END_ARRAY" "t \<noteq> END_OBJECT"
    using assms first_token_cases(4) [OF assms(2)] by (auto simp: value_run_def Let_def value_end_def)
  then show ?thesis using Scalar
    by (intro exI [of _ p1])
      (auto simp: copy_current_structure_parser_def Let_def write_escaped_text_def write_text_eq value_end_def behind_def)
next
  case (Arr vs)
  let ?t = "join (map (compact norm) vs)"
  have a: "closes norm p1 END_ARRAY r ?t" "contexts p1 = contexts p @ [False]"
    "same_row p p1" "current_token p1 = START_ARRAY" using assms Arr by (simp_all add: value_run_def Let_def)
  from closes_loops [OF a(1-3), of 93 "emit [91] d" 1] show ?thesis using a(4) Arr
    by (auto simp: copy_current_structure_parser_def Let_def write_escaped_text_def write_text_eq token_text_simps
        emit_emit add.commute)
next
  case (Obj fs)
  let ?t = "join (map field_text (map (map_prod id (compact norm)) fs))"
  have a: "closes norm p1 END_OBJECT r ?t" "contexts p1 = contexts p @ [True]"
    "same_row p p1" "current_token p1 = START_OBJECT" using assms Obj by (simp_all add: value_run_def Let_def)
  from closes_loops [OF a(1-3), of 125 "emit [123] d" 1] show ?thesis using a(4) Obj
    by (auto simp: copy_current_structure_parser_def Let_def write_escaped_text_def write_text_eq token_text_simps
        emit_emit add.commute)
qed

end
