(* ===== verification/GetJsonObject.thy ===== *)
theory GetJsonObject
  imports JsonParser "HOL-Library.List_Lexorder" "HOL-Library.Product_Lexorder"
begin

text \<open>
  The evaluation of a JSON path (\<open>get_json_object.cu\<close>): the generator that writes into a shared
  buffer, the evaluator with its explicit stack of tasks, the kernel over the rows and the host
  functions. The buffer is a memory, a function from addresses to bytes; the addresses an evaluation
  uses are relative to the place of its row.
\<close>

section \<open>Memory and generator\<close>

type_synonym memory = "nat \<Rightarrow> byte"

definition store :: "memory \<Rightarrow> nat \<Rightarrow> byte list \<Rightarrow> memory" where
  "store mem a bs = (\<lambda>i. if a \<le> i \<and> i < a + length bs then bs ! (i - a) else mem i)"

definition load :: "memory \<Rightarrow> nat \<Rightarrow> nat \<Rightarrow> byte list" where
  "load mem a n = map mem [a..<a + n]"

datatype write_style = RAW | QUOTED | FLATTEN

datatype path_instruction_type = WILDCARD | INDEX | NAMED

record path_instruction =
  pi_name :: "byte list"
  pi_index :: int
  pi_type :: path_instruction_type

definition MAX_JSON_PATH_DEPTH :: nat where
  "MAX_JSON_PATH_DEPTH = 16"

text \<open>\<open>is_curr_array_empty\<close> is read only inside an array, where it has been set.\<close>

record json_generator =
  offset :: nat
  output_len :: nat
  array_depth :: int
  is_curr_array_empty :: bool

definition new_json_generator :: "nat \<Rightarrow> json_generator" where
  "new_json_generator off = \<lparr>offset = off, output_len = 0, array_depth = 0, is_curr_array_empty = False\<rparr>"

definition new_child_generator :: "json_generator \<Rightarrow> json_generator" where
  "new_child_generator g = new_json_generator (offset g + output_len g)"

definition need_comma :: "json_generator \<Rightarrow> bool" where
  "need_comma g \<longleftrightarrow> array_depth g > 0 \<and> \<not> is_curr_array_empty g"

text \<open>Append to the output of the generator.\<close>

definition put :: "byte list \<Rightarrow> json_generator \<times> memory \<Rightarrow> json_generator \<times> memory" where
  "put bs gm =
     (case gm of (g, mem) \<Rightarrow>
        (g\<lparr>output_len := output_len g + length bs\<rparr>, store mem (offset g + output_len g) bs))"

definition try_write_comma :: "json_generator \<times> memory \<Rightarrow> json_generator \<times> memory" where
  "try_write_comma gm = (if need_comma (fst gm) then put [44] gm else gm)"

definition write_start_array :: "json_generator \<times> memory \<Rightarrow> json_generator \<times> memory" where
  "write_start_array gm =
     (case put [91] (try_write_comma gm) of (g, mem) \<Rightarrow>
        (g\<lparr>array_depth := array_depth g + 1, is_curr_array_empty := True\<rparr>, mem))"

definition write_end_array :: "json_generator \<times> memory \<Rightarrow> json_generator \<times> memory" where
  "write_end_array gm =
     (case put [93] gm of (g, mem) \<Rightarrow>
        (g\<lparr>array_depth := array_depth g - 1, is_curr_array_empty := False\<rparr>, mem))"

definition write_first_start_array_without_output :: "json_generator \<Rightarrow> json_generator" where
  "write_first_start_array_without_output g =
     g\<lparr>array_depth := array_depth g + 1, is_curr_array_empty := True\<rparr>"

definition no_longer_empty :: "json_generator \<Rightarrow> json_generator" where
  "no_longer_empty g = (if array_depth g > 0 then g\<lparr>is_curr_array_empty := False\<rparr> else g)"

text \<open>
  A copy that fails leaves the bytes it has written, but returns the length 0.
\<close>

definition copy_current_structure ::
  "(byte list \<Rightarrow> byte list) \<Rightarrow> json_parser \<Rightarrow> json_generator \<times> memory
     \<Rightarrow> (bool \<times> json_parser \<times> json_generator \<times> memory) option" where
  "copy_current_structure norm p gm =
     (case try_write_comma gm of (g, mem) \<Rightarrow>
        let g = no_longer_empty g in
        case copy_current_structure_parser norm p (Some []) of
          None \<Rightarrow> None
        | Some c \<Rightarrow>
            Some (c_ok c, c_parser c, g\<lparr>output_len := output_len g + nat (c_len c)\<rparr>,
                  store mem (offset g + output_len g) (the (c_dest c))))"

definition write_raw ::
  "(byte list \<Rightarrow> byte list) \<Rightarrow> json_parser \<Rightarrow> json_generator \<times> memory \<Rightarrow> json_generator \<times> memory" where
  "write_raw norm p gm =
     (case gm of (g, mem) \<Rightarrow>
        put (the (fst (write_unescaped_text norm p (Some [])))) (no_longer_empty g, mem))"

text \<open>Move \<open>len\<close> bytes by \<open>forward\<close>, the last one first.\<close>

primrec move_forward :: "memory \<Rightarrow> nat \<Rightarrow> nat \<Rightarrow> nat \<Rightarrow> memory" where
  "move_forward mem begin 0 forward = mem"
| "move_forward mem begin (Suc n) forward =
     move_forward (mem(begin + n + forward := mem (begin + n))) begin n forward"

definition write_child_raw_value ::
  "nat \<Rightarrow> nat \<Rightarrow> bool \<Rightarrow> json_generator \<times> memory \<Rightarrow> json_generator \<times> memory" where
  "write_child_raw_value begin len write_outer_array_tokens gm =
     (case gm of (g, mem) \<Rightarrow>
        let insert_comma = need_comma g;
            g = no_longer_empty g;
            mem =
              (if write_outer_array_tokens then
                 if insert_comma then
                   (move_forward (mem(begin + len + 2 := 93)) begin len 2)(begin + 1 := 91, begin := 44)
                 else (move_forward (mem(begin + len + 1 := 93)) begin len 1)(begin := 91)
               else if insert_comma then (move_forward mem begin len 1)(begin := 44)
               else mem)
        in (g\<lparr>output_len := output_len g + (if insert_comma then 1 else 0)
                + (if write_outer_array_tokens then 2 else 0) + len\<rparr>, mem))"

section \<open>Tasks\<close>

datatype evaluation_case_path =
    INVALID
  | START_ARRAY___EMPTY_PATH___FLATTEN_STYLE
  | START_OBJECT___MATCHED_NAME_PATH
  | START_ARRAY___MATCHED_DOUBLE_WILDCARD
  | START_ARRAY___MATCHED_WILDCARD___STYLE_NOT_QUOTED
  | START_ARRAY___MATCHED_WILDCARD
  | START_ARRAY___MATCHED_INDEX_AND_WILDCARD
  | START_ARRAY___MATCHED_INDEX

text \<open>A task is the \<open>context\<close> of the code.\<close>

record task =
  gen :: json_generator
  child_gen :: json_generator
  path :: "path_instruction list"
  dirty :: int
  case_path :: evaluation_case_path
  token :: json_token
  style :: write_style
  is_first_enter :: bool
  task_is_done :: bool

text \<open>The state of an evaluation; the task on top of the stack comes first.\<close>

record eval =
  parser :: json_parser
  mem :: memory
  tasks :: "task list"
  path_depth_exceeded :: bool

definition push_eval_context ::
  "evaluation_case_path \<Rightarrow> json_generator \<Rightarrow> write_style \<Rightarrow> path_instruction list \<Rightarrow> eval \<Rightarrow> eval" where
  "push_eval_context cp g st pth e =
     (if length (tasks e) > MAX_JSON_PATH_DEPTH then e\<lparr>path_depth_exceeded := True\<rparr>
      else e\<lparr>tasks :=
        \<lparr>gen = g, child_gen = g, path = pth, dirty = 0, case_path = cp,
         token = current_token (parser e), style = st, is_first_enter = True, task_is_done = False\<rparr>
        # tasks e\<rparr>)"

definition path_match_element :: "path_instruction list \<Rightarrow> path_instruction_type \<Rightarrow> bool" where
  "path_match_element pth t \<longleftrightarrow> (case pth of [] \<Rightarrow> False | i # _ \<Rightarrow> pi_type i = t)"

definition path_match_elements ::
  "path_instruction list \<Rightarrow> path_instruction_type \<Rightarrow> path_instruction_type \<Rightarrow> bool" where
  "path_match_elements pth t0 t1 \<longleftrightarrow>
     (case pth of i # j # _ \<Rightarrow> pi_type i = t0 \<and> pi_type j = t1 | _ \<Rightarrow> False)"

text \<open>
  The result of a step: the next state, or the value that the evaluation returns, whether it
  succeeded, the size of the output and the last state. \<open>None\<close> is a loop that does not end.
\<close>

type_synonym step_result = "(eval + (bool \<times> nat \<times> eval)) option"

definition fails :: "eval \<Rightarrow> step_result" where
  "fails e = Some (Inr (False, 0, e))"

definition at_error :: "eval \<Rightarrow> bool" where
  "at_error e \<longleftrightarrow> current_token (parser e) = ERROR"

definition advance_token :: "eval \<Rightarrow> eval" where
  "advance_token e = e\<lparr>parser := next_token (parser e)\<rparr>"

text \<open>Write the task on top of the stack back, with its memory.\<close>

definition set_top :: "task \<Rightarrow> eval \<Rightarrow> eval" where
  "set_top c e = e\<lparr>tasks := c # tl (tasks e)\<rparr>"

definition finished :: "task \<Rightarrow> eval \<Rightarrow> step_result" where
  "finished c e = Some (Inl (set_top (c\<lparr>task_is_done := True\<rparr>) e))"

section \<open>The case paths\<close>

definition case_path_1 :: "(byte list \<Rightarrow> byte list) \<Rightarrow> task \<Rightarrow> eval \<Rightarrow> step_result" where
  "case_path_1 norm c e =
     (case write_raw norm (parser e) (gen c, mem e) of (g, m) \<Rightarrow>
        finished (c\<lparr>gen := g, dirty := 1\<rparr>) (e\<lparr>mem := m\<rparr>))"

definition case_path_2 :: "task \<Rightarrow> eval \<Rightarrow> step_result" where
  "case_path_2 c e =
     (let e = advance_token e in
      if current_token (parser e) \<noteq> END_ARRAY then
        if at_error e then fails e
        else Some (Inl (push_eval_context START_ARRAY___EMPTY_PATH___FLATTEN_STYLE (gen c) (style c) [] e))
      else finished c e)"

definition case_path_3 :: "(byte list \<Rightarrow> byte list) \<Rightarrow> task \<Rightarrow> eval \<Rightarrow> step_result" where
  "case_path_3 norm c e =
     (case copy_current_structure norm (parser e) (gen c, mem e) of
        None \<Rightarrow> None
      | Some (ok, p, g, m) \<Rightarrow>
          if ok then finished (c\<lparr>gen := g, dirty := 1\<rparr>) (e\<lparr>parser := p, mem := m\<rparr>)
          else fails (e\<lparr>parser := p, mem := m\<rparr>))"

text \<open>Skip the fields up to the end of the object.\<close>

partial_function (option) skip_fields :: "json_parser \<Rightarrow> (bool \<times> json_parser) option" where
  "skip_fields p =
     (let p = next_token p in
      if current_token p = END_OBJECT then Some (True, p)
      else if current_token p = ERROR then Some (False, p)
      else
        let p = next_token p in
        if current_token p = ERROR then Some (False, p)
        else Option.bind (try_skip_children p) (\<lambda>(ok, p). if ok then skip_fields p else Some (False, p)))"

text \<open>
  Find the field with the name: \<open>None\<close> ends the evaluation; otherwise whether it was found, with the
  parser at its value.
\<close>

partial_function (option) find_field :: "byte list \<Rightarrow> json_parser \<Rightarrow> (bool option \<times> json_parser) option" where
  "find_field name p =
     (case parse_next_token_with_matching name p of (p, m) \<Rightarrow>
        if current_token p = END_OBJECT then Some (Some False, p)
        else if current_token p = ERROR then Some (None, p)
        else
          let p = next_token p in
          if current_token p = ERROR then Some (None, p)
          else if m = Some True then
            (if current_token p = VALUE_NULL then Some (None, p) else Some (Some True, p))
          else
            Option.bind (try_skip_children p) (\<lambda>(ok, p). if ok then find_field name p else Some (None, p)))"

definition case_path_4 :: "task \<Rightarrow> eval \<Rightarrow> step_result" where
  "case_path_4 c e =
     (if \<not> is_first_enter c then
        if dirty c > 0 then
          (case skip_fields (parser e) of
             None \<Rightarrow> None
           | Some (ok, p) \<Rightarrow>
               let e = e\<lparr>parser := p\<rparr> in if ok then finished c e else fails e)
        else finished c e
      else
        let c = c\<lparr>is_first_enter := False\<rparr> in
        case find_field (pi_name (hd (path c))) (parser e) of
          None \<Rightarrow> None
        | Some (found, p) \<Rightarrow>
            let e = e\<lparr>parser := p\<rparr> in
            case found of
              None \<Rightarrow> fails e
            | Some True \<Rightarrow>
                Some (Inl (push_eval_context START_OBJECT___MATCHED_NAME_PATH (gen c) (style c) (tl (path c))
                  (set_top c e)))
            | Some False \<Rightarrow> finished (c\<lparr>dirty := 0\<rparr>) e)"

text \<open>The case paths 5 and 7 write an array around the results of the elements.\<close>

definition wildcard_elements ::
  "evaluation_case_path \<Rightarrow> write_style \<Rightarrow> nat \<Rightarrow> task \<Rightarrow> eval \<Rightarrow> step_result" where
  "wildcard_elements cp st n c e =
     (let (g, m) = (if is_first_enter c then write_start_array (gen c, mem e) else (gen c, mem e));
          c = c\<lparr>gen := g, is_first_enter := False\<rparr>;
          e = advance_token (e\<lparr>mem := m\<rparr>)
      in
        if current_token (parser e) \<noteq> END_ARRAY then
          if at_error e then fails e
          else Some (Inl (push_eval_context cp (gen c) st (drop n (path c)) (set_top c e)))
        else
          (case write_end_array (gen c, mem e) of (g, m) \<Rightarrow> finished (c\<lparr>gen := g\<rparr>) (e\<lparr>mem := m\<rparr>)))"

definition case_path_5 :: "task \<Rightarrow> eval \<Rightarrow> step_result" where
  "case_path_5 = wildcard_elements START_ARRAY___MATCHED_DOUBLE_WILDCARD FLATTEN 2"

definition case_path_7 :: "task \<Rightarrow> eval \<Rightarrow> step_result" where
  "case_path_7 = wildcard_elements START_ARRAY___MATCHED_WILDCARD QUOTED 1"

definition case_path_6 :: "task \<Rightarrow> eval \<Rightarrow> step_result" where
  "case_path_6 c e =
     (let next_style = (case style c of RAW \<Rightarrow> QUOTED | FLATTEN \<Rightarrow> FLATTEN | QUOTED \<Rightarrow> QUOTED);
          child_g = (if is_first_enter c
                     then write_first_start_array_without_output (new_child_generator (gen c))
                     else child_gen c);
          c = c\<lparr>is_first_enter := False\<rparr>;
          e = advance_token e
      in
        if current_token (parser e) \<noteq> END_ARRAY then
          if at_error e then fails e
          else Some (Inl (push_eval_context START_ARRAY___MATCHED_WILDCARD___STYLE_NOT_QUOTED child_g next_style
                  (tl (path c)) (set_top c e)))
        else
          (case (if dirty c > 1 then write_child_raw_value (offset child_g) (output_len child_g) True (gen c, mem e)
                 else if dirty c = 1
                 then write_child_raw_value (offset child_g) (output_len child_g) False (gen c, mem e)
                 else (gen c, mem e)) of
             (g, m) \<Rightarrow> finished (c\<lparr>gen := g\<rparr>) (e\<lparr>mem := m\<rparr>)))"

text \<open>The loop of the case paths 8 and 9 over the elements in front of the index.\<close>

primrec skip_elements :: "nat \<Rightarrow> json_parser \<Rightarrow> (bool \<times> json_parser) option" where
  "skip_elements 0 p = Some (True, p)"
| "skip_elements (Suc i) p =
     (if current_token p = END_ARRAY then Some (False, p)
      else
        (case try_skip_children p of
           None \<Rightarrow> None
         | Some (ok, p) \<Rightarrow>
             if \<not> ok then Some (False, p)
             else
               let p = next_token p in
               if current_token p = ERROR then Some (False, p) else skip_elements i p))"

definition index_element :: "evaluation_case_path \<Rightarrow> write_style \<Rightarrow> task \<Rightarrow> eval \<Rightarrow> step_result" where
  "index_element cp st c e =
     (let e = advance_token e in
      if at_error e then fails e
      else
        (case skip_elements (nat (pi_index (hd (path c)))) (parser e) of
           None \<Rightarrow> None
         | Some (ok, p) \<Rightarrow>
             let e = e\<lparr>parser := p\<rparr> in
             if ok then Some (Inl (push_eval_context cp (gen c) st (tl (path c)) (set_top c e)))
             else fails e))"

definition case_path_8 :: "task \<Rightarrow> eval \<Rightarrow> step_result" where
  "case_path_8 c e = index_element START_ARRAY___MATCHED_INDEX_AND_WILDCARD QUOTED (c\<lparr>is_first_enter := False\<rparr>) e"

definition case_path_9 :: "task \<Rightarrow> eval \<Rightarrow> step_result" where
  "case_path_9 c e = index_element START_ARRAY___MATCHED_INDEX (style c) c e"

definition case_path_12 :: "task \<Rightarrow> eval \<Rightarrow> step_result" where
  "case_path_12 c e =
     (case try_skip_children (parser e) of
        None \<Rightarrow> None
      | Some (ok, p) \<Rightarrow>
          let e = e\<lparr>parser := p\<rparr> in
          if ok then finished (c\<lparr>dirty := 0\<rparr>) e else fails e)"

definition run_task :: "(byte list \<Rightarrow> byte list) \<Rightarrow> task \<Rightarrow> eval \<Rightarrow> step_result" where
  "run_task norm c e =
     (if token c = VALUE_STRING \<and> path c = [] \<and> style c = RAW then case_path_1 norm c e
      else if token c = START_ARRAY \<and> path c = [] \<and> style c = FLATTEN then case_path_2 c e
      else if path c = [] then case_path_3 norm c e
      else if token c = START_OBJECT \<and> pi_type (hd (path c)) = NAMED then case_path_4 c e
      else if token c = START_ARRAY \<and> path_match_elements (path c) WILDCARD WILDCARD then case_path_5 c e
      else if token c = START_ARRAY \<and> path_match_element (path c) WILDCARD \<and> style c \<noteq> QUOTED
      then case_path_6 c e
      else if token c = START_ARRAY \<and> path_match_element (path c) WILDCARD then case_path_7 c e
      else if token c = START_ARRAY \<and> path_match_elements (path c) INDEX WILDCARD then case_path_8 c e
      else if token c = START_ARRAY \<and> path_match_element (path c) INDEX then case_path_9 c e
      else case_path_12 c e)"

section \<open>The evaluation\<close>

text \<open>Advance to the end of the array behind the element with the index.\<close>

partial_function (option) finish_array :: "json_parser \<Rightarrow> (bool \<times> json_parser) option" where
  "finish_array p =
     (let p = next_token p in
      if current_token p = END_ARRAY then Some (True, p)
      else if current_token p = ERROR then Some (False, p)
      else Option.bind (try_skip_children p) (\<lambda>(ok, p). if ok then finish_array p else Some (False, p)))"

text \<open>A finished task is popped and its results go to the task below.\<close>

definition pop_task :: "eval \<Rightarrow> step_result" where
  "pop_task e =
     (case tasks e of
        [] \<Rightarrow> None
      | [c] \<Rightarrow> Some (Inr (dirty c > 0, if dirty c > 0 then output_len (gen c) else 0, e\<lparr>tasks := []\<rparr>))
      | c # pc # ts \<Rightarrow>
          (let e = e\<lparr>tasks := pc # ts\<rparr> in
           case case_path c of
             START_OBJECT___MATCHED_NAME_PATH \<Rightarrow>
               Some (Inl (set_top (pc\<lparr>dirty := dirty c, gen := gen c\<rparr>) e))
           | START_ARRAY___MATCHED_WILDCARD___STYLE_NOT_QUOTED \<Rightarrow>
               Some (Inl (set_top (pc\<lparr>dirty := dirty pc + dirty c, child_gen := gen c\<rparr>) e))
           | INVALID \<Rightarrow> Some (Inl e)
           | cp \<Rightarrow>
               if cp = START_ARRAY___MATCHED_INDEX \<or> cp = START_ARRAY___MATCHED_INDEX_AND_WILDCARD then
                 (case finish_array (parser e) of
                    None \<Rightarrow> None
                  | Some (ok, p) \<Rightarrow>
                      let pc = pc\<lparr>dirty := dirty pc + dirty c\<rparr>; e = e\<lparr>parser := p\<rparr> in
                      if ok then finished (pc\<lparr>gen := gen c\<rparr>) e else fails (set_top pc e))
               else
                 (let d = dirty pc + dirty c in
                  Some (Inl (set_top (pc\<lparr>dirty := if d > 0 then 1 else d, gen := gen c\<rparr>) e)))))"

definition eval_step :: "(byte list \<Rightarrow> byte list) \<Rightarrow> eval \<Rightarrow> step_result" where
  "eval_step norm e =
     (let c = hd (tasks e) in if \<not> task_is_done c then run_task norm c e else pop_task e)"

partial_function (option) eval_loop ::
  "(byte list \<Rightarrow> byte list) \<Rightarrow> eval \<Rightarrow> (bool \<times> nat \<times> eval) option" where
  "eval_loop norm e =
     Option.bind (eval_step norm e) (\<lambda>r. case r of Inl e \<Rightarrow> eval_loop norm e | Inr x \<Rightarrow> Some x)"

definition evaluate_path ::
  "(byte list \<Rightarrow> byte list) \<Rightarrow> json_parser \<Rightarrow> path_instruction list \<Rightarrow> memory
     \<Rightarrow> (bool \<times> nat \<times> eval) option" where
  "evaluate_path norm p path_commands out_buf =
     (let e = \<lparr>parser = next_token p, mem = out_buf, tasks = [], path_depth_exceeded = False\<rparr> in
      if at_error e then Some (False, 0, e)
      else eval_loop norm (push_eval_context INVALID (new_json_generator 0) RAW path_commands e))"

section \<open>The kernel\<close>

text \<open>
  What the kernel keeps for one path: the offset of the place of each row in the buffer, and one more
  for the end; where the results go, a null pointer in the second launch; the buffer; the marker. A
  result is whether it is valid, its place and its size.
\<close>

record json_path_processing_data =
  path_commands :: "path_instruction list"
  offsets :: "nat list"
  out_stringviews :: "(bool \<times> nat \<times> nat) list option"
  out_buf :: memory
  has_out_of_bound :: bool

text \<open>
  One thread: the row \<open>i\<close> of one path. Also returns whether the depth limit was exceeded.
\<close>

definition get_json_object_row ::
  "(byte list \<Rightarrow> byte list) \<Rightarrow> garbage \<Rightarrow> byte list \<Rightarrow> nat \<Rightarrow> json_path_processing_data
     \<Rightarrow> (json_path_processing_data \<times> bool) option" where
  "get_json_object_row norm g str i d =
     (let dst = offsets d ! i;
          write = (\<lambda>r d. d\<lparr>out_stringviews := map_option (\<lambda>vs. vs[i := r]) (out_stringviews d)\<rparr>)
      in
        if length str > 0 then
          (case evaluate_path norm (new_json_parser g str) (path_commands d) (\<lambda>j. out_buf d (dst + j)) of
             None \<Rightarrow> None
           | Some (is_valid, out_size, e) \<Rightarrow>
               let d = d\<lparr>out_buf := \<lambda>j. if dst \<le> j then mem e (j - dst) else out_buf d j\<rparr> in
               if max_depth_exceeded (parser e) then Some (d, True)
               else
                 let max_size = offsets d ! (i + 1) - offsets d ! i;
                     d = (if out_size > max_size then d\<lparr>has_out_of_bound := True\<rparr> else d)
                 in Some (write (is_valid, dst, out_size) d, path_depth_exceeded e))
        else Some (write (False, dst, 0) d, False))"

text \<open>
  The threads of one path, from the row \<open>i\<close> on. On the device they run at the same time; here they run
  one after the other. The two agree where every thread writes to its own place only. A row whose
  evaluation fails after it has written something is not kept to its place: its size is 0, so
  nothing is reported, and in the second launch its place is empty. For such rows this is one of the
  possible executions, and which bytes the next row ends up with is not determined by the code.
  The sizes, the markers and the end of the evaluation never depend on the buffer.
\<close>

primrec get_json_object_kernel ::
  "(byte list \<Rightarrow> byte list) \<Rightarrow> (nat \<Rightarrow> garbage) \<Rightarrow> byte list list \<Rightarrow> nat \<Rightarrow> json_path_processing_data
     \<Rightarrow> (json_path_processing_data \<times> bool) option" where
  "get_json_object_kernel norm gs [] i d = Some (d, False)"
| "get_json_object_kernel norm gs (str # rows) i d =
     (case get_json_object_row norm (gs i) str i d of
        None \<Rightarrow> None
      | Some (d, x) \<Rightarrow>
          (case get_json_object_kernel norm gs rows (i + 1) d of
             None \<Rightarrow> None
           | Some (d, y) \<Rightarrow> Some (d, x \<or> y)))"

section \<open>The host\<close>

datatype json_error = Path_depth_exceeded | Nesting_depth_exceeded | Unexpected_out_of_bound

primrec prefix_sums :: "nat \<Rightarrow> nat list \<Rightarrow> nat list" where
  "prefix_sums s [] = [s]"
| "prefix_sums s (n # ns) = s # prefix_sums (s + n) ns"

definition first_launch ::
  "(byte list \<Rightarrow> byte list) \<Rightarrow> (nat \<Rightarrow> garbage) \<Rightarrow> memory \<Rightarrow> byte list list \<Rightarrow> path_instruction list
     \<Rightarrow> (json_path_processing_data \<times> bool) option" where
  "first_launch norm gs scratch rows pth =
     get_json_object_kernel norm gs rows 0
       \<lparr>path_commands = pth, offsets = prefix_sums 0 (map length rows),
        out_stringviews = Some (replicate (length rows) (False, 0, 0)),
        out_buf = scratch, has_out_of_bound = False\<rparr>"

text \<open>The strings that the results point to.\<close>

definition gather :: "json_path_processing_data \<Rightarrow> byte list option list" where
  "gather d = map (\<lambda>(valid, a, n). if valid then Some (load (out_buf d) a n) else None) (the (out_stringviews d))"

text \<open>The second launch writes every row of a path to a place of the size found by the first launch.\<close>

definition second_launch ::
  "(byte list \<Rightarrow> byte list) \<Rightarrow> (nat \<Rightarrow> garbage) \<Rightarrow> memory \<Rightarrow> byte list list \<Rightarrow> json_path_processing_data
     \<Rightarrow> (json_path_processing_data \<times> bool) option" where
  "second_launch norm gs buffer rows d =
     get_json_object_kernel norm gs rows 0
       \<lparr>path_commands = path_commands d,
        offsets = prefix_sums 0 (map (\<lambda>(v, a, n). n) (the (out_stringviews d))),
        out_stringviews = None, out_buf = buffer, has_out_of_bound = False\<rparr>"

definition gather_second :: "json_path_processing_data \<Rightarrow> json_path_processing_data \<Rightarrow> byte list option list" where
  "gather_second d d2 =
     map (\<lambda>((valid, _, n), a). if valid then Some (load (out_buf d2) a n) else None)
       (zip (the (out_stringviews d)) (offsets d2))"

text \<open>
  All paths of a batch. The buffers of the paths are different, so the paths do not affect each
  other; \<open>scratch\<close> and \<open>buffer\<close> are the contents of fresh buffers.
\<close>

definition get_json_object_batch ::
  "(byte list \<Rightarrow> byte list) \<Rightarrow> (nat \<Rightarrow> garbage) \<Rightarrow> memory \<Rightarrow> memory \<Rightarrow> byte list list
     \<Rightarrow> path_instruction list list \<Rightarrow> (json_error + byte list option list list) option" where
  "get_json_object_batch norm gs scratch buffer rows json_paths =
     (if list_ex (\<lambda>pth. length pth > MAX_JSON_PATH_DEPTH) json_paths then Some (Inl Path_depth_exceeded)
      else
        let first = map (first_launch norm gs scratch rows) json_paths in
        if None \<in> set first then None
        else
          let first = map the first in
          if list_ex snd first then Some (Inl Nesting_depth_exceeded)
          else if \<not> list_ex (\<lambda>r. has_out_of_bound (fst r)) first
          then Some (Inr (map (\<lambda>r. gather (fst r)) first))
          else
            let second = map (\<lambda>r. if has_out_of_bound (fst r) then second_launch norm gs buffer rows (fst r)
                                  else Some r) first in
            if None \<in> set second then None
            else
              let second = map the second in
              if list_ex (\<lambda>(r, r2). has_out_of_bound (fst r) \<and> snd r2) (zip first second)
              then Some (Inl Nesting_depth_exceeded)
              else if list_ex (\<lambda>(r, r2). has_out_of_bound (fst r) \<and> has_out_of_bound (fst r2)) (zip first second)
              then Some (Inl Unexpected_out_of_bound)
              else Some (Inr (map (\<lambda>(r, r2). if has_out_of_bound (fst r) then gather_second (fst r) (fst r2)
                                             else gather (fst r)) (zip first second))))"

text \<open>The order of the paths: the tuples of type, name and index, compared one after the other.\<close>

definition type_rank :: "path_instruction_type \<Rightarrow> nat" where
  "type_rank t = (case t of WILDCARD \<Rightarrow> 0 | INDEX \<Rightarrow> 1 | NAMED \<Rightarrow> 2)"

definition path_key :: "path_instruction list \<Rightarrow> (nat \<times> nat list \<times> int) list" where
  "path_key pth = map (\<lambda>i. (type_rank (pi_type i), map unat (pi_name i), pi_index i)) pth"

definition sorted_indices :: "path_instruction list list \<Rightarrow> nat list" where
  "sorted_indices json_paths = sort_key (\<lambda>i. path_key (json_paths ! i)) [0..<length json_paths]"

definition calc_scratch_size :: "byte list list \<Rightarrow> int" where
  "calc_scratch_size rows = int (length (concat rows)) + int (foldr max (map length rows) 0) * 10"

text \<open>How many of the remaining paths go into the next batch.\<close>

fun budget_count :: "int \<Rightarrow> int \<Rightarrow> int \<Rightarrow> nat \<Rightarrow> nat" where
  "budget_count scratch_size memory_budget_bytes budget 0 = 0"
| "budget_count scratch_size memory_budget_bytes budget (Suc n) =
     (if budget < memory_budget_bytes
      then Suc (budget_count scratch_size memory_budget_bytes (budget + scratch_size) n) else 0)"

definition batch_size :: "int \<Rightarrow> int \<Rightarrow> int \<Rightarrow> nat \<Rightarrow> nat" where
  "batch_size scratch_size memory_budget_bytes parallel_override n =
     (if parallel_override > 0 then min (nat parallel_override) n
      else budget_count scratch_size memory_budget_bytes 0 n)"

text \<open>The loop over the batches; the results of a batch go to the places of its paths.\<close>

partial_function (option) batch_loop ::
  "(nat \<Rightarrow> nat) \<Rightarrow> (path_instruction list list \<Rightarrow> (json_error + byte list option list list) option)
     \<Rightarrow> path_instruction list list \<Rightarrow> nat list \<Rightarrow> byte list option list list
     \<Rightarrow> (json_error + byte list option list list) option" where
  "batch_loop count batch json_paths ids output =
     (if ids = [] then Some (Inr output)
      else
        let k = count (length ids); output_ids = take k ids in
        Option.bind (batch (map (\<lambda>i. json_paths ! i) output_ids))
          (\<lambda>r. case r of
             Inl e \<Rightarrow> Some (Inl e)
           | Inr tmp \<Rightarrow>
               batch_loop count batch json_paths (drop k ids)
                 (fold (\<lambda>(i, r) out. out[i := r]) (zip output_ids tmp) output)))"

text \<open>A column: whether each row is valid, and its characters.\<close>

definition get_json_object ::
  "(byte list \<Rightarrow> byte list) \<Rightarrow> (nat \<Rightarrow> garbage) \<Rightarrow> memory \<Rightarrow> memory \<Rightarrow> (bool \<times> byte list) list
     \<Rightarrow> path_instruction list list \<Rightarrow> int \<Rightarrow> int \<Rightarrow> (json_error + byte list option list list) option" where
  "get_json_object norm gs scratch buffer input json_paths memory_budget_bytes parallel_override =
     (if \<not> list_ex fst input
      then Some (Inr (replicate (length json_paths) (replicate (length input) None)))
      else
        let rows = map snd input;
            scratch_size = calc_scratch_size rows;
            parallel_override =
              (if memory_budget_bytes \<le> 0 \<and> parallel_override \<le> 0 then int (length json_paths)
               else parallel_override)
        in batch_loop (batch_size scratch_size memory_budget_bytes parallel_override)
             (get_json_object_batch norm gs scratch buffer rows) json_paths (sorted_indices json_paths)
             (replicate (length json_paths) []))"

declare skip_fields.simps [code]
  and find_field.simps [code]
  and finish_array.simps [code]
  and eval_loop.simps [code]
  and batch_loop.simps [code]

end
