(* ===== verification/GetJsonEnds.thy ===== *)
theory GetJsonEnds
  imports JsonCopy GetJsonObject
begin

text \<open>
  The evaluation of a path returns on every row, well formed or not: every step of the stack machine
  moves the parser forward or finishes or removes a task.
\<close>

section \<open>What a token does to the parser\<close>

definition remaining :: "json_parser \<Rightarrow> nat" where
  "remaining p = length (chars p) - curr_pos p"

text \<open>The arrays that are open.\<close>

definition arrays :: "json_parser \<Rightarrow> nat" where
  "arrays p = length (filter Not (contexts p))"

text \<open>The stack fits in its word, and the token of an array or object has left something on it.\<close>

definition sound :: "json_parser \<Rightarrow> bool" where
  "sound p \<longleftrightarrow> stack_size p \<le> 64 \<and> (current_token p = START_ARRAY \<longrightarrow> 0 < arrays p)
     \<and> (current_token p = START_OBJECT \<longrightarrow> 0 < stack_size p \<and> last (contexts p))"

definition arrays_delta :: "json_token \<Rightarrow> int" where
  "arrays_delta t = (if t = START_ARRAY then 1 else if t = END_ARRAY then - 1 else 0)"

text \<open>The stack behind a token.\<close>

definition contexts_after :: "json_token \<Rightarrow> bool list \<Rightarrow> bool list" where
  "contexts_after t bs =
     (if t = START_ARRAY then bs @ [False] else if t = START_OBJECT then bs @ [True]
      else if t = END_ARRAY \<or> t = END_OBJECT then butlast bs else bs)"

lemma contexts_set [simp]: "contexts (set_current t p) = contexts p" "contexts (set_current_error p) = contexts p"
  "contexts (skip_whitespaces p) = contexts p"
  by (simp_all add: contexts_def set_current_def set_current_error_def skip_whitespaces_def)

lemma forward_context_stack:
  "context_stack (snd (try_skip p c)) = context_stack p" "stack_size (snd (try_skip p c)) = stack_size p"
  by (simp_all add: try_skip_def)

lemma contexts_try_skip [simp]: "contexts (snd (try_skip p c)) = contexts p"
  by (simp add: try_skip_def)

lemma contexts_skip_all: "contexts (snd (try_skip_all cs p)) = contexts p"
proof (induction cs arbitrary: p)
  case (Cons c cs)
  have "try_skip_all (c # cs) p
    = (if fst (try_skip p c) then try_skip_all cs (snd (try_skip p c)) else try_skip p c)"
    by (cases "try_skip p c") (auto split: bool.split)
  then show ?case using Cons [of "snd (try_skip p c)"] by simp
qed simp

lemma contexts_literal: "contexts (parse_literal_and_set_current cs t p) = contexts p"
proof -
  have "parse_literal_and_set_current cs t p = (if fst (try_skip_all cs p) then set_current t (snd (try_skip_all cs p))
      else set_current_error (snd (try_skip_all cs p)))"
    unfolding parse_literal_and_set_current_def by (cases "try_skip_all cs p") (auto split: bool.split)
  then show ?thesis using contexts_skip_all [of cs p] by simp
qed

lemma contexts_one_or_more: "contexts (fst (snd (try_skip_one_or_more_digits p n))) = contexts p"
  by (simp add: try_skip_one_or_more_digits_def skip_zero_or_more_digits_def Let_def)

lemma contexts_exp: "contexts (fst (snd (try_parse_exp p n))) = contexts p"
  unfolding try_parse_exp_def Let_def by (simp add: contexts_one_or_more)

lemma contexts_fraction: "contexts (fst (snd (snd (parse_number_from_fraction p n)))) = contexts p"
  unfolding parse_number_from_fraction_def Let_def case_prod_unfold
  using contexts_one_or_more contexts_exp contexts_try_skip
  by (simp only: fst_conv snd_conv if_distrib [of fst] if_distrib [of snd] if_distrib [of contexts] contexts_advance
      if_cancel)

lemma contexts_unsigned: "contexts (fst (snd (snd (try_unsigned_number p)))) = contexts p"
  unfolding try_unsigned_number_def Let_def case_prod_unfold
  by (simp add: contexts_fraction skip_zero_or_more_digits_def Let_def)

lemma contexts_number: "contexts (parse_number_and_set_current p) = contexts p"
proof -
  let ?u = "try_unsigned_number (snd (try_skip p 45))"
  have "contexts (fst (snd (snd ?u))) = contexts p" by (simp add: contexts_unsigned)
  moreover have "contexts (z\<lparr>current_token := t, number_token_len := n\<rparr>) = contexts z" for z t n
    by (simp add: contexts_def)
  ultimately show ?thesis unfolding parse_number_and_set_current_def Let_def case_prod_unfold by simp
qed

lemma contexts_push:
  assumes "stack_size p < 64"
  shows "contexts (push_context t p) = contexts p @ [t = START_OBJECT]"
  using assms by (auto simp: contexts_def push_context_def bit_set_bit_value)

lemma contexts_pop: "contexts (pop_curr_context p) = butlast (contexts p)"
  by (cases "stack_size p")
    (simp_all add: contexts_def pop_curr_context_def map_butlast [symmetric] butlast_conv_take min_def take_map)

lemma contexts_record [simp]:
  "contexts (p\<lparr>current_token_start_pos := a\<rparr>) = contexts p" "contexts (p\<lparr>curr_pos := n\<rparr>) = contexts p"
  "contexts (p\<lparr>current_token := t\<rparr>) = contexts p" "contexts (p\<lparr>max_depth_exceeded := b\<rparr>) = contexts p"
  by (simp_all add: contexts_def)

lemma contexts_first:
  assumes "q = parse_first_token_in_value_and_set_current p" "current_token q \<noteq> ERROR"
  shows "contexts q = contexts_after (current_token q) (contexts p)"
    "stack_size p \<le> 64 \<Longrightarrow> stack_size q \<le> 64"
proof -
  let ?p = "p\<lparr>current_token_start_pos := curr_pos p\<rparr>"
  let ?c = "current_char ?p"
  consider (ctx) t where "q = start_context t ?p" "t = START_OBJECT \<or> t = START_ARRAY"
    | (str) "q = parse_string_and_set_current ?p"
    | (lit) cs t where "q = parse_literal_and_set_current cs t (advance 1 ?p)" "t \<in> {VALUE_TRUE, VALUE_FALSE, VALUE_NULL}"
    | (num) "q = parse_number_and_set_current ?p"
    unfolding assms(1) parse_first_token_in_value_and_set_current_def Let_def
    by (cases "?c = 123"; cases "?c = 91"; cases "?c = 34 \<or> ?c = 39"; cases "?c = 116"; cases "?c = 102"; cases "?c = 110")
      auto
  then have "contexts q = contexts_after (current_token q) (contexts p) \<and> (stack_size p \<le> 64 \<longrightarrow> stack_size q \<le> 64)"
  proof cases
    case ctx
    then have s: "stack_size p < 64" "q = set_current t (advance 1 (push_context t ?p))"
      using assms(2) by (auto simp: start_context_def try_push_context_def MAX_JSON_NESTING_DEPTH_def split: if_splits)
    then have "contexts q = contexts p @ [t = START_OBJECT]" by (simp add: contexts_push)
    moreover have "stack_size q = Suc (stack_size p)" using s by (simp add: push_context_def)
    ultimately show ?thesis using s ctx by (auto simp: contexts_after_def)
  next
    case str
    then show ?thesis using assms(2)
      by (auto simp: parse_string_and_set_current_def contexts_after_def contexts_def split: option.splits)
  next
    case lit
    then have "contexts q = contexts p" "stack_size q = stack_size p"
      using forward_literal(1) [OF lit(1)] by (simp_all add: contexts_literal forward_def)
    moreover have "current_token q \<in> {VALUE_TRUE, VALUE_FALSE, VALUE_NULL}"
      using lit(2) forward_literal(2) [OF lit(1)] assms(2) by auto
    ultimately show ?thesis by (auto simp: contexts_after_def)
  next
    case num
    then have "contexts q = contexts p" "stack_size q = stack_size p"
      using forward_number(1) [OF num assms(2)] by (simp_all add: contexts_number forward_def)
    then show ?thesis using forward_number(3) [OF num assms(2)] by (auto simp: contexts_after_def)
  qed
  then show "contexts q = contexts_after (current_token q) (contexts p)"
    "stack_size p \<le> 64 \<Longrightarrow> stack_size q \<le> 64" by blast+
qed

text \<open>The effect of a token: it moves the parser forward, changes the stack, and an array is open where one is closed.\<close>

lemma next_token_contexts:
  assumes "parse_next_token_and_set_current name p = (q, f)" "current_token q \<noteq> ERROR" "stack_size p \<le> 64"
  shows "contexts q = contexts_after (current_token q) (contexts p)" "stack_size q \<le> 64"
    "current_token q = END_ARRAY \<Longrightarrow> contexts p \<noteq> [] \<and> \<not> last (contexts p)"
    "current_token q = END_OBJECT \<Longrightarrow> contexts p \<noteq> [] \<and> last (contexts p)"
    "chars q = chars p" "curr_pos p \<le> curr_pos q"
proof -
  let ?p = "skip_whitespaces p" and ?a = "skip_whitespaces (advance 1 (skip_whitespaces p))"
  have sk: "curr_pos p \<le> curr_pos ?p" "chars ?p = chars p" "curr_pos p \<le> curr_pos ?a" "chars ?a = chars p"
    by (simp_all add: skip_whitespaces_def)
  have obj: "is_object_context ?p \<longleftrightarrow> last (contexts p)" if "stack_size p \<noteq> 0"
    using is_object_context_last [of ?p] that assms(3) by simp
  have ne: "contexts p \<noteq> []" if "stack_size p \<noteq> 0" using that by (metis length_contexts list.size(3))
  consider (first) z where "q = parse_first_token_in_value_and_set_current z" "z = ?p \<or> z = ?a"
    | (field) z g where "(q, f) = parse_field_name_and_set_current name g z" "z = ?p \<or> z = ?a"
    | (close) t where "q = end_context t ?p" "t = END_OBJECT \<and> last (contexts p) \<or> t = END_ARRAY \<and> \<not> last (contexts p)"
        "0 < stack_size p"
    | (success) "q = set_current SUCCESS ?p"
    using assms(1,2) obj
    unfolding parse_next_token_and_set_current_def Let_def
    by (auto split: if_splits) (metis sk)+
  then have "contexts q = contexts_after (current_token q) (contexts p) \<and> stack_size q \<le> 64
    \<and> (current_token q = END_ARRAY \<longrightarrow> contexts p \<noteq> [] \<and> \<not> last (contexts p))
    \<and> (current_token q = END_OBJECT \<longrightarrow> contexts p \<noteq> [] \<and> last (contexts p))
    \<and> chars q = chars p \<and> curr_pos p \<le> curr_pos q"
  proof cases
    case first
    have "contexts z = contexts p" "stack_size z = stack_size p" using first(2) by auto
    then show ?thesis using contexts_first [OF first(1) assms(2)] first_token_cases [OF first(1) assms(2)] sk first(2) assms(3)
      by auto
  next
    case field
    have z: "contexts z = contexts p" "stack_size z = stack_size p" using field(2) by auto
    obtain m e where e: "try_parse_string (drop (curr_pos z) (chars z)) name = Some (m, e)"
      "q = z\<lparr>current_token_start_pos := curr_pos z, curr_pos := length (chars z) - length e, current_token := FIELD_NAME\<rparr>"
      using field(1) assms(2) by (auto simp: parse_field_name_and_set_current_def Let_def split: option.splits)
    have "contexts q = contexts p" "stack_size q = stack_size p" using e(2) z by (simp_all add: contexts_def)
    then show ?thesis using e string_position [OF e(1)] sk field(2) assms(3) by (auto simp: contexts_after_def)
  next
    case close
    have "contexts q = butlast (contexts p)" using close(1) by (simp add: end_context_def contexts_pop)
    moreover have "current_token q = t" "chars q = chars p" "curr_pos p \<le> curr_pos q" "stack_size q \<le> 64"
      using close(1) sk assms(3) by (simp_all add: end_context_def pop_curr_context_def)
    ultimately show ?thesis using close(2,3) ne by (auto simp: contexts_after_def)
  next
    case success
    then show ?thesis using sk assms(3) by (simp add: contexts_after_def)
  qed
  then show "contexts q = contexts_after (current_token q) (contexts p)" "stack_size q \<le> 64"
    "current_token q = END_ARRAY \<Longrightarrow> contexts p \<noteq> [] \<and> \<not> last (contexts p)"
    "current_token q = END_OBJECT \<Longrightarrow> contexts p \<noteq> [] \<and> last (contexts p)"
    "chars q = chars p" "curr_pos p \<le> curr_pos q" by blast+
qed

lemma arrays_after:
  assumes "contexts q = contexts_after t (contexts p)" "t = END_ARRAY \<Longrightarrow> contexts p \<noteq> [] \<and> \<not> last (contexts p)"
    "t = END_OBJECT \<Longrightarrow> contexts p \<noteq> [] \<and> last (contexts p)"
  shows "int (arrays q) = int (arrays p) + arrays_delta t"
proof -
  have b: "length (filter Not (butlast bs)) = (if bs = [] \<or> last bs then length (filter Not bs) else length (filter Not bs) - 1)"
    for bs by (cases bs rule: rev_cases) auto
  have "0 < length (filter Not bs)" if "bs \<noteq> []" "\<not> last bs" for bs
    using that by (cases bs rule: rev_cases) auto
  then have "int (length (filter Not bs) - Suc 0) = int (length (filter Not bs)) - 1" if "bs \<noteq> []" "\<not> last bs" for bs
    using that by (metis One_nat_def Suc_leI of_nat_1 of_nat_diff)
  with assms b show ?thesis
    by (auto simp: arrays_def contexts_after_def arrays_delta_def split: if_splits)
qed

lemma contexts_after_object:
  "contexts q = contexts_after t bs \<Longrightarrow> t = START_OBJECT \<Longrightarrow> 0 < stack_size q \<and> last (contexts q)"
proof -
  assume a: "contexts q = contexts_after t bs" "t = START_OBJECT"
  then have c: "contexts q = bs @ [True]" by (simp add: contexts_after_def)
  have "stack_size q = length (contexts q)" by simp
  then show ?thesis using c by simp
qed

lemma next_token_sound:
  assumes "sound p" "q = next_token p" "current_token q \<noteq> ERROR"
  shows "sound q" "chars q = chars p" "curr_pos p \<le> curr_pos q" "int (arrays q) = int (arrays p) + arrays_delta (current_token q)"
    "current_token q \<noteq> SUCCESS \<Longrightarrow> remaining q < remaining p"
    "current_token q = SUCCESS \<Longrightarrow> arrays p = 0"
    "contexts q = contexts_after (current_token q) (contexts p)"
proof -
  obtain f where n: "parse_next_token_and_set_current None p = (q, f)" using assms(2) by (metis next_token_def prod.collapse)
  have le: "stack_size p \<le> 64" using assms(1) by (simp add: sound_def)
  note c = next_token_contexts [OF n assms(3) le]
  show d: "int (arrays q) = int (arrays p) + arrays_delta (current_token q)" by (rule arrays_after [OF c(1,3,4)])
  show "chars q = chars p" "curr_pos p \<le> curr_pos q" "contexts q = contexts_after (current_token q) (contexts p)" by (rule c)+
  note so = contexts_after_object [OF c(1)]
  show "sound q" using c(2) d so by (auto simp: sound_def arrays_delta_def)
  show "remaining q < remaining p" if "current_token q \<noteq> SUCCESS"
    using next_token_cases [OF n assms(3) that] by (simp add: remaining_def)
  show "arrays p = 0" if "current_token q = SUCCESS"
    using success_stack [OF n that] by (simp add: arrays_def contexts_def)
qed

section \<open>Skipping and copying\<close>

text \<open>The state behind a skip or a copy: nothing is lost of the stack below the level it started on.\<close>

definition parser_settled :: "json_parser \<Rightarrow> json_parser \<Rightarrow> bool" where
  "parser_settled p q \<longleftrightarrow> sound q \<and> chars q = chars p \<and> curr_pos p \<le> curr_pos q
     \<and> arrays p \<le> arrays q + (if current_token p = START_ARRAY then 1 else 0)"

lemma parser_settled_remaining: "parser_settled p q \<Longrightarrow> remaining q \<le> remaining p"
  by (auto simp: parser_settled_def remaining_def)

lemma arrays_take: "take k (contexts q) = take k (contexts p) \<Longrightarrow> stack_size p = Suc k \<Longrightarrow> arrays p \<le> Suc (arrays q)"
proof -
  assume a: "take k (contexts q) = take k (contexts p)" "stack_size p = Suc k"
  then obtain bs b where p: "contexts p = bs @ [b]" "length bs = k"
    by (metis append_butlast_last_id diff_Suc_1 length_butlast length_contexts list.size(3) nat.distinct(1))
  then have "take k (contexts q) = bs" using a by simp
  then obtain rest where "contexts q = bs @ rest" by (metis append_take_drop_id)
  then show ?thesis by (simp add: arrays_def p(1))
qed

lemma arrays_take_object:
  "take k (contexts q) = take k (contexts p) \<Longrightarrow> stack_size p = Suc k \<Longrightarrow> last (contexts p) \<Longrightarrow> arrays p \<le> arrays q"
proof -
  assume a: "take k (contexts q) = take k (contexts p)" "stack_size p = Suc k" "last (contexts p)"
  have l: "length (contexts p) = Suc k" using a(2) by simp
  then obtain bs b where p: "contexts p = bs @ [b]" "length bs = k" by (cases "contexts p" rule: rev_cases) auto
  then have "take k (contexts q) = bs" using a(1) by simp
  then obtain rest where "contexts q = bs @ rest" by (metis append_take_drop_id)
  then show ?thesis using p a(3) by (simp add: arrays_def)
qed

lemma take_contexts_after:
  "k \<le> length bs \<Longrightarrow> k \<le> length (contexts_after t bs) \<Longrightarrow> take k (contexts_after t bs) = take k bs"
  by (auto simp: contexts_after_def butlast_conv_take)

lemma skip_loop_settled:
  "sound p \<Longrightarrow> skip_loop opened p = Some (True, q) \<Longrightarrow> 0 < opened \<Longrightarrow> opened \<le> int (stack_size p) \<Longrightarrow>
    sound q \<and> chars q = chars p \<and> curr_pos p \<le> curr_pos q \<and> int (stack_size q) = int (stack_size p) - opened
    \<and> take (stack_size q) (contexts p) = contexts q"
proof (induction "remaining p" arbitrary: p opened rule: less_induct)
  case less
  let ?n = "next_token p"
  have ne: "current_token ?n \<noteq> ERROR" "current_token ?n \<noteq> SUCCESS"
    using less.prems(2) by (subst (asm) skip_loop.simps; auto simp: Let_def split: if_splits)+
  obtain f where f: "parse_next_token_and_set_current None p = (?n, f)" by (metis next_token_def prod.collapse)
  note s = next_token_sound [OF less.prems(1) refl ne(1)]
  note t = next_token_cases [OF f ne]
  let ?o = "opened + token_delta (current_token ?n)"
  show ?case
  proof (cases "?o = 0")
    case True
    then have e: "current_token ?n = END_OBJECT \<or> current_token ?n = END_ARRAY" "opened = 1"
      using less.prems(3) by (auto simp: token_delta_def split: if_splits)
    then have "q = ?n" using less.prems(2) by (subst (asm) skip_loop.simps) (auto simp: Let_def)
    moreover have "stack_size ?n = stack_size p - Suc 0" using e t(4) by (auto simp: token_delta_def)
    ultimately show ?thesis using s e t(4) by (auto simp: contexts_after_def token_delta_def butlast_conv_take)
  next
    case False
    then have "skip_loop opened p = skip_loop ?o ?n"
      using ne by (subst skip_loop.simps) (cases "current_token ?n"; simp add: Let_def token_delta_def)
    then have i: "skip_loop ?o ?n = Some (True, q)" using less.prems(2) by simp
    have "0 < ?o" using False less.prems(3) by (auto simp: token_delta_def split: if_splits)
    moreover have "?o \<le> int (stack_size ?n)" using less.prems(4) t(4) by simp
    ultimately have h: "sound q" "chars q = chars ?n" "curr_pos ?n \<le> curr_pos q"
      "int (stack_size q) = int (stack_size ?n) - ?o" "take (stack_size q) (contexts ?n) = contexts q"
      using less.hyps [OF s(5) [OF ne(2)] s(1) i] by simp_all
    have l: "stack_size q \<le> stack_size p" "stack_size q \<le> stack_size ?n"
      using h(4) t(4) less.prems(3) \<open>0 < ?o\<close> by linarith+
    have "take (stack_size q) (contexts ?n) = take (stack_size q) (contexts p)"
      using take_contexts_after [of "stack_size q" "contexts p" "current_token ?n"] l s(7) by (metis length_contexts)
    then show ?thesis using h s t(4) by simp
  qed
qed

lemma sound_start: "sound p \<Longrightarrow> current_token p = START_OBJECT \<or> current_token p = START_ARRAY \<Longrightarrow> 0 < stack_size p"
  unfolding sound_def arrays_def by (metis (no_types) filter.simps(1) length_contexts length_greater_0_conv list.size(3))

lemma take_self:
  assumes "take (stack_size q) (contexts p) = contexts q" "Suc (stack_size q) = stack_size p" "sound p"
    "current_token p = START_OBJECT \<or> current_token p = START_ARRAY"
  shows "arrays p \<le> arrays q + (if current_token p = START_ARRAY then 1 else 0)"
  using arrays_take [of "stack_size q" q p] arrays_take_object [of "stack_size q" q p] assms
  by (auto simp: sound_def)

lemma try_skip_children_settled:
  assumes "sound p" "try_skip_children p = Some (True, q)"
  shows "parser_settled p q" "current_token p \<notin> {ERROR, INIT, SUCCESS}"
proof -
  show c: "current_token p \<notin> {ERROR, INIT, SUCCESS}"
    using assms(2) by (auto simp: try_skip_children_def Let_def split: if_splits)
  show "parser_settled p q"
  proof (cases "current_token p = START_OBJECT \<or> current_token p = START_ARRAY")
    case True
    then have k: "skip_loop 1 p = Some (True, q)" using assms(2) by (auto simp: try_skip_children_def Let_def)
    have "1 \<le> int (stack_size p)" using sound_start [OF assms(1) True] by simp
    from skip_loop_settled [OF assms(1) k _ this]
    have h: "sound q" "chars q = chars p" "curr_pos p \<le> curr_pos q" "int (stack_size q) = int (stack_size p) - 1"
      "take (stack_size q) (contexts p) = contexts q" by simp_all
    then show ?thesis using take_self [OF h(5) _ assms(1) True] by (simp add: parser_settled_def)
  next
    case False
    then have "q = p" using assms(2) c by (auto simp: try_skip_children_def Let_def)
    then show ?thesis using assms(1) by (simp add: parser_settled_def)
  qed
qed

lemma copy_loop_settled:
  "sound p \<Longrightarrow> copy_loop norm b p d n = Some c \<Longrightarrow> c_ok c \<Longrightarrow> 0 < b \<Longrightarrow> b \<le> stack_size p \<Longrightarrow>
    sound (c_parser c) \<and> chars (c_parser c) = chars p \<and> curr_pos p \<le> curr_pos (c_parser c)
    \<and> stack_size (c_parser c) = b - 1 \<and> take (b - 1) (contexts p) = contexts (c_parser c)"
proof (induction "remaining p" arbitrary: p d n rule: less_induct)
  case less
  obtain q f where f: "parse_next_token_and_set_current None p = (q, f)" by fastforce
  then have q: "q = next_token p" by (simp add: next_token_def)
  have ne: "current_token q \<noteq> ERROR"
    using less.prems(2,3) by (subst (asm) copy_loop.simps) (auto simp: f)
  have su: "current_token q \<noteq> SUCCESS" using success_stack [OF f] less.prems by auto
  note s = next_token_sound [OF less.prems(1) q ne]
  note t = next_token_cases [OF f ne su]
  have k: "take (b - 1) (contexts q) = take (b - 1) (contexts p)" if "b - 1 \<le> stack_size q"
    using take_contexts_after [of "b - 1" "contexts p" "current_token q"] that less.prems(5) s(7)
    by (metis One_nat_def diff_le_self le_trans length_contexts)
  show ?case
  proof (cases "int b - 1 = int (stack_size q)")
    case True
    then have "c_parser c = q" using less.prems(2) ne
      by (subst (asm) copy_loop.simps) (auto simp: f Let_def write_escaped_text_def write_text_eq split: if_splits)
    moreover have "take (b - 1) (contexts q) = contexts q" using True by simp
    ultimately show ?thesis using s True k by auto
  next
    case False
    have "int (stack_size q) \<ge> int (stack_size p) - 1" using t(4) by (auto simp: token_delta_def split: if_splits)
    then have bq: "b \<le> stack_size q" using False less.prems(5) by linarith
    obtain d' n' where "copy_loop norm b q d' n' = Some c"
      using less.prems(2) ne False
      by (subst (asm) copy_loop.simps) (auto simp: f Let_def write_escaped_text_def write_text_eq split: if_splits)
    from less.hyps [OF s(5) [OF su] s(1) this less.prems(3,4) bq] show ?thesis using s k bq by auto
  qed
qed

lemma copy_settled:
  assumes "sound p" "copy_current_structure_parser norm p d = Some c" "c_ok c"
  shows "parser_settled p (c_parser c)" "current_token p \<noteq> SUCCESS"
proof -
  show su: "current_token p \<noteq> SUCCESS"
    using assms(2,3) by (auto simp: copy_current_structure_parser_def Let_def)
  show "parser_settled p (c_parser c)"
  proof (cases "current_token p = START_OBJECT \<or> current_token p = START_ARRAY")
    case True
    have z: "0 < stack_size p" using sound_start [OF assms(1) True] .
    obtain d' n' where k: "copy_loop norm (stack_size p) p d' n' = Some c"
      using assms(2) True by (auto simp: copy_current_structure_parser_def Let_def case_prod_unfold)
    from copy_loop_settled [OF assms(1) k assms(3) z order_refl]
    show ?thesis using take_self [OF _ _ assms(1) True, of "c_parser c"] z by (simp add: parser_settled_def)
  next
    case False
    then have "c_parser c = p" using assms(2,3)
      by (auto simp: copy_current_structure_parser_def Let_def case_prod_unfold split: if_splits)
    then show ?thesis using assms(1) by (simp add: parser_settled_def)
  qed
qed

section \<open>The loops of the evaluator\<close>

definition kept :: "json_parser \<Rightarrow> json_parser \<Rightarrow> bool" where
  "kept p q \<longleftrightarrow> sound q \<and> remaining q \<le> remaining p"

lemma kept_trans: "kept p q \<Longrightarrow> kept q r \<Longrightarrow> kept p r" by (simp add: kept_def)

lemma next_token_kept:
  assumes "sound p" "current_token (next_token p) \<noteq> ERROR"
  shows "kept p (next_token p)"
  using next_token_sound [OF assms(1) refl assms(2)] by (simp add: kept_def remaining_def)

lemma skip_kept: "sound p \<Longrightarrow> try_skip_children p = Some (True, q) \<Longrightarrow> kept p q"
proof -
  assume "sound p" "try_skip_children p = Some (True, q)"
  then have "parser_settled p q" by (rule try_skip_children_settled(1))
  then show "kept p q" using parser_settled_remaining [of p q] by (simp add: kept_def parser_settled_def)
qed

lemma skip_success: "sound p \<Longrightarrow> try_skip_children p = Some (True, q) \<Longrightarrow> current_token p \<noteq> SUCCESS"
  using try_skip_children_settled(2) by blast

lemma finish_array_ends:
  "sound p \<Longrightarrow> \<exists>ok q. finish_array p = Some (ok, q) \<and> (ok \<longrightarrow> kept p q)"
proof (induction "remaining p" arbitrary: p rule: less_induct)
  case less
  let ?n = "next_token p"
  obtain ok q where k: "try_skip_children ?n = Some (ok, q)" using try_skip_children_ends [of ?n] by auto
  show ?case
  proof (cases "current_token ?n = ERROR \<or> current_token ?n = END_ARRAY \<or> \<not> ok")
    case True
    then show ?thesis using next_token_kept [OF less.prems] k by (subst finish_array.simps) (auto simp: Let_def)
  next
    case False
    then have n: "current_token ?n \<noteq> ERROR" "sound ?n" "kept p ?n" and k: "try_skip_children ?n = Some (True, q)"
      using next_token_kept [OF less.prems] k by (auto simp: kept_def)
    have q: "kept p q" using kept_trans [OF n(3) skip_kept [OF n(2) k]] .
    have "remaining ?n < remaining p" using next_token_sound(5) [OF less.prems refl n(1)] skip_success [OF n(2) k] by blast
    then have "remaining q < remaining p" using skip_kept [OF n(2) k] by (simp add: kept_def)
    from less.hyps [OF this] obtain ok' z where "finish_array q = Some (ok', z)" "ok' \<longrightarrow> kept q z"
      using q by (auto simp: kept_def)
    then show ?thesis using False n k kept_trans [OF q, of z] by (subst finish_array.simps) (auto simp: Let_def)
  qed
qed

lemma skip_fields_ends:
  "sound p \<Longrightarrow> \<exists>ok q. skip_fields p = Some (ok, q) \<and> (ok \<longrightarrow> kept p q)"
proof (induction "remaining p" arbitrary: p rule: less_induct)
  case less
  let ?n = "next_token p" and ?m = "next_token (next_token p)"
  obtain ok q where k: "try_skip_children ?m = Some (ok, q)" using try_skip_children_ends [of ?m] by auto
  show ?case
  proof (cases "current_token ?n = ERROR \<or> current_token ?n = END_OBJECT \<or> current_token ?m = ERROR \<or> \<not> ok")
    case True
    then show ?thesis using next_token_kept [OF less.prems] k by (subst skip_fields.simps) (auto simp: Let_def)
  next
    case False
    then have n: "current_token ?n \<noteq> ERROR" "sound ?n" "kept p ?n"
      and m: "current_token ?m \<noteq> ERROR" and k: "try_skip_children ?m = Some (True, q)"
      using next_token_kept [OF less.prems] k by (auto simp: kept_def)
    have ms: "sound ?m" "kept p ?m" using next_token_kept [OF n(2) m] kept_trans [OF n(3)] by (auto simp: kept_def)
    have q: "kept p q" using kept_trans [OF ms(2) skip_kept [OF ms(1) k]] .
    have "remaining ?m < remaining ?n" using next_token_sound(5) [OF n(2) refl m] skip_success [OF ms(1) k] by blast
    then have "remaining q < remaining p" using skip_kept [OF ms(1) k] n(3) by (simp add: kept_def)
    from less.hyps [OF this] obtain ok' z where "skip_fields q = Some (ok', z)" "ok' \<longrightarrow> kept q z"
      using q by (auto simp: kept_def)
    then show ?thesis using False n k kept_trans [OF q, of z] by (subst skip_fields.simps) (auto simp: Let_def)
  qed
qed

lemma with_matching_sound:
  assumes "sound p" "parse_next_token_with_matching name p = (q, m)" "current_token q \<noteq> ERROR"
  shows "kept p q" "m = Some True \<Longrightarrow> remaining q < remaining p"
proof -
  obtain f where f: "parse_next_token_and_set_current (Some name) p = (q, f)" "m = matched_name f"
    using assms(2) by (auto simp: parse_next_token_with_matching_def split: prod.splits)
  have le: "stack_size p \<le> 64" using assms(1) by (simp add: sound_def)
  note c = next_token_contexts [OF f(1) assms(3) le]
  have d: "int (arrays q) = int (arrays p) + arrays_delta (current_token q)" by (rule arrays_after [OF c(1,3,4)])
  note so = contexts_after_object [OF c(1)]
  have "sound q" using c(2) d so by (auto simp: sound_def arrays_delta_def)
  then show "kept p q" using c(5,6) by (simp add: kept_def remaining_def)
  show "remaining q < remaining p" if "m = Some True"
  proof -
    have "current_token q \<noteq> SUCCESS"
    proof
      assume s: "current_token q = SUCCESS"
      then have "matched_name f = None"
        using f(1) first_token_success
        by (auto simp: parse_next_token_and_set_current_def parse_field_name_and_set_current_def Let_def
            end_context_def no_flags_def split: if_splits option.splits)
      then show False using f(2) that by simp
    qed
    from next_token_cases [OF f(1) assms(3) this] show ?thesis by (simp add: remaining_def)
  qed
qed

lemma find_field_ends:
  "sound p \<Longrightarrow> \<exists>found q. find_field name p = Some (found, q) \<and> (found = Some False \<longrightarrow> kept p q)
    \<and> (found = Some True \<longrightarrow> kept p q \<and> remaining q < remaining p)"
proof (induction "remaining p" arbitrary: p rule: less_induct)
  case less
  obtain n m where nm: "parse_next_token_with_matching name p = (n, m)" by fastforce
  let ?m = "next_token n"
  obtain ok q where k: "try_skip_children ?m = Some (ok, q)" using try_skip_children_ends [of ?m] by auto
  show ?case
  proof (cases "current_token n = ERROR \<or> current_token ?m = ERROR \<or> current_token n = END_OBJECT")
    case True
    then show ?thesis using with_matching_sound(1) [OF less.prems nm] by (subst find_field.simps) (auto simp: nm Let_def)
  next
    case False
    then have n: "current_token n \<noteq> ERROR" "sound n" "kept p n" "current_token n \<noteq> END_OBJECT"
      and m: "current_token ?m \<noteq> ERROR"
      using with_matching_sound(1) [OF less.prems nm] by (auto simp: kept_def)
    have ms: "sound ?m" "kept p ?m" using next_token_kept [OF n(2) m] kept_trans [OF n(3)] by (auto simp: kept_def)
    show ?thesis
    proof (cases "m = Some True")
      case True
      then have "remaining ?m < remaining p"
        using with_matching_sound(2) [OF less.prems nm n(1)] next_token_kept [OF n(2) m] by (simp add: kept_def)
      then show ?thesis using True n m ms by (subst find_field.simps) (auto simp: nm Let_def)
    next
      case nm': False
      show ?thesis
      proof (cases ok)
        case True
        then have k: "try_skip_children ?m = Some (True, q)" using k by simp
        have q: "kept p q" using kept_trans [OF ms(2) skip_kept [OF ms(1) k]] .
        have "remaining ?m < remaining n" using next_token_sound(5) [OF n(2) refl m] skip_success [OF ms(1) k] by blast
        then have "remaining q < remaining p" using skip_kept [OF ms(1) k] n(3) by (simp add: kept_def)
        from less.hyps [OF this] obtain found z where z: "find_field name q = Some (found, z)"
          "found = Some False \<longrightarrow> kept q z" "found = Some True \<longrightarrow> kept q z \<and> remaining z < remaining q"
          using q by (auto simp: kept_def)
        have "find_field name p = Some (found, z)"
          using n m nm' k z by (subst find_field.simps) (auto simp: nm Let_def)
        then show ?thesis using z kept_trans [OF q, of z] q by (auto simp: kept_def)
      next
        case False
        then show ?thesis using n m nm' k by (subst find_field.simps) (auto simp: nm Let_def)
      qed
    qed
  qed
qed

lemma skip_elements_ends:
  "sound p \<Longrightarrow> \<exists>ok q. skip_elements i p = Some (ok, q) \<and> (ok \<longrightarrow> kept p q)"
proof (induction i arbitrary: p)
  case (Suc i)
  obtain ok q where k: "try_skip_children p = Some (ok, q)" using try_skip_children_ends [of p] by auto
  show ?case
  proof (cases "current_token p = END_ARRAY \<or> \<not> ok \<or> current_token (next_token q) = ERROR")
    case True
    then show ?thesis using k by auto
  next
    case False
    then have k: "try_skip_children p = Some (True, q)" using k by simp
    have q: "kept p q" "sound q" using skip_kept [OF Suc.prems k] by (simp_all add: kept_def)
    have n: "kept p (next_token q)" using kept_trans [OF q(1) next_token_kept [OF q(2)]] False by simp
    then have "sound (next_token q)" by (simp add: kept_def)
    from Suc.IH [OF this] obtain ok' z where
      "skip_elements i (next_token q) = Some (ok', z)" "ok' \<longrightarrow> kept (next_token q) z" by blast
    then show ?thesis using False k kept_trans [OF n, of z] by auto
  qed
qed (auto simp: kept_def)

section \<open>The stack machine\<close>

text \<open>
  The paths on the stack fit in it, and above a task that flattens an array there are only tasks with
  the same empty path. The arrays of these are open in the parser.
\<close>

fun stack_ok :: "task list \<Rightarrow> bool" where
  "stack_ok [] \<longleftrightarrow> True"
| "stack_ok (c # ts) \<longleftrightarrow>
     length ts \<le> 16 \<and> (path c \<noteq> [] \<longrightarrow> length ts + length (path c) \<le> 16) \<and>
     (case ts of [] \<Rightarrow> True
      | pc # _ \<Rightarrow> path pc = [] \<longrightarrow> path c = [] \<and> case_path c = START_ARRAY___EMPTY_PATH___FLATTEN_STYLE
                   \<and> token pc = START_ARRAY \<and> style pc = FLATTEN) \<and>
     stack_ok ts"

definition open_arrays :: "task list \<Rightarrow> nat" where
  "open_arrays ts =
     length (filter (\<lambda>t. token t = START_ARRAY \<and> \<not> task_is_done t) (takeWhile (\<lambda>t. path t = []) ts))"

text \<open>A task that copies a value starts at the token of its value.\<close>

definition at_token :: "eval \<Rightarrow> bool" where
  "at_token e \<longleftrightarrow> (\<forall>c ts. tasks e = c # ts \<longrightarrow> \<not> task_is_done c \<longrightarrow> path c = []
     \<longrightarrow> token c = current_token (parser e) \<or> token c = START_ARRAY \<and> style c = FLATTEN)"

definition inv :: "eval \<Rightarrow> bool" where
  "inv e \<longleftrightarrow> sound (parser e) \<and> stack_ok (tasks e) \<and> open_arrays (tasks e) \<le> arrays (parser e) \<and> at_token e"

definition work :: "eval \<Rightarrow> nat" where
  "work e = 3 * remaining (parser e) + sum_list (map (\<lambda>t. if task_is_done t then 1 else 2) (tasks e))"

text \<open>At the end of the row a new task fails.\<close>

definition doomed :: "eval \<Rightarrow> bool" where
  "doomed e \<longleftrightarrow> current_token (parser e) = SUCCESS \<and>
     (\<exists>c ts. tasks e = c # ts \<and> \<not> task_is_done c \<and> token c = SUCCESS)"

definition progress :: "eval \<Rightarrow> step_result \<Rightarrow> bool" where
  "progress e r \<longleftrightarrow> (\<exists>x. r = Some (Inr x))
     \<or> (\<exists>e'. r = Some (Inl e') \<and> inv e' \<and> tasks e' \<noteq> [] \<and> (work e' < work e \<or> doomed e'))"

lemma fails_progress [simp]: "progress e (fails e')" unfolding progress_def fails_def by blast

lemma doomed_step:
  assumes "doomed e"
  shows "\<exists>x. eval_step norm e = Some (Inr x)"
proof -
  obtain c ts where c: "tasks e = c # ts" "\<not> task_is_done c" "token c = SUCCESS" "current_token (parser e) = SUCCESS"
    using assms unfolding doomed_def by blast
  obtain g m where g: "try_write_comma (gen c, mem e) = (g, m)" by fastforce
  show ?thesis
  proof (cases "path c = []")
    case True
    then have "eval_step norm e = case_path_3 norm c e" using c by (simp add: eval_step_def run_task_def)
    then show ?thesis using c
      by (simp add: case_path_3_def copy_current_structure_def copy_current_structure_parser_def g fails_def Let_def
          ex_bool_eq)
  next
    case False
    then have "eval_step norm e = case_path_12 c e" using c by (simp add: eval_step_def run_task_def)
    then show ?thesis using c by (simp add: case_path_12_def try_skip_children_def fails_def Let_def ex_bool_eq)
  qed
qed

text \<open>A task on top of the stack is finished.\<close>

lemma finished_progress:
  assumes "inv e" "tasks e = c # ts" "\<not> task_is_done c" "tasks e' = cx # ts" "kept (parser e) (parser e')"
    "path c' = path c" "case_path c' = case_path c" "token c' = token c" "style c' = style c"
    "path c = [] \<Longrightarrow> open_arrays (c'\<lparr>task_is_done := True\<rparr> # ts) \<le> arrays (parser e')"
  shows "progress e (finished c' e')"
proof -
  have "open_arrays (c'\<lparr>task_is_done := True\<rparr> # ts) \<le> arrays (parser e')"
    using assms(6,10) by (cases "path c = []") (simp_all add: open_arrays_def)
  then show ?thesis
    using assms(1-9)
    by (auto simp: progress_def finished_def set_top_def inv_def at_token_def kept_def work_def split: list.splits)
qed

text \<open>A task for a shorter path is put on the stack.\<close>

lemma push_progress:
  assumes "inv e" "tasks e = c # ts" "\<not> task_is_done c" "tasks e' = c' # ts" "sound (parser e')"
    "remaining (parser e') < remaining (parser e) \<or> current_token (parser e') = SUCCESS"
    "path c' = path c" "case_path c' = case_path c" "task_is_done c' = task_is_done c"
    "path c \<noteq> []" "length pth < length (path c)"
  shows "progress e (Some (Inl (push_eval_context cp g st pth e')))"
proof -
  have le: "length ts + length (path c) \<le> 16" "0 < length (path c)"
    using assms(1,2,10) by (auto simp: inv_def)
  then have l: "Suc (length ts) \<le> 16" by linarith
  let ?c = "\<lparr>gen = g, child_gen = g, path = pth, dirty = 0, case_path = cp,
         token = current_token (parser e'), style = st, is_first_enter = True, task_is_done = False\<rparr>"
  have p: "push_eval_context cp g st pth e' = e'\<lparr>tasks := ?c # c' # ts\<rparr>"
    using l assms(4) by (simp add: push_eval_context_def MAX_JSON_PATH_DEPTH_def)
  have "open_arrays (?c # c' # ts) \<le> arrays (parser e')"
    using assms(5,7,10) by (auto simp: open_arrays_def sound_def)
  moreover have "stack_ok (c' # ts)" using assms(1,2,7,8) by (auto simp: inv_def split: list.splits)
  ultimately have i: "inv (e'\<lparr>tasks := ?c # c' # ts\<rparr>)"
    using assms(5,7,10,11) l le by (auto simp: inv_def at_token_def)
  show ?thesis
  proof (cases "current_token (parser e') = SUCCESS")
    case True
    then show ?thesis using i unfolding progress_def p doomed_def by auto
  next
    case False
    then have "work (e'\<lparr>tasks := ?c # c' # ts\<rparr>) < work e"
      using assms(2,3,6,9) by (auto simp: work_def)
    then show ?thesis using i unfolding progress_def p by auto
  qed
qed

lemma inv_parts:
  assumes "inv e" "tasks e = c # ts"
  shows "sound (parser e)" "stack_ok (c # ts)" "open_arrays (c # ts) \<le> arrays (parser e)"
    "\<not> task_is_done c \<Longrightarrow> path c = [] \<Longrightarrow> token c = current_token (parser e) \<or> token c = START_ARRAY \<and> style c = FLATTEN"
  using assms by (auto simp: inv_def at_token_def)

lemma open_arrays_finish:
  "path c = [] \<Longrightarrow> \<not> task_is_done c \<Longrightarrow> path c' = [] \<Longrightarrow>
    open_arrays (c # ts) = open_arrays (c'\<lparr>task_is_done := True\<rparr> # ts) + (if token c = START_ARRAY then 1 else 0)"
  by (simp add: open_arrays_def)

lemma case_path_1_progress:
  assumes "inv e" "tasks e = c # ts" "\<not> task_is_done c"
  shows "progress e (case_path_1 norm c e)"
proof -
  obtain g m where w: "write_raw norm (parser e) (gen c, mem e) = (g, m)" by fastforce
  note i = inv_parts [OF assms(1,2)]
  show ?thesis unfolding case_path_1_def w
    using open_arrays_finish [of c "c\<lparr>gen := g, dirty := 1\<rparr>" ts] assms(3) i(1,3)
    by (auto intro!: finished_progress [OF assms, where cx = c] simp: kept_def assms(2))
qed

lemma case_path_2_progress:
  assumes "inv e" "tasks e = c # ts" "\<not> task_is_done c" "path c = []" "token c = START_ARRAY" "style c = FLATTEN"
  shows "progress e (case_path_2 c e)"
proof -
  note i = inv_parts [OF assms(1,2)]
  let ?q = "next_token (parser e)" and ?e = "e\<lparr>parser := next_token (parser e)\<rparr>"
  have n: "open_arrays (c # ts) = Suc (open_arrays ts)" using assms(3-5) by (simp add: open_arrays_def)
  show ?thesis
  proof (cases "current_token ?q = ERROR")
    case True
    then show ?thesis by (simp add: case_path_2_def advance_token_def at_error_def Let_def)
  next
    case False
    note s = next_token_sound [OF i(1) refl False]
    have su: "current_token ?q \<noteq> SUCCESS" using s(6) i(3) n by auto
    show ?thesis
    proof (cases "current_token ?q = END_ARRAY")
      case True
      have "open_arrays (c\<lparr>task_is_done := True\<rparr> # ts) \<le> arrays ?q"
        using open_arrays_finish [of c c ts] assms(3-5) s(4) i(3) True by (simp add: arrays_delta_def)
      then show ?thesis
        using True next_token_kept [OF i(1) False]
        by (auto simp: case_path_2_def advance_token_def Let_def assms(2) intro!: finished_progress [OF assms(1-3), where cx = c])
    next
      case e: False
      then have c2: "case_path_2 c e
          = Some (Inl (push_eval_context START_ARRAY___EMPTY_PATH___FLATTEN_STYLE (gen c) (style c) [] ?e))"
        using False by (simp add: case_path_2_def advance_token_def at_error_def Let_def)
      have a: "open_arrays (c # ts) + (if current_token ?q = START_ARRAY then 1 else 0) \<le> arrays ?q"
        using s(4) e i(3) by (auto simp: arrays_delta_def)
      have w: "3 * remaining ?q + 2 < 3 * remaining (parser e)" using s(5) [OF su] by simp
      let ?c = "\<lparr>gen = gen c, child_gen = gen c, path = [], dirty = 0, case_path = START_ARRAY___EMPTY_PATH___FLATTEN_STYLE,
         token = current_token ?q, style = style c, is_first_enter = True, task_is_done = False\<rparr>"
      show ?thesis
      proof (cases "length (tasks e) > 16")
        case True
        then have "case_path_2 c e = Some (Inl (?e\<lparr>path_depth_exceeded := True\<rparr>))"
          by (simp add: c2 push_eval_context_def MAX_JSON_PATH_DEPTH_def)
        moreover have "inv (?e\<lparr>path_depth_exceeded := True\<rparr>)"
          using i a s(1) assms by (auto simp: inv_def at_token_def)
        ultimately show ?thesis using assms(2) w by (auto simp: progress_def work_def)
      next
        case le: False
        then have "case_path_2 c e = Some (Inl (?e\<lparr>tasks := ?c # c # ts\<rparr>))"
          using assms(2) by (simp add: c2 push_eval_context_def MAX_JSON_PATH_DEPTH_def)
        moreover have "open_arrays (?c # c # ts) \<le> arrays ?q" using a assms(3-5) by (auto simp: open_arrays_def split: if_splits)
        then have "inv (?e\<lparr>tasks := ?c # c # ts\<rparr>)"
          using i(2) s(1) assms le by (auto simp: inv_def at_token_def)
        ultimately show ?thesis using assms(2,3) w by (auto simp: progress_def work_def)
      qed
    qed
  qed
qed

lemma case_path_3_progress:
  assumes "inv e" "tasks e = c # ts" "\<not> task_is_done c" "path c = []" "\<not> (token c = START_ARRAY \<and> style c = FLATTEN)"
  shows "progress e (case_path_3 norm c e)"
proof -
  note i = inv_parts [OF assms(1,2)]
  obtain g m where g: "try_write_comma (gen c, mem e) = (g, m)" by fastforce
  obtain cc where cc: "copy_current_structure_parser norm (parser e) (Some []) = Some cc"
    using copy_ends [of "parser e" norm "Some []"] sound_start [OF i(1)] by auto
  show ?thesis
  proof (cases "c_ok cc")
    case True
    note st = copy_settled(1) [OF i(1) cc True]
    have t: "token c = current_token (parser e)" using i(4) assms(3-5) by blast
    have "open_arrays (c'\<lparr>task_is_done := True\<rparr> # ts) \<le> arrays (c_parser cc)" if "path c' = []" for c'
      using open_arrays_finish [OF assms(4,3) that] st i(3) t by (auto simp: parser_settled_def split: if_splits)
    moreover have "kept (parser e) (c_parser cc)"
      using st parser_settled_remaining [OF st] by (simp add: kept_def parser_settled_def)
    ultimately show ?thesis using True assms(4)
      by (auto simp: case_path_3_def copy_current_structure_def g cc Let_def assms(2)
          intro!: finished_progress [OF assms(1-3), where cx = c])
  next
    case False
    then show ?thesis by (simp add: case_path_3_def copy_current_structure_def g cc Let_def)
  qed
qed

lemma case_path_4_progress:
  assumes "inv e" "tasks e = c # ts" "\<not> task_is_done c" "path c \<noteq> []"
  shows "progress e (case_path_4 c e)"
proof -
  note i = inv_parts [OF assms(1,2)]
  obtain ok q where k: "skip_fields (parser e) = Some (ok, q)" "ok \<longrightarrow> kept (parser e) q"
    using skip_fields_ends [OF i(1)] by blast
  obtain found z where f: "find_field (pi_name (hd (path c))) (parser e) = Some (found, z)"
    "found = Some False \<longrightarrow> kept (parser e) z"
    "found = Some True \<longrightarrow> kept (parser e) z \<and> remaining z < remaining (parser e)"
    using find_field_ends [OF i(1), of "pi_name (hd (path c))"] by blast
  note fin = finished_progress [OF assms(1-3), where cx = c]
  show ?thesis
  proof (cases "is_first_enter c")
    case False
    then show ?thesis using k assms(4) i(1)
      by (cases ok) (auto simp: case_path_4_def Let_def assms(2) kept_def intro!: fin)
  next
    case True
    show ?thesis
    proof (cases found)
      case None
      then show ?thesis using True f by (simp add: case_path_4_def Let_def)
    next
      case (Some b)
      show ?thesis
      proof (cases b)
        case bT: True
        have "progress e (Some (Inl (push_eval_context START_OBJECT___MATCHED_NAME_PATH (gen c) (style c) (tl (path c))
            (set_top (c\<lparr>is_first_enter := False\<rparr>) (e\<lparr>parser := z\<rparr>)))))"
          using f(3) Some bT assms(4)
          by (intro push_progress [OF assms(1-3), where c' = "c\<lparr>is_first_enter := False\<rparr>"])
            (auto simp: set_top_def assms(2) kept_def)
        then show ?thesis using True f(1) Some bT by (simp add: case_path_4_def Let_def)
      next
        case bF: False
        then show ?thesis using True f Some assms(4) by (auto simp: case_path_4_def Let_def assms(2) intro!: fin)
      qed
    qed
  qed
qed

text \<open>The element behind the next token of an array.\<close>

lemma next_element_progress:
  assumes "inv e" "tasks e = c # ts" "\<not> task_is_done c" "path c \<noteq> []" "0 < n"
    "parser e' = next_token (parser e)" "tasks e' = c' # ts" "path c' = path c" "case_path c' = case_path c"
    "task_is_done c' = task_is_done c" "current_token (parser e') \<noteq> ERROR"
  shows "progress e (Some (Inl (push_eval_context cp g st (drop n (path c)) e')))"
proof -
  note s = next_token_sound [OF inv_parts(1) [OF assms(1,2)] refl]
  show ?thesis
    using assms(4-11) s(1,5) by (intro push_progress [OF assms(1-3), where c' = c']) auto
qed

lemma wildcard_progress:
  assumes "inv e" "tasks e = c # ts" "\<not> task_is_done c" "path c \<noteq> []" "0 < n"
  shows "progress e (wildcard_elements cp st n c e)"
proof -
  obtain g m where g: "(if is_first_enter c then write_start_array (gen c, mem e) else (gen c, mem e)) = (g, m)"
    by fastforce
  let ?q = "next_token (parser e)"
  show ?thesis
  proof (cases "current_token ?q = ERROR \<or> current_token ?q \<noteq> END_ARRAY")
    case True
    then show ?thesis
      using next_element_progress [OF assms, where c' = "c\<lparr>gen := g, is_first_enter := False\<rparr>"
          and e' = "set_top (c\<lparr>gen := g, is_first_enter := False\<rparr>) (e\<lparr>mem := m, parser := ?q\<rparr>)"]
      by (auto simp: wildcard_elements_def g Let_def advance_token_def at_error_def set_top_def assms(2))
  next
    case False
    obtain g' m' where g': "write_end_array (g, m) = (g', m')" by fastforce
    show ?thesis
      using False next_token_kept [OF inv_parts(1) [OF assms(1,2)]] assms(4)
      by (auto simp: wildcard_elements_def g g' Let_def advance_token_def assms(2)
          intro!: finished_progress [OF assms(1-3), where cx = c])
  qed
qed

lemma case_path_6_progress:
  assumes "inv e" "tasks e = c # ts" "\<not> task_is_done c" "path c \<noteq> []"
  shows "progress e (case_path_6 c e)"
proof -
  let ?q = "next_token (parser e)" and ?c = "c\<lparr>is_first_enter := False\<rparr>"
  show ?thesis
  proof (cases "current_token ?q = ERROR \<or> current_token ?q \<noteq> END_ARRAY")
    case True
    then show ?thesis
      using next_element_progress [OF assms, where c' = ?c and e' = "set_top ?c (e\<lparr>parser := ?q\<rparr>)" and n = 1]
      by (auto simp: case_path_6_def Let_def advance_token_def at_error_def set_top_def assms(2) drop_Suc)
  next
    case False
    have fin: "progress e (case gm of (g, m) \<Rightarrow> finished (?c\<lparr>gen := g\<rparr>) (e\<lparr>parser := ?q, mem := m\<rparr>))" for gm
      using False next_token_kept [OF inv_parts(1) [OF assms(1,2)]] assms(4)
      by (cases gm) (auto simp: assms(2) intro!: finished_progress [OF assms(1-3), where cx = c])
    then show ?thesis using False by (simp add: case_path_6_def Let_def advance_token_def)
  qed
qed

lemma index_progress:
  assumes "inv e" "tasks e = c # ts" "\<not> task_is_done c" "path c \<noteq> []"
    "path c' = path c" "case_path c' = case_path c" "task_is_done c' = task_is_done c"
  shows "progress e (index_element cp st c' e)"
proof -
  let ?q = "next_token (parser e)"
  note s = next_token_sound [OF inv_parts(1) [OF assms(1,2)] refl]
  show ?thesis
  proof (cases "current_token ?q = ERROR")
    case True
    then show ?thesis by (simp add: index_element_def Let_def advance_token_def at_error_def)
  next
    case e: False
    let ?i = "nat (pi_index (hd (path c)))"
    obtain ok z where z: "skip_elements ?i ?q = Some (ok, z)" "ok \<longrightarrow> kept ?q z"
      using skip_elements_ends [OF s(1) [OF e]] by blast
    show ?thesis
    proof (cases ok)
      case False
      then show ?thesis using z(1) assms(5) by (simp add: index_element_def Let_def advance_token_def at_error_def)
    next
      case True
      have "remaining z < remaining (parser e) \<or> current_token z = SUCCESS"
      proof (cases "current_token ?q = SUCCESS")
        case su: True
        then have "try_skip_children ?q = Some (False, ?q)" by (simp add: try_skip_children_def)
        then have "z = ?q" using z(1) True su by (cases ?i) auto
        then show ?thesis using su by simp
      next
        case False
        then show ?thesis using s(5) [OF e] z(2) True by (simp add: kept_def)
      qed
      then have "progress e (Some (Inl (push_eval_context cp (gen c') st (tl (path c)) (set_top c' (e\<lparr>parser := z\<rparr>)))))"
        using z(2) True assms(4-7)
        by (intro push_progress [OF assms(1-3), where c' = c']) (auto simp: kept_def set_top_def assms(2))
      then show ?thesis
        using z(1) True e assms(5) by (simp add: index_element_def Let_def advance_token_def at_error_def)
    qed
  qed
qed

lemma case_path_12_progress:
  assumes "inv e" "tasks e = c # ts" "\<not> task_is_done c" "path c \<noteq> []"
  shows "progress e (case_path_12 c e)"
proof -
  note i = inv_parts [OF assms(1,2)]
  obtain ok q where k: "try_skip_children (parser e) = Some (ok, q)" using try_skip_children_ends [of "parser e"] by auto
  show ?thesis
  proof (cases ok)
    case True
    then show ?thesis using k skip_kept [OF i(1), of q] assms(4)
      by (auto simp: case_path_12_def Let_def assms(2) intro!: finished_progress [OF assms(1-3), where cx = c])
  next
    case False
    then show ?thesis using k by (simp add: case_path_12_def Let_def)
  qed
qed

lemma run_task_progress:
  assumes "inv e" "tasks e = c # ts" "\<not> task_is_done c"
  shows "progress e (run_task norm c e)"
proof (cases "path c = []")
  case True
  then show ?thesis
    using case_path_1_progress [OF assms] case_path_2_progress [OF assms True] case_path_3_progress [OF assms True]
    unfolding run_task_def by (simp split: if_split)
next
  case False
  note wc = wildcard_progress [OF assms False]
  have i: "progress e (case_path_8 c e)" "progress e (case_path_9 c e)"
    unfolding case_path_8_def case_path_9_def by (intro index_progress [OF assms False]; simp)+
  show ?thesis
    using False i case_path_4_progress [OF assms False] case_path_6_progress [OF assms False]
      case_path_12_progress [OF assms False] wc [of 2] wc [of 1]
    unfolding run_task_def case_path_5_def case_path_7_def by (simp split: if_split)
qed

lemma pop_task_progress:
  assumes "inv e" "tasks e = c # ts" "task_is_done c"
  shows "progress e (pop_task e)"
proof (cases ts)
  case Nil
  then show ?thesis unfolding progress_def pop_task_def using assms(2) by simp
next
  case (Cons pc us)
  note i = inv_parts [OF assms(1,2) ]
  have pc: "path pc = [] \<Longrightarrow> path c = [] \<and> case_path c = START_ARRAY___EMPTY_PATH___FLATTEN_STYLE
      \<and> token pc = START_ARRAY \<and> style pc = FLATTEN"
    and st: "stack_ok (pc # us)" using i(2) Cons by auto
  have oa: "open_arrays (pc # us) \<le> arrays (parser e)"
    using i(3) pc assms(3) unfolding Cons by (cases "path pc = []") (simp_all add: open_arrays_def)
  have up: "progress e (Some (Inl (e\<lparr>tasks := pc' # us\<rparr>)))"
    if "path pc' = path pc" "case_path pc' = case_path pc" "token pc' = token pc" "style pc' = style pc"
      "task_is_done pc' = task_is_done pc" for pc'
  proof -
    have "open_arrays (pc' # us) = open_arrays (pc # us)" using that by (simp add: open_arrays_def)
    moreover have "stack_ok (pc' # us)" using st that by (auto split: list.splits)
    ultimately have "inv (e\<lparr>tasks := pc' # us\<rparr>)" using i(1) oa pc that by (auto simp: inv_def at_token_def)
    then show ?thesis using assms(2,3) Cons that(5) by (auto simp: progress_def work_def)
  qed
  show ?thesis
  proof (cases "case_path c = START_ARRAY___MATCHED_INDEX \<or> case_path c = START_ARRAY___MATCHED_INDEX_AND_WILDCARD")
    case False
    then show ?thesis using assms(2) Cons
      by (cases "case_path c") (auto simp: pop_task_def set_top_def Let_def intro!: up)
  next
    case True
    then have ne: "path pc \<noteq> []" using pc by auto
    obtain ok q where k: "finish_array (parser e) = Some (ok, q)" "ok \<longrightarrow> kept (parser e) q"
      using finish_array_ends [OF i(1)] by blast
    let ?pc = "pc\<lparr>dirty := dirty pc + dirty c, gen := gen c\<rparr>"
    show ?thesis
    proof (cases ok)
      case oT: True
      have d: "pop_task e = Some (Inl (e\<lparr>tasks := ?pc\<lparr>task_is_done := True\<rparr> # us, parser := q\<rparr>))"
        using True k(1) oT assms(2) Cons by (auto simp: pop_task_def Let_def finished_def set_top_def)
      have "stack_ok (?pc\<lparr>task_is_done := True\<rparr> # us)" using st by (auto split: list.splits)
      moreover have "open_arrays (?pc\<lparr>task_is_done := True\<rparr> # us) = 0" using ne by (simp add: open_arrays_def)
      ultimately have "inv (e\<lparr>tasks := ?pc\<lparr>task_is_done := True\<rparr> # us, parser := q\<rparr>)"
        using k(2) oT by (auto simp: inv_def at_token_def kept_def)
      then show ?thesis unfolding d using assms(2,3) Cons k(2) oT by (auto simp: progress_def work_def kept_def)
    next
      case False
      then show ?thesis using True k(1) assms(2) Cons by (auto simp: pop_task_def Let_def)
    qed
  qed
qed

lemma eval_step_progress:
  assumes "inv e" "tasks e \<noteq> []"
  shows "progress e (eval_step norm e)"
proof -
  obtain c ts where c: "tasks e = c # ts" using assms(2) by (cases "tasks e") auto
  show ?thesis
    using run_task_progress [OF assms(1) c] pop_task_progress [OF assms(1) c] c
    by (cases "task_is_done c") (simp_all add: eval_step_def)
qed

lemma eval_loop_ends:
  "inv e \<Longrightarrow> tasks e \<noteq> [] \<Longrightarrow> \<exists>x. eval_loop norm e = Some x"
proof (induction "work e" arbitrary: e rule: less_induct)
  case less
  from eval_step_progress [OF less.prems, of norm] consider x where "eval_step norm e = Some (Inr x)"
    | e' where "eval_step norm e = Some (Inl e')" "inv e'" "tasks e' \<noteq> []" "work e' < work e \<or> doomed e'"
    unfolding progress_def by blast
  then show ?case
  proof cases
    case (1 x)
    have "eval_loop norm e = Some x" by (subst eval_loop.simps) (simp add: 1)
    then show ?thesis by blast
  next
    case 2
    have "\<exists>x. eval_loop norm e' = Some x"
      using 2(4)
    proof
      assume "doomed e'"
      then obtain x where x: "eval_step norm e' = Some (Inr x)" using doomed_step by blast
      have "eval_loop norm e' = Some x" by (subst eval_loop.simps) (simp add: x)
      then show ?thesis by blast
    qed (rule less.hyps [OF _ 2(2,3)])
    then show ?thesis using 2(1) by (subst eval_loop.simps) simp
  qed
qed

lemma evaluate_path_ends:
  assumes "length pth \<le> MAX_JSON_PATH_DEPTH"
  shows "\<exists>x. evaluate_path norm (new_json_parser g row) pth out = Some x"
proof -
  let ?p = "new_json_parser g row" and ?q = "next_token (new_json_parser g row)"
  show ?thesis
  proof (cases "current_token ?q = ERROR")
    case True
    then show ?thesis unfolding evaluate_path_def at_error_def by simp blast
  next
    case False
    have "sound ?p" by (simp add: sound_def new_json_parser_def)
    from next_token_sound(1) [OF this refl False] have s: "sound ?q" .
    let ?e = "\<lparr>parser = ?q, mem = out, tasks = [], path_depth_exceeded = False\<rparr>"
    let ?e1 = "push_eval_context INVALID (new_json_generator 0) RAW pth ?e"
    have "open_arrays (tasks ?e1) \<le> arrays ?q" using s
      by (auto simp: open_arrays_def push_eval_context_def sound_def)
    then have "inv ?e1" using s assms
      by (auto simp: inv_def at_token_def push_eval_context_def MAX_JSON_PATH_DEPTH_def)
    moreover have "tasks ?e1 \<noteq> []" by (simp add: push_eval_context_def)
    ultimately show ?thesis using eval_loop_ends [of ?e1] False by (simp add: evaluate_path_def at_error_def)
  qed
qed

end
