(* ===== verification/GetJsonPaths.thy ===== *)
theory GetJsonPaths
  imports GetJsonEnds
begin

text \<open>
  The evaluation of a path of names and indices on the text of a JSON value: it succeeds exactly when
  the path leads to a value, and its output is that value, a string without its quotes and anything
  else in compact form.
\<close>

section \<open>The value at a path\<close>

definition null_value :: "json \<Rightarrow> bool" where
  "null_value v \<longleftrightarrow> (case v of Scalar t s \<Rightarrow> t = VALUE_NULL | _ \<Rightarrow> False)"

fun lookup :: "path_instruction list \<Rightarrow> json \<Rightarrow> json option" where
  "lookup [] v = Some v"
| "lookup (i # is) (Obj fs) =
     (if pi_type i = NAMED then
        (case find (\<lambda>kv. literal_value (fst kv) = pi_name i) fs of
           None \<Rightarrow> None
         | Some kv \<Rightarrow> if null_value (snd kv) then None else lookup is (snd kv))
      else None)"
| "lookup (i # is) (Arr vs) =
     (if pi_type i = INDEX \<and> nat (pi_index i) < length vs then lookup is (vs ! nat (pi_index i)) else None)"
| "lookup (i # is) (Scalar t s) = None"

definition plain_path :: "path_instruction list \<Rightarrow> bool" where
  "plain_path pth \<longleftrightarrow> list_all (\<lambda>i. pi_type i \<noteq> WILDCARD) pth"

definition result_text :: "(byte list \<Rightarrow> byte list) \<Rightarrow> json \<Rightarrow> byte list" where
  "result_text norm v = (case v of Scalar t s \<Rightarrow> scalar_out (if t = VALUE_STRING then UNESCAPED else ESCAPED) norm t s
     | _ \<Rightarrow> compact norm v)"

section \<open>Positions in a text\<close>

text \<open>The text of a value is in front of the parser.\<close>

definition value_at :: "json_parser \<Rightarrow> json \<Rightarrow> byte list \<Rightarrow> bool" where
  "value_at p v r \<longleftrightarrow> (\<exists>s. standing p (s @ r) \<and> json_text v s \<and> delimits r \<and> depth v + stack_size p \<le> 64)"

definition at_elems :: "json_parser \<Rightarrow> json list \<Rightarrow> byte list \<Rightarrow> bool" where
  "at_elems p vs r \<longleftrightarrow> in_array p \<and> (\<forall>v\<in>set vs. depth v + stack_size p \<le> 64) \<and>
     (\<exists>s. standing p (s @ r) \<and> (current_token p = START_ARRAY \<and> elems_text vs s
        \<or> value_end (current_token p) \<and> elems_tail vs s))"

definition at_fields :: "json_parser \<Rightarrow> (byte list \<times> json) list \<Rightarrow> byte list \<Rightarrow> bool" where
  "at_fields p fs r \<longleftrightarrow> in_object p \<and> (\<forall>kv\<in>set fs. depth (snd kv) + stack_size p \<le> 64) \<and>
     (\<exists>s. standing p (s @ r) \<and> (current_token p = START_OBJECT \<and> fields_text fs s
        \<or> value_end (current_token p) \<and> fields_tail fs s))"

lemma value_at_run: "value_at p v r \<Longrightarrow> value_run norm p v r"
  unfolding value_at_def using json_runs(1) by blast

lemma foldr_max_le: "foldr max xs (0::nat) + n \<le> m \<Longrightarrow> x \<in> set xs \<Longrightarrow> x + n \<le> m"
  by (induction xs) auto

lemma value_at_arr:
  assumes "value_at y (Arr vs) r" "p = parse_first_token_in_value_and_set_current y"
  shows "at_elems p vs r" "current_token p = START_ARRAY" "contexts p = contexts y @ [False]" "same_row y p"
proof -
  obtain s where s: "standing y (s @ r)" "json_text (Arr vs) s" "depth (Arr vs) + stack_size y \<le> 64"
    using assms(1) unfolding value_at_def by blast
  then obtain t where t: "s = 91 # t" "elems_text vs t" by (auto elim: json_text.cases)
  have y: "standing y (91 # t @ r)" "stack_size y < 64" using s t by simp_all
  note o = open_value [OF y(1) _ y(2) assms(2), of START_ARRAY, simplified]
  show "current_token p = START_ARRAY" "contexts p = contexts y @ [False]" "same_row y p" using o by simp_all
  have "depth v + stack_size p \<le> 64" if "v \<in> set vs" for v
    using foldr_max_le [of "map depth vs" "stack_size p" 64 "depth v"] s(3) o that by simp
  then show "at_elems p vs r" using o t y unfolding at_elems_def in_array_def by auto
qed

lemma value_at_obj:
  assumes "value_at y (Obj fs) r" "p = parse_first_token_in_value_and_set_current y"
  shows "at_fields p fs r" "current_token p = START_OBJECT" "contexts p = contexts y @ [True]" "same_row y p"
proof -
  obtain s where s: "standing y (s @ r)" "json_text (Obj fs) s" "depth (Obj fs) + stack_size y \<le> 64"
    using assms(1) unfolding value_at_def by blast
  then obtain t where t: "s = 123 # t" "fields_text fs t" by (auto elim: json_text.cases)
  have y: "standing y (123 # t @ r)" "stack_size y < 64" using s t by simp_all
  note o = open_value [OF y(1) _ y(2) assms(2), of START_OBJECT, simplified]
  show "current_token p = START_OBJECT" "contexts p = contexts y @ [True]" "same_row y p" using o by simp_all
  have "depth (snd kv) + stack_size p \<le> 64" if "kv \<in> set fs" for kv
  proof -
    have "foldr max (map snd (map (map_prod id depth) fs)) 0 + stack_size p \<le> 64" using s(3) o(5) by simp
    moreover have "depth (snd kv) \<in> set (map snd (map (map_prod id depth) fs))" using that by force
    ultimately show ?thesis by (rule foldr_max_le)
  qed
  then show "at_fields p fs r" using o t y unfolding at_fields_def in_object_def by auto
qed

text \<open>The end of an array, and the next element.\<close>

lemma at_elems_nil:
  assumes "at_elems p [] r" "contexts p = contexts y @ [b]" "same_row y p"
  shows "current_token (next_token p) = END_ARRAY" "behind y r (next_token p)"
proof -
  obtain w where w: "standing p (w @ 93 # r)" "blank w" "in_array p"
    using assms(1) unfolding at_elems_def by (auto elim: elems_text.cases elems_tail.cases)
  have q: "next_token p = end_context END_ARRAY (advance (length w) p)"
    using step_array_close [OF w(3,1,2)] by (simp add: next_token_def)
  have z: "0 < stack_size (advance (length w) p)" using w(3) by (simp add: in_array_def)
  note e = end_context [OF standing_advance [OF w(1)] q z]
  show "current_token (next_token p) = END_ARRAY" by (rule e)
  have "same_row p (next_token p)" using e(4) by (simp add: same_row_def)
  then show "behind y r (next_token p)"
    using e assms(2) same_row_trans [OF assms(3)] by (simp add: behind_def value_end_def)
qed

lemma at_elems_cons:
  assumes "at_elems p (v # vs) r"
  shows "\<exists>y t. next_token p = parse_first_token_in_value_and_set_current y \<and> value_at y v t
    \<and> contexts y = contexts p \<and> same_row p y \<and> (\<forall>z. behind y t z \<longrightarrow> at_elems z vs r)"
proof -
  obtain s where s: "standing p (s @ r)" "in_array p" "\<forall>v\<in>set (v # vs). depth v + stack_size p \<le> 64"
    "current_token p = START_ARRAY \<and> elems_text (v # vs) s \<or> value_end (current_token p) \<and> elems_tail (v # vs) s"
    using assms unfolding at_elems_def by blast
  have more: "at_elems z vs r" if "behind (advance n p) (t @ r) z" "elems_tail vs t" for n t z
  proof -
    have c: "contexts z = contexts p" using that(1) by (simp add: behind_def)
    then have "stack_size z = stack_size p" by (metis length_contexts)
    then show ?thesis using that s(2,3) in_context_same [OF c] unfolding at_elems_def behind_def by auto
  qed
  from s(4) show ?thesis
  proof (elim disjE conjE)
    assume a: "current_token p = START_ARRAY" "elems_text (v # vs) s"
    from a(2) obtain w u t where t: "s = w @ u @ t" "blank w" "json_text v u" "elems_tail vs t"
      by (auto elim: elems_text.cases)
    obtain c u' where c: "u = c # u'" "\<not> is_whitespace_json c" "c \<noteq> 93" using json_text_first [OF t(3)] by blast
    have p: "standing p (w @ u @ t @ r)" using s(1) t(1) by simp
    have "next_token p = parse_first_token_in_value_and_set_current (advance (length w) p)"
      using step_array_first [OF s(2) a(1) _ t(2) c(2,3)] p c(1) by (simp add: next_token_def)
    moreover have "value_at (advance (length w) p) v (t @ r)"
      using standing_advance [OF p] t(3) tail_delimits(1) [OF t(4)] s(3) unfolding value_at_def by auto
    ultimately show ?thesis using more [OF _ t(4)] by (intro exI [of _ "advance (length w) p"] exI [of _ "t @ r"])
        (auto simp: same_row_def)
  next
    assume a: "value_end (current_token p)" "elems_tail (v # vs) s"
    from a(2) obtain w w' u t where t: "s = w @ 44 # w' @ u @ t" "blank w" "blank w'" "json_text v u" "elems_tail vs t"
      by (auto elim: elems_tail.cases)
    obtain c u' where c: "u = c # u'" "\<not> is_whitespace_json c" using json_text_first [OF t(4)] by blast
    have p: "standing p ((w @ 44 # w') @ u @ t @ r)" using s(1) t(1) by simp
    let ?y = "advance (length w + 1 + length w') p"
    have "next_token p = parse_first_token_in_value_and_set_current ?y"
      using step_array_comma [OF s(2) _ _ t(2,3) c(2)] p c(1) a(1) by (simp add: next_token_def value_end_def)
    moreover have "value_at ?y v (t @ r)"
      using standing_advance [OF p] t(4) tail_delimits(1) [OF t(5)] s(3) unfolding value_at_def by (auto simp: add.assoc)
    ultimately show ?thesis using more [OF _ t(5)] by (intro exI [of _ ?y] exI [of _ "t @ r"])
        (auto simp: same_row_def)
  qed
qed

text \<open>The end of an object, and the next field.\<close>

lemma at_fields_nil:
  assumes "at_fields p [] r" "contexts p = contexts y @ [b]" "same_row y p"
  shows "\<exists>q. parse_next_token_and_set_current name p = (q, no_flags) \<and> current_token q = END_OBJECT \<and> behind y r q"
proof -
  obtain w where w: "standing p (w @ 125 # r)" "blank w" "in_object p" "current_token p \<noteq> FIELD_NAME"
    using assms(1) unfolding at_fields_def by (auto elim: fields_text.cases fields_tail.cases simp: value_end_def)
  let ?q = "end_context END_OBJECT (advance (length w) p)"
  have q: "parse_next_token_and_set_current name p = (?q, no_flags)"
    using step_object_close [OF w(3,4,1,2)] by simp
  have z: "0 < stack_size (advance (length w) p)" using w(3) by (simp add: in_object_def)
  note e = end_context [OF standing_advance [OF w(1)] refl z, of END_OBJECT]
  have "same_row p ?q" using e(4) by (simp add: same_row_def)
  then show ?thesis
    using q e assms(2) same_row_trans [OF assms(3)] by (simp add: behind_def value_end_def)
qed

lemma field_value:
  assumes "in_object q" "standing q ((k @ w1 @ 58 # w2) @ u @ t)" "blank w1" "blank w2" "json_text v u" "delimits t"
    "depth v + stack_size q \<le> 64"
  shows "\<exists>y. next_token (at_field k q) = parse_first_token_in_value_and_set_current y \<and> value_at y v t
    \<and> contexts y = contexts q \<and> same_row q y"
proof -
  have q: "standing q (k @ w1 @ 58 # w2 @ u @ t)" using assms(2) by simp
  obtain c u' where c: "u = c # u'" "\<not> is_whitespace_json c" using json_text_first [OF assms(5)] by blast
  let ?p = "at_field k q" and ?y = "advance (length w1 + 1 + length w2) (at_field k q)"
  have p: "standing ?p ((w1 @ 58 # w2) @ u @ t)" using standing_at_field [OF q] by simp
  have "in_object ?p" using assms(1) by (simp add: in_object_def)
  then have "next_token ?p = parse_first_token_in_value_and_set_current ?y"
    using step_object_colon [OF _ _ _ assms(3,4) c(2)] p c(1) by (simp add: next_token_def)
  moreover have "value_at ?y v t"
    using standing_advance [OF p] assms(5-7) unfolding value_at_def by (auto simp: add.assoc)
  moreover have "same_row q ?y" using at_field_simps(4) [of q k] by (simp add: same_row_def)
  ultimately show ?thesis by (intro exI [of _ ?y]) simp
qed

lemma at_fields_cons:
  assumes "at_fields p ((k, v) # fs) r"
  shows "\<exists>q f y t. parse_next_token_and_set_current name p = (q, f) \<and> current_token q = FIELD_NAME
    \<and> matched_name f = Some (name = Some (literal_value k))
    \<and> next_token q = parse_first_token_in_value_and_set_current y \<and> value_at y v t
    \<and> contexts y = contexts p \<and> same_row p y \<and> (\<forall>z. behind y t z \<longrightarrow> at_fields z fs r)"
proof -
  obtain s where s: "standing p (s @ r)" "in_object p" "\<forall>kv\<in>set ((k, v) # fs). depth (snd kv) + stack_size p \<le> 64"
    "current_token p = START_OBJECT \<and> fields_text ((k, v) # fs) s
      \<or> value_end (current_token p) \<and> fields_tail ((k, v) # fs) s"
    using assms unfolding at_fields_def by blast
  have more: "at_fields z fs r" if "behind y (t @ r) z" "fields_tail fs t" "contexts y = contexts p" for y t z
  proof -
    have c: "contexts z = contexts p" using that by (simp add: behind_def)
    then have "stack_size z = stack_size p" by (metis length_contexts)
    then show ?thesis using that s(2,3) in_context_same [OF c] unfolding at_fields_def behind_def by auto
  qed
  have rest: ?thesis if st: "parse_next_token_and_set_current name p = (at_field k (advance n p), with_match name k f)"
    and p: "standing (advance n p) ((k @ w1 @ 58 # w2) @ u @ t @ r)" and b: "blank w1" "blank w2" "json_text v u"
    and t: "fields_tail fs t" for n f w1 w2 u t
  proof -
    have "in_object (advance n p)" "depth v + stack_size (advance n p) \<le> 64" using s(2,3) by (simp_all add: in_object_def)
    from field_value [OF this(1) p b tail_delimits(2) [OF t] this(2)] obtain y where
      y: "next_token (at_field k (advance n p)) = parse_first_token_in_value_and_set_current y" "value_at y v (t @ r)"
      "contexts y = contexts p" "same_row (advance n p) y" by auto
    then show ?thesis using st more [OF _ t]
      by (intro exI [of _ "at_field k (advance n p)"] exI [of _ "with_match name k f"] exI [of _ y] exI [of _ "t @ r"])
        (auto simp: with_match_def same_row_def)
  qed
  from s(4) show ?thesis
  proof (elim disjE conjE)
    assume a: "current_token p = START_OBJECT" "fields_text ((k, v) # fs) s"
    from a(2) obtain w w1 w2 u t where t: "s = w @ k @ w1 @ 58 # w2 @ u @ t" "blank w" "string_literal k" "blank w1"
      "blank w2" "json_text v u" "fields_tail fs t"
      by (auto elim: fields_text.cases)
    have p: "standing p (w @ (k @ w1 @ 58 # w2) @ u @ t @ r)" using s(1) t(1) by simp
    show ?thesis
      using rest [OF step_object_first [OF s(2) a(1) _ t(2,3)] standing_advance [OF p] t(4-7)] p by simp
  next
    assume a: "value_end (current_token p)" "fields_tail ((k, v) # fs) s"
    from a(2) obtain w w' w1 w2 u t where t: "s = w @ 44 # w' @ k @ w1 @ 58 # w2 @ u @ t" "blank w" "blank w'"
      "string_literal k" "blank w1" "blank w2" "json_text v u" "fields_tail fs t"
      by (auto elim: fields_tail.cases)
    have p: "standing p ((w @ 44 # w') @ (k @ w1 @ 58 # w2) @ u @ t @ r)" using s(1) t(1) by simp
    have "standing (advance (length w + 1 + length w') p) ((k @ w1 @ 58 # w2) @ u @ t @ r)"
      using standing_advance [OF p] by (simp add: add.assoc)
    from rest [OF step_object_comma [OF s(2) _ _ _ t(2-4)] this t(5-8)] show ?thesis
      using p a(1) by (simp add: value_end_def)
  qed
qed

lemma value_at_token:
  assumes "value_at y v r" "p = parse_first_token_in_value_and_set_current y"
  shows "current_token p \<notin> {ERROR, SUCCESS, INIT, END_ARRAY, END_OBJECT, FIELD_NAME}"
    "current_token p = VALUE_NULL \<longleftrightarrow> null_value v"
    "\<exists>q. try_skip_children p = Some (True, q) \<and> behind y r q"
proof -
  note v = value_at_run [OF assms(1), of id]
  have "current_token p \<noteq> ERROR" using v assms(2) by (cases v) (auto simp: value_run_def Let_def value_end_def)
  with first_token_cases(4) [OF assms(2)] show
    "current_token p \<notin> {ERROR, SUCCESS, INIT, END_ARRAY, END_OBJECT, FIELD_NAME}" by auto
  show "current_token p = VALUE_NULL \<longleftrightarrow> null_value v"
    using v assms(2) by (cases v) (auto simp: value_run_def Let_def null_value_def)
  show "\<exists>q. try_skip_children p = Some (True, q) \<and> behind y r q" using value_skip [OF v assms(2)] .
qed

section \<open>The loops of the evaluator\<close>

lemma next_with_matching:
  "parse_next_token_and_set_current (Some name) p = (q, f) \<Longrightarrow> parse_next_token_with_matching name p = (q, matched_name f)"
  by (simp add: parse_next_token_with_matching_def)

lemma skip_fields_at:
  "at_fields p fs r \<Longrightarrow> contexts p = contexts y @ [b] \<Longrightarrow> same_row y p
    \<Longrightarrow> \<exists>q. skip_fields p = Some (True, q) \<and> behind y r q"
proof (induction fs arbitrary: p)
  case Nil
  from at_fields_nil [OF this, of None] show ?case
    by (subst skip_fields.simps) (auto simp: next_token_def Let_def)
next
  case (Cons kv fs)
  obtain k v where kv: "kv = (k, v)" by fastforce
  from at_fields_cons [OF Cons.prems(1) [unfolded kv], of None] obtain q f y' t where
    q: "parse_next_token_and_set_current None p = (q, f)" "current_token q = FIELD_NAME"
    "next_token q = parse_first_token_in_value_and_set_current y'" "value_at y' v t"
    "contexts y' = contexts p" "same_row p y'" "\<And>z. behind y' t z \<Longrightarrow> at_fields z fs r" by blast
  note tk = value_at_token [OF q(4,3)]
  from tk(3) obtain z where z: "try_skip_children (next_token q) = Some (True, z)" "behind y' t z" by blast
  have "same_row y z" using same_row_trans [OF Cons.prems(3) same_row_trans [OF q(6), of z]] z(2) by (simp add: behind_def)
  moreover have "contexts z = contexts y @ [b]" using z(2) q(5) Cons.prems(2) by (simp add: behind_def)
  ultimately have "\<exists>w. skip_fields z = Some (True, w) \<and> behind y r w"
    using Cons.IH [OF q(7) [OF z(2)]] by blast
  then show ?case using q(1,2) tk(1) z
    by (subst skip_fields.simps) (simp add: next_token_def [of p] Let_def)
qed

lemma finish_array_at:
  "at_elems p vs r \<Longrightarrow> contexts p = contexts y @ [b] \<Longrightarrow> same_row y p
    \<Longrightarrow> \<exists>q. finish_array p = Some (True, q) \<and> behind y r q"
proof (induction vs arbitrary: p)
  case Nil
  from at_elems_nil [OF this] show ?case by (subst finish_array.simps) (simp add: Let_def)
next
  case (Cons v vs)
  from at_elems_cons [OF Cons.prems(1)] obtain y' t where
    q: "next_token p = parse_first_token_in_value_and_set_current y'" "value_at y' v t"
    "contexts y' = contexts p" "same_row p y'" "\<And>z. behind y' t z \<Longrightarrow> at_elems z vs r" by blast
  note tk = value_at_token [OF q(2,1)]
  from tk(3) obtain z where z: "try_skip_children (next_token p) = Some (True, z)" "behind y' t z" by blast
  have "same_row y z" using same_row_trans [OF Cons.prems(3) same_row_trans [OF q(4), of z]] z(2) by (simp add: behind_def)
  moreover have "contexts z = contexts y @ [b]" using z(2) q(3) Cons.prems(2) by (simp add: behind_def)
  ultimately have "\<exists>w. finish_array z = Some (True, w) \<and> behind y r w"
    using Cons.IH [OF q(5) [OF z(2)]] by blast
  then show ?case using tk(1) z by (subst finish_array.simps) (simp add: Let_def)
qed

text \<open>The next value in an object or an array: its position, and what is known behind it.\<close>

definition next_value ::
  "json_parser \<Rightarrow> json_parser \<Rightarrow> json \<Rightarrow> (json_parser \<Rightarrow> bool) \<Rightarrow> bool" where
  "next_value p q v P \<longleftrightarrow> (\<exists>y t. q = parse_first_token_in_value_and_set_current y \<and> value_at y v t
     \<and> contexts y = contexts p \<and> same_row p y \<and> (\<forall>z. behind y t z \<longrightarrow> P z))"

lemma next_value_from: "next_value p q v P \<Longrightarrow> contexts p = contexts p' \<Longrightarrow> same_row p' p \<Longrightarrow> next_value p' q v P"
  unfolding next_value_def using same_row_trans by metis

lemma find_field_at:
  "at_fields p fs r \<Longrightarrow> contexts p = contexts y @ [b] \<Longrightarrow> same_row y p \<Longrightarrow>
    (case find (\<lambda>kv. literal_value (fst kv) = name) fs of
       None \<Rightarrow> \<exists>q. find_field name p = Some (Some False, q)
     | Some kv \<Rightarrow>
         if null_value (snd kv) then \<exists>q. find_field name p = Some (None, q)
         else \<exists>q gs. find_field name p = Some (Some True, q) \<and> next_value p q (snd kv) (\<lambda>z. at_fields z gs r))"
proof (induction fs arbitrary: p)
  case Nil
  from at_fields_nil [OF this, of "Some name"] show ?case
    by (subst find_field.simps) (auto simp: parse_next_token_with_matching_def)
next
  case (Cons kv fs)
  obtain k v where kv: "kv = (k, v)" by fastforce
  from at_fields_cons [OF Cons.prems(1) [unfolded kv], of "Some name"] obtain q f y' t where
    q: "parse_next_token_and_set_current (Some name) p = (q, f)" "current_token q = FIELD_NAME"
    "matched_name f = Some (Some name = Some (literal_value k))"
    "next_token q = parse_first_token_in_value_and_set_current y'" "value_at y' v t"
    "contexts y' = contexts p" "same_row p y'" "\<And>z. behind y' t z \<Longrightarrow> at_fields z fs r" by blast
  note m = next_with_matching [OF q(1)]
  note tk = value_at_token [OF q(5,4)]
  show ?case
  proof (cases "literal_value k = name")
    case True
    then have "find_field name p = (if null_value v then Some (None, next_token q) else Some (Some True, next_token q))"
      using q(2,3) tk(1,2) by (subst find_field.simps) (simp add: m Let_def)
    moreover have "next_value p (next_token q) v (\<lambda>z. at_fields z fs r)"
      unfolding next_value_def using q by blast
    ultimately show ?thesis using True kv by auto
  next
    case False
    from tk(3) obtain z where z: "try_skip_children (next_token q) = Some (True, z)" "behind y' t z" by blast
    have s: "same_row p z" using same_row_trans [OF q(7), of z] z(2) by (simp add: behind_def)
    have c: "contexts z = contexts p" using z(2) q(6) by (simp add: behind_def)
    have e: "find_field name p = find_field name z"
      using q(2,3) tk(1) z False by (subst find_field.simps) (simp add: m Let_def)
    have "(case find (\<lambda>kv. literal_value (fst kv) = name) fs of
       None \<Rightarrow> \<exists>q. find_field name z = Some (Some False, q)
     | Some kv \<Rightarrow>
         if null_value (snd kv) then \<exists>q. find_field name z = Some (None, q)
         else \<exists>q gs. find_field name z = Some (Some True, q) \<and> next_value z q (snd kv) (\<lambda>z. at_fields z gs r))"
      using Cons.IH [OF q(8) [OF z(2)]] c Cons.prems(2) same_row_trans [OF Cons.prems(3) s] by simp
    then show ?thesis unfolding e using kv False next_value_from [OF _ c s]
      by (auto split: option.splits if_splits) blast
  qed
qed

lemma skip_elements_at:
  "at_elems p vs r \<Longrightarrow> i < length vs \<Longrightarrow>
    \<exists>q. skip_elements i (next_token p) = Some (True, q) \<and> next_value p q (vs ! i) (\<lambda>z. at_elems z (drop (Suc i) vs) r)"
proof (induction i arbitrary: p vs)
  case 0
  then obtain v vs' where vs: "vs = v # vs'" by (cases vs) auto
  from at_elems_cons [OF 0(1) [unfolded vs]] show ?case by (auto simp: vs next_value_def)
next
  case (Suc i)
  then obtain v vs' where vs: "vs = v # vs'" by (cases vs) auto
  from at_elems_cons [OF Suc.prems(1) [unfolded vs]] obtain y' t where
    q: "next_token p = parse_first_token_in_value_and_set_current y'" "value_at y' v t"
    "contexts y' = contexts p" "same_row p y'" "\<And>z. behind y' t z \<Longrightarrow> at_elems z vs' r" by blast
  note tk = value_at_token [OF q(2,1)]
  from tk(3) obtain z where z: "try_skip_children (next_token p) = Some (True, z)" "behind y' t z" by blast
  have s: "same_row p z" using same_row_trans [OF q(4), of z] z(2) by (simp add: behind_def)
  have c: "contexts z = contexts p" using z(2) q(3) by (simp add: behind_def)
  have a: "at_elems z vs' r" using q(5) z(2) .
  have l: "i < length vs'" using Suc.prems(2) vs by simp
  then obtain v' vs'' where "vs' = v' # vs''" by (cases vs') auto
  then have "current_token (next_token z) \<noteq> ERROR"
    using at_elems_cons [of z v' vs'' r] a value_at_token(1) by force
  then show ?case using Suc.IH [OF a l] tk(1) z vs next_value_from [OF _ c s] by auto
qed

lemma skip_elements_past:
  "at_elems p vs r \<Longrightarrow> contexts p = contexts y @ [b] \<Longrightarrow> same_row y p \<Longrightarrow> length vs \<le> i \<Longrightarrow>
    \<exists>q. skip_elements i (next_token p) = Some (i = length vs, q) \<and> (i = length vs \<longrightarrow> current_token q = END_ARRAY)"
proof (induction i arbitrary: p vs)
  case 0
  then show ?case using at_elems_nil [of p r] by auto
next
  case (Suc i)
  show ?case
  proof (cases vs)
    case Nil
    then show ?thesis using Suc.prems at_elems_nil [of p r] by auto
  next
    case (Cons v vs')
    from at_elems_cons [OF Suc.prems(1) [unfolded Cons]] obtain y' t where
      q: "next_token p = parse_first_token_in_value_and_set_current y'" "value_at y' v t"
      "contexts y' = contexts p" "same_row p y'" "\<And>z. behind y' t z \<Longrightarrow> at_elems z vs' r" by blast
    note tk = value_at_token [OF q(2,1)]
    from tk(3) obtain z where z: "try_skip_children (next_token p) = Some (True, z)" "behind y' t z" by blast
    have s: "same_row y z" using same_row_trans [OF Suc.prems(3) same_row_trans [OF q(4), of z]] z(2) by (simp add: behind_def)
    have c: "contexts z = contexts y @ [b]" using z(2) q(3) Suc.prems(2) by (simp add: behind_def)
    have a: "at_elems z vs' r" using q(5) z(2) .
    have "current_token (next_token z) \<noteq> ERROR"
    proof (cases vs')
      case Nil
      then show ?thesis using at_elems_nil(1) a c s by force
    next
      case (Cons v' vs'')
      then show ?thesis using at_elems_cons [of z v' vs'' r] a value_at_token(1) by force
    qed
    then show ?thesis using Suc.IH [OF a c s] Suc.prems(4) tk(1) z Cons by auto
  qed
qed

lemma next_token_elems:
  assumes "at_elems p vs r" "contexts p = contexts y @ [b]" "same_row y p"
  shows "current_token (next_token p) \<noteq> ERROR"
proof (cases vs)
  case Nil
  then show ?thesis using at_elems_nil(1) assms by force
next
  case (Cons v' vs'')
  then show ?thesis using at_elems_cons [of p v' vs'' r] assms(1) value_at_token(1) by force
qed

end
