(* ===== verification/GetJsonEval.thy ===== *)
theory GetJsonEval
  imports GetJsonPaths
begin

text \<open>
  The stack machine on the text of a value: a path of names and indices succeeds exactly when it leads to a
  value, and writes that value.
\<close>

section \<open>Steps of the stack machine\<close>

lemma eval_loop_continue: "eval_step norm e = Some (Inl e') \<Longrightarrow> eval_loop norm e = eval_loop norm e'"
  by (subst eval_loop.simps) simp

lemma eval_loop_return: "eval_step norm e = Some (Inr x) \<Longrightarrow> eval_loop norm e = Some x"
  by (subst eval_loop.simps) simp

lemma eval_loop_none: "eval_step norm e = None \<Longrightarrow> eval_loop norm e = None"
  by (subst eval_loop.simps) simp

lemma eval_step_top: "tasks e = c # ts \<Longrightarrow> \<not> task_is_done c \<Longrightarrow> eval_step norm e = run_task norm c e"
  "tasks e = c # ts \<Longrightarrow> task_is_done c \<Longrightarrow> eval_step norm e = pop_task e"
  by (simp_all add: eval_step_def)

text \<open>The evaluation from this state, if it returns, returns no result, and has written nothing.\<close>

definition no_result :: "(byte list \<Rightarrow> byte list) \<Rightarrow> eval \<Rightarrow> memory \<times> bool \<Rightarrow> bool" where
  "no_result norm e m \<longleftrightarrow>
     (\<forall>b n e'. eval_loop norm e = Some (b, n, e') \<longrightarrow> \<not> b \<and> n = 0 \<and> (mem e', path_depth_exceeded e') = m)"

definition effect :: "eval \<Rightarrow> memory \<times> bool" where
  "effect e = (mem e, path_depth_exceeded e)"

lemma effect_eq [simp]: "(effect e = effect e') = (mem e = mem e' \<and> path_depth_exceeded e = path_depth_exceeded e')"
  by (simp add: effect_def)

lemma effect_update [simp]: "effect (set_top c e) = effect e" "effect (e\<lparr>parser := p\<rparr>) = effect e" "effect (e\<lparr>tasks := ts\<rparr>) = effect e"
  by (simp_all add: effect_def set_top_def)

lemma no_result_step: "eval_step norm e = Some (Inl e') \<Longrightarrow> no_result norm e' m \<Longrightarrow> no_result norm e m"
  unfolding no_result_def by (simp only: eval_loop_continue)

lemma no_result_fails: "eval_step norm e = fails e' \<Longrightarrow> effect e' = m \<Longrightarrow> no_result norm e m"
  by (auto simp: no_result_def fails_def eval_loop_return effect_def)

text \<open>The tasks below wait for the result of a name or an index and have none yet.\<close>

fun waits :: "evaluation_case_path \<Rightarrow> task list \<Rightarrow> bool" where
  "waits cp [] \<longleftrightarrow> True"
| "waits cp (t # ts) \<longleftrightarrow> \<not> task_is_done t \<and> dirty t = 0 \<and>
     (cp = START_OBJECT___MATCHED_NAME_PATH \<and> token t = START_OBJECT \<and> path t \<noteq> [] \<and> pi_type (hd (path t)) = NAMED
        \<and> \<not> is_first_enter t \<or> cp = START_ARRAY___MATCHED_INDEX) \<and> waits (case_path t) ts"

lemma run_named:
  "token c = START_OBJECT \<Longrightarrow> path c \<noteq> [] \<Longrightarrow> pi_type (hd (path c)) = NAMED \<Longrightarrow> run_task norm c e = case_path_4 c e"
  by (simp add: run_task_def)

lemma unwind:
  "tasks e = c # ts \<Longrightarrow> task_is_done c \<Longrightarrow> dirty c = 0 \<Longrightarrow> waits (case_path c) ts \<Longrightarrow> no_result norm e (effect e)"
proof (induction ts arbitrary: c e)
  case Nil
  then have "eval_step norm e = Some (Inr (False, 0, e\<lparr>tasks := []\<rparr>))"
    by (simp add: eval_step_top pop_task_def)
  then show ?case by (simp add: no_result_def eval_loop_return effect_def)
next
  case (Cons t ts)
  then have w: "\<not> task_is_done t" "dirty t = 0" "waits (case_path t) ts" by simp_all
  have s: "eval_step norm e = pop_task e" using Cons.prems by (simp add: eval_step_top)
  show ?case
  proof (cases "case_path c = START_ARRAY___MATCHED_INDEX")
    case True
    show ?thesis
    proof (cases "finish_array (parser e)")
      case None
      then have "eval_step norm e = None" using s True Cons.prems by (simp add: pop_task_def Let_def)
      then show ?thesis by (simp add: no_result_def eval_loop_none)
    next
      case (Some r)
      obtain ok p where r: "r = (ok, p)" by fastforce
      let ?t = "t\<lparr>dirty := 0, gen := gen c, task_is_done := True\<rparr>"
      show ?thesis
      proof (cases ok)
        case True
        then have "eval_step norm e = Some (Inl (e\<lparr>tasks := ?t # ts, parser := p\<rparr>))"
          using s \<open>case_path c = _\<close> Some r Cons.prems w(2)
          by (simp add: pop_task_def Let_def finished_def set_top_def)
        note n = no_result_step [OF this]
        have "no_result norm (e\<lparr>tasks := ?t # ts, parser := p\<rparr>) (effect e)"
          using Cons.IH [of "e\<lparr>tasks := ?t # ts, parser := p\<rparr>" ?t] w by simp
        then show ?thesis by (rule n)
      next
        case False
        then have "eval_step norm e = fails (e\<lparr>parser := p, tasks := t # ts\<rparr>)"
          using s \<open>case_path c = _\<close> Some r Cons.prems by (simp add: pop_task_def Let_def set_top_def)
        then show ?thesis by (rule no_result_fails) simp
      qed
    qed
  next
    case False
    then have n: "case_path c = START_OBJECT___MATCHED_NAME_PATH" "token t = START_OBJECT" "path t \<noteq> []"
      "pi_type (hd (path t)) = NAMED" "\<not> is_first_enter t" using Cons.prems by auto
    let ?t = "t\<lparr>dirty := 0, gen := gen c\<rparr>" and ?e = "e\<lparr>tasks := t\<lparr>dirty := 0, gen := gen c\<rparr> # ts\<rparr>"
    have e1: "eval_step norm e = Some (Inl ?e)"
      using s n(1) Cons.prems by (simp add: pop_task_def Let_def set_top_def)
    have "eval_step norm ?e = case_path_4 ?t ?e"
      using w n by (simp add: eval_step_def run_named Let_def)
    also have "\<dots> = Some (Inl (?e\<lparr>tasks := ?t\<lparr>task_is_done := True\<rparr> # ts\<rparr>))"
      using n(5) by (simp add: case_path_4_def finished_def set_top_def)
    finally have e2: "eval_step norm ?e = Some (Inl (?e\<lparr>tasks := ?t\<lparr>task_is_done := True\<rparr> # ts\<rparr>))" .
    have "no_result norm (?e\<lparr>tasks := ?t\<lparr>task_is_done := True\<rparr> # ts\<rparr>) (effect e)"
      using Cons.IH [of "?e\<lparr>tasks := ?t\<lparr>task_is_done := True\<rparr> # ts\<rparr>" "?t\<lparr>task_is_done := True\<rparr>"] w(3) by simp
    then show ?thesis using no_result_step [OF e1 no_result_step [OF e2]] by simp
  qed
qed

lemma unwind_finished:
  assumes "eval_step norm e = finished c' e'" "tasks e' = c # ts" "dirty c' = 0" "waits (case_path c') ts" "effect e' = m"
  shows "no_result norm e m"
proof -
  have "no_result norm (set_top (c'\<lparr>task_is_done := True\<rparr>) e') m"
    using unwind [of "set_top (c'\<lparr>task_is_done := True\<rparr>) e'" "c'\<lparr>task_is_done := True\<rparr>" ts] assms(2-5)
    by (simp add: set_top_def)
  then show ?thesis using assms(1) no_result_step by (simp add: finished_def)
qed

section \<open>The value at the path\<close>

text \<open>
  The task on top of the stack has just been put there, for the value in front of \<open>y\<close>.
\<close>

definition starts :: "eval \<Rightarrow> task \<Rightarrow> task list \<Rightarrow> path_instruction list \<Rightarrow> json_parser \<Rightarrow> bool" where
  "starts e c ts pth y \<longleftrightarrow> tasks e = c # ts \<and> \<not> task_is_done c \<and> is_first_enter c \<and> dirty c = 0 \<and> path c = pth
     \<and> style c = RAW \<and> token c = current_token (parser e) \<and> parser e = parse_first_token_in_value_and_set_current y
     \<and> length ts + length pth \<le> 16 \<and> array_depth (gen c) = 0"

text \<open>The task on top of the stack has written \<open>out\<close>, and the parser is behind the value.\<close>

definition delivers ::
  "(byte list \<Rightarrow> byte list) \<Rightarrow> eval \<Rightarrow> task \<Rightarrow> task list \<Rightarrow> byte list \<Rightarrow> json_parser \<Rightarrow> byte list \<Rightarrow> bool" where
  "delivers norm e c ts r y out \<longleftrightarrow> (\<exists>e' c'. eval_loop norm e = eval_loop norm e' \<and> behind y r (parser e')
     \<and> tasks e' = c' # ts \<and> mem e' = store (mem e) (offset (gen c) + output_len (gen c)) out
     \<and> path_depth_exceeded e' = path_depth_exceeded e \<and> task_is_done c' \<and> dirty c' = 1 \<and> case_path c' = case_path c
     \<and> gen c' = (gen c)\<lparr>output_len := output_len (gen c) + length out\<rparr>)"

lemma delivers_step:
  assumes "eval_step norm e = Some (Inl e')" "behind y r (parser e')" "tasks e' = c' # ts"
    "mem e' = store (mem e) (offset (gen c) + output_len (gen c)) out" "path_depth_exceeded e' = path_depth_exceeded e"
    "task_is_done c'" "dirty c' = 1" "case_path c' = case_path c"
    "gen c' = (gen c)\<lparr>output_len := output_len (gen c) + length out\<rparr>"
  shows "delivers norm e c ts r y out"
  unfolding delivers_def using assms eval_loop_continue [OF assms(1)] by blast

lemma starts_step: "starts e c ts pth y \<Longrightarrow> eval_step norm e = run_task norm c e"
  by (simp add: starts_def eval_step_def)

lemma no_array_generator:
  "array_depth g = 0 \<Longrightarrow> no_longer_empty g = g" "array_depth g = 0 \<Longrightarrow> try_write_comma (g, m) = (g, m)"
  by (simp_all add: no_longer_empty_def try_write_comma_def need_comma_def)

lemma write_value:
  assumes "starts e c ts [] y" "value_at y v r"
  shows "delivers norm e c ts r y (result_text norm v)"
proof -
  note st = assms(1) [unfolded starts_def]
  have vr: "value_run norm y v r" using value_at_run [OF assms(2)] .
  have pe: "parser e = parse_first_token_in_value_and_set_current y" using st by simp
  show ?thesis
  proof (cases "current_token (parser e) = VALUE_STRING")
    case True
    then obtain s where v: "v = Scalar VALUE_STRING s"
      using vr pe by (cases v) (auto simp: value_run_def Let_def)
    have b: "behind y r (parser e)" and t: "token_text UNESCAPED norm (parser e) = result_text norm v"
      using vr pe v by (simp_all add: value_run_def Let_def behind_def result_text_def)
    let ?c = "c\<lparr>gen := (gen c)\<lparr>output_len := output_len (gen c) + length (result_text norm v)\<rparr>, dirty := 1, task_is_done := True\<rparr>"
    have "eval_step norm e = case_path_1 norm c e"
      using starts_step [OF assms(1)] st True by (simp add: run_task_def)
    also have "\<dots> = Some (Inl (e\<lparr>mem := store (mem e) (offset (gen c) + output_len (gen c)) (result_text norm v),
        tasks := ?c # ts\<rparr>))"
      using st t by (simp add: case_path_1_def write_raw_def write_unescaped_text_def write_text_eq put_def
          no_array_generator finished_def set_top_def)
    finally show ?thesis by (rule delivers_step [where c' = ?c]) (use b in simp_all)
  next
    case False
    obtain q where q: "copy_current_structure_parser norm (parser e) (Some []) =
        Some \<lparr>c_ok = True, c_len = int (length (compact norm v)), c_dest = Some (compact norm v), c_parser = q\<rparr>"
      "behind y r q" using value_copy [OF vr pe, of "Some []"] by auto
    have t: "compact norm v = result_text norm v"
      using vr pe False by (cases v) (auto simp: value_run_def Let_def result_text_def)
    let ?c = "c\<lparr>gen := (gen c)\<lparr>output_len := output_len (gen c) + length (result_text norm v)\<rparr>, dirty := 1, task_is_done := True\<rparr>"
    have "eval_step norm e = case_path_3 norm c e"
      using starts_step [OF assms(1)] st False by (simp add: run_task_def)
    also have "\<dots> = Some (Inl (e\<lparr>parser := q, mem := store (mem e) (offset (gen c) + output_len (gen c)) (result_text norm v),
        tasks := ?c # ts\<rparr>))"
      using st q(1) t by (simp add: case_path_3_def copy_current_structure_def no_array_generator Let_def
          finished_def set_top_def)
    finally show ?thesis by (rule delivers_step [where c' = ?c]) (use q(2) in simp_all)
  qed
qed

text \<open>A value that the first instruction of the path does not fit.\<close>

lemma skip_value:
  assumes "starts e c ts pth y" "value_at y v r" "run_task norm c e = case_path_12 c e" "waits (case_path c) ts"
  shows "no_result norm e (effect e)"
proof -
  note st = assms(1) [unfolded starts_def]
  obtain q where q: "try_skip_children (parser e) = Some (True, q)" using value_at_token(3) [OF assms(2)] st by auto
  have s: "eval_step norm e = finished (c\<lparr>dirty := 0\<rparr>) (e\<lparr>parser := q\<rparr>)"
    using starts_step [OF assms(1)] assms(3) q by (simp add: case_path_12_def)
  show ?thesis by (rule unwind_finished [OF s]) (use st assms(4) in simp_all)
qed

lemma push_fits:
  "length (tasks e) \<le> 16 \<Longrightarrow> push_eval_context cp g s pth e = e\<lparr>tasks :=
    \<lparr>gen = g, child_gen = g, path = pth, dirty = 0, case_path = cp,
         token = current_token (parser e), style = s, is_first_enter = True, task_is_done = False\<rparr> # tasks e\<rparr>"
  by (simp add: push_eval_context_def MAX_JSON_PATH_DEPTH_def)

definition pushed :: "evaluation_case_path \<Rightarrow> task \<Rightarrow> eval \<Rightarrow> task" where
  "pushed cp c e = \<lparr>gen = gen c, child_gen = gen c, path = tl (path c), dirty = 0, case_path = cp,
         token = current_token (parser e), style = style c, is_first_enter = True, task_is_done = False\<rparr>"

lemma run_index:
  "token c = START_ARRAY \<Longrightarrow> path c \<noteq> [] \<Longrightarrow> plain_path (path c) \<Longrightarrow> pi_type (hd (path c)) = INDEX
    \<Longrightarrow> run_task norm c e = case_path_9 c e"
  by (cases "path c"; cases "tl (path c)")
    (auto simp: run_task_def path_match_element_def path_match_elements_def plain_path_def)

lemma run_other:
  assumes "path c \<noteq> []" "plain_path (path c)" "\<not> (token c = START_OBJECT \<and> pi_type (hd (path c)) = NAMED)"
    "\<not> (token c = START_ARRAY \<and> pi_type (hd (path c)) = INDEX)"
  shows "run_task norm c e = case_path_12 c e"
  using assms by (cases "path c"; cases "tl (path c)")
    (auto simp: run_task_def path_match_element_def path_match_elements_def plain_path_def)

text \<open>What the evaluation of a path on a value comes to.\<close>

definition evaluates ::
  "(byte list \<Rightarrow> byte list) \<Rightarrow> eval \<Rightarrow> task \<Rightarrow> task list \<Rightarrow> path_instruction list \<Rightarrow> json \<Rightarrow> byte list \<Rightarrow> json_parser \<Rightarrow> bool" where
  "evaluates norm e c ts pth v r y \<longleftrightarrow>
     (case lookup pth v of
        Some x \<Rightarrow> delivers norm e c ts r y (result_text norm x)
      | None \<Rightarrow> waits (case_path c) ts \<longrightarrow> no_result norm e (effect e))"

lemma starts_pushed:
  assumes "starts e c ts (i # pth) y" "c' = c \<or> c' = c\<lparr>is_first_enter := False\<rparr>"
    "parser e' = parse_first_token_in_value_and_set_current y'" "tasks e' = pushed cp c e' # c' # ts"
  shows "starts e' (pushed cp c e') (c' # ts) pth y'"
  using assms by (auto simp: starts_def pushed_def)

text \<open>A field of an object.\<close>

lemma evaluates_named:
  assumes st: "starts e c ts (i # pth) y" and v: "value_at y (Obj fs) r" and i: "pi_type i = NAMED"
    and IH: "\<And>e c ts v r y. starts e c ts pth y \<Longrightarrow> value_at y v r \<Longrightarrow> evaluates norm e c ts pth v r y"
  shows "evaluates norm e c ts (i # pth) (Obj fs) r y"
proof -
  note s = st [unfolded starts_def]
  have pe: "parser e = parse_first_token_in_value_and_set_current y" using s by simp
  note o = value_at_obj [OF v pe]
  have run: "run_task norm c' e' = case_path_4 c' e'" if "token c' = token c" "path c' = path c" for c' e'
    using run_named [of c'] that s o(2) i by simp
  have e1: "eval_step norm e = case_path_4 c e" using starts_step [OF st] run by simp
  let ?c = "c\<lparr>is_first_enter := False\<rparr>"
  note f = find_field_at [OF o(1,3,4), of "pi_name i"]
  show ?thesis
  proof (cases "find (\<lambda>kv. literal_value (fst kv) = pi_name i) fs")
    case None
    then obtain q where "find_field (pi_name i) (parser e) = Some (Some False, q)" using f by auto
    then have "eval_step norm e = finished (?c\<lparr>dirty := 0\<rparr>) (e\<lparr>parser := q\<rparr>)"
      using e1 s by (simp add: case_path_4_def Let_def)
    from unwind_finished [OF this] have "waits (case_path c) ts \<longrightarrow> no_result norm e (effect e)" using s by simp
    then show ?thesis using None i by (simp add: evaluates_def)
  next
    case (Some kv)
    show ?thesis
    proof (cases "null_value (snd kv)")
      case True
      then obtain q where "find_field (pi_name i) (parser e) = Some (None, q)" using f Some by auto
      then have "eval_step norm e = fails (e\<lparr>parser := q\<rparr>)"
        using e1 s by (simp add: case_path_4_def Let_def)
      from no_result_fails [OF this] show ?thesis using Some True i by (simp add: evaluates_def)
    next
      case False
      then obtain q gs where q: "find_field (pi_name i) (parser e) = Some (Some True, q)"
        "next_value (parser e) q (snd kv) (\<lambda>z. at_fields z gs r)" using f Some by auto
      from q(2) obtain y' t where y': "q = parse_first_token_in_value_and_set_current y'" "value_at y' (snd kv) t"
        "contexts y' = contexts (parser e)" "same_row (parser e) y'" "\<And>z. behind y' t z \<Longrightarrow> at_fields z gs r"
        unfolding next_value_def by blast
      let ?e0 = "set_top ?c (e\<lparr>parser := q\<rparr>)"
      let ?e' = "?e0\<lparr>tasks := pushed START_OBJECT___MATCHED_NAME_PATH c ?e0 # ?c # ts\<rparr>"
      let ?n = "pushed START_OBJECT___MATCHED_NAME_PATH c ?e0"
      have le: "length (tasks ?e0) \<le> 16" using s by (simp add: set_top_def)
      have step: "eval_step norm e = Some (Inl ?e')"
        using e1 s q(1) push_fits [OF le] by (simp add: case_path_4_def Let_def pushed_def set_top_def)
      have "starts ?e' ?n (?c # ts) pth y'"
        using starts_pushed [OF st, of ?c ?e' y' START_OBJECT___MATCHED_NAME_PATH] y'(1) by (simp add: pushed_def set_top_def)
      from IH [OF this y'(2)] have ev: "evaluates norm ?e' ?n (?c # ts) pth (snd kv) t y'" .
      have l: "lookup (i # pth) (Obj fs) = lookup pth (snd kv)" using i Some False by simp
      have n: "case_path ?n = START_OBJECT___MATCHED_NAME_PATH" "gen ?n = gen c" "mem ?e' = mem e"
        by (simp_all add: pushed_def set_top_def)
      show ?thesis
      proof (cases "lookup pth (snd kv)")
        case None
        have "waits (case_path c) ts \<longrightarrow> waits (case_path ?n) (?c # ts)"
          using n s o(2) i by simp
        then show ?thesis using ev None l n no_result_step [OF step] by (simp add: evaluates_def)
      next
        case (Some x)
        let ?out = "result_text norm x"
        from ev Some n obtain e2 c2 where e2: "eval_loop norm ?e' = eval_loop norm e2" "behind y' t (parser e2)"
          "tasks e2 = c2 # ?c # ts" "mem e2 = store (mem e) (offset (gen c) + output_len (gen c)) ?out"
          "path_depth_exceeded e2 = path_depth_exceeded e" "task_is_done c2" "dirty c2 = 1"
          "case_path c2 = START_OBJECT___MATCHED_NAME_PATH"
          "gen c2 = (gen c)\<lparr>output_len := output_len (gen c) + length ?out\<rparr>"
          by (auto simp: evaluates_def delivers_def set_top_def)
        let ?c3 = "?c\<lparr>dirty := 1, gen := gen c2\<rparr>" and ?e3 = "e2\<lparr>tasks := ?c\<lparr>dirty := 1, gen := gen c2\<rparr> # ts\<rparr>"
        have s2: "eval_step norm e2 = Some (Inl ?e3)"
          using e2 by (simp add: eval_step_def pop_task_def Let_def set_top_def)
        have c3: "contexts (parser e2) = contexts y @ [True]" "same_row y (parser e2)"
          using e2(2) y'(3,4) o(3,4) same_row_trans [OF o(4) same_row_trans [OF y'(4)]] by (simp_all add: behind_def)
        from skip_fields_at [OF y'(5) [OF e2(2)] this] obtain z where
          z: "skip_fields (parser e2) = Some (True, z)" "behind y r z" by blast
        have "eval_step norm ?e3 = case_path_4 ?c3 ?e3" using run [of ?c3 ?e3] s by (simp add: eval_step_def Let_def)
        also have "\<dots> = Some (Inl (e2\<lparr>tasks := ?c3\<lparr>task_is_done := True\<rparr> # ts, parser := z\<rparr>))"
          using z(1) by (simp add: case_path_4_def finished_def set_top_def)
        finally have s3: "eval_step norm ?e3 = Some (Inl (e2\<lparr>tasks := ?c3\<lparr>task_is_done := True\<rparr> # ts, parser := z\<rparr>))" .
        have lp: "eval_loop norm e = eval_loop norm (e2\<lparr>tasks := ?c3\<lparr>task_is_done := True\<rparr> # ts, parser := z\<rparr>)"
          using eval_loop_continue [OF step] e2(1) eval_loop_continue [OF s2] eval_loop_continue [OF s3] by simp
        have "delivers norm e c ts r y ?out"
          unfolding delivers_def using lp z(2) e2
          by (intro exI [of _ "e2\<lparr>tasks := ?c3\<lparr>task_is_done := True\<rparr> # ts, parser := z\<rparr>"]
              exI [of _ "?c3\<lparr>task_is_done := True\<rparr>"]) simp
        then show ?thesis using Some l by (simp add: evaluates_def)
      qed
    qed
  qed
qed

text \<open>An index behind the end of the array: the task for it finds the end of the array and no value.\<close>

lemma at_end_of_array:
  assumes "tasks e = c # ts" "\<not> task_is_done c" "token c = END_ARRAY" "current_token (parser e) = END_ARRAY"
    "plain_path (path c)" "waits (case_path c) ts" "array_depth (gen c) = 0"
  shows "no_result norm e (effect e)"
proof (cases "path c = []")
  case True
  have "store (mem e) a [] = mem e" for a by (rule ext) (auto simp: store_def)
  moreover have "eval_step norm e = case_path_3 norm c e"
    using assms(1-3) True by (simp add: eval_step_def run_task_def)
  ultimately have "eval_step norm e = fails e"
    using assms(4,7)
    by (simp add: case_path_3_def copy_current_structure_def no_array_generator copy_current_structure_parser_def Let_def)
  then show ?thesis by (rule no_result_fails) simp
next
  case False
  have "run_task norm c e = case_path_12 c e" using run_other [OF False assms(5)] assms(3) by simp
  then have s: "eval_step norm e = finished (c\<lparr>dirty := 0\<rparr>) (e\<lparr>parser := parser e\<rparr>)"
    using assms(1,2,4) by (simp add: eval_step_def case_path_12_def try_skip_children_def)
  show ?thesis by (rule unwind_finished [OF s]) (use assms in simp_all)
qed

lemma evaluates_index:
  assumes st: "starts e c ts (i # pth) y" and v: "value_at y (Arr vs) r" and i: "pi_type i = INDEX"
    and plain: "plain_path (i # pth)"
    and IH: "\<And>e c ts v r y. starts e c ts pth y \<Longrightarrow> value_at y v r \<Longrightarrow> evaluates norm e c ts pth v r y"
  shows "evaluates norm e c ts (i # pth) (Arr vs) r y"
proof -
  note s = st [unfolded starts_def]
  have pe: "parser e = parse_first_token_in_value_and_set_current y" using s by simp
  note o = value_at_arr [OF v pe]
  let ?k = "nat (pi_index i)"
  have e1: "eval_step norm e = index_element START_ARRAY___MATCHED_INDEX RAW c e"
    using starts_step [OF st] run_index [of c] s o(2) i plain by (simp add: case_path_9_def)
  have ne: "current_token (next_token (parser e)) \<noteq> ERROR" by (rule next_token_elems [OF o(1,3,4)])
  have le: "length (tasks (set_top c (e\<lparr>parser := q\<rparr>))) \<le> 16" for q using s by (simp add: set_top_def)
  let ?e0 = "\<lambda>q. e\<lparr>parser := q\<rparr>"
  let ?n = "\<lambda>q. pushed START_ARRAY___MATCHED_INDEX c (?e0 q)"
  let ?e' = "\<lambda>q. e\<lparr>parser := q, tasks := ?n q # c # ts\<rparr>"
  have step: "eval_step norm e = Some (Inl (?e' q))"
    if "skip_elements ?k (next_token (parser e)) = Some (True, q)" for q
    using e1 s that ne push_fits [OF le [of q]]
    by (simp add: index_element_def advance_token_def at_error_def Let_def pushed_def set_top_def)
  show ?thesis
  proof (cases "?k < length vs")
    case False
    then have l: "lookup (i # pth) (Arr vs) = None" by simp
    obtain q where q: "skip_elements ?k (next_token (parser e)) = Some (?k = length vs, q)"
      "?k = length vs \<longrightarrow> current_token q = END_ARRAY"
      using skip_elements_past [OF o(1,3,4), of ?k] False by auto
    have "no_result norm e (effect e)" if w: "waits (case_path c) ts"
    proof (cases "?k = length vs")
      case True
      have "no_result norm (?e' q) (effect (?e' q))"
        using at_end_of_array [of "?e' q" "?n q" "c # ts" norm] q True w s plain
        by (simp add: pushed_def plain_path_def)
      then show ?thesis using no_result_step [OF step] q True by simp
    next
      case F: False
      then have "eval_step norm e = fails (e\<lparr>parser := q\<rparr>)"
        using e1 q(1) s ne by (simp add: index_element_def advance_token_def at_error_def Let_def)
      then show ?thesis by (rule no_result_fails) simp
    qed
    then show ?thesis using l by (simp add: evaluates_def)
  next
    case True
    from skip_elements_at [OF o(1) True] obtain q where
      q: "skip_elements ?k (next_token (parser e)) = Some (True, q)"
      "next_value (parser e) q (vs ! ?k) (\<lambda>z. at_elems z (drop (Suc ?k) vs) r)" by blast
    from q(2) obtain y' t where y': "q = parse_first_token_in_value_and_set_current y'" "value_at y' (vs ! ?k) t"
      "contexts y' = contexts (parser e)" "same_row (parser e) y'"
      "\<And>z. behind y' t z \<Longrightarrow> at_elems z (drop (Suc ?k) vs) r"
      unfolding next_value_def by blast
    have "starts (?e' q) (?n q) (c # ts) pth y'"
      using starts_pushed [OF st, of c "?e' q" y' START_ARRAY___MATCHED_INDEX] y'(1) by (simp add: pushed_def)
    from IH [OF this y'(2)] have ev: "evaluates norm (?e' q) (?n q) (c # ts) pth (vs ! ?k) t y'" .
    have l: "lookup (i # pth) (Arr vs) = lookup pth (vs ! ?k)" using i True by simp
    have n: "case_path (?n q) = START_ARRAY___MATCHED_INDEX" "gen (?n q) = gen c" by (simp_all add: pushed_def)
    show ?thesis
    proof (cases "lookup pth (vs ! ?k)")
      case None
      have "waits (case_path c) ts \<longrightarrow> waits (case_path (?n q)) (c # ts)" using n s by simp
      then show ?thesis using ev None l no_result_step [OF step [OF q(1)]] by (simp add: evaluates_def)
    next
      case (Some x)
      let ?out = "result_text norm x"
      from ev Some n obtain e2 c2 where e2: "eval_loop norm (?e' q) = eval_loop norm e2" "behind y' t (parser e2)"
        "tasks e2 = c2 # c # ts" "mem e2 = store (mem e) (offset (gen c) + output_len (gen c)) ?out"
        "path_depth_exceeded e2 = path_depth_exceeded e" "task_is_done c2" "dirty c2 = 1"
        "case_path c2 = START_ARRAY___MATCHED_INDEX"
        "gen c2 = (gen c)\<lparr>output_len := output_len (gen c) + length ?out\<rparr>"
        by (auto simp: evaluates_def delivers_def)
      have c3: "contexts (parser e2) = contexts y @ [False]" "same_row y (parser e2)"
        using e2(2) y'(3,4) o(3,4) same_row_trans [OF o(4) same_row_trans [OF y'(4)]] by (simp_all add: behind_def)
      from finish_array_at [OF y'(5) [OF e2(2)] this] obtain z where
        z: "finish_array (parser e2) = Some (True, z)" "behind y r z" by blast
      let ?c3 = "c\<lparr>dirty := 1, gen := gen c2, task_is_done := True\<rparr>"
      have s2: "eval_step norm e2 = Some (Inl (e2\<lparr>tasks := ?c3 # ts, parser := z\<rparr>))"
        using e2 z(1) s by (simp add: eval_step_def pop_task_def Let_def finished_def set_top_def)
      have lp: "eval_loop norm e = eval_loop norm (e2\<lparr>tasks := ?c3 # ts, parser := z\<rparr>)"
        using eval_loop_continue [OF step [OF q(1)]] e2(1) eval_loop_continue [OF s2] by simp
      have "delivers norm e c ts r y ?out"
        unfolding delivers_def using lp z(2) e2
        by (intro exI [of _ "e2\<lparr>tasks := ?c3 # ts, parser := z\<rparr>"] exI [of _ ?c3]) simp
      then show ?thesis using Some l by (simp add: evaluates_def)
    qed
  qed
qed

lemma evaluates_other:
  assumes st: "starts e c ts (i # pth) y" and v: "value_at y v r" and plain: "plain_path (i # pth)"
    and n: "\<not> ((\<exists>fs. v = Obj fs) \<and> pi_type i = NAMED)" "\<not> ((\<exists>vs. v = Arr vs) \<and> pi_type i = INDEX)"
  shows "evaluates norm e c ts (i # pth) v r y"
proof -
  note s = st [unfolded starts_def]
  have pe: "parser e = parse_first_token_in_value_and_set_current y" using s by simp
  have "token c = START_OBJECT \<Longrightarrow> \<exists>fs. v = Obj fs" "token c = START_ARRAY \<Longrightarrow> \<exists>vs. v = Arr vs"
    using value_at_run [OF v, of id] pe s by (cases v; simp add: value_run_def Let_def value_end_def)+
  then have "run_task norm c e = case_path_12 c e"
    using n s plain by (intro run_other) auto
  from skip_value [OF st v this] have "waits (case_path c) ts \<longrightarrow> no_result norm e (effect e)" by blast
  moreover have "lookup (i # pth) v = None" using n by (cases v) auto
  ultimately show ?thesis by (simp add: evaluates_def)
qed

lemma path_evaluates:
  "plain_path pth \<Longrightarrow> starts e c ts pth y \<Longrightarrow> value_at y v r \<Longrightarrow> evaluates norm e c ts pth v r y"
proof (induction pth arbitrary: e c ts v r y)
  case Nil
  then show ?case using write_value [OF Nil(2,3)] by (simp add: evaluates_def)
next
  case (Cons i pth)
  have IH: "starts e c ts pth y \<Longrightarrow> value_at y v r \<Longrightarrow> evaluates norm e c ts pth v r y" for e c ts v r y
    using Cons.IH Cons.prems(1) by (simp add: plain_path_def)
  note o = evaluates_other [OF Cons.prems(2,3,1)]
  show ?case
  proof (cases v)
    case (Obj fs)
    show ?thesis
    proof (cases "pi_type i = NAMED")
      case True
      show ?thesis using evaluates_named [OF Cons.prems(2) _ True IH, of fs r] Cons.prems(3) Obj by simp
    qed (rule o; simp add: Obj)
  next
    case (Arr vs)
    show ?thesis
    proof (cases "pi_type i = INDEX")
      case True
      show ?thesis using evaluates_index [OF Cons.prems(2) _ True Cons.prems(1) IH, of vs r] Cons.prems(3) Arr by simp
    qed (rule o; simp add: Arr)
  qed (rule o; simp)
qed

end
