(* ===== verification/GetJsonDepth.thy ===== *)
theory GetJsonDepth
  imports GetJsonEval
begin

text \<open>
  Everything the evaluator does with the parser is reading tokens. On a row that holds a value of
  depth at most 64 none of them exceeds the depth limit of the parser.
\<close>

section \<open>Reading tokens\<close>

definition tokens :: "json_parser \<Rightarrow> json_parser \<Rightarrow> bool" where
  "tokens p q \<longleftrightarrow> (\<exists>n. q = (next_token ^^ n) p)"

lemma tokens_refl [simp]: "tokens p p"
  unfolding tokens_def by (rule exI [of _ 0]) simp

lemma tokens_next: "tokens p q \<Longrightarrow> tokens p (next_token q)"
  unfolding tokens_def by (metis funpow.simps(2) o_apply)

lemma tokens_trans: "tokens p q \<Longrightarrow> tokens q r \<Longrightarrow> tokens p r"
proof -
  assume "tokens p q" "tokens q r"
  then obtain m n where "q = (next_token ^^ m) p" "r = (next_token ^^ n) q" unfolding tokens_def by blast
  then have "r = (next_token ^^ (n + m)) p" by (simp add: funpow_add)
  then show "tokens p r" unfolding tokens_def by blast
qed

lemma tokens_first: "tokens (next_token p) q \<Longrightarrow> tokens p q"
  using tokens_trans [OF tokens_next [OF tokens_refl]] .

lemma skip_loop_tokens: "skip_loop k p = Some (ok, q) \<Longrightarrow> tokens p q"
proof -
  have "tokens p (snd x)" if "skip_loop k p = Some x" for x
    using that
  proof (induction rule: skip_loop.raw_induct [rotated, consumes 1, case_names 1])
    case (1 f k p x)
    have "tokens (next_token p) (snd x)"
      using 1(2) 1(1) by (auto simp: Let_def split: if_splits)
    then show ?case by (rule tokens_first)
  qed
  then show "skip_loop k p = Some (ok, q) \<Longrightarrow> tokens p q" by fastforce
qed

lemma try_skip_children_tokens: "try_skip_children p = Some (ok, q) \<Longrightarrow> tokens p q"
  by (auto simp: try_skip_children_def Let_def skip_loop_tokens split: if_splits)

lemma copy_loop_tokens: "copy_loop norm b p d n = Some c \<Longrightarrow> tokens p (c_parser c)"
proof (induction rule: copy_loop.raw_induct [rotated, consumes 1, case_names 1])
  case (1 f norm b p d n c)
  obtain q g where q: "parse_next_token_and_set_current None p = (q, g)" by fastforce
  have "tokens q (c_parser c)"
    using 1(2) 1(1) by (auto simp: q Let_def case_prod_unfold split: if_splits)
  moreover have "next_token p = q" using q by (simp add: next_token_def)
  ultimately show ?case using tokens_first by simp
qed

lemma copy_tokens: "copy_current_structure norm p gm = Some (ok, q, r) \<Longrightarrow> tokens p q"
  by (auto simp: copy_current_structure_def copy_current_structure_parser_def Let_def case_prod_unfold copy_loop_tokens
      split: if_splits option.splits)

lemma skip_fields_tokens: "skip_fields p = Some (ok, q) \<Longrightarrow> tokens p q"
proof -
  have "tokens p (snd x)" if "skip_fields p = Some x" for x
    using that
  proof (induction rule: skip_fields.raw_induct [rotated, consumes 1, case_names 1])
    case (1 f p x)
    have n: "tokens p (next_token p)" "tokens p (next_token (next_token p))"
      using tokens_next tokens_refl by blast+
    obtain b z where z: "try_skip_children (next_token (next_token p)) = Some (b, z)"
      using try_skip_children_ends [of "next_token (next_token p)"] by auto
    have "snd x \<in> {next_token p, next_token (next_token p), z} \<or> f z = Some x"
      using 1(2) by (auto simp: Let_def z split: if_splits)
    moreover have t: "tokens p z" using tokens_trans [OF n(2) try_skip_children_tokens [OF z]] .
    ultimately show ?case using 1(1) [of z x] n tokens_trans [OF t, of "snd x"] by auto
  qed
  then show "skip_fields p = Some (ok, q) \<Longrightarrow> tokens p q" by fastforce
qed

lemma finish_array_tokens: "finish_array p = Some (ok, q) \<Longrightarrow> tokens p q"
proof -
  have "tokens p (snd x)" if "finish_array p = Some x" for x
    using that
  proof (induction rule: finish_array.raw_induct [rotated, consumes 1, case_names 1])
    case (1 f p x)
    have n: "tokens p (next_token p)" using tokens_next tokens_refl by blast
    obtain b z where z: "try_skip_children (next_token p) = Some (b, z)"
      using try_skip_children_ends [of "next_token p"] by auto
    have t: "tokens p z" using tokens_trans [OF n try_skip_children_tokens [OF z]] .
    have "snd x \<in> {next_token p, z} \<or> f z = Some x"
      using 1(2) by (auto simp: Let_def z split: if_splits)
    then show ?case using 1(1) [of z x] n t tokens_trans [OF t, of "snd x"] by auto
  qed
  then show "finish_array p = Some (ok, q) \<Longrightarrow> tokens p q" by fastforce
qed

text \<open>Matching a name does not change what the parser reads.\<close>

lemma try_parse_string_rest:
  "try_parse_string s name = None \<longleftrightarrow> try_parse_string s None = None"
  "try_parse_string s name = Some (b, r) \<Longrightarrow> \<exists>b'. try_parse_string s None = Some (b', r)"
  by (cases s, simp add: try_parse_string_def, simp add: try_parse_string_units)
    (cases s, simp add: try_parse_string_def, auto simp: try_parse_string_units)

lemma field_name_parser:
  "fst (parse_field_name_and_set_current name f p) = fst (parse_field_name_and_set_current None g p)"
proof (cases "try_parse_string (drop (curr_pos p) (chars p)) name")
  case None
  then show ?thesis
    using try_parse_string_rest(1) [of "drop (curr_pos p) (chars p)" name]
    by (simp add: parse_field_name_and_set_current_def)
next
  case (Some x)
  obtain b r where x: "x = (b, r)" by fastforce
  then obtain b' where "try_parse_string (drop (curr_pos p) (chars p)) None = Some (b', r)"
    using try_parse_string_rest(2) Some by blast
  then show ?thesis using Some x by (simp add: parse_field_name_and_set_current_def)
qed

lemma with_matching_parser: "parse_next_token_with_matching name p = (q, m) \<Longrightarrow> q = next_token p"
proof -
  have "fst (parse_next_token_and_set_current (Some name) p) = fst (parse_next_token_and_set_current None p)"
    using field_name_parser [of "Some name"]
    by (simp add: parse_next_token_and_set_current_def Let_def if_distrib [of fst] cong: if_cong)
  then show "parse_next_token_with_matching name p = (q, m) \<Longrightarrow> q = next_token p"
    by (auto simp: parse_next_token_with_matching_def next_token_def split: prod.splits)
qed

lemma find_field_tokens: "find_field name p = Some (found, q) \<Longrightarrow> tokens p q"
proof -
  have "tokens p (snd x)" if "find_field name p = Some x" for x
    using that
  proof (induction rule: find_field.raw_induct [rotated, consumes 1, case_names 1])
    case (1 f name p x)
    obtain y m where y: "parse_next_token_with_matching name p = (y, m)" by fastforce
    then have yp: "y = next_token p" by (rule with_matching_parser)
    have n: "tokens p y" "tokens p (next_token y)"
      using tokens_next tokens_refl unfolding yp by blast+
    obtain b z where z: "try_skip_children (next_token y) = Some (b, z)"
      using try_skip_children_ends [of "next_token y"] by auto
    have t: "tokens p z" using tokens_trans [OF n(2) try_skip_children_tokens [OF z]] .
    have "snd x \<in> {y, next_token y, z} \<or> f name z = Some x"
      using 1(2) by (auto simp: y Let_def z split: if_splits)
    then show ?case using 1(1) [of name z x] n t tokens_trans [OF t, of "snd x"] by auto
  qed
  then show "find_field name p = Some (found, q) \<Longrightarrow> tokens p q" by fastforce
qed

lemma skip_elements_tokens: "skip_elements i p = Some (ok, q) \<Longrightarrow> tokens p q"
proof (induction i arbitrary: p)
  case (Suc i)
  show ?case
  proof (cases "current_token p = END_ARRAY")
    case False
    obtain b z where z: "try_skip_children p = Some (b, z)" using try_skip_children_ends [of p] by auto
    then have "tokens p z" "tokens p (next_token z)" using try_skip_children_tokens tokens_next by blast+
    then show ?thesis using Suc False z tokens_trans by (auto simp: Let_def split: if_splits)
  qed (use Suc in simp)
qed simp

section \<open>The stack machine\<close>

text \<open>The state that a step leaves.\<close>

definition leaves :: "step_result \<Rightarrow> json_parser \<Rightarrow> bool" where
  "leaves r p \<longleftrightarrow> (\<forall>e. r = Some (Inl e) \<longrightarrow> tokens p (parser e)) \<and> (\<forall>b n e. r = Some (Inr (b, n, e)) \<longrightarrow> tokens p (parser e))"

lemma leaves_basic [simp]:
  "leaves None p" "leaves (fails e) p \<longleftrightarrow> tokens p (parser e)" "leaves (finished c e) p \<longleftrightarrow> tokens p (parser e)"
  "leaves (Some (Inl e)) p \<longleftrightarrow> tokens p (parser e)" "leaves (Some (Inr (b, n, e))) p \<longleftrightarrow> tokens p (parser e)"
  by (auto simp: leaves_def fails_def finished_def set_top_def)

lemma push_parser [simp]: "parser (push_eval_context cp g s pth e) = parser e" "parser (set_top c e) = parser e"
  "parser (advance_token e) = next_token (parser e)"
  by (simp_all add: push_eval_context_def set_top_def advance_token_def)

lemma leaves_split:
  "leaves (if b then r else r') p \<longleftrightarrow> (if b then leaves r p else leaves r' p)"
  "leaves (case o1 of None \<Rightarrow> None | Some x \<Rightarrow> f x) p \<longleftrightarrow> (\<forall>x. o1 = Some x \<longrightarrow> leaves (f x) p)"
  "leaves (case gm of (g, m) \<Rightarrow> h g m) p \<longleftrightarrow> leaves (h (fst gm) (snd gm)) p"
  by (auto split: option.split prod.split)

lemma run_task_leaves: "leaves (run_task norm c e) (parser e)"
proof -
  have "leaves (case_path_1 norm c e) (parser e)" "leaves (case_path_2 c e) (parser e)"
    "leaves (wildcard_elements cp st n c e) (parser e)" "leaves (case_path_6 c e) (parser e)" for cp st n
    by (simp_all add: case_path_1_def case_path_2_def wildcard_elements_def case_path_6_def Let_def tokens_next
        leaves_split split: prod.split)
  moreover have "leaves (case_path_3 norm c e) (parser e)"
    by (auto simp: case_path_3_def leaves_split copy_tokens split: option.split)
  moreover have "leaves (case_path_4 c e) (parser e)"
    by (auto simp: case_path_4_def leaves_split Let_def skip_fields_tokens find_field_tokens split: option.split bool.split)
  moreover have "leaves (index_element cp st c' e) (parser e)" for cp st c'
    by (auto simp: index_element_def leaves_split Let_def tokens_next
        intro: tokens_trans [OF tokens_next [OF tokens_refl] skip_elements_tokens] split: option.split)
  moreover have "leaves (case_path_12 c e) (parser e)"
    by (auto simp: case_path_12_def leaves_split Let_def try_skip_children_tokens split: option.split)
  ultimately show ?thesis
    by (simp add: run_task_def case_path_5_def case_path_7_def case_path_8_def case_path_9_def leaves_split)
qed

lemma pop_task_leaves: "leaves (pop_task e) (parser e)"
proof (cases "tasks e")
  case (Cons c ts)
  show ?thesis
  proof (cases ts)
    case Nil
    then show ?thesis using Cons by (simp add: pop_task_def)
  next
    case (Cons pc us)
    then show ?thesis using \<open>tasks e = _\<close>
      by (cases "case_path c") (auto simp: pop_task_def Let_def finish_array_tokens leaves_split split: option.split)
  qed
qed (simp add: pop_task_def)

lemma eval_loop_tokens: "eval_loop norm e = Some (b, n, e') \<Longrightarrow> tokens (parser e) (parser e')"
proof -
  have "tokens (parser e) (parser (snd (snd x)))" if "eval_loop norm e = Some x" for x
    using that
  proof (induction rule: eval_loop.raw_induct [rotated, consumes 1, case_names 1])
    case (1 f norm e x)
    have l: "leaves (eval_step norm e) (parser e)"
      using run_task_leaves pop_task_leaves by (simp add: eval_step_def Let_def leaves_split)
    from 1(2) obtain r where r: "eval_step norm e = Some r"
      "(case r of Inl e \<Rightarrow> f norm e | Inr x \<Rightarrow> Some x) = Some x"
      by (auto simp: Option.bind_eq_Some_conv)
    show ?case
    proof (cases r)
      case (Inl e2)
      then have "tokens (parser e) (parser e2)" using l r by simp
      then show ?thesis using 1(1) [of norm e2 x] r(2) Inl tokens_trans by simp
    next
      case (Inr y)
      then show ?thesis using l r by (cases x) simp
    qed
  qed
  then show "eval_loop norm e = Some (b, n, e') \<Longrightarrow> tokens (parser e) (parser e')" by fastforce
qed

section \<open>The depth limit\<close>

lemma depth_exceeded_try_skip [simp]: "max_depth_exceeded (snd (try_skip p c)) = max_depth_exceeded p"
  by (simp add: try_skip_def)

lemma depth_exceeded_basic [simp]:
  "max_depth_exceeded (set_current t p) = max_depth_exceeded p"
  "max_depth_exceeded (set_current_error p) = max_depth_exceeded p"
  "max_depth_exceeded (skip_whitespaces p) = max_depth_exceeded p"
  "max_depth_exceeded (end_context t p) = max_depth_exceeded p"
  by (simp_all add: set_current_def set_current_error_def skip_whitespaces_def end_context_def pop_curr_context_def)

lemma depth_exceeded_literal: "max_depth_exceeded (parse_literal_and_set_current cs t p) = max_depth_exceeded p"
proof -
  have a: "max_depth_exceeded (snd (try_skip_all cs p)) = max_depth_exceeded p" for p
  proof (induction cs arbitrary: p)
    case (Cons c cs)
    have "try_skip_all (c # cs) p
      = (if fst (try_skip p c) then try_skip_all cs (snd (try_skip p c)) else try_skip p c)"
      by (cases "try_skip p c") (auto split: bool.split)
    then show ?case using Cons [of "snd (try_skip p c)"] by simp
  qed simp
  have "parse_literal_and_set_current cs t p = (if fst (try_skip_all cs p) then set_current t (snd (try_skip_all cs p))
      else set_current_error (snd (try_skip_all cs p)))"
    unfolding parse_literal_and_set_current_def by (cases "try_skip_all cs p") (auto split: bool.split)
  then show ?thesis using a [of p] by simp
qed

lemma depth_exceeded_digits: "max_depth_exceeded (fst (snd (try_skip_one_or_more_digits p n))) = max_depth_exceeded p"
  by (simp add: try_skip_one_or_more_digits_def skip_zero_or_more_digits_def Let_def)

lemma depth_exceeded_fraction:
  "max_depth_exceeded (fst (snd (snd (parse_number_from_fraction p n)))) = max_depth_exceeded p"
proof -
  have "max_depth_exceeded (fst (snd (try_parse_exp p n))) = max_depth_exceeded p" for p n
    unfolding try_parse_exp_def Let_def by (simp add: depth_exceeded_digits)
  then show ?thesis
    unfolding parse_number_from_fraction_def Let_def case_prod_unfold
    using depth_exceeded_digits depth_exceeded_try_skip
    by (simp only: fst_conv snd_conv if_distrib [of fst] if_distrib [of snd] if_distrib [of max_depth_exceeded]
        advance_simps if_cancel)
qed

lemma depth_exceeded_number: "max_depth_exceeded (parse_number_and_set_current p) = max_depth_exceeded p"
proof -
  have "max_depth_exceeded (fst (snd (snd (try_unsigned_number p)))) = max_depth_exceeded p" for p
    unfolding try_unsigned_number_def Let_def case_prod_unfold
    by (simp add: depth_exceeded_fraction skip_zero_or_more_digits_def Let_def)
  then show ?thesis unfolding parse_number_and_set_current_def Let_def case_prod_unfold by simp
qed

lemma depth_exceeded_first:
  "max_depth_exceeded p \<Longrightarrow> max_depth_exceeded (parse_first_token_in_value_and_set_current p)"
  by (simp add: parse_first_token_in_value_and_set_current_def Let_def depth_exceeded_number depth_exceeded_literal
      parse_string_and_set_current_def start_context_def try_push_context_def push_context_def split: option.split)

lemma depth_exceeded_next: "max_depth_exceeded p \<Longrightarrow> max_depth_exceeded (next_token p)"
  by (simp add: next_token_def parse_next_token_and_set_current_def Let_def depth_exceeded_first
      parse_field_name_and_set_current_def split: option.split)

lemma depth_exceeded_tokens: "tokens p q \<Longrightarrow> max_depth_exceeded p \<Longrightarrow> max_depth_exceeded q"
proof -
  have "max_depth_exceeded p \<Longrightarrow> max_depth_exceeded ((next_token ^^ n) p)" for n
    by (induction n) (simp_all add: depth_exceeded_next)
  then show "tokens p q \<Longrightarrow> max_depth_exceeded p \<Longrightarrow> max_depth_exceeded q" unfolding tokens_def by blast
qed

text \<open>Behind a value at the root the parser only finds the end.\<close>

lemma tokens_at_end:
  assumes "stack_size p = 0" "current_token p \<noteq> INIT" "\<not> max_depth_exceeded p" "tokens p q"
  shows "\<not> max_depth_exceeded q"
proof -
  have "stack_size ((next_token ^^ n) p) = 0 \<and> current_token ((next_token ^^ n) p) \<noteq> INIT
      \<and> \<not> max_depth_exceeded ((next_token ^^ n) p)" for n
    using assms(1-3) by (induction n) (simp_all add: next_token_def parse_next_token_and_set_current_def Let_def)
  then show ?thesis using assms(4) unfolding tokens_def by blast
qed

lemma tokens_linear: "tokens p q \<Longrightarrow> tokens p z \<Longrightarrow> tokens q z \<or> tokens z q"
proof -
  assume "tokens p q" "tokens p z"
  then obtain m n where mn: "q = (next_token ^^ m) p" "z = (next_token ^^ n) p" unfolding tokens_def by blast
  have "(next_token ^^ b) p = (next_token ^^ (b - a)) ((next_token ^^ a) p)" if "a \<le> b" for a b
    using that by (metis comp_apply funpow_add le_add_diff_inverse2)
  then show ?thesis unfolding tokens_def mn by (meson nat_le_linear)
qed

lemma value_depth:
  assumes "value_at y v r" "stack_size y = 0" "\<not> max_depth_exceeded y"
    "tokens (parse_first_token_in_value_and_set_current y) q"
  shows "\<not> max_depth_exceeded q"
proof -
  obtain z where z: "try_skip_children (parse_first_token_in_value_and_set_current y) = Some (True, z)" "behind y r z"
    using value_at_token(3) [OF assms(1) refl] by blast
  have e: "stack_size z = 0" "current_token z \<noteq> INIT" "\<not> max_depth_exceeded z"
    using z(2) assms(2,3) unfolding behind_def by (metis length_contexts, auto simp: value_end_def same_row_def)
  from tokens_linear [OF assms(4) try_skip_children_tokens [OF z(1)]] show ?thesis
    using tokens_at_end [OF e, of q] depth_exceeded_tokens [of q z] e(3) by blast
qed

section \<open>The evaluation of a path on a row\<close>

text \<open>The row holds the value \<open>v\<close>: in front of it there may be blanks, behind it anything.\<close>

definition row_value :: "byte list \<Rightarrow> json \<Rightarrow> bool" where
  "row_value row v \<longleftrightarrow> (\<exists>w s r. row = w @ s @ r \<and> blank w \<and> json_text v s \<and> delimits r \<and> depth v \<le> 64)"

lemma row_evaluates:
  assumes "row_value row v" "plain_path pth" "length pth \<le> MAX_JSON_PATH_DEPTH"
  shows "\<exists>e. evaluate_path norm (new_json_parser g row) pth buf =
      Some (case lookup pth v of None \<Rightarrow> (False, 0, e) | Some x \<Rightarrow> (True, length (result_text norm x), e))
    \<and> mem e = (case lookup pth v of None \<Rightarrow> buf | Some x \<Rightarrow> store buf 0 (result_text norm x))
    \<and> \<not> max_depth_exceeded (parser e) \<and> \<not> path_depth_exceeded e"
proof -
  obtain w s r where row: "row = w @ s @ r" "blank w" "json_text v s" "delimits r" "depth v \<le> 64"
    using assms(1) unfolding row_value_def by blast
  obtain c s' where c: "s = c # s'" "\<not> is_whitespace_json c" using json_text_first [OF row(3)] by blast
  let ?p = "new_json_parser g row" and ?y = "advance (length w) (new_json_parser g row)"
  have p: "standing ?p (w @ s @ r)" by (simp add: standing_def new_json_parser_def row(1))
  have n: "next_token ?p = parse_first_token_in_value_and_set_current ?y"
    using step_root [of ?p w c "s' @ r" None] p c row(2) by (simp add: new_json_parser_def next_token_def)
  have v: "value_at ?y v r"
    using standing_advance [OF p] row(3-5) unfolding value_at_def by (auto simp: new_json_parser_def)
  let ?e = "\<lparr>parser = next_token ?p, mem = buf, tasks = [], path_depth_exceeded = False\<rparr>"
  let ?e1 = "push_eval_context INVALID (new_json_generator 0) RAW pth ?e"
  have ne: "current_token (next_token ?p) \<noteq> ERROR" using value_at_token(1) [OF v refl] unfolding n by simp
  then have ev: "evaluate_path norm ?p pth buf = eval_loop norm ?e1" by (simp add: evaluate_path_def at_error_def)
  have d: "\<not> max_depth_exceeded (parser e)" if "evaluate_path norm ?p pth buf = Some (b, k, e)" for b k e
  proof -
    have "tokens (next_token ?p) (parser e)"
      using eval_loop_tokens [of norm ?e1 b k e] that ev by simp
    then show ?thesis using value_depth [OF v] unfolding n by (simp add: new_json_parser_def)
  qed
  obtain c0 where c0: "tasks ?e1 = [c0]" "starts ?e1 c0 [] pth ?y" "case_path c0 = INVALID" "mem ?e1 = buf"
    "gen c0 = new_json_generator 0" "\<not> path_depth_exceeded ?e1"
    using assms(3) n by (auto simp: starts_def push_eval_context_def MAX_JSON_PATH_DEPTH_def new_json_generator_def)
  from path_evaluates [OF assms(2) c0(2) v, of norm] have pe: "evaluates norm ?e1 c0 [] pth v r ?y" .
  show ?thesis
  proof (cases "lookup pth v")
    case None
    then have "no_result norm ?e1 (effect ?e1)" using pe by (simp add: evaluates_def)
    moreover obtain b k e where "evaluate_path norm ?p pth buf = Some (b, k, e)"
      using evaluate_path_ends [OF assms(3), of norm g row buf] by auto
    ultimately show ?thesis using d None ev c0(4,6) by (auto simp: no_result_def effect_def)
  next
    case (Some x)
    then obtain e2 c2 where e2: "eval_loop norm ?e1 = eval_loop norm e2" "tasks e2 = [c2]"
      "mem e2 = store buf 0 (result_text norm x)" "\<not> path_depth_exceeded e2" "task_is_done c2" "dirty c2 = 1"
      "gen c2 = (new_json_generator 0)\<lparr>output_len := length (result_text norm x)\<rparr>"
      using pe c0(3-6) by (auto simp: evaluates_def delivers_def new_json_generator_def)
    have "eval_step norm e2 = Some (Inr (True, length (result_text norm x), e2\<lparr>tasks := []\<rparr>))"
      using e2 by (simp add: eval_step_def pop_task_def)
    then have "evaluate_path norm ?p pth buf = Some (True, length (result_text norm x), e2\<lparr>tasks := []\<rparr>)"
      using ev e2(1) eval_loop_return by simp
    then show ?thesis using Some d e2(3,4) by auto
  qed
qed

end
