(* ===== verification/GetJsonColumn.thy ===== *)
theory GetJsonColumn
  imports GetJsonDepth
begin

text \<open>
  The kernel and the host functions: they return on every column, the batches of paths and the second launch do not
  change the result, and the result for a row that holds a value is the value at the path.
\<close>

section \<open>Everything returns\<close>

lemma row_ends:
  assumes "length (path_commands d) \<le> MAX_JSON_PATH_DEPTH"
  shows "\<exists>d' x. get_json_object_row norm g str i d = Some (d', x) \<and> path_commands d' = path_commands d"
proof -
  obtain b n e where "evaluate_path norm (new_json_parser g str) (path_commands d) (\<lambda>j. out_buf d (offsets d ! i + j)) = Some (b, n, e)"
    using evaluate_path_ends [OF assms, of norm g str] by (metis prod_cases3)
  then show ?thesis by (cases "path_depth_exceeded e") (simp_all add: get_json_object_row_def Let_def ex_bool_eq)
qed

lemma row_offsets: "get_json_object_row norm g str i d = Some (d', x) \<Longrightarrow> offsets d' = offsets d"
  by (auto simp: get_json_object_row_def Let_def split: if_splits option.splits)

lemma kernel_offsets: "get_json_object_kernel norm gs rows i d = Some (d', x) \<Longrightarrow> offsets d' = offsets d"
proof (induction rows arbitrary: i d x)
  case (Cons str rows)
  obtain r where r: "get_json_object_row norm (gs i) str i d = Some r" using Cons.prems by (auto split: option.splits)
  obtain d1 y where dy: "r = (d1, y)" by fastforce
  then obtain z where "get_json_object_kernel norm gs rows (i + 1) d1 = Some (d', z)"
    using Cons.prems r by (cases "get_json_object_kernel norm gs rows (i + 1) d1") auto
  then show ?case using Cons.IH [of "i + 1" d1 z] row_offsets r dy by simp
qed simp

lemma kernel_ends:
  "length (path_commands d) \<le> MAX_JSON_PATH_DEPTH \<Longrightarrow> \<exists>d' x. get_json_object_kernel norm gs rows i d = Some (d', x)"
proof (induction rows arbitrary: i d)
  case (Cons str rows)
  obtain d' x where d: "get_json_object_row norm (gs i) str i d = Some (d', x)" "path_commands d' = path_commands d"
    using row_ends [OF Cons.prems] by blast
  from Cons.IH [of d' "i + 1"] show ?case using d Cons.prems by auto
qed (simp add: ex_bool_eq)

section \<open>The batches\<close>

text \<open>What a batch comes to for one path.\<close>

definition path_ok ::
  "(byte list \<Rightarrow> byte list) \<Rightarrow> (nat \<Rightarrow> garbage) \<Rightarrow> memory \<Rightarrow> memory \<Rightarrow> byte list list \<Rightarrow> path_instruction list \<Rightarrow> bool" where
  "path_ok norm gs scratch buffer rows pth \<longleftrightarrow> length pth \<le> MAX_JSON_PATH_DEPTH \<and>
     (\<exists>d. first_launch norm gs scratch rows pth = Some (d, False) \<and>
        (has_out_of_bound d \<longrightarrow> (\<exists>d2. second_launch norm gs buffer rows d = Some (d2, False) \<and> \<not> has_out_of_bound d2)))"

definition path_result ::
  "(byte list \<Rightarrow> byte list) \<Rightarrow> (nat \<Rightarrow> garbage) \<Rightarrow> memory \<Rightarrow> memory \<Rightarrow> byte list list \<Rightarrow> path_instruction list
     \<Rightarrow> byte list option list" where
  "path_result norm gs scratch buffer rows pth =
     (let d = fst (the (first_launch norm gs scratch rows pth)) in
      if has_out_of_bound d then gather_second d (fst (the (second_launch norm gs buffer rows d))) else gather d)"

lemma first_launch_ends:
  "length pth \<le> MAX_JSON_PATH_DEPTH \<Longrightarrow> \<exists>d x. first_launch norm gs scratch rows pth = Some (d, x)"
  unfolding first_launch_def by (rule kernel_ends) simp

lemma path_commands_kernel:
  "get_json_object_kernel norm gs rows i d = Some (d', x) \<Longrightarrow> length (path_commands d) \<le> MAX_JSON_PATH_DEPTH
    \<Longrightarrow> path_commands d' = path_commands d"
proof (induction rows arbitrary: i d x)
  case (Cons str rows)
  obtain d1 x1 where d: "get_json_object_row norm (gs i) str i d = Some (d1, x1)" "path_commands d1 = path_commands d"
    using row_ends [OF Cons.prems(2)] by blast
  obtain d2 x2 where "get_json_object_kernel norm gs rows (i + 1) d1 = Some (d2, x2)"
    using kernel_ends [of d1] d Cons.prems(2) by metis
  then show ?case using Cons.IH [of "i + 1" d1 x2] Cons.prems d by auto
qed simp

lemma second_launch_ends:
  assumes "length pth \<le> MAX_JSON_PATH_DEPTH" "first_launch norm gs scratch rows pth = Some (d, x)"
  shows "\<exists>d2 y. second_launch norm gs buffer rows d = Some (d2, y)"
proof -
  have "path_commands d = pth" using path_commands_kernel [OF assms(2) [unfolded first_launch_def]] assms(1) by simp
  then show ?thesis unfolding second_launch_def using assms(1) by (intro kernel_ends) simp
qed

lemma batch_ends: "\<exists>r. get_json_object_batch norm gs scratch buffer rows paths = Some r"
proof (cases "list_ex (\<lambda>pth. length pth > MAX_JSON_PATH_DEPTH) paths")
  case True
  then show ?thesis by (simp add: get_json_object_batch_def)
next
  case False
  then have le: "length p \<le> MAX_JSON_PATH_DEPTH" if "p \<in> set paths" for p
    using that by (auto simp: list_ex_iff)
  let ?f = "first_launch norm gs scratch rows"
  let ?s = "\<lambda>r. if has_out_of_bound (fst r) then second_launch norm gs buffer rows (fst r) else Some r"
  have f: "None \<notin> set (map ?f paths)" using first_launch_ends [OF le, of _ norm gs scratch rows] by fastforce
  have "?s (the (?f p)) \<noteq> None" if p: "p \<in> set paths" for p
  proof -
    obtain d x where d: "?f p = Some (d, x)" using first_launch_ends [OF le [OF p], of norm gs scratch rows] by blast
    show ?thesis using second_launch_ends [OF le [OF p] d, of buffer] d by auto
  qed
  then have s: "None \<notin> set (map ?s (map the (map ?f paths)))" by fastforce
  show ?thesis using False f s unfolding get_json_object_batch_def Let_def by (simp split: if_split)
qed

text \<open>A batch succeeds when every path does, with the results of the paths.\<close>

lemma batch_paths:
  "get_json_object_batch norm gs scratch buffer rows paths = Some (Inr outs) \<longleftrightarrow>
     (\<forall>p\<in>set paths. path_ok norm gs scratch buffer rows p) \<and> outs = map (path_result norm gs scratch buffer rows) paths"
proof (cases "list_ex (\<lambda>pth. length pth > MAX_JSON_PATH_DEPTH) paths")
  case True
  then obtain p where "p \<in> set paths" "\<not> length p \<le> MAX_JSON_PATH_DEPTH" by (auto simp: list_ex_iff)
  then have "\<not> (\<forall>p\<in>set paths. path_ok norm gs scratch buffer rows p)" unfolding path_ok_def by blast
  then show ?thesis using True by (simp add: get_json_object_batch_def)
next
  case False
  then have le: "length p \<le> MAX_JSON_PATH_DEPTH" if "p \<in> set paths" for p
    using that by (auto simp: list_ex_iff)
  let ?f = "first_launch norm gs scratch rows"
  let ?s = "\<lambda>r. if has_out_of_bound (fst r) then second_launch norm gs buffer rows (fst r) else Some r"
  have f: "?f p = Some (the (?f p))" if p: "p \<in> set paths" for p
    using first_launch_ends [OF le [OF p], of norm gs scratch rows] by auto
  have s: "?s (the (?f p)) = Some (the (?s (the (?f p))))" if p: "p \<in> set paths" for p
    using second_launch_ends [OF le [OF p], of norm gs scratch rows "fst (the (?f p))" "snd (the (?f p))" buffer] f [OF p]
    by auto
  have nf: "None \<notin> set (map ?f paths)" using f by fastforce
  have ns: "None \<notin> set (map ?s (map the (map ?f paths)))" using s by fastforce
  let ?oob = "\<lambda>p. has_out_of_bound (fst (the (?f p)))"
  let ?sec = "\<lambda>p. the (?s (the (?f p)))"
  have ok: "path_ok norm gs scratch buffer rows p \<longleftrightarrow> \<not> snd (the (?f p))
      \<and> (?oob p \<longrightarrow> \<not> snd (?sec p) \<and> \<not> has_out_of_bound (fst (?sec p)))" if p: "p \<in> set paths" for p
    using f [OF p] s [OF p] le [OF p] by (cases "the (?f p)"; cases "?sec p") (auto simp: path_ok_def split: if_splits)
  have z: "zip (map the (map ?f paths)) (map the (map ?s (map the (map ?f paths)))) = map (\<lambda>p. (the (?f p), ?sec p)) paths"
    by (simp add: zip_map1 zip_map2 zip_same_conv_map)
  have res: "map (\<lambda>(r, r2). if has_out_of_bound (fst r) then gather_second (fst r) (fst r2) else gather (fst r))
      (map (\<lambda>p. (the (?f p), ?sec p)) paths) = map (path_result norm gs scratch buffer rows) paths"
    by (simp add: path_result_def Let_def)
  have b: "get_json_object_batch norm gs scratch buffer rows paths =
    (if \<exists>p\<in>set paths. snd (the (?f p)) then Some (Inl Nesting_depth_exceeded)
     else if \<forall>p\<in>set paths. \<not> ?oob p then Some (Inr (map (path_result norm gs scratch buffer rows) paths))
     else if \<exists>p\<in>set paths. ?oob p \<and> snd (?sec p) then Some (Inl Nesting_depth_exceeded)
     else if \<exists>p\<in>set paths. ?oob p \<and> has_out_of_bound (fst (?sec p)) then Some (Inl Unexpected_out_of_bound)
     else Some (Inr (map (path_result norm gs scratch buffer rows) paths)))"
  proof (cases "\<forall>p\<in>set paths. \<not> ?oob p")
    case True
    then have "map (\<lambda>r. gather (fst r)) (map the (map ?f paths)) = map (path_result norm gs scratch buffer rows) paths"
      by (simp add: path_result_def)
    then show ?thesis using False nf True unfolding get_json_object_batch_def Let_def
      by (simp only: if_False) (simp add: list_ex_iff)
  next
    case oob: False
    then have "list_ex (\<lambda>r. has_out_of_bound (fst r)) (map the (map ?f paths))" by (simp add: list_ex_iff)
    then show ?thesis using False nf ns oob unfolding get_json_object_batch_def Let_def z res
      by (simp only: if_False not_True_eq_False) (auto simp: list_ex_iff)
  qed
  show ?thesis unfolding b using ok by auto
qed

section \<open>The loop over the batches\<close>

lemma set_results:
  "length ids = length rs \<Longrightarrow> length (fold (\<lambda>(i, r) out. out[i := r]) (zip ids rs) out) = length out"
  by (induction ids rs arbitrary: out rule: list_induct2) simp_all

lemma fold_results:
  "\<forall>i\<in>set ids. i < length out \<Longrightarrow> j < length out \<Longrightarrow>
    fold (\<lambda>(i, r) out. out[i := r]) (zip ids (map h ids)) out ! j = (if j \<in> set ids then h j else out ! j)"
  by (induction ids arbitrary: out) (auto simp: nth_list_update)

lemma batch_loop_results:
  assumes "\<And>n. 0 < n \<Longrightarrow> 0 < count n"
    "\<And>ps. set ps \<subseteq> set paths \<Longrightarrow> batch ps = Some (Inr (map h ps))"
  shows "\<forall>i\<in>set ids. i < length paths \<Longrightarrow> length out = length paths \<Longrightarrow>
    \<exists>res. batch_loop count batch paths ids out = Some (Inr res) \<and> length res = length paths
      \<and> (\<forall>j < length paths. res ! j = (if j \<in> set ids then h (paths ! j) else out ! j))"
proof (induction "length ids" arbitrary: ids out rule: less_induct)
  case less
  show ?case
  proof (cases "ids = []")
    case True
    then show ?thesis using less.prems by (subst batch_loop.simps) simp
  next
    case False
    let ?k = "count (length ids)"
    let ?ids = "take ?k ids"
    let ?out = "fold (\<lambda>(i, r) out. out[i := r]) (zip ?ids (map (\<lambda>i. h (paths ! i)) ?ids)) out"
    have k: "0 < ?k" using assms(1) False by simp
    have sub: "set ?ids \<subseteq> set ids" "set (drop ?k ids) \<subseteq> set ids" by (rule set_take_subset, rule set_drop_subset)
    have "set (map (\<lambda>i. paths ! i) ?ids) \<subseteq> set paths" using less.prems(1) sub by auto
    then have b: "batch (map (\<lambda>i. paths ! i) ?ids) = Some (Inr (map (\<lambda>i. h (paths ! i)) ?ids))"
      using assms(2) [of "map (\<lambda>i. paths ! i) ?ids"] by (simp add: o_def)
    have step: "batch_loop count batch paths ids out = batch_loop count batch paths (drop ?k ids) ?out"
      using False b by (subst batch_loop.simps) (simp add: Let_def)
    have lo: "length ?out = length paths" using set_results [of ?ids "map (\<lambda>i. h (paths ! i)) ?ids" out] less.prems(2) by simp
    have "length (drop ?k ids) < length ids" using k False by simp
    from less.hyps [OF this _ lo] obtain res where
      res: "batch_loop count batch paths (drop ?k ids) ?out = Some (Inr res)" "length res = length paths"
      "\<forall>j < length paths. res ! j = (if j \<in> set (drop ?k ids) then h (paths ! j) else ?out ! j)"
      using less.prems(1) sub by blast
    have o: "?out ! j = (if j \<in> set ?ids then h (paths ! j) else out ! j)" if "j < length paths" for j
    proof -
      have "\<forall>i\<in>set ?ids. i < length out" using less.prems sub(1) by auto
      then show ?thesis using fold_results [of ?ids out j "\<lambda>i. h (paths ! i)"] less.prems(2) that by simp
    qed
    have u: "set ids = set ?ids \<union> set (drop ?k ids)" by (metis append_take_drop_id set_append)
    show ?thesis unfolding step using res o u by (intro exI [of _ res]) auto
  qed
qed

lemma batch_loop_ends:
  assumes "\<And>n. 0 < n \<Longrightarrow> 0 < count n" "\<And>ps. \<exists>r. batch ps = Some r"
  shows "\<exists>r. batch_loop count batch paths ids out = Some r"
proof (induction "length ids" arbitrary: ids out rule: less_induct)
  case less
  show ?case
  proof (cases "ids = []")
    case True
    then show ?thesis by (subst batch_loop.simps) simp
  next
    case False
    let ?k = "count (length ids)"
    obtain r where r: "batch (map (\<lambda>i. paths ! i) (take ?k ids)) = Some r" using assms(2) by blast
    have "length (drop ?k ids) < length ids" using assms(1) False by simp
    note IH = less.hyps [OF this]
    show ?thesis
    proof (cases r)
      case (Inl e)
      then show ?thesis using False r by (subst batch_loop.simps) (simp add: Let_def)
    next
      case (Inr tmp)
      then show ?thesis using False r IH by (subst batch_loop.simps) (simp add: Let_def)
    qed
  qed
qed

text \<open>A batch takes at least one of the paths that are left.\<close>

lemma batch_size_pos:
  assumes "0 < memory_budget_bytes \<or> 0 < parallel_override" "0 < n"
  shows "0 < batch_size scratch_size memory_budget_bytes parallel_override n"
  using assms by (cases n) (auto simp: batch_size_def)

definition effective_override :: "int \<Rightarrow> int \<Rightarrow> nat \<Rightarrow> int" where
  "effective_override budget override n = (if budget \<le> 0 \<and> override \<le> 0 then int n else override)"

lemma get_json_object_loop:
  "list_ex fst input \<Longrightarrow> get_json_object norm gs scratch buffer input paths budget override =
    batch_loop (batch_size (calc_scratch_size (map snd input)) budget (effective_override budget override (length paths)))
      (get_json_object_batch norm gs scratch buffer (map snd input)) paths (sorted_indices paths)
      (replicate (length paths) [])"
  by (simp add: get_json_object_def effective_override_def Let_def)

lemma sorted_indices_set: "set (sorted_indices paths) = {0..<length paths}"
  by (simp add: sorted_indices_def)

lemma no_paths: "list_ex fst input \<Longrightarrow> get_json_object norm gs scratch buffer input [] budget override = Some (Inr [])"
  unfolding get_json_object_loop by (subst batch_loop.simps) (simp add: sorted_indices_def)

text \<open>The batches do not matter.\<close>

lemma batches_equal:
  assumes "list_ex fst input" "get_json_object_batch norm gs scratch buffer (map snd input) paths = Some (Inr outs)"
  shows "get_json_object norm gs scratch buffer input paths budget override = Some (Inr outs)"
proof (cases "paths = []")
  case True
  then show ?thesis using assms(2) by (simp add: no_paths [OF assms(1)] batch_paths)
next
  case False
  let ?h = "path_result norm gs scratch buffer (map snd input)"
  let ?c = "batch_size (calc_scratch_size (map snd input)) budget (effective_override budget override (length paths))"
  let ?b = "get_json_object_batch norm gs scratch buffer (map snd input)"
  have ok: "\<forall>p\<in>set paths. path_ok norm gs scratch buffer (map snd input) p" "outs = map ?h paths"
    using assms(2) by (simp_all add: batch_paths)
  have c: "0 < ?c n" if "0 < n" for n
    using that False by (intro batch_size_pos) (auto simp: effective_override_def)
  have b: "?b ps = Some (Inr (map ?h ps))" if "set ps \<subseteq> set paths" for ps
    using ok(1) that by (auto simp: batch_paths)
  have ids: "\<forall>i\<in>set (sorted_indices paths). i < length paths" by (simp add: sorted_indices_set)
  obtain res where res: "batch_loop ?c ?b paths (sorted_indices paths) (replicate (length paths) []) = Some (Inr res)"
    "length res = length paths" "\<forall>j < length paths. res ! j = ?h (paths ! j)"
    using batch_loop_results [of ?c paths ?b ?h, OF c b ids, of "replicate (length paths) []"]
    by (auto simp: sorted_indices_set)
  have "res = outs" using res(2,3) ok(2) by (simp add: list_eq_iff_nth_eq)
  then show ?thesis using res(1) get_json_object_loop [OF assms(1)] by simp
qed

lemma get_json_object_ends: "\<exists>r. get_json_object norm gs scratch buffer input paths budget override = Some r"
proof (cases "list_ex fst input")
  case True
  show ?thesis
  proof (cases "paths = []")
    case False
    show ?thesis unfolding get_json_object_loop [OF True]
      by (rule batch_loop_ends [OF _ batch_ends], rule batch_size_pos) (auto simp: effective_override_def False)
  qed (use no_paths [OF True] in auto)
qed (simp add: get_json_object_def)

section \<open>Rows that hold values\<close>

text \<open>The value of a row, \<open>None\<close> for an empty row, and the result of a path for it.\<close>

definition row_holds :: "byte list \<Rightarrow> json option \<Rightarrow> bool" where
  "row_holds row jv \<longleftrightarrow> (case jv of None \<Rightarrow> row = [] | Some v \<Rightarrow> row_value row v)"

definition cell :: "(byte list \<Rightarrow> byte list) \<Rightarrow> path_instruction list \<Rightarrow> json option \<Rightarrow> byte list option" where
  "cell norm pth jv = (case jv of None \<Rightarrow> None | Some v \<Rightarrow> map_option (result_text norm) (lookup pth v))"

definition cell_size :: "byte list option \<Rightarrow> nat" where
  "cell_size c = (case c of None \<Rightarrow> 0 | Some bs \<Rightarrow> length bs)"

definition cell_write :: "nat \<Rightarrow> byte list option \<Rightarrow> memory \<Rightarrow> memory" where
  "cell_write a c buf = (case c of None \<Rightarrow> buf | Some bs \<Rightarrow> store buf a bs)"

definition cell_view :: "nat \<Rightarrow> byte list option \<Rightarrow> bool \<times> nat \<times> nat" where
  "cell_view a c = (c \<noteq> None, a, cell_size c)"

lemma row_value_nonempty: "row_value row v \<Longrightarrow> row \<noteq> []"
  unfolding row_value_def using json_text_first by fastforce

lemma store_shift: "(\<lambda>j. if dst \<le> j then store (\<lambda>j. buf (dst + j)) 0 bs (j - dst) else buf j) = store buf dst bs"
  by (rule ext) (auto simp: store_def)

lemma shift_same: "(\<lambda>j. if dst \<le> j then buf (dst + (j - dst)) else buf j) = (buf :: memory)"
  by (rule ext) auto

lemma row_step:
  assumes "row_holds str jv" "plain_path (path_commands d)" "length (path_commands d) \<le> MAX_JSON_PATH_DEPTH"
    "c = cell norm (path_commands d) jv"
  shows "\<exists>d'. get_json_object_row norm g str i d = Some (d', False) \<and> path_commands d' = path_commands d
    \<and> offsets d' = offsets d \<and> out_buf d' = cell_write (offsets d ! i) c (out_buf d)
    \<and> out_stringviews d' = map_option (\<lambda>vs. vs[i := cell_view (offsets d ! i) c]) (out_stringviews d)
    \<and> (has_out_of_bound d' \<longleftrightarrow> has_out_of_bound d \<or> offsets d ! (i + 1) - offsets d ! i < cell_size c)"
proof (cases jv)
  case None
  then have "str = []" "c = None" using assms(1,4) by (simp_all add: row_holds_def cell_def)
  then show ?thesis by (simp add: get_json_object_row_def Let_def cell_write_def cell_view_def cell_size_def)
next
  case (Some v)
  then have v: "row_value str v" and c: "c = map_option (result_text norm) (lookup (path_commands d) v)"
    using assms(1,4) by (simp_all add: row_holds_def cell_def)
  let ?buf = "\<lambda>j. out_buf d (offsets d ! i + j)"
  obtain e where e: "evaluate_path norm (new_json_parser g str) (path_commands d) ?buf =
      Some (case lookup (path_commands d) v of None \<Rightarrow> (False, 0, e) | Some x \<Rightarrow> (True, length (result_text norm x), e))"
    "mem e = (case lookup (path_commands d) v of None \<Rightarrow> ?buf | Some x \<Rightarrow> store ?buf 0 (result_text norm x))"
    "\<not> max_depth_exceeded (parser e)" "\<not> path_depth_exceeded e"
    using row_evaluates [OF v assms(2,3), of norm g ?buf] by blast
  show ?thesis
  proof (cases "lookup (path_commands d) v")
    case None
    have m: "(\<lambda>j. if offsets d ! i \<le> j then mem e (j - offsets d ! i) else out_buf d j) = out_buf d"
      unfolding e(2) \<open>lookup _ v = None\<close> option.case by (rule shift_same)
    show ?thesis using None e c row_value_nonempty [OF v]
      by (simp add: get_json_object_row_def Let_def cell_write_def cell_view_def cell_size_def m)
  next
    case (Some x)
    have m: "(\<lambda>j. if offsets d ! i \<le> j then mem e (j - offsets d ! i) else out_buf d j)
        = store (out_buf d) (offsets d ! i) (result_text norm x)"
      unfolding e(2) \<open>lookup _ v = Some x\<close> option.case by (rule store_shift)
    show ?thesis using Some e c row_value_nonempty [OF v]
      by (simp add: get_json_object_row_def Let_def cell_write_def cell_view_def cell_size_def m)
  qed
qed

lemma load_store: "load (store buf a bs) a (length bs) = bs"
  by (rule nth_equalityI) (simp_all add: load_def store_def)

lemma load_cong: "(\<And>j. a \<le> j \<Longrightarrow> j < a + n \<Longrightarrow> m j = m' j) \<Longrightarrow> load m a n = load m' a n"
  by (simp add: load_def)

lemma cell_write_below: "j < a \<Longrightarrow> cell_write a c buf j = buf j"
  by (simp add: cell_write_def store_def split: option.split)

text \<open>The places are in order and hold the results.\<close>

definition fits :: "nat list \<Rightarrow> nat \<Rightarrow> byte list option list \<Rightarrow> bool" where
  "fits offs i cs \<longleftrightarrow> (\<forall>k < length cs. offs ! (i + k) + cell_size (cs ! k) \<le> offs ! (i + k + 1))"

lemma fits_Cons: "fits offs i (c # cs) \<longleftrightarrow> offs ! i + cell_size c \<le> offs ! (i + 1) \<and> fits offs (i + 1) cs"
  unfolding fits_def by (auto simp: less_Suc_eq_0_disj)

text \<open>
  The places are apart, so that the results may be written in any order: this is what justifies to run
  the threads of a kernel one after the other on rows where each writes its result and nothing else
  (\<open>row_step\<close>).
\<close>

lemma fits_mono: "fits offs 0 cs \<Longrightarrow> j \<le> k \<Longrightarrow> k \<le> length cs \<Longrightarrow> offs ! j \<le> offs ! k"
proof (induction k)
  case (Suc k)
  then have "offs ! k + cell_size (cs ! k) \<le> offs ! Suc k" by (simp add: fits_def)
  then show ?case using Suc by (cases "j = Suc k") auto
qed simp

lemma cells_apart: "fits offs 0 cs \<Longrightarrow> j < k \<Longrightarrow> k < length cs \<Longrightarrow> offs ! j + cell_size (cs ! j) \<le> offs ! k"
proof -
  assume f: "fits offs 0 cs" and jk: "j < k" "k < length cs"
  then have "offs ! j + cell_size (cs ! j) \<le> offs ! Suc j" by (simp add: fits_def)
  also have "\<dots> \<le> offs ! k" using fits_mono [OF f] jk by simp
  finally show ?thesis .
qed

lemma cell_writes_commute:
  assumes "fits offs 0 cs" "j < length cs" "k < length cs" "j \<noteq> k"
  shows "cell_write (offs ! j) (cs ! j) (cell_write (offs ! k) (cs ! k) buf)
    = cell_write (offs ! k) (cs ! k) (cell_write (offs ! j) (cs ! j) buf)"
proof -
  have "offs ! j + cell_size (cs ! j) \<le> offs ! k \<or> offs ! k + cell_size (cs ! k) \<le> offs ! j"
    using cells_apart [OF assms(1)] assms(2-4) by (metis linorder_neqE_nat)
  then show ?thesis
    by (intro ext) (auto simp: cell_write_def cell_size_def store_def split: option.splits)
qed

lemma kernel_rows:
  "list_all2 row_holds rows jvs \<Longrightarrow> plain_path (path_commands d) \<Longrightarrow> length (path_commands d) \<le> MAX_JSON_PATH_DEPTH
    \<Longrightarrow> cs = map (cell norm (path_commands d)) jvs \<Longrightarrow> i + length rows < length (offsets d) \<Longrightarrow>
    \<exists>d'. get_json_object_kernel norm gs rows i d = Some (d', False)
      \<and> (\<forall>vs. out_stringviews d = Some vs \<longrightarrow> length vs = i + length rows \<longrightarrow>
           out_stringviews d' = Some (take i vs @ map2 cell_view (drop i (offsets d)) cs))
      \<and> (has_out_of_bound d' \<longleftrightarrow> has_out_of_bound d
           \<or> (\<exists>k < length cs. offsets d ! (i + k + 1) - offsets d ! (i + k) < cell_size (cs ! k)))
      \<and> (fits (offsets d) i cs \<longrightarrow> (\<forall>a < offsets d ! i. out_buf d' a = out_buf d a)
           \<and> (\<forall>k < length cs. \<forall>bs. cs ! k = Some bs \<longrightarrow> load (out_buf d') (offsets d ! (i + k)) (length bs) = bs))
      \<and> path_commands d' = path_commands d"
proof (induction rows jvs arbitrary: i d cs rule: list_all2_induct)
  case Nil
  then show ?case by simp
next
  case (Cons str rows jv jvs)
  let ?c = "cell norm (path_commands d) jv" and ?cs = "map (cell norm (path_commands d)) jvs"
  obtain d1 where d1: "get_json_object_row norm (gs i) str i d = Some (d1, False)" "path_commands d1 = path_commands d"
    "offsets d1 = offsets d" "out_buf d1 = cell_write (offsets d ! i) ?c (out_buf d)"
    "out_stringviews d1 = map_option (\<lambda>vs. vs[i := cell_view (offsets d ! i) ?c]) (out_stringviews d)"
    "has_out_of_bound d1 \<longleftrightarrow> has_out_of_bound d \<or> offsets d ! (i + 1) - offsets d ! i < cell_size ?c"
    using row_step [OF Cons.hyps(1) Cons.prems(1,2) refl, of norm "gs i" i] by blast
  have "plain_path (path_commands d1)" "length (path_commands d1) \<le> MAX_JSON_PATH_DEPTH"
    "?cs = map (cell norm (path_commands d1)) jvs" "i + 1 + length rows < length (offsets d1)"
    using Cons.prems d1(2,3) by simp_all
  from Cons.IH [OF this] obtain d2 where d2: "get_json_object_kernel norm gs rows (i + 1) d1 = Some (d2, False)"
    "\<forall>vs. out_stringviews d1 = Some vs \<longrightarrow> length vs = i + 1 + length rows \<longrightarrow>
           out_stringviews d2 = Some (take (i + 1) vs @ map2 cell_view (drop (i + 1) (offsets d)) ?cs)"
    "has_out_of_bound d2 \<longleftrightarrow> has_out_of_bound d1
           \<or> (\<exists>k < length ?cs. offsets d ! (i + 1 + k + 1) - offsets d ! (i + 1 + k) < cell_size (?cs ! k))"
    "fits (offsets d) (i + 1) ?cs \<longrightarrow> (\<forall>a < offsets d ! (i + 1). out_buf d2 a = out_buf d1 a)
           \<and> (\<forall>k < length ?cs. \<forall>bs. ?cs ! k = Some bs \<longrightarrow> load (out_buf d2) (offsets d ! (i + 1 + k)) (length bs) = bs)"
    "path_commands d2 = path_commands d"
    unfolding d1(2,3) by blast
  have cs: "cs = ?c # ?cs" using Cons.prems(3) by simp
  have views: "out_stringviews d2 = Some (take i vs @ map2 cell_view (drop i (offsets d)) cs)"
    if "out_stringviews d = Some vs" "length vs = i + length (str # rows)" for vs
  proof -
    have "drop i (offsets d) = offsets d ! i # drop (i + 1) (offsets d)"
      using Cons.prems(4) by (simp add: Cons_nth_drop_Suc)
    moreover have "take (i + 1) (vs[i := cell_view (offsets d ! i) ?c]) = take i vs @ [cell_view (offsets d ! i) ?c]"
      using that(2) by (simp add: take_Suc_conv_app_nth)
    ultimately show ?thesis using d2(2) d1(5) that unfolding cs by simp
  qed
  have oob: "has_out_of_bound d2 \<longleftrightarrow> has_out_of_bound d
      \<or> (\<exists>k < length cs. offsets d ! (i + k + 1) - offsets d ! (i + k) < cell_size (cs ! k))"
    unfolding d2(3) d1(6) cs by (auto simp: less_Suc_eq_0_disj)
  have written_rows: "(\<forall>a < offsets d ! i. out_buf d2 a = out_buf d a)
      \<and> (\<forall>k < length cs. \<forall>bs. cs ! k = Some bs \<longrightarrow> load (out_buf d2) (offsets d ! (i + k)) (length bs) = bs)"
    if f: "fits (offsets d) i cs"
  proof -
    have f1: "offsets d ! i + cell_size ?c \<le> offsets d ! (i + 1)" "fits (offsets d) (i + 1) ?cs"
      using f unfolding cs fits_Cons by simp_all
    have same: "out_buf d2 a = out_buf d1 a" if "a < offsets d ! (i + 1)" for a using d2(4) f1(2) that by blast
    have "load (out_buf d2) (offsets d ! i) (length bs) = bs" if "?c = Some bs" for bs
    proof -
      have "load (out_buf d2) (offsets d ! i) (length bs) = load (out_buf d1) (offsets d ! i) (length bs)"
        using same f1(1) that by (intro load_cong) (simp add: cell_size_def)
      then show ?thesis using that d1(4) by (simp add: cell_write_def load_store)
    qed
    moreover have "out_buf d2 a = out_buf d a" if "a < offsets d ! i" for a
      using same [of a] that f1(1) d1(4) by (simp add: cell_write_below)
    ultimately show ?thesis using d2(4) f1(2) unfolding cs by (auto simp: less_Suc_eq_0_disj)
  qed
  show ?case using d1(1) d2(1,5) views oob written_rows by (intro exI [of _ d2]) simp
qed

lemma length_prefix_sums [simp]: "length (prefix_sums s ns) = Suc (length ns)"
  by (induction ns arbitrary: s) simp_all

lemma prefix_sums_nth: "k < length ns \<Longrightarrow> prefix_sums s ns ! Suc k = prefix_sums s ns ! k + ns ! k"
proof (induction ns arbitrary: s k)
  case (Cons n ns)
  show ?case
  proof (cases k)
    case 0
    then show ?thesis by (cases ns) simp_all
  qed (use Cons in simp)
qed simp

lemma gather_views:
  assumes "length offs > length cs" "\<forall>k < length cs. \<forall>bs. cs ! k = Some bs \<longrightarrow> load buf (offs ! k) (length bs) = bs"
  shows "map (\<lambda>(valid, a, n). if valid then Some (load buf a n) else None) (map2 cell_view offs cs) = cs"
  using assms by (intro nth_equalityI) (auto simp: cell_view_def cell_size_def split: option.split)

lemma rows_path:
  assumes rows: "list_all2 row_holds rows jvs" and p: "plain_path pth" "length pth \<le> MAX_JSON_PATH_DEPTH"
  shows "path_ok norm gs scratch buffer rows pth \<and> path_result norm gs scratch buffer rows pth = map (cell norm pth) jvs"
proof -
  let ?cs = "map (cell norm pth) jvs" and ?offs = "prefix_sums 0 (map length rows)"
  have n: "length jvs = length rows" using rows by (simp add: list_all2_lengthD)
  let ?d0 = "\<lparr>path_commands = pth, offsets = ?offs, out_stringviews = Some (replicate (length rows) (False, 0, 0)),
        out_buf = scratch, has_out_of_bound = False\<rparr>"
  from kernel_rows [of rows jvs ?d0 ?cs norm 0 gs] rows p obtain d where
    d: "first_launch norm gs scratch rows pth = Some (d, False)"
    "out_stringviews d = Some (map2 cell_view ?offs ?cs)"
    "has_out_of_bound d \<longleftrightarrow> (\<exists>k < length ?cs. ?offs ! (k + 1) - ?offs ! k < cell_size (?cs ! k))"
    "fits ?offs 0 ?cs \<longrightarrow> (\<forall>k < length ?cs. \<forall>bs. ?cs ! k = Some bs \<longrightarrow> load (out_buf d) (?offs ! k) (length bs) = bs)"
    "path_commands d = pth"
    by (auto simp: first_launch_def)
  show ?thesis
  proof (cases "has_out_of_bound d")
    case False
    have "fits ?offs 0 ?cs"
      unfolding fits_def
    proof (intro allI impI)
      fix k assume k: "k < length ?cs"
      have "?offs ! Suc k = ?offs ! k + map length rows ! k" using k n by (intro prefix_sums_nth) simp
      moreover have "\<not> ?offs ! (k + 1) - ?offs ! k < cell_size (?cs ! k)" using d(3) False k by blast
      ultimately show "?offs ! (0 + k) + cell_size (?cs ! k) \<le> ?offs ! (0 + k + 1)" by simp
    qed
    then have "gather d = ?cs"
      using d(2,4) n gather_views [of ?cs ?offs "out_buf d"] by (simp add: gather_def)
    then show ?thesis using d(1) False p(2) by (simp add: path_ok_def path_result_def)
  next
    case True
    let ?offs2 = "prefix_sums 0 (map cell_size ?cs)"
    have sz: "map (\<lambda>(v, a, n). n) (map2 cell_view ?offs ?cs) = map cell_size ?cs"
      using n by (intro nth_equalityI) (simp_all add: cell_view_def)
    let ?d1 = "\<lparr>path_commands = pth, offsets = ?offs2, out_stringviews = None, out_buf = buffer, has_out_of_bound = False\<rparr>"
    from kernel_rows [of rows jvs ?d1 ?cs norm 0 gs] rows p n obtain d2 where
      d2: "get_json_object_kernel norm gs rows 0 ?d1 = Some (d2, False)"
      "has_out_of_bound d2 \<longleftrightarrow> (\<exists>k < length ?cs. ?offs2 ! (k + 1) - ?offs2 ! k < cell_size (?cs ! k))"
      "fits ?offs2 0 ?cs \<longrightarrow> (\<forall>k < length ?cs. \<forall>bs. ?cs ! k = Some bs \<longrightarrow> load (out_buf d2) (?offs2 ! k) (length bs) = bs)"
      by auto
    have second: "second_launch norm gs buffer rows d = Some (d2, False)"
      using d2(1) d(2,5) sz by (simp add: second_launch_def)
    have st: "?offs2 ! Suc k = ?offs2 ! k + cell_size (?cs ! k)" if "k < length ?cs" for k
      using prefix_sums_nth [of k "map cell_size ?cs" 0] that by simp
    have oob: "\<not> has_out_of_bound d2" using d2(2) st by auto
    have "fits ?offs2 0 ?cs" unfolding fits_def using st by simp
    then have l: "\<forall>k < length ?cs. \<forall>bs. ?cs ! k = Some bs \<longrightarrow> load (out_buf d2) (?offs2 ! k) (length bs) = bs"
      using d2(3) by blast
    have o2: "offsets d2 = ?offs2" using kernel_offsets [OF d2(1)] by simp
    have "gather_second d d2 = ?cs"
      unfolding gather_second_def d(2) o2 option.sel
      using n l by (intro nth_equalityI) (auto simp: cell_view_def cell_size_def split: option.split)
    then show ?thesis using d(1) True p(2) second oob by (simp add: path_ok_def path_result_def)
  qed
qed

text \<open>The whole function on a column of rows that hold values.\<close>

lemma column_values:
  assumes "list_ex fst input" "list_all2 row_holds (map snd input) jvs"
    "\<forall>pth\<in>set paths. plain_path pth \<and> length pth \<le> MAX_JSON_PATH_DEPTH"
  shows "get_json_object norm gs scratch buffer input paths budget override
    = Some (Inr (map (\<lambda>pth. map (cell norm pth) jvs) paths))"
proof (rule batches_equal [OF assms(1)])
  show "get_json_object_batch norm gs scratch buffer (map snd input) paths
    = Some (Inr (map (\<lambda>pth. map (cell norm pth) jvs) paths))"
    unfolding batch_paths using rows_path [OF assms(2)] assms(3) by auto
qed

end
