(* ===== verification/JsonUtf8.thy ===== *)
theory JsonUtf8
  imports JsonString
begin

text \<open>
  The encoder that the JSON parser uses for \<open>\\u\<close> sequences, against the definition of UTF-8.
\<close>

definition utf8 :: "nat \<Rightarrow> byte list" where
  "utf8 cp =
     (if cp < 0x80 then [of_nat cp]
      else if cp < 0x800 then [0xC0 OR of_nat (cp div 2 ^ 6), 0x80 OR of_nat (cp mod 2 ^ 6)]
      else if cp < 0x10000 then
        [0xE0 OR of_nat (cp div 2 ^ 12), 0x80 OR of_nat (cp div 2 ^ 6 mod 2 ^ 6), 0x80 OR of_nat (cp mod 2 ^ 6)]
      else
        [0xF0 OR of_nat (cp div 2 ^ 18), 0x80 OR of_nat (cp div 2 ^ 12 mod 2 ^ 6),
         0x80 OR of_nat (cp div 2 ^ 6 mod 2 ^ 6), 0x80 OR of_nat (cp mod 2 ^ 6)])"

lemma high_bits_nat: "n < 2 ^ k \<Longrightarrow> k \<le> i \<Longrightarrow> \<not> bit (n :: nat) i"
  by (metis bit_take_bit_iff leD take_bit_nat_eq_self_iff)

lemma char_bytes_numeral:
  "char_bytes 1 c s = ucast c # s"
  "char_bytes 2 c s = ucast (drop_bit 8 c) # ucast c # s"
  "char_bytes 3 c s = ucast (drop_bit 16 c) # ucast (drop_bit 8 c) # ucast c # s"
  "char_bytes 4 c s = ucast (drop_bit 24 c) # ucast (drop_bit 16 c) # ucast (drop_bit 8 c) # ucast c # s"
  by (simp_all add: numeral_eq_Suc drop_bit_drop_bit)

lemma word_positive_bit: "bit (w :: 32 word) n \<Longrightarrow> 0 < w"
  by (metis bit_0_eq bot_apply bot_bool_def word_gt_0)

lemma bit_nat_digits:
  "bit (m mod 64) n \<longleftrightarrow> n < 6 \<and> bit (m :: nat) n" "bit (m div 64) n \<longleftrightarrow> bit m (n + 6)"
  "bit (m div 4096) n \<longleftrightarrow> bit m (n + 12)" "bit (m div 262144) n \<longleftrightarrow> bit m (n + 18)"
proof -
  have "m mod 64 = take_bit 6 m" "m div 64 = drop_bit 6 m" "m div 4096 = drop_bit 12 m" "m div 262144 = drop_bit 18 m"
    by (simp_all add: take_bit_eq_mod drop_bit_eq_div)
  then show "bit (m mod 64) n \<longleftrightarrow> n < 6 \<and> bit m n" "bit (m div 64) n \<longleftrightarrow> bit m (n + 6)"
    "bit (m div 4096) n \<longleftrightarrow> bit m (n + 12)" "bit (m div 262144) n \<longleftrightarrow> bit m (n + 18)"
    by (simp_all only: bit_take_bit_iff bit_drop_bit_eq comp_apply add.commute)
qed

lemma byte_eqI:
  assumes "bit a 0 = bit b 0" "bit a 1 = bit b 1" "bit a 2 = bit b 2" "bit a 3 = bit b 3"
    "bit a 4 = bit b 4" "bit a 5 = bit b 5" "bit a 6 = bit b 6" "bit a 7 = bit b 7"
  shows "(a :: byte) = b"
proof (rule bit_word_eqI)
  fix n assume "n < LENGTH(8)"
  then have "n = 0 \<or> n = 1 \<or> n = 2 \<or> n = 3 \<or> n = 4 \<or> n = 5 \<or> n = 6 \<or> n = 7" by simp linarith
  then show "bit a n = bit b n" using assms by (elim disjE) simp_all
qed

lemma word_and_zero: "(w OR x) AND y = 0 \<longleftrightarrow> w AND y = 0 \<and> x AND (y :: 32 word) = 0"
  by (simp add: bit.conj_disj_distrib2 or_eq_0_iff)

text \<open>The three encodings of more than one byte.\<close>

lemma encode_2:
  fixes v :: "32 word"
  assumes "v = of_nat cp" "cp < 2 ^ 11"
  shows "from_char_utf8 ((push_bit 2 v AND 0x1F00) OR (v AND 0x3F) OR 0xC080)
    = [0xC0 OR of_nat (cp div 2 ^ 6), 0x80 OR of_nat (cp mod 2 ^ 6)]"
proof -
  let ?c = "(push_bit 2 v AND 0x1F00) OR (v AND 0x3F) OR (0xC080 :: 32 word)"
  have "bit (?c AND 0x0000FF00) 15" by (simp add: bit_simps)
  moreover have "?c AND 0x00FF0000 = 0" "?c AND 0xFF000000 = 0" by (simp_all add: word_and_zero and.assoc)
  ultimately have "bytes_in_char_utf8 ?c = 2" by (simp add: bytes_in_char_utf8_def word_positive_bit)
  moreover have "ucast ?c = (0x80 OR of_nat (cp mod 2 ^ 6) :: byte)"
    by (rule byte_eqI; simp add: assms(1) bit_simps bit_nat_digits)
  moreover have "ucast (drop_bit 8 ?c) = (0xC0 OR of_nat (cp div 2 ^ 6) :: byte)"
    by (rule byte_eqI; simp add: assms(1) bit_simps bit_nat_digits high_bits_nat [OF assms(2)])
  ultimately show ?thesis by (simp add: from_char_utf8_def char_bytes_numeral)
qed

lemma encode_3:
  fixes v :: "32 word"
  assumes "v = of_nat cp" "cp < 2 ^ 16"
  shows "from_char_utf8 ((push_bit 4 v AND 0x0F0000) OR (push_bit 2 v AND 0x3F00) OR (v AND 0x3F) OR 0xE08080)
    = [0xE0 OR of_nat (cp div 2 ^ 12), 0x80 OR of_nat (cp div 2 ^ 6 mod 2 ^ 6), 0x80 OR of_nat (cp mod 2 ^ 6)]"
proof -
  let ?c = "(push_bit 4 v AND 0x0F0000) OR (push_bit 2 v AND 0x3F00) OR (v AND 0x3F) OR (0xE08080 :: 32 word)"
  have "bit (?c AND 0x0000FF00) 15" "bit (?c AND 0x00FF0000) 23" by (simp_all add: bit_simps)
  moreover have "?c AND 0xFF000000 = 0" by (simp add: word_and_zero and.assoc)
  ultimately have "bytes_in_char_utf8 ?c = 3" by (simp add: bytes_in_char_utf8_def word_positive_bit)
  moreover have "ucast ?c = (0x80 OR of_nat (cp mod 2 ^ 6) :: byte)"
    by (rule byte_eqI; simp add: assms(1) bit_simps bit_nat_digits)
  moreover have "ucast (drop_bit 8 ?c) = (0x80 OR of_nat (cp div 2 ^ 6 mod 2 ^ 6) :: byte)"
    by (rule byte_eqI; simp add: assms(1) bit_simps bit_nat_digits)
  moreover have "ucast (drop_bit 16 ?c) = (0xE0 OR of_nat (cp div 2 ^ 12) :: byte)"
    by (rule byte_eqI; simp add: assms(1) bit_simps bit_nat_digits high_bits_nat [OF assms(2)])
  ultimately show ?thesis by (simp add: from_char_utf8_def char_bytes_numeral)
qed

lemma encode_4:
  fixes v :: "32 word"
  assumes "v = of_nat cp" "cp < 2 ^ 21"
  shows "from_char_utf8 ((push_bit 6 v AND 0x07000000) OR (push_bit 4 v AND 0x3F0000)
          OR (push_bit 2 v AND 0x3F00) OR (v AND 0x3F) OR 0xF0808080)
    = [0xF0 OR of_nat (cp div 2 ^ 18), 0x80 OR of_nat (cp div 2 ^ 12 mod 2 ^ 6),
       0x80 OR of_nat (cp div 2 ^ 6 mod 2 ^ 6), 0x80 OR of_nat (cp mod 2 ^ 6)]"
proof -
  let ?c = "(push_bit 6 v AND 0x07000000) OR (push_bit 4 v AND 0x3F0000)
          OR (push_bit 2 v AND 0x3F00) OR (v AND 0x3F) OR (0xF0808080 :: 32 word)"
  have "bit (?c AND 0x0000FF00) 15" "bit (?c AND 0x00FF0000) 23" "bit (?c AND 0xFF000000) 31"
    by (simp_all add: bit_simps)
  then have "bytes_in_char_utf8 ?c = 4" by (simp add: bytes_in_char_utf8_def word_positive_bit)
  moreover have "ucast ?c = (0x80 OR of_nat (cp mod 2 ^ 6) :: byte)"
    by (rule byte_eqI; simp add: assms(1) bit_simps bit_nat_digits)
  moreover have "ucast (drop_bit 8 ?c) = (0x80 OR of_nat (cp div 2 ^ 6 mod 2 ^ 6) :: byte)"
    by (rule byte_eqI; simp add: assms(1) bit_simps bit_nat_digits)
  moreover have "ucast (drop_bit 16 ?c) = (0x80 OR of_nat (cp div 2 ^ 12 mod 2 ^ 6) :: byte)"
    by (rule byte_eqI; simp add: assms(1) bit_simps bit_nat_digits)
  moreover have "ucast (drop_bit 24 ?c) = (0xF0 OR of_nat (cp div 2 ^ 18) :: byte)"
    by (rule byte_eqI; simp add: assms(1) bit_simps bit_nat_digits high_bits_nat [OF assms(2)])
  ultimately show ?thesis by (simp add: from_char_utf8_def char_bytes_numeral)
qed

lemma encode_1: "cp < 0x80 \<Longrightarrow> from_char_utf8 (of_nat cp) = [of_nat cp]"
proof -
  assume cp: "cp < 0x80"
  let ?v = "of_nat cp :: 32 word"
  have "take_bit 7 ?v = ?v" using cp by (simp add: take_bit_of_nat take_bit_nat_eq_self)
  then have v: "?v = ?v AND 0x7F" by (simp add: take_bit_eq_mask mask_eq_exp_minus_1)
  have "?v AND 0x0000FF00 = 0" "?v AND 0x00FF0000 = 0" "?v AND 0xFF000000 = 0"
    by (subst v, simp add: and.assoc)+
  then have "bytes_in_char_utf8 ?v = 1" by (simp add: bytes_in_char_utf8_def)
  moreover have "ucast ?v = (of_nat cp :: byte)"
    using cp by (simp add: unsigned_of_nat take_bit_nat_eq_self)
  ultimately show ?thesis by (simp add: from_char_utf8_def char_bytes_numeral)
qed

lemma codepoint_utf8:
  assumes "cp < 0x110000"
  shows "from_char_utf8 (codepoint_to_utf8 (of_nat cp)) = utf8 cp"
proof -
  have lt: "(of_nat cp :: 32 word) < of_nat n \<longleftrightarrow> cp < n" if "n \<le> 0x110000" for n
    using assms that by (simp add: word_less_nat_alt take_bit_nat_eq_self unsigned_of_nat)
  have l: "(of_nat cp :: 32 word) < 0x80 \<longleftrightarrow> cp < 0x80" "(of_nat cp :: 32 word) < 0x800 \<longleftrightarrow> cp < 0x800"
    "(of_nat cp :: 32 word) < 0x10000 \<longleftrightarrow> cp < 0x10000" "(of_nat cp :: 32 word) < 0x110000"
    using lt [where n = "0x80"] lt [where n = "0x800"] lt [where n = "0x10000"] lt [where n = "0x110000"] assms by simp_all
  show ?thesis
    unfolding codepoint_to_utf8_def utf8_def
    using l encode_1 [of cp] encode_2 [where cp = cp, OF refl] encode_3 [where cp = cp, OF refl] encode_4 [where cp = cp, OF refl] assms by simp
qed

end
