(* ===== verification/GetJsonProps.thy ===== *)
theory GetJsonProps
  imports GetJsonColumn JsonUtf8
begin

text \<open>
  What the JSON parser and the path evaluation guarantee, with witnesses on concrete rows, and the
  rows on which the evaluation differs from Spark.
\<close>

section \<open>Strings\<close>

text \<open>
  C28: The scan of a string against the reference: it accepts exactly the strings that consist of
  characters and escape sequences up to the closing quote, and a name matches exactly when it is
  their value.
\<close>

theorem string_scan_exact:
  "try_parse_string (q # str) name
    = map_option (\<lambda>(us, r). (name = Some (units_value us), r)) (string_units q str)"
  by (rule try_parse_string_units)

lemma units_raw:
  "34 \<notin> set v \<Longrightarrow> 92 \<notin> set v \<Longrightarrow> string_units 34 r = Some (us, z) \<Longrightarrow>
    string_units 34 (v @ r) = Some (map (\<lambda>c. (False, [c])) v @ us, z)"
proof (induction v)
  case (Cons c v)
  then show ?case by (subst string_units.simps) auto
qed simp

lemma units_escaped:
  "string_units 34 r = Some (us, z) \<Longrightarrow>
    \<exists>pre. string_units 34 (concat (map json_escape v) @ r) = Some (pre @ us, z) \<and> units_value pre = v"
proof (induction v)
  case Nil
  then show ?case by (intro exI [of _ "[]"]) (simp add: units_value_def)
next
  case (Cons c v)
  then obtain pre where pre: "string_units 34 (concat (map json_escape v) @ r) = Some (pre @ us, z)" "units_value pre = v"
    by blast
  obtain b where "string_units 34 (json_escape c @ concat (map json_escape v) @ r) = Some ((b, [c]) # pre @ us, z)"
    using string_units_escape [of c "concat (map json_escape v) @ r"] pre(1) by auto
  then show ?case using pre(2) by (intro exI [of _ "(b, [c]) # pre"]) (simp add: units_value_def)
qed

text \<open>A unit whose escaped text is read back: not a \<open>\\u\<close> sequence that stands for a quote or a backslash.\<close>

definition plain_unit :: "bool \<times> byte list \<Rightarrow> bool" where
  "plain_unit u \<longleftrightarrow> fst u \<longrightarrow> 34 \<notin> set (snd u) \<and> 92 \<notin> set (snd u)"

lemma units_text:
  "list_all plain_unit us \<Longrightarrow> \<exists>us'. string_units 34 (concat (map (unit_text ESCAPED) us) @ 34 # r) = Some (us', r)
    \<and> units_value us' = units_value us"
proof (induction us)
  case Nil
  then show ?case by (subst string_units.simps) (simp add: units_value_def)
next
  case (Cons u us)
  then obtain us' where u: "string_units 34 (concat (map (unit_text ESCAPED) us) @ 34 # r) = Some (us', r)"
    "units_value us' = units_value us" by auto
  have "\<exists>pre. string_units 34 (unit_text ESCAPED u @ concat (map (unit_text ESCAPED) us) @ 34 # r) = Some (pre @ us', r)
      \<and> units_value pre = snd u"
  proof (cases "fst u")
    case True
    then have n: "34 \<notin> set (snd u)" "92 \<notin> set (snd u)" using Cons.prems by (simp_all add: plain_unit_def)
    have "units_value (map (\<lambda>c. (False, [c])) (snd u)) = snd u" by (simp add: units_value_def o_def)
    then show ?thesis using units_raw [OF n u(1)] True by (simp add: unit_text_def)
  next
    case False
    then show ?thesis using units_escaped [OF u(1), of "snd u"] by (simp add: unit_text_def)
  qed
  then show ?case using u(2) by (auto simp: units_value_def)
qed

text \<open>
  C27: A copied string is read back: for a string literal in which no \<open>\u\<close> sequence stands for a quote or
  a backslash (\<open>plain_unit\<close>), the escaped text that \<open>write_string\<close> writes is scanned to its end, and has
  the value of the literal. For the two sequences that are excluded this fails: they are written
  without a backslash (\<open>unicode_quote_unescaped\<close>).
\<close>

theorem string_copy_roundtrip:
  assumes "string_literal s" "list_all plain_unit (literal_units s)"
  shows "try_parse_string (the (fst (write_string s (Some []) ESCAPED))) (Some (literal_value s)) = Some (True, [])"
proof -
  have "the (fst (write_string s (Some []) ESCAPED)) = 34 # concat (map (unit_text ESCAPED) (literal_units s)) @ [34]"
    using written_literal [OF assms(1), of ESCAPED] by (simp add: written_def literal_text_def)
  then show ?thesis using units_text [OF assms(2), of "[]"] by (auto simp: try_parse_string_units literal_value_def)
qed

lemma literal_example: "string_literal [34, 97, 92, 110, 34]" "literal_units [34, 97, 92, 110, 34] = [(False, [97]), (False, [10])]"
proof -
  have u: "string_units 34 [97, 92, 110, 34] = Some ([(False, [97]), (False, [10])], [])" by code_simp
  then show "string_literal [34, 97, 92, 110, 34]" unfolding string_literal_def by blast
  show "literal_units [34, 97, 92, 110, 34] = [(False, [97]), (False, [10])]" by (simp add: literal_units_def u)
qed

theorem string_copy_roundtrip_witness:
  "string_literal [34, 97, 92, 110, 34] \<and> list_all plain_unit (literal_units [34, 97, 92, 110, 34])
    \<and> try_parse_string (the (fst (write_string [34, 97, 92, 110, 34] (Some []) ESCAPED)))
        (Some (literal_value [34, 97, 92, 110, 34])) = Some (True, [])"
  using string_copy_roundtrip [OF literal_example(1)] literal_example by (simp add: plain_unit_def)

text \<open>
  C29: The bytes written for a code point, a \<open>\\u\<close> sequence or a pair of surrogates, are its encoding in UTF-8.
\<close>

theorem codepoint_is_utf8:
  assumes "cp < 0x110000"
  shows "from_char_utf8 (codepoint_to_utf8 (of_nat cp)) = utf8 cp"
  using assms by (rule codepoint_utf8)

theorem codepoint_is_utf8_witness:
  "(0x20AC :: nat) < 0x110000 \<and> from_char_utf8 (codepoint_to_utf8 (of_nat 0x20AC)) = [0xE2, 0x82, 0xAC]"
proof -
  have "utf8 0x20AC = [0xE2, 0x82, 0xAC]" by (simp add: utf8_def)
  then show ?thesis using codepoint_is_utf8 [of "0x20AC"] by simp
qed

section \<open>The evaluation of paths\<close>

text \<open>Concrete rows: a row is written with exclamation marks for its quotes.\<close>

definition json_row :: "string \<Rightarrow> byte list" where
  "json_row s = map (\<lambda>c. if c = CHR ''!'' then 34 else of_char c) s"

definition at_name :: "string \<Rightarrow> path_instruction" where
  "at_name s = \<lparr>pi_name = json_row s, pi_index = -1, pi_type = NAMED\<rparr>"

definition at_index :: "int \<Rightarrow> path_instruction" where
  "at_index i = \<lparr>pi_name = [], pi_index = i, pi_type = INDEX\<rparr>"

definition at_all :: path_instruction where
  "at_all = \<lparr>pi_name = [], pi_index = -1, pi_type = WILDCARD\<rparr>"


definition some_garbage :: garbage where
  "some_garbage = \<lparr>g_beyond = 0, g_context = 0, g_start_pos = 0, g_number_len = 0\<rparr>"





text \<open>
  C26: The evaluation returns: for every column, whatever its rows hold, all paths and every budget the
  kernel and the host functions come to an end, with columns or with an error.
\<close>

theorem get_json_object_returns:
  "\<exists>r. get_json_object norm gs scratch buffer input paths budget override = Some r"
  by (rule get_json_object_ends)

section \<open>Rows on which the evaluation differs from Spark\<close>

text \<open>The result of a path for a row: \<open>None\<close> for null.\<close>

definition path_of_row :: "string \<Rightarrow> path_instruction list \<Rightarrow> byte list option" where
  "path_of_row s pth =
     (case evaluate_path id (new_json_parser some_garbage (json_row s)) pth (\<lambda>_. 0) of
        Some (True, n, e) \<Rightarrow> Some (load (mem e) 0 n)
      | _ \<Rightarrow> None)"

text \<open>
  An index behind the end of one element of a wildcard ends the evaluation of the row, and so does a
  field that is null in one element, although other elements have a value.
\<close>

lemma index_ends_row:
  "path_of_row ''[[1,2],[3,4]]'' [at_all, at_index 1] = Some (json_row ''[2,4]'')"
  "path_of_row ''[[1],[3,4]]'' [at_all, at_index 1] = None"
  by code_simp+

lemma null_ends_row:
  "path_of_row ''[{!a!:1},{!a!:2}]'' [at_all, at_name ''a''] = Some (json_row ''[1,2]'')"
  "path_of_row ''[{!a!:null},{!a!:2}]'' [at_all, at_name ''a''] = None"
  by code_simp+

text \<open>Only the first field with the name is looked at; Spark goes on to the next one when it has no value at the path.\<close>

lemma first_field_only:
  "path_of_row ''{!a!:1,!a!:{!c!:7}}'' [at_name ''a'', at_name ''c''] = None"
  by code_simp

text \<open>
  When the field that is found has no value at the path, the rest of the object is not skipped: its
  fields are read as further elements of the array around it.
\<close>

lemma object_not_skipped:
  "path_of_row ''[{!a!:1,!b!:{!a!:{!c!:7}}}]'' [at_all, at_name ''a'', at_name ''c''] = Some (json_row ''7'')"
  by code_simp

text \<open>The first character of a field name is taken for its quote, whatever it is.\<close>

lemma any_quote: "path_of_row ''{xax:7}'' [at_name ''a''] = Some (json_row ''7'')"
  by code_simp

text \<open>A quote written as a \<open>\\u\<close> sequence is copied unescaped: the copy is not JSON.\<close>

lemma unicode_quote_unescaped:
  "written [34, 92, 117, 48, 48, 50, 50, 34] ESCAPED = [34, 34, 34]"
  "try_parse_string [34, 34, 34] None = Some (False, [34])"
  by code_simp+

text \<open>
  A copy that fails has the size 0, so that writing past the place of its row is not noticed: here a
  row of five bytes, \<open>["\\x01"x\<close>, writes nine, and the last four race with the next row.
\<close>

lemma failed_copy_overruns:
  "map_option (\<lambda>(d, x). (has_out_of_bound d, load (out_buf d) 0 9, x))
     (get_json_object_row id some_garbage [91, 34, 1, 34, 120] 0
       \<lparr>path_commands = [], offsets = [0, 5, 10], out_stringviews = Some [(False, 0, 0), (False, 0, 0)],
        out_buf = (\<lambda>_. 0), has_out_of_bound = False\<rparr>)
   = Some (False, [91, 34, 92, 117, 48, 48, 48, 49, 34], False)"
  by code_simp

end
