(* ===== verification/ParquetFooter.thy ===== *)
theory ParquetFooter
  imports Prelude "HOL-Library.Char_ord" "HOL-Library.List_Lexorder" "HOL-Library.Multiset"
begin

text \<open>
  The pruning of a Parquet footer (\<open>NativeParquetJni.cpp\<close>). A schema is a tree flattened depth
  first; so is the schema that Spark asks for. The pruner rebuilds the latter, and walks over the
  former with two positions, collecting the maps by which the parts of the footer are gathered. The
  row groups are filtered by the part of the file they belong to. The generated Thrift types are
  records with the fields that the code uses; positions are natural numbers, and the 32-bit counters
  of the walk are integers that do not wrap. A C++ exception and undefined behaviour are both failures;
  \<open>unexpected_tag n\<close> is the runtime error \<open>INTERNAL ERROR UNEXPECTED TAG FOUND n\<close>.
\<close>

section \<open>Failures\<close>

datatype failure =
    out_of_range
  | runtime_error string
  | unexpected_tag int
  | invalid_argument string
  | length_error
  | undefined_behaviour

definition and_then :: "failure + 'a \<Rightarrow> ('a \<Rightarrow> failure + 'b) \<Rightarrow> failure + 'b" where
  "and_then m f = (case m of Inl e \<Rightarrow> Inl e | Inr x \<Rightarrow> f x)"

lemma and_then_simps [simp]: "and_then (Inl e) f = Inl e" "and_then (Inr x) f = f x"
  by (simp_all add: and_then_def)

lemma and_then_cong [fundef_cong]:
  "m = m' \<Longrightarrow> (\<And>x. m' = Inr x \<Longrightarrow> f x = f' x) \<Longrightarrow> and_then m f = and_then m' f'"
  by (cases m) auto

lemma and_then_assoc [simp]: "and_then (and_then m f) g = and_then m (\<lambda>x. and_then (f x) g)"
  by (cases m) auto

lemma and_then_InrD: "and_then m f = Inr y \<Longrightarrow> \<exists>x. m = Inr x \<and> f x = Inr y"
  by (cases m) auto

section \<open>Lower case\<close>

text \<open>
  The conversions of the C locale, up to the terminating null: \<open>None\<close> is an invalid sequence, for
  which \<open>mbsrtowcs\<close> and \<open>wcsrtombs\<close> return \<open>(size_t)-1\<close>. As \<open>size_t\<close> is unsigned, the test
  \<open>wide_size < 0\<close> never holds: the vector has no element and \<open>back()\<close> is undefined. A string of
  \<open>(size_t)-1\<close> characters is too long.
\<close>

record c_locale =
  mbsrtowcs :: "string \<Rightarrow> 32 word list option"
  towlower :: "32 word \<Rightarrow> 32 word"
  wcsrtombs :: "32 word list \<Rightarrow> string option"

definition unicode_to_lower :: "c_locale \<Rightarrow> string \<Rightarrow> failure + string" where
  "unicode_to_lower loc input =
     (case mbsrtowcs loc (takeWhile (\<lambda>c. c \<noteq> CHR 0x00) input) of
        None \<Rightarrow> Inl undefined_behaviour
      | Some wide \<Rightarrow>
          let wide = map (towlower loc) (wide @ [0]) in
          if 0 \<notin> set wide then Inl undefined_behaviour
          else case wcsrtombs loc (takeWhile (\<lambda>w. w \<noteq> 0) wide) of
                 None \<Rightarrow> Inl length_error
               | Some ret \<Rightarrow> Inr ret)"

section \<open>The schema and the pruner\<close>

datatype repetition_type = REPEATED | OTHER_REPETITION int

datatype converted_type = CONVERTED_MAP | CONVERTED_MAP_KEY_VALUE | OTHER_CONVERTED int

record schema_element =
  elem_name :: string
  isset_type :: bool
  isset_num_children :: bool
  elem_num_children :: int
  isset_repetition_type :: bool
  elem_repetition_type :: repetition_type
  isset_converted_type :: bool
  elem_converted_type :: converted_type

datatype Tag = VALUE | STRUCT | LIST | MAP | UNEXPECTED int

definition to_tag :: "int \<Rightarrow> Tag" where
  "to_tag n = (if n = 0 then VALUE else if n = 1 then STRUCT else if n = 2 then LIST
     else if n = 3 then MAP else UNEXPECTED n)"

datatype column_pruner = Pruner (children: "(string \<times> column_pruner) list") (tag: Tag)

lemma size_child [termination_simp]:
  assumes "om_find (children p) k = Some q"
  shows "size q < size p"
proof -
  have "(k, q) \<in> set (children p)" using om_find_in_set [OF assms] .
  then show ?thesis by (cases p) (auto simp: size_list_estimation' less_Suc_eq_le dest!: size_list_estimation [where f = "size_prod (\<lambda>_. 0) size"])
qed

definition get_name :: "c_locale \<Rightarrow> schema_element \<Rightarrow> bool \<Rightarrow> failure + string" where
  "get_name loc elem normalize_case =
     (if normalize_case then unicode_to_lower loc (elem_name elem) else Inr (elem_name elem))"

definition get_num_children :: "schema_element \<Rightarrow> int" where
  "get_num_children elem = (if isset_num_children elem then elem_num_children elem else 0)"

definition is_repeated :: "schema_element \<Rightarrow> bool" where
  "is_repeated elem \<longleftrightarrow> isset_repetition_type elem \<and> elem_repetition_type elem = REPEATED"

text \<open>The two positions and the maps, all of them passed by reference.\<close>

record filter_state =
  current_input_schema_index :: nat
  next_input_chunk_index :: nat
  chunk_map :: "nat list"
  schema_map :: "nat list"
  schema_num_children :: "int list"

fun skip_items :: "schema_element list \<Rightarrow> int \<Rightarrow> filter_state \<Rightarrow> filter_state" where
  "skip_items [] num_to_skip s = s"
| "skip_items (schema_item # rest) num_to_skip s =
     (if num_to_skip > 0 then
        skip_items rest (num_to_skip + get_num_children schema_item - 1)
          (s\<lparr>next_input_chunk_index := next_input_chunk_index s + (if isset_type schema_item then 1 else 0),
             current_input_schema_index := current_input_schema_index s + 1\<rparr>)
      else s)"

definition skip :: "schema_element list \<Rightarrow> filter_state \<Rightarrow> filter_state" where
  "skip schema s = skip_items (drop (current_input_schema_index s) schema) 1 s"

text \<open>\<open>schema.at(current_input_schema_index)\<close>\<close>

definition schema_at :: "schema_element list \<Rightarrow> filter_state \<Rightarrow> failure + schema_element" where
  "schema_at schema s =
     (if current_input_schema_index s < length schema then Inr (schema ! current_input_schema_index s)
      else Inl out_of_range)"

text \<open>Push the current element with a number of children, and go to the next one.\<close>

definition push_element :: "int \<Rightarrow> filter_state \<Rightarrow> filter_state" where
  "push_element n s =
     s\<lparr>schema_map := schema_map s @ [current_input_schema_index s],
       schema_num_children := schema_num_children s @ [n],
       current_input_schema_index := current_input_schema_index s + 1\<rparr>"

definition at_child :: "column_pruner \<Rightarrow> string \<Rightarrow> failure + column_pruner" where
  "at_child p name = (case om_find (children p) name of None \<Rightarrow> Inl out_of_range | Some q \<Rightarrow> Inr q)"

lemma at_child_size [termination_simp]: "at_child p name = Inr q \<Longrightarrow> size q < size p"
  by (auto simp: at_child_def size_child split: option.splits)

definition filter_schema_value :: "schema_element list \<Rightarrow> filter_state \<Rightarrow> failure + filter_state" where
  "filter_schema_value schema s =
     and_then (schema_at schema s) (\<lambda>schema_item.
       if \<not> isset_type schema_item then
         Inl (runtime_error ''found a non-leaf entry when reading a leaf value'')
       else if get_num_children schema_item \<noteq> 0 then
         Inl (runtime_error ''found an entry with children when reading a leaf value'')
       else
         let s = push_element 0 s in
         Inr (s\<lparr>chunk_map := chunk_map s @ [next_input_chunk_index s],
                next_input_chunk_index := next_input_chunk_index s + 1\<rparr>))"

text \<open>The last element that was pushed is removed.\<close>

definition pop_element :: "filter_state \<Rightarrow> filter_state" where
  "pop_element s = s\<lparr>schema_map := butlast (schema_map s), schema_num_children := butlast (schema_num_children s)\<rparr>"

function filter_schema :: "c_locale \<Rightarrow> schema_element list \<Rightarrow> bool \<Rightarrow> column_pruner \<Rightarrow> filter_state \<Rightarrow> failure + filter_state"
  and filter_schema_struct :: "c_locale \<Rightarrow> schema_element list \<Rightarrow> bool \<Rightarrow> column_pruner \<Rightarrow> filter_state \<Rightarrow> failure + filter_state"
  and struct_children :: "c_locale \<Rightarrow> schema_element list \<Rightarrow> bool \<Rightarrow> column_pruner \<Rightarrow> nat \<Rightarrow> nat \<Rightarrow> nat \<Rightarrow> filter_state \<Rightarrow> failure + (nat \<times> filter_state)"
  and filter_schema_list :: "c_locale \<Rightarrow> schema_element list \<Rightarrow> bool \<Rightarrow> column_pruner \<Rightarrow> filter_state \<Rightarrow> failure + filter_state"
  and filter_schema_map :: "c_locale \<Rightarrow> schema_element list \<Rightarrow> bool \<Rightarrow> column_pruner \<Rightarrow> filter_state \<Rightarrow> failure + filter_state"
where
  "filter_schema loc schema ignore_case p s =
     (case tag p of
        STRUCT \<Rightarrow> filter_schema_struct loc schema ignore_case p s
      | VALUE \<Rightarrow> filter_schema_value schema s
      | LIST \<Rightarrow> filter_schema_list loc schema ignore_case p s
      | MAP \<Rightarrow> filter_schema_map loc schema ignore_case p s
      | UNEXPECTED n \<Rightarrow> Inl (unexpected_tag n))"
| "filter_schema_struct loc schema ignore_case p s =
     and_then (schema_at schema s) (\<lambda>struct_schema_item.
       if isset_type struct_schema_item then
         Inl (runtime_error ''Found a leaf node, but expected to find a struct'')
       else
         and_then
           (struct_children loc schema ignore_case p (length (schema_num_children s))
              (nat (get_num_children struct_schema_item)) 0 (push_element 0 s))
           (\<lambda>(matched_children_count, s).
              Inr (if matched_children_count = 0 then pop_element s else s)))"
| "struct_children loc schema ignore_case p struct_map_position num_children matched_children_count s =
     (if num_children = 0 \<or> current_input_schema_index s \<ge> length schema then Inr (matched_children_count, s)
      else
        and_then (get_name loc (schema ! current_input_schema_index s) ignore_case) (\<lambda>name.
          case om_find (children p) name of
            Some found \<Rightarrow>
              and_then (filter_schema loc schema ignore_case found s) (\<lambda>s'.
                if length (schema_map s') > length (schema_map s) then
                  struct_children loc schema ignore_case p struct_map_position (num_children - 1)
                    (matched_children_count + 1)
                    (s'\<lparr>schema_num_children :=
                          (schema_num_children s')[struct_map_position :=
                             schema_num_children s' ! struct_map_position + 1]\<rparr>)
                else
                  struct_children loc schema ignore_case p struct_map_position (num_children - 1)
                    matched_children_count s')
          | None \<Rightarrow>
              struct_children loc schema ignore_case p struct_map_position (num_children - 1)
                matched_children_count (skip schema s)))"
| "filter_schema_list loc schema ignore_case p s =
     and_then (at_child p ''element'') (\<lambda>found.
     and_then (schema_at schema s) (\<lambda>list_schema_item.
       if isset_type list_schema_item then
         if \<not> is_repeated list_schema_item then Inl (runtime_error ''expected list item to be repeating'')
         else filter_schema_value schema s
       else if get_num_children list_schema_item > 1 then
         if \<not> is_repeated list_schema_item then Inl (runtime_error ''expected list item to be repeating'')
         else filter_schema loc schema ignore_case found s
       else if get_num_children list_schema_item \<noteq> 1 then
         Inl (runtime_error ''the structure of the outer list group is not standard'')
       else
         let s = push_element 1 s in
         and_then (schema_at schema s) (\<lambda>repeated_field_schema_item.
           if \<not> is_repeated repeated_field_schema_item then
             Inl (runtime_error ''the structure of the list's child is not standard (non repeating)'')
           else if \<not> isset_type repeated_field_schema_item \<and> get_num_children repeated_field_schema_item = 1
             \<and> elem_name repeated_field_schema_item \<noteq> ''array''
             \<and> elem_name repeated_field_schema_item \<noteq> elem_name list_schema_item @ ''_tuple'' then
             filter_schema loc schema ignore_case found (push_element 1 s)
           else filter_schema loc schema ignore_case found s)))"
| "filter_schema_map loc schema ignore_case p s =
     and_then (at_child p ''key'') (\<lambda>key_found.
     and_then (at_child p ''value'') (\<lambda>value_found.
     and_then (schema_at schema s) (\<lambda>map_schema_item.
       if isset_type map_schema_item then
         Inl (runtime_error ''expected a map item, but found a single value'')
       else if \<not> isset_converted_type map_schema_item
         \<or> elem_converted_type map_schema_item \<noteq> CONVERTED_MAP
           \<and> elem_converted_type map_schema_item \<noteq> CONVERTED_MAP_KEY_VALUE then
         Inl (runtime_error ''expected a map type, but it was not found.'')
       else if get_num_children map_schema_item \<noteq> 1 then
         Inl (runtime_error ''the structure of the outer map group is not standard'')
       else
         let s = push_element 1 s in
         and_then (schema_at schema s) (\<lambda>repeated_field_schema_item.
           if \<not> is_repeated repeated_field_schema_item then Inl (runtime_error ''found non repeating map child'')
           else
             let repeated_field_num_children = get_num_children repeated_field_schema_item in
             if repeated_field_num_children \<noteq> 1 \<and> repeated_field_num_children \<noteq> 2 then
               Inl (runtime_error ''found map with wrong number of children'')
             else
               and_then (filter_schema loc schema ignore_case key_found (push_element repeated_field_num_children s)) (\<lambda>s.
                 if repeated_field_num_children = 2 then filter_schema loc schema ignore_case value_found s
                 else Inr s)))))"
  by pat_completeness auto

termination
  by (relation "measures [\<lambda>x. case x of Inl (Inl (_, _, _, p, _)) \<Rightarrow> size p | Inl (Inr (_, _, _, p, _)) \<Rightarrow> size p
        | Inr (Inl (_, _, _, p, _)) \<Rightarrow> size p | Inr (Inr (Inl (_, _, _, p, _))) \<Rightarrow> size p | Inr (Inr (Inr (_, _, _, p, _))) \<Rightarrow> size p,
      \<lambda>x. case x of Inl (Inl _) \<Rightarrow> 2 | Inl (Inr _) \<Rightarrow> 1 | Inr (Inl _) \<Rightarrow> 0 | Inr (Inr (Inl _)) \<Rightarrow> 1 | Inr (Inr (Inr _)) \<Rightarrow> 1,
      \<lambda>x. case x of Inr (Inl (_, _, _, _, _, n, _)) \<Rightarrow> n | _ \<Rightarrow> 0]")
    (auto simp: size_child at_child_size)

declare filter_schema.simps [simp del] filter_schema_struct.simps [simp del] struct_children.simps [simp del]
  filter_schema_list.simps [simp del] filter_schema_map.simps [simp del]

record column_pruning_maps =
  the_schema_map :: "nat list"
  the_schema_num_children :: "int list"
  the_chunk_map :: "nat list"

definition filter_whole_schema ::
  "c_locale \<Rightarrow> schema_element list \<Rightarrow> bool \<Rightarrow> column_pruner \<Rightarrow> failure + column_pruning_maps" where
  "filter_whole_schema loc schema ignore_case p =
     and_then
       (filter_schema loc schema ignore_case p
          \<lparr>current_input_schema_index = 0, next_input_chunk_index = 0, chunk_map = [], schema_map = [],
            schema_num_children = []\<rparr>)
       (\<lambda>s. Inr \<lparr>the_schema_map = schema_map s, the_schema_num_children = schema_num_children s,
                 the_chunk_map = chunk_map s\<rparr>)"

section \<open>Building the pruner\<close>

text \<open>
  A pointer into the tree of pruners is the list of the names that lead to its node; the nodes of a
  \<open>std::map\<close> stay where they are. The stack of pointers and the stack of numbers of children are
  pushed and popped together and are one list.
\<close>

fun modify_at :: "string list \<Rightarrow> (column_pruner \<Rightarrow> column_pruner) \<Rightarrow> column_pruner \<Rightarrow> column_pruner" where
  "modify_at [] f p = f p"
| "modify_at (k # ks) f p =
     (case om_find (children p) k of
        None \<Rightarrow> p
      | Some c \<Rightarrow> Pruner (om_set k (modify_at ks f c) (children p)) (tag p))"

definition try_emplace :: "string \<Rightarrow> Tag \<Rightarrow> column_pruner \<Rightarrow> column_pruner" where
  "try_emplace name t p = Pruner (om_emplace name (Pruner [] t) (children p)) (tag p)"

fun go_back_up :: "(string list \<times> int) list \<Rightarrow> (string list \<times> int) list" where
  "go_back_up [] = []"
| "go_back_up ((node, num_children) # stack) =
     (if num_children - 1 > 0 then (node, num_children - 1) # stack else go_back_up stack)"

fun add_names_loop :: "string list \<Rightarrow> int list \<Rightarrow> Tag list \<Rightarrow> (string list \<times> int) list \<Rightarrow> column_pruner
    \<Rightarrow> failure + ((string list \<times> int) list \<times> column_pruner)" where
  "add_names_loop [] _ _ stack p = Inr (stack, p)"
| "add_names_loop (name # names) (num_c # num_children) (t # tags) ((node, n) # stack) p =
     (let p = modify_at node (try_emplace name t) p in
      if num_c > 0 then add_names_loop names num_children tags ((node @ [name], num_c) # (node, n) # stack) p
      else add_names_loop names num_children tags (go_back_up ((node, n) # stack)) p)"
| "add_names_loop _ _ _ _ _ = Inl undefined_behaviour"

definition add_depth_first ::
  "string list \<Rightarrow> int list \<Rightarrow> Tag list \<Rightarrow> int \<Rightarrow> column_pruner \<Rightarrow> failure + column_pruner" where
  "add_depth_first names num_children tags parent_num_children p =
     (if parent_num_children = 0 then Inr p
      else
        and_then (add_names_loop names num_children tags [([], parent_num_children)] p) (\<lambda>(stack, p).
          if stack \<noteq> [] then Inl (invalid_argument ''DIDN'T CONSUME EVERYTHING...'') else Inr p))"

definition new_column_pruner ::
  "string list \<Rightarrow> int list \<Rightarrow> Tag list \<Rightarrow> int \<Rightarrow> failure + column_pruner" where
  "new_column_pruner names num_children tags parent_num_children =
     add_depth_first names num_children tags parent_num_children (Pruner [] STRUCT)"

section \<open>Row groups\<close>

record column_meta_data =
  data_page_offset :: int
  isset_dictionary_page_offset :: bool
  dictionary_page_offset :: int
  md_total_compressed_size :: int

record column_chunk =
  isset_meta_data :: bool
  meta_data :: column_meta_data

record row_group =
  columns :: "column_chunk list"
  num_rows :: int
  file_offset :: int
  isset_total_compressed_size :: bool
  total_compressed_size :: int

record file_metadata =
  schema :: "schema_element list"
  row_groups :: "row_group list"
  isset_column_orders :: bool
  column_orders :: "int list"

definition invalid_file_offset :: "int \<Rightarrow> int \<Rightarrow> int \<Rightarrow> bool" where
  "invalid_file_offset start_index pre_start_index pre_compressed_size \<longleftrightarrow>
     (if pre_start_index = 0 \<and> start_index \<noteq> 4 then True
      else start_index < s64 (pre_start_index + pre_compressed_size))"

definition get_offset :: "column_chunk \<Rightarrow> int" where
  "get_offset chunk =
     (let md = meta_data chunk in
      if isset_dictionary_page_offset md \<and> data_page_offset md > dictionary_page_offset md
      then dictionary_page_offset md else data_page_offset md)"

definition group_start :: "bool \<Rightarrow> row_group \<Rightarrow> column_chunk \<Rightarrow> int \<times> int \<Rightarrow> int \<times> int \<times> int" where
  "group_start first_column_with_metadata rg chunk pre =
     (case pre of (pre_start_index, pre_compressed_size) \<Rightarrow>
        if first_column_with_metadata then (get_offset chunk, pre_start_index, pre_compressed_size)
        else
          let start_index =
            (if invalid_file_offset (file_offset rg) pre_start_index pre_compressed_size
             then if pre_start_index = 0 then 4 else s64 (pre_start_index + pre_compressed_size)
             else file_offset rg)
          in (start_index, start_index, total_compressed_size rg))"

definition group_size :: "row_group \<Rightarrow> int" where
  "group_size rg =
     (if isset_total_compressed_size rg then total_compressed_size rg
      else fold (\<lambda>col total_size. s64 (total_size + md_total_compressed_size (meta_data col))) (columns rg) 0)"

fun filter_groups_loop :: "bool \<Rightarrow> int \<Rightarrow> int \<Rightarrow> int \<times> int \<Rightarrow> row_group list \<Rightarrow> failure + row_group list" where
  "filter_groups_loop first_column_with_metadata part_offset part_length pre [] = Inr []"
| "filter_groups_loop first_column_with_metadata part_offset part_length pre (rg # groups) =
     (case columns rg of
        [] \<Rightarrow> Inl undefined_behaviour
      | chunk # _ \<Rightarrow>
          case group_start first_column_with_metadata rg chunk pre of (start_index, pre) \<Rightarrow>
            let mid_point = s64 (start_index + group_size rg sdiv 2) in
            and_then (filter_groups_loop first_column_with_metadata part_offset part_length pre groups) (\<lambda>rest.
              Inr (if mid_point \<ge> part_offset \<and> mid_point < s64 (part_offset + part_length)
                   then rg # rest else rest)))"

definition filter_groups :: "file_metadata \<Rightarrow> int \<Rightarrow> int \<Rightarrow> failure + row_group list" where
  "filter_groups meta part_offset part_length =
     (case row_groups meta of
        [] \<Rightarrow> Inr []
      | rg # _ \<Rightarrow>
          case columns rg of
            [] \<Rightarrow> Inl undefined_behaviour
          | chunk # _ \<Rightarrow>
              filter_groups_loop (isset_meta_data chunk) part_offset part_length (0, 0) (row_groups meta))"

section \<open>Gathering the footer\<close>

text \<open>\<open>v[*it]\<close> for every entry of a gather map\<close>

definition gather_vector :: "'a list \<Rightarrow> nat list \<Rightarrow> failure + 'a list" where
  "gather_vector v is = (if \<forall>i\<in>set is. i < length v then Inr (map (\<lambda>i. v ! i) is) else Inl undefined_behaviour)"

fun filter_columns :: "row_group list \<Rightarrow> nat list \<Rightarrow> failure + row_group list" where
  "filter_columns [] chunk_filter = Inr []"
| "filter_columns (rg # groups) chunk_filter =
     and_then (gather_vector (columns rg) chunk_filter) (\<lambda>new_chunks.
     and_then (filter_columns groups chunk_filter) (\<lambda>rest. Inr (rg\<lparr>columns := new_chunks\<rparr> # rest)))"

definition gather_schema :: "schema_element list \<Rightarrow> nat list \<Rightarrow> int list \<Rightarrow> failure + schema_element list" where
  "gather_schema elems is ns =
     and_then (gather_vector elems is) (\<lambda>new_schema.
       Inr (map2 (\<lambda>elem n. elem\<lparr>elem_num_children := n\<rparr>) new_schema ns))"

definition deserialize_parquet_footer ::
  "(byte list \<Rightarrow> string + file_metadata) \<Rightarrow> byte list \<Rightarrow> failure + file_metadata" where
  "deserialize_parquet_footer thrift_read buffer =
     (case thrift_read buffer of
        Inl what \<Rightarrow> Inl (runtime_error (''Couldn't deserialize thrift: '' @ what @ [CHR 0x0A]))
      | Inr meta \<Rightarrow> Inr meta)"

definition read_and_filter ::
  "(byte list \<Rightarrow> string + file_metadata) \<Rightarrow> c_locale \<Rightarrow> byte list \<Rightarrow> int \<Rightarrow> int \<Rightarrow> string list \<Rightarrow> int list
    \<Rightarrow> int list \<Rightarrow> int \<Rightarrow> bool \<Rightarrow> failure + file_metadata" where
  "read_and_filter thrift_read loc buffer part_offset part_length filter_col_names num_children tags
     parent_num_children ignore_case =
     and_then (deserialize_parquet_footer thrift_read buffer) (\<lambda>meta.
     and_then (new_column_pruner filter_col_names num_children (map to_tag tags) parent_num_children) (\<lambda>pruner.
     and_then (filter_whole_schema loc (schema meta) ignore_case pruner) (\<lambda>filter.
     and_then (gather_schema (schema meta) (the_schema_map filter) (the_schema_num_children filter)) (\<lambda>new_schema.
     let meta = meta\<lparr>schema := new_schema\<rparr> in
     and_then (if isset_column_orders meta then gather_vector (column_orders meta) (the_chunk_map filter)
               else Inr (column_orders meta)) (\<lambda>new_order.
     let meta = meta\<lparr>column_orders := new_order\<rparr> in
     and_then (if part_length \<ge> 0 then filter_groups meta part_offset part_length else Inr (row_groups meta)) (\<lambda>groups.
     and_then (filter_columns groups (the_chunk_map filter)) (\<lambda>groups.
     Inr (meta\<lparr>row_groups := groups\<rparr>))))))))"

definition getNumRows :: "file_metadata \<Rightarrow> int" where
  "getNumRows meta = fold (\<lambda>rg ret. s64 (ret + num_rows rg)) (row_groups meta) 0"

definition getNumColumns :: "file_metadata \<Rightarrow> int" where
  "getNumColumns meta = (case schema meta of [] \<Rightarrow> 0 | root # _ \<Rightarrow> get_num_children root)"

text \<open>The size of the serialized footer has 32 bits.\<close>

definition serializeThriftFile :: "(file_metadata \<Rightarrow> byte list) \<Rightarrow> file_metadata \<Rightarrow> byte list" where
  "serializeThriftFile thrift_write meta =
     (let buf = thrift_write meta; buf_size = (of_nat (length buf) :: 32 word) in
      [80, 65, 82, 49] @ buf
        @ [ucast buf_size, ucast (drop_bit 8 buf_size), ucast (drop_bit 16 buf_size), ucast (drop_bit 24 buf_size)]
        @ [80, 65, 82, 49])"

end
