(* ===== verification/ParquetPrune.thy ===== *)
theory ParquetPrune
  imports ParquetFooter
begin

text \<open>
  Pruning against a reference on trees: a schema as a tree whose leaves carry what belongs to a
  column, and the tree that is left of it. The walk over the flattened schema computes the maps that
  gather the flattened result.
\<close>

section \<open>The reference\<close>

datatype 'c schema_tree = Node (elem: schema_element) (payload: 'c) (subtrees: "'c schema_tree list")

primrec flatten :: "'c schema_tree \<Rightarrow> schema_element list" where
  "flatten (Node e c ts) = e # concat (map flatten ts)"

primrec leaf_payloads :: "'c schema_tree \<Rightarrow> 'c list" where
  "leaf_payloads (Node e c ts) = (if isset_type e then [c] else []) @ concat (map leaf_payloads ts)"

text \<open>A leaf has a type and no children, and an element states the number of its children.\<close>

primrec wf_tree :: "'c schema_tree \<Rightarrow> bool" where
  "wf_tree (Node e c ts) \<longleftrightarrow>
     get_num_children e = int (length ts) \<and> (isset_type e \<longrightarrow> ts = []) \<and> list_all (\<lambda>b. b) (map wf_tree ts)"

definition with_children :: "int \<Rightarrow> schema_element \<Rightarrow> schema_element" where
  "with_children n e = e\<lparr>elem_num_children := n\<rparr>"

definition prune_leaf :: "'c schema_tree \<Rightarrow> failure + 'c schema_tree list" where
  "prune_leaf t =
     (if \<not> isset_type (elem t) then
        Inl (runtime_error ''found a non-leaf entry when reading a leaf value'')
      else if subtrees t \<noteq> [] then
        Inl (runtime_error ''found an entry with children when reading a leaf value'')
      else Inr [Node (with_children 0 (elem t)) (payload t) []])"

text \<open>What is left of a tree: one tree or, when no field of a struct matches, none.\<close>

definition keep_one :: "schema_element \<Rightarrow> 'c \<Rightarrow> 'c schema_tree list \<Rightarrow> 'c schema_tree list" where
  "keep_one e c ts = [Node (with_children 1 e) c ts]"

function prune :: "c_locale \<Rightarrow> bool \<Rightarrow> column_pruner \<Rightarrow> 'c schema_tree \<Rightarrow> failure + 'c schema_tree list"
  and prune_fields :: "c_locale \<Rightarrow> bool \<Rightarrow> column_pruner \<Rightarrow> 'c schema_tree list \<Rightarrow> failure + 'c schema_tree list"
where
  "prune loc ignore_case p t =
     (case tag p of
        VALUE \<Rightarrow> prune_leaf t
      | STRUCT \<Rightarrow>
          if isset_type (elem t) then Inl (runtime_error ''Found a leaf node, but expected to find a struct'')
          else and_then (prune_fields loc ignore_case p (subtrees t)) (\<lambda>kept.
            Inr (if kept = [] then [] else [Node (with_children (int (length kept)) (elem t)) (payload t) kept]))
      | LIST \<Rightarrow>
          and_then (at_child p ''element'') (\<lambda>found.
            if isset_type (elem t) then
              if is_repeated (elem t) then prune_leaf t
              else Inl (runtime_error ''expected list item to be repeating'')
            else if length (subtrees t) > 1 then
              if is_repeated (elem t) then prune loc ignore_case found t
              else Inl (runtime_error ''expected list item to be repeating'')
            else case subtrees t of
              [] \<Rightarrow> Inl (runtime_error ''the structure of the outer list group is not standard'')
            | r # _ \<Rightarrow>
                if \<not> is_repeated (elem r) then
                  Inl (runtime_error ''the structure of the list's child is not standard (non repeating)'')
                else if \<not> isset_type (elem r) \<and> length (subtrees r) = 1 \<and> elem_name (elem r) \<noteq> ''array''
                  \<and> elem_name (elem r) \<noteq> elem_name (elem t) @ ''_tuple'' then
                  and_then (prune loc ignore_case found (hd (subtrees r))) (\<lambda>kept.
                    Inr (keep_one (elem t) (payload t) (keep_one (elem r) (payload r) kept)))
                else and_then (prune loc ignore_case found r) (\<lambda>kept. Inr (keep_one (elem t) (payload t) kept)))
      | MAP \<Rightarrow>
          and_then (at_child p ''key'') (\<lambda>key_found. and_then (at_child p ''value'') (\<lambda>value_found.
            if isset_type (elem t) then Inl (runtime_error ''expected a map item, but found a single value'')
            else if \<not> isset_converted_type (elem t) \<or> elem_converted_type (elem t) \<noteq> CONVERTED_MAP
              \<and> elem_converted_type (elem t) \<noteq> CONVERTED_MAP_KEY_VALUE then
              Inl (runtime_error ''expected a map type, but it was not found.'')
            else case subtrees t of
              [r] \<Rightarrow>
                if \<not> is_repeated (elem r) then Inl (runtime_error ''found non repeating map child'')
                else (case subtrees r of
                    [k] \<Rightarrow>
                      and_then (prune loc ignore_case key_found k) (\<lambda>kept.
                        Inr (keep_one (elem t) (payload t) (keep_one (elem r) (payload r) kept)))
                  | [k, v] \<Rightarrow>
                      and_then (prune loc ignore_case key_found k) (\<lambda>ks.
                      and_then (prune loc ignore_case value_found v) (\<lambda>vs.
                        Inr (keep_one (elem t) (payload t) [Node (with_children 2 (elem r)) (payload r) (ks @ vs)])))
                  | _ \<Rightarrow> Inl (runtime_error ''found map with wrong number of children''))
            | _ \<Rightarrow> Inl (runtime_error ''the structure of the outer map group is not standard'')))
      | UNEXPECTED n \<Rightarrow> Inl (unexpected_tag n))"
| "prune_fields loc ignore_case p [] = Inr []"
| "prune_fields loc ignore_case p (t # ts) =
     and_then (get_name loc (elem t) ignore_case) (\<lambda>name.
       and_then (case om_find (children p) name of None \<Rightarrow> Inr [] | Some found \<Rightarrow> prune loc ignore_case found t) (\<lambda>kept.
         and_then (prune_fields loc ignore_case p ts) (\<lambda>rest. Inr (kept @ rest))))"
  by pat_completeness auto

termination
  by (relation "measures [\<lambda>x. case x of Inl (_, _, p, _) \<Rightarrow> size p | Inr (_, _, p, _) \<Rightarrow> size p,
      \<lambda>x. case x of Inl _ \<Rightarrow> 1 | Inr _ \<Rightarrow> 0, \<lambda>x. case x of Inl _ \<Rightarrow> 0 | Inr (_, _, _, ts) \<Rightarrow> length ts]")
    (auto simp: size_child at_child_size)

declare prune.simps [simp del]

text \<open>The walk from one state to another reads elements and columns, and emits others.\<close>

definition gathers :: "schema_element list \<Rightarrow> nat list \<Rightarrow> int list \<Rightarrow> schema_element list \<Rightarrow> bool" where
  "gathers sch ms ns es \<longleftrightarrow> length ms = length ns \<and> (\<forall>i\<in>set ms. i < length sch) \<and>
     es = map2 (\<lambda>i n. with_children n (sch ! i)) ms ns"

definition moves :: "schema_element list \<Rightarrow> 'c list \<Rightarrow> filter_state \<Rightarrow> filter_state
    \<Rightarrow> schema_element list \<Rightarrow> 'c list \<Rightarrow> schema_element list \<Rightarrow> 'c list \<Rightarrow> bool" where
  "moves sch chunks s s' es cs es' cs' \<longleftrightarrow>
     current_input_schema_index s' = current_input_schema_index s + length es
     \<and> next_input_chunk_index s' = next_input_chunk_index s + length cs
     \<and> (\<exists>ms ns ks. schema_map s' = schema_map s @ ms \<and> schema_num_children s' = schema_num_children s @ ns
          \<and> chunk_map s' = chunk_map s @ ks \<and> gathers sch ms ns es'
          \<and> (\<forall>k\<in>set ks. k < length chunks) \<and> cs' = map ((!) chunks) ks)"

definition stands_at :: "schema_element list \<Rightarrow> 'c list \<Rightarrow> filter_state \<Rightarrow> schema_element list \<Rightarrow> 'c list \<Rightarrow> bool" where
  "stands_at sch chunks s es cs \<longleftrightarrow>
     (\<exists>es' cs'. drop (current_input_schema_index s) sch = es @ es' \<and> drop (next_input_chunk_index s) chunks = cs @ cs')"

lemma moves_refl: "moves sch chunks s s [] [] [] []"
  by (simp add: moves_def gathers_def)

lemma moves_trans:
  assumes "moves sch chunks s s' es cs es' cs'" "moves sch chunks s' s'' fs ds fs' ds'"
  shows "moves sch chunks s s'' (es @ fs) (cs @ ds) (es' @ fs') (cs' @ ds')"
proof -
  obtain ms ns ks where 1: "schema_map s' = schema_map s @ ms" "schema_num_children s' = schema_num_children s @ ns"
    "chunk_map s' = chunk_map s @ ks" "gathers sch ms ns es'" "\<forall>k\<in>set ks. k < length chunks" "cs' = map ((!) chunks) ks"
    using assms(1) by (auto simp: moves_def)
  obtain ms' ns' ks' where 2: "schema_map s'' = schema_map s' @ ms'" "schema_num_children s'' = schema_num_children s' @ ns'"
    "chunk_map s'' = chunk_map s' @ ks'" "gathers sch ms' ns' fs'" "\<forall>k\<in>set ks'. k < length chunks" "ds' = map ((!) chunks) ks'"
    using assms(2) by (auto simp: moves_def)
  have "gathers sch (ms @ ms') (ns @ ns') (es' @ fs')" using 1(4) 2(4) by (auto simp: gathers_def)
  then show ?thesis
    using assms 1 2 unfolding moves_def
    by (intro conjI exI [of _ "ms @ ms'"] exI [of _ "ns @ ns'"] exI [of _ "ks @ ks'"]) auto
qed

lemma stands_at_weaken: "stands_at sch chunks s (es @ fs) (cs @ ds) \<Longrightarrow> stands_at sch chunks s es cs"
  by (auto simp: stands_at_def)

lemma stands_at_moves:
  assumes "stands_at sch chunks s (es @ fs) (cs @ ds)" "moves sch chunks s s' es cs es' cs'"
  shows "stands_at sch chunks s' fs ds"
proof -
  have "drop (length es) (drop i xs) = fs @ r" if "drop i xs = (es @ fs) @ r" for i r and xs :: "schema_element list"
    using that by simp
  moreover have "drop (length cs) (drop i xs) = ds @ r" if "drop i xs = (cs @ ds) @ r" for i r and xs :: "'a list"
    using that by simp
  ultimately show ?thesis using assms unfolding stands_at_def moves_def
    by (metis (no_types, lifting) add.commute drop_drop)
qed

lemma stands_at_Cons:
  assumes "stands_at sch chunks s (e # es) cs"
  shows "schema_at sch s = Inr e" "current_input_schema_index s < length sch"
    "sch ! current_input_schema_index s = e"
proof -
  obtain es' where d: "drop (current_input_schema_index s) sch = e # es'" using assms by (auto simp: stands_at_def)
  show i: "current_input_schema_index s < length sch" using d by (metis drop_all list.distinct(1) not_le_imp_less)
  show "sch ! current_input_schema_index s = e" using d i by (metis Cons_nth_drop_Suc list.inject)
  then show "schema_at sch s = Inr e" using i by (simp add: schema_at_def)
qed

lemma moves_push:
  assumes "stands_at sch chunks s (e # es) cs"
  shows "moves sch chunks s (push_element n s) [e] [] [with_children n e] []"
  unfolding moves_def push_element_def using stands_at_Cons [OF assms] by (simp add: gathers_def)


abbreviation flats :: "'c schema_tree list \<Rightarrow> schema_element list" where
  "flats ts \<equiv> concat (map flatten ts)"

abbreviation columns_of :: "'c schema_tree list \<Rightarrow> 'c list" where
  "columns_of ts \<equiv> concat (map leaf_payloads ts)"

lemma flatten_not_Nil [simp]: "flatten t \<noteq> []"
  by (cases t) simp

lemma flatten_elem: "flatten t = elem t # flats (subtrees t)"
  by (cases t) simp

lemma leaves_elem: "leaf_payloads t = (if isset_type (elem t) then [payload t] else []) @ columns_of (subtrees t)"
  by (cases t) simp

lemma wf_treeD:
  assumes "wf_tree t"
  shows "get_num_children (elem t) = int (length (subtrees t))" "isset_type (elem t) \<Longrightarrow> subtrees t = []"
    "u \<in> set (subtrees t) \<Longrightarrow> wf_tree u"
  using assms by (cases t; auto simp: list_all_iff)+

lemma stands_at_tree:
  assumes "stands_at sch chunks s (flatten t) cs"
  shows "schema_at sch s = Inr (elem t)" "current_input_schema_index s < length sch"
    "sch ! current_input_schema_index s = elem t"
  using stands_at_Cons [of sch chunks s "elem t" "flats (subtrees t)" cs] assms by (simp_all add: flatten_elem)

section \<open>Skipping\<close>

definition advance_over :: "schema_element list \<Rightarrow> 'c list \<Rightarrow> filter_state \<Rightarrow> filter_state" where
  "advance_over es cs s =
     s\<lparr>next_input_chunk_index := next_input_chunk_index s + length cs,
       current_input_schema_index := current_input_schema_index s + length es\<rparr>"

lemma advance_over_append [simp]:
  "advance_over fs ds (advance_over es cs s) = advance_over (es @ fs) (cs @ ds) s"
  by (simp add: advance_over_def)

lemma skip_items_step:
  "0 \<le> n \<Longrightarrow> skip_items (e # rest) (n + 1) s =
     skip_items rest (n + get_num_children e) (advance_over [e] (if isset_type e then [c] else []) s)"
  by (simp add: advance_over_def add.commute)

lemma skip_items_trees:
  assumes "\<And>t. t \<in> set ts \<Longrightarrow> wf_tree t \<and> (\<forall>rest n s. 0 \<le> n \<longrightarrow>
      skip_items (flatten t @ rest) (n + 1) s = skip_items rest n (advance_over (flatten t) (leaf_payloads t) s))"
    and "0 \<le> n"
  shows "skip_items (flats ts @ rest) (n + int (length ts)) s = skip_items rest n (advance_over (flats ts) (columns_of ts) s)"
  using assms
proof (induction ts arbitrary: s)
  case Nil
  then show ?case by (simp add: advance_over_def)
next
  case (Cons t ts)
  have h: "skip_items (flatten t @ rest') (m + 1) s = skip_items rest' m (advance_over (flatten t) (leaf_payloads t) s)"
    if "0 \<le> m" for m rest'
    using Cons.prems(1) [of t] that by simp
  have "skip_items (flats (t # ts) @ rest) (n + int (length (t # ts))) s
    = skip_items (flats ts @ rest) (n + int (length ts)) (advance_over (flatten t) (leaf_payloads t) s)"
    using h [of "n + int (length ts)" "flats ts @ rest"] Cons.prems(2) by (simp add: algebra_simps)
  then show ?case using Cons.IH [OF Cons.prems] by simp
qed

lemma skip_items_tree:
  "wf_tree t \<Longrightarrow> 0 \<le> n \<Longrightarrow>
     skip_items (flatten t @ rest) (n + 1) s = skip_items rest n (advance_over (flatten t) (leaf_payloads t) s)"
proof (induction t arbitrary: n rest s)
  case (Node e c ts)
  have wf: "get_num_children e = int (length ts)" "\<forall>t\<in>set ts. wf_tree t" using Node.prems by (auto simp: list_all_iff)
  have "skip_items (flatten (Node e c ts) @ rest) (n + 1) s
    = skip_items (flats ts @ rest) (n + int (length ts)) (advance_over [e] (if isset_type e then [c] else []) s)"
    using skip_items_step [OF Node.prems(2), of e "flats ts @ rest" s c] wf(1) by simp
  also have "\<dots> = skip_items rest n (advance_over (flats ts) (columns_of ts) (advance_over [e] (if isset_type e then [c] else []) s))"
    using Node.IH wf(2) Node.prems(2) by (intro skip_items_trees) auto
  finally show ?case by simp
qed

lemma moves_skip:
  assumes "stands_at sch chunks s (flatten t) (leaf_payloads t)" "wf_tree t"
  shows "moves sch chunks s (skip sch s) (flatten t) (leaf_payloads t) [] []"
proof -
  obtain rest where "drop (current_input_schema_index s) sch = flatten t @ rest"
    using assms(1) by (auto simp: stands_at_def)
  moreover have "skip_items rest 0 s' = s'" for s' by (cases rest) auto
  ultimately have "skip sch s = advance_over (flatten t) (leaf_payloads t) s"
    using skip_items_tree [OF assms(2), of 0 rest s] by (simp add: skip_def)
  then show ?thesis by (simp add: moves_def advance_over_def gathers_def)
qed

section \<open>The walk implements the reference\<close>

lemma prune_at_most_one: "prune loc ignore_case p t = Inr out \<Longrightarrow> length out \<le> 1"
proof (induction "size p" arbitrary: p t out rule: less_induct)
  case less
  have "prune loc ignore_case found t = Inr x \<Longrightarrow> at_child p k = Inr found \<Longrightarrow> length x \<le> 1" for found k x
    using less.hyps at_child_size by blast
  with less.prems [unfolded prune.simps [of loc ignore_case p t]] show ?case
    by (auto simp: prune_leaf_def keep_one_def dest!: and_then_InrD split: Tag.splits if_splits list.splits)
qed

definition implements :: "schema_element list \<Rightarrow> 'c list \<Rightarrow> filter_state \<Rightarrow> 'c schema_tree
    \<Rightarrow> failure + filter_state \<Rightarrow> failure + 'c schema_tree list \<Rightarrow> bool" where
  "implements sch chunks s t m r \<longleftrightarrow>
     (case r of
        Inl e \<Rightarrow> m = Inl e
      | Inr out \<Rightarrow> \<exists>s'. m = Inr s' \<and> moves sch chunks s s' (flatten t) (leaf_payloads t) (flats out) (columns_of out))"

lemma implements_Inl [simp]: "implements sch chunks s t m (Inl e) \<longleftrightarrow> m = Inl e"
  by (simp add: implements_def)

lemma implements_value:
  assumes "stands_at sch chunks s (flatten t) (leaf_payloads t)" "wf_tree t"
  shows "implements sch chunks s t (filter_schema_value sch s) (prune_leaf t)"
proof -
  note a = stands_at_tree [OF assms(1)]
  note n = wf_treeD(1) [OF assms(2)]
  show ?thesis
  proof (cases "isset_type (elem t)")
    case True
    then have u: "subtrees t = []" by (rule wf_treeD(2) [OF assms(2)])
    have l: "leaf_payloads t = [payload t]" "flatten t = [elem t]" using True u by (simp_all add: leaves_elem flatten_elem)
    then obtain cs where d: "drop (next_input_chunk_index s) chunks = payload t # cs"
      using assms(1) by (auto simp: stands_at_def)
    have c: "next_input_chunk_index s < length chunks" by (rule ccontr) (use d in simp)
    have v: "chunks ! next_input_chunk_index s = payload t" using d by (rule nth_via_drop)
    show ?thesis
      using True u c v l n
      by (simp add: filter_schema_value_def a prune_leaf_def implements_def moves_def push_element_def gathers_def with_children_def)
  qed (simp add: filter_schema_value_def a prune_leaf_def)
qed


lemma moves_push_tree:
  assumes "stands_at sch chunks s (flatten t) (leaf_payloads t)" "\<not> isset_type (elem t)"
  shows "moves sch chunks s (push_element n s) [elem t] [] [with_children n (elem t)] []"
    "stands_at sch chunks (push_element n s) (flats (subtrees t)) (columns_of (subtrees t))"
proof -
  have s: "stands_at sch chunks s ([elem t] @ flats (subtrees t)) ([] @ columns_of (subtrees t))"
    using assms by (simp add: flatten_elem leaves_elem)
  then show m: "moves sch chunks s (push_element n s) [elem t] [] [with_children n (elem t)] []"
    by (intro moves_push) simp
  show "stands_at sch chunks (push_element n s) (flats (subtrees t)) (columns_of (subtrees t))"
    using stands_at_moves [OF s m] .
qed

lemma implements_moves:
  assumes "moves sch chunks s s' es cs es' cs'" "implements sch chunks s' r m x"
    "flatten t = es @ flatten r" "leaf_payloads t = cs @ leaf_payloads r"
    "\<And>kept. flats (f kept) = es' @ flats kept \<and> columns_of (f kept) = cs' @ columns_of kept"
  shows "implements sch chunks s t m (and_then x (\<lambda>kept. Inr (f kept)))"
proof (cases x)
  case (Inr kept)
  then obtain s'' where "m = Inr s''" "moves sch chunks s' s'' (flatten r) (leaf_payloads r) (flats kept) (columns_of kept)"
    using assms(2) by (auto simp: implements_def)
  with moves_trans [OF assms(1) this(2)] show ?thesis using assms(3-5) Inr by (simp add: implements_def)
qed (use assms(2) in simp)

lemma with_children_simps [simp]:
  "isset_type (with_children n e) = isset_type e" "elem_name (with_children n e) = elem_name e"
  by (simp_all add: with_children_def)

lemma implements_wrap:
  assumes "stands_at sch chunks s (flatten t) (leaf_payloads t)" "\<not> isset_type (elem t)" "subtrees t = [r]"
    "implements sch chunks (push_element 1 s) r m x"
  shows "implements sch chunks s t m (and_then x (\<lambda>kept. Inr (keep_one (elem t) (payload t) kept)))"
  using assms(2-3)
  by (intro implements_moves [OF moves_push_tree(1) [OF assms(1,2)] assms(4)])
    (simp_all add: flatten_elem leaves_elem keep_one_def)

lemma implements_pair:
  assumes "stands_at sch chunks s (flatten r) (leaf_payloads r)" "\<not> isset_type (elem r)" "subtrees r = [k, v]"
    "implements sch chunks (push_element 2 s) k m x"
    "\<And>s'. stands_at sch chunks s' (flatten v) (leaf_payloads v) \<Longrightarrow> implements sch chunks s' v (f s') y"
  shows "implements sch chunks s r (and_then m f)
    (and_then x (\<lambda>ks. and_then y (\<lambda>vs. Inr [Node (with_children 2 (elem r)) (payload r) (ks @ vs)])))"
proof (cases x)
  case (Inr ks)
  obtain s1 where s1: "m = Inr s1"
    "moves sch chunks (push_element 2 s) s1 (flatten k) (leaf_payloads k) (flats ks) (columns_of ks)"
    using assms(4) Inr by (auto simp: implements_def)
  have "stands_at sch chunks (push_element 2 s) (flatten k @ flatten v) (leaf_payloads k @ leaf_payloads v)"
    using moves_push_tree(2) [OF assms(1,2)] assms(3) by simp
  from stands_at_moves [OF this s1(2)] have v: "implements sch chunks s1 v (f s1) y" by (rule assms(5))
  note m = moves_trans [OF moves_push_tree(1) [OF assms(1,2)] s1(2)]
  show ?thesis
    using implements_moves [OF m v, of r "\<lambda>vs. [Node (with_children 2 (elem r)) (payload r) (ks @ vs)]"] assms(2,3) s1(1) Inr
    by (simp add: flatten_elem [of r] leaves_elem [of r])
qed (use assms(4) in simp)

text \<open>What the walk computes for a pruner, at every place of the schema.\<close>

definition implemented :: "c_locale \<Rightarrow> bool \<Rightarrow> schema_element list \<Rightarrow> 'c list \<Rightarrow> column_pruner \<Rightarrow> bool" where
  "implemented loc ignore_case sch chunks p \<longleftrightarrow>
     (\<forall>t s. wf_tree t \<longrightarrow> stands_at sch chunks s (flatten t) (leaf_payloads t)
        \<longrightarrow> implements sch chunks s t (filter_schema loc sch ignore_case p s) (prune loc ignore_case p t))"

lemma implementedD:
  "implemented loc ignore_case sch chunks p \<Longrightarrow> stands_at sch chunks s (flatten t) (leaf_payloads t) \<Longrightarrow> wf_tree t
    \<Longrightarrow> implements sch chunks s t (filter_schema loc sch ignore_case p s) (prune loc ignore_case p t)"
  by (simp add: implemented_def)

lemma implements_list:
  assumes "stands_at sch chunks s (flatten t) (leaf_payloads t)" "wf_tree t" "tag p = LIST"
    "\<And>q k. at_child p k = Inr q \<Longrightarrow> implemented loc ignore_case sch chunks q"
  shows "implements sch chunks s t (filter_schema_list loc sch ignore_case p s) (prune loc ignore_case p t)"
proof (cases "at_child p ''element''")
  case (Inl e)
  then show ?thesis using assms(3) by (simp add: filter_schema_list.simps prune.simps [of _ _ p])
next
  case (Inr found)
  note fs = filter_schema_list.simps [of loc sch ignore_case p s, unfolded Inr and_then_simps stands_at_tree(1) [OF assms(1)] Let_def]
  note found = implementedD [OF assms(4) [OF Inr]]
  note n = wf_treeD(1) [OF assms(2)]
  show ?thesis
  proof (cases "isset_type (elem t) \<or> length (subtrees t) \<noteq> 1")
    case True
    then show ?thesis
      using implements_value [OF assms(1,2)] found [OF assms(1,2)] n assms(3) Inr
      by (auto simp: fs prune.simps [of _ _ p t] split: list.split)
  next
    case False
    then obtain r where r: "subtrees t = [r]" "\<not> isset_type (elem t)" by (auto simp: length_Suc_conv)
    have wr: "wf_tree r" using wf_treeD(3) [OF assms(2)] r(1) by simp
    have sr: "stands_at sch chunks (push_element 1 s) (flatten r) (leaf_payloads r)"
      using moves_push_tree(2) [OF assms(1) r(2), of 1] r(1) by simp
    note at = stands_at_tree(1) [OF sr]
    show ?thesis
    proof (cases "\<not> isset_type (elem r) \<and> length (subtrees r) = 1")
      case True
      then obtain u where u: "subtrees r = [u]" by (auto simp: length_Suc_conv)
      have wu: "wf_tree u" using wf_treeD(3) [OF wr] u by simp
      have su: "stands_at sch chunks (push_element 1 (push_element 1 s)) (flatten u) (leaf_payloads u)"
        using moves_push_tree(2) [OF sr, of 1] u True by simp
      have "implements sch chunks s t (filter_schema loc sch ignore_case found (push_element 1 (push_element 1 s)))
        (and_then (and_then (prune loc ignore_case found u) (\<lambda>kept. Inr (keep_one (elem r) (payload r) kept)))
          (\<lambda>kept. Inr (keep_one (elem t) (payload t) kept)))"
        by (intro implements_wrap [OF assms(1) r(2,1)] implements_wrap [OF sr _ u] found su wu) (use True in simp)
      moreover have "implements sch chunks s t (filter_schema loc sch ignore_case found (push_element 1 s))
        (and_then (prune loc ignore_case found r) (\<lambda>kept. Inr (keep_one (elem t) (payload t) kept)))"
        by (intro implements_wrap [OF assms(1) r(2,1)] found sr wr)
      ultimately show ?thesis
        using n r u True assms(3) Inr wf_treeD(1) [OF wr] by (simp add: fs at prune.simps [of _ _ p t])
    next
      case False
      have "implements sch chunks s t (filter_schema loc sch ignore_case found (push_element 1 s))
        (and_then (prune loc ignore_case found r) (\<lambda>kept. Inr (keep_one (elem t) (payload t) kept)))"
        by (intro implements_wrap [OF assms(1) r(2,1)] found sr wr)
      with False show ?thesis
        using n r assms(3) Inr wf_treeD(1) [OF wr] by (auto simp: fs at prune.simps [of _ _ p t])
    qed
  qed
qed


lemma implements_map:
  assumes "stands_at sch chunks s (flatten t) (leaf_payloads t)" "wf_tree t" "tag p = MAP"
    "\<And>q k. at_child p k = Inr q \<Longrightarrow> implemented loc ignore_case sch chunks q"
  shows "implements sch chunks s t (filter_schema_map loc sch ignore_case p s) (prune loc ignore_case p t)"
proof (cases "\<exists>kq vq. at_child p ''key'' = Inr kq \<and> at_child p ''value'' = Inr vq")
  case False
  then show ?thesis using assms(3)
    by (cases "at_child p ''key''"; cases "at_child p ''value''") (simp_all add: filter_schema_map.simps prune.simps [of _ _ p])
next
  case True
  then obtain kq vq where q: "at_child p ''key'' = Inr kq" "at_child p ''value'' = Inr vq" by blast
  note fs = filter_schema_map.simps [of loc sch ignore_case p s, unfolded q and_then_simps stands_at_tree(1) [OF assms(1)] Let_def]
  note key = implementedD [OF assms(4) [OF q(1)]] and val = implementedD [OF assms(4) [OF q(2)]]
  note n = wf_treeD(1) [OF assms(2)]
  show ?thesis
  proof (cases "isset_type (elem t) \<or> length (subtrees t) \<noteq> 1 \<or> \<not> is_repeated (elem (hd (subtrees t)))")
    case True
    show ?thesis
    proof (cases "isset_type (elem t) \<or> length (subtrees t) \<noteq> 1")
      case True
      then show ?thesis using n assms(3) q by (auto simp: fs prune.simps [of _ _ p t] split: list.split)
    next
      case False
      then obtain r where r: "subtrees t = [r]" "\<not> isset_type (elem t)" by (auto simp: length_Suc_conv)
      have sr: "stands_at sch chunks (push_element 1 s) (flatten r) (leaf_payloads r)"
        using moves_push_tree(2) [OF assms(1) r(2), of 1] r(1) by simp
      show ?thesis using True n r assms(3) q by (simp add: fs prune.simps [of _ _ p t] stands_at_tree(1) [OF sr])
    qed
  next
    case False
    then obtain r where r: "subtrees t = [r]" "\<not> isset_type (elem t)" and rep: "is_repeated (elem r)"
      by (auto simp: length_Suc_conv)
    have wr: "wf_tree r" using wf_treeD(3) [OF assms(2)] r(1) by simp
    have sr: "stands_at sch chunks (push_element 1 s) (flatten r) (leaf_payloads r)"
      using moves_push_tree(2) [OF assms(1) r(2), of 1] r(1) by simp
    note at = stands_at_tree(1) [OF sr]
    note nr = wf_treeD(1) [OF wr]
    have g: "\<not> isset_type (elem r)" if "subtrees r \<noteq> []" using wf_treeD(2) [OF wr] that by blast
    consider (one) k where "subtrees r = [k]" | (two) k v where "subtrees r = [k, v]"
      | (none) "subtrees r = []" | (more) k v w us where "subtrees r = k # v # w # us"
      by (metis list.exhaust)
    then show ?thesis
    proof cases
      case one
      have sk: "stands_at sch chunks (push_element 1 (push_element 1 s)) (flatten k) (leaf_payloads k)"
        using moves_push_tree(2) [OF sr g, of 1] one by simp
      have "implements sch chunks s t (filter_schema loc sch ignore_case kq (push_element 1 (push_element 1 s)))
        (and_then (and_then (prune loc ignore_case kq k) (\<lambda>kept. Inr (keep_one (elem r) (payload r) kept)))
          (\<lambda>kept. Inr (keep_one (elem t) (payload t) kept)))"
        using g one wf_treeD(3) [OF wr]
        by (intro implements_wrap [OF assms(1) r(2,1)] implements_wrap [OF sr _ one] key sk) simp_all
      moreover have "and_then m (\<lambda>s. Inr s) = m" for m :: "failure + filter_state" by (cases m) auto
      ultimately show ?thesis using n r nr one rep assms(3) q
        by (simp add: fs at prune.simps [of _ _ p t] Let_def)
    next
      case two
      have "stands_at sch chunks (push_element 2 (push_element 1 s)) (flatten k @ flatten v) (leaf_payloads k @ leaf_payloads v)"
        using moves_push_tree(2) [OF sr g, of 2] two by simp
      then have sk: "stands_at sch chunks (push_element 2 (push_element 1 s)) (flatten k) (leaf_payloads k)"
        by (rule stands_at_weaken)
      have "implements sch chunks s t
        (and_then (filter_schema loc sch ignore_case kq (push_element 2 (push_element 1 s))) (filter_schema loc sch ignore_case vq))
        (and_then (and_then (prune loc ignore_case kq k) (\<lambda>ks. and_then (prune loc ignore_case vq v)
            (\<lambda>vs. Inr [Node (with_children 2 (elem r)) (payload r) (ks @ vs)])))
          (\<lambda>kept. Inr (keep_one (elem t) (payload t) kept)))"
        using g two wf_treeD(3) [OF wr]
        by (intro implements_wrap [OF assms(1) r(2,1)] implements_pair [OF sr _ two] key val sk) simp_all
      then show ?thesis using n r nr two rep assms(3) q
        by (simp add: fs at prune.simps [of _ _ p t] Let_def)
    next
      case none
      then show ?thesis using n r nr rep assms(3) q by (simp add: fs at prune.simps [of _ _ p t])
    next
      case more
      then show ?thesis using n r nr rep assms(3) q by (simp add: fs at prune.simps [of _ _ p t])
    qed
  qed
qed


text \<open>The number of children of a struct, at its position in the map, grows with each child that is kept.\<close>

definition bump :: "nat \<Rightarrow> nat \<Rightarrow> filter_state \<Rightarrow> filter_state" where
  "bump pos k s = s\<lparr>schema_num_children := (schema_num_children s)[pos := schema_num_children s ! pos + int k]\<rparr>"

lemma bump_simps [simp]:
  "current_input_schema_index (bump pos k s) = current_input_schema_index s"
  "next_input_chunk_index (bump pos k s) = next_input_chunk_index s"
  "schema_map (bump pos k s) = schema_map s" "chunk_map (bump pos k s) = chunk_map s"
  "schema_num_children (bump pos k s) = (schema_num_children s)[pos := schema_num_children s ! pos + int k]"
  "stands_at sch chunks (bump pos k s) es cs = stands_at sch chunks s es cs"
  by (simp_all add: bump_def stands_at_def)

lemma bump_0: "bump pos 0 s = s"
  by (simp add: bump_def)

lemma bump_bump: "pos < length (schema_num_children s) \<Longrightarrow> bump pos j (bump pos k s) = bump pos (k + j) s"
  by (simp add: bump_def algebra_simps)

lemma moves_bump:
  assumes "moves sch chunks (bump pos k s) s2 es cs es' cs'" "pos < length (schema_num_children s)"
  shows "\<exists>s2'. moves sch chunks s s2' es cs es' cs' \<and> s2 = bump pos k s2'"
proof -
  obtain ns where "schema_num_children s2 = schema_num_children (bump pos k s) @ ns" using assms(1) by (auto simp: moves_def)
  then have "s2 = bump pos k (s2\<lparr>schema_num_children := schema_num_children s @ ns\<rparr>)"
    using assms(2) by (simp add: bump_def nth_append list_update_append1)
  moreover have "moves sch chunks s (s2\<lparr>schema_num_children := schema_num_children s @ ns\<rparr>) es cs es' cs'"
    using assms(1) \<open>schema_num_children s2 = _\<close> by (auto simp: moves_def)
  ultimately show ?thesis by blast
qed

lemma moves_length:
  assumes "moves sch chunks s s' es cs es' cs'"
  shows "length (schema_map s') = length (schema_map s) + length es'"
    "length (schema_num_children s) \<le> length (schema_num_children s')"
  using assms by (auto simp: moves_def gathers_def)

lemma struct_children_fields:
  assumes "\<forall>k q. om_find (children p) k = Some q \<longrightarrow> implemented loc ignore_case sch chunks q"
    and "\<forall>t\<in>set ts. wf_tree t" "stands_at sch chunks s (flats ts) (columns_of ts)" "pos < length (schema_num_children s)"
  shows "case prune_fields loc ignore_case p ts of
      Inl e \<Rightarrow> struct_children loc sch ignore_case p pos (length ts) m s = Inl e
    | Inr kept \<Rightarrow> \<exists>s'. struct_children loc sch ignore_case p pos (length ts) m s = Inr (m + length kept, bump pos (length kept) s')
        \<and> moves sch chunks s s' (flats ts) (columns_of ts) (flats kept) (columns_of kept)"
  using assms(2-4)
proof (induction ts arbitrary: s m)
  case Nil
  show ?case using moves_refl [of sch chunks s] by (auto simp: struct_children.simps bump_0 intro!: exI [of _ s])
next
  case (Cons t ts)
  have s0: "stands_at sch chunks s (flatten t @ flats ts) (leaf_payloads t @ columns_of ts)" using Cons.prems(2) by simp
  note st = stands_at_weaken [OF s0]
  note at = stands_at_tree [OF st]
  show ?case
  proof (cases "get_name loc (elem t) ignore_case")
    case (Inl e)
    then show ?thesis using at by (simp add: struct_children.simps [of _ _ _ _ _ "Suc _"])
  next
    case (Inr name)
    note sc = struct_children.simps [of loc sch ignore_case p pos "length (t # ts)" m s]
    define first where "first = (case om_find (children p) name of None \<Rightarrow> Inr [] | Some found \<Rightarrow> prune loc ignore_case found t)"
    have rest: "case and_then (prune_fields loc ignore_case p ts) (\<lambda>rest. Inr (kept @ rest)) of
          Inl e \<Rightarrow> struct_children loc sch ignore_case p pos (length ts) (m + length kept) (bump pos (length kept) s1) = Inl e
        | Inr kept' \<Rightarrow> \<exists>s'. struct_children loc sch ignore_case p pos (length ts) (m + length kept) (bump pos (length kept) s1)
              = Inr (m + length kept', bump pos (length kept') s')
            \<and> moves sch chunks s s' (flats (t # ts)) (columns_of (t # ts)) (flats kept') (columns_of kept')"
      if m: "moves sch chunks s s1 (flatten t) (leaf_payloads t) (flats kept) (columns_of kept)" for s1 kept
    proof -
      have l: "pos < length (schema_num_children s1)" using moves_length(2) [OF m] Cons.prems(3) by simp
      have "stands_at sch chunks (bump pos (length kept) s1) (flats ts) (columns_of ts)" using stands_at_moves [OF s0 m] by simp
      note ih = Cons.IH [OF _ this, of "m + length kept"]
      show ?thesis
      proof (cases "prune_fields loc ignore_case p ts")
        case (Inr kept')
        obtain s2 where s2: "struct_children loc sch ignore_case p pos (length ts) (m + length kept) (bump pos (length kept) s1)
            = Inr (m + length kept + length kept', bump pos (length kept') s2)"
          "moves sch chunks (bump pos (length kept) s1) s2 (flats ts) (columns_of ts) (flats kept') (columns_of kept')"
          using ih Inr Cons.prems(1) l by auto
        obtain s3 where s3: "moves sch chunks s1 s3 (flats ts) (columns_of ts) (flats kept') (columns_of kept')"
          "s2 = bump pos (length kept) s3" using moves_bump [OF s2(2) l] by blast
        have "pos < length (schema_num_children s3)" using moves_length(2) [OF s3(1)] l by simp
        then have "bump pos (length kept') s2 = bump pos (length (kept @ kept')) s3"
          using s3(2) by (simp add: bump_bump)
        then show ?thesis using s2(1) moves_trans [OF m s3(1)] Inr by (auto simp: add.assoc)
      qed (use ih Cons.prems(1) l in simp)
    qed
    show ?thesis
    proof (cases "om_find (children p) name")
      case None
      have "moves sch chunks s (skip sch s) (flatten t) (leaf_payloads t) (flats []) (columns_of [])"
        using moves_skip [OF st] Cons.prems(1) by simp
      from rest [OF this] show ?thesis using None Inr at sc
        by (cases "prune_fields loc ignore_case p ts") (auto simp: bump_0)
    next
      case (Some found)
      have im: "implements sch chunks s t (filter_schema loc sch ignore_case found s) (prune loc ignore_case found t)"
        using implementedD [OF assms(1) [rule_format, OF Some] st] Cons.prems(1) by simp
      show ?thesis
      proof (cases "prune loc ignore_case found t")
        case (Inr kept)
        obtain s1 where s1: "filter_schema loc sch ignore_case found s = Inr s1"
          "moves sch chunks s s1 (flatten t) (leaf_payloads t) (flats kept) (columns_of kept)"
          using im Inr by (auto simp: implements_def)
        have "length kept \<le> 1" using prune_at_most_one [OF Inr] .
        then consider "kept = []" | u where "kept = [u]" by (cases kept) auto
        then show ?thesis
        proof cases
          case 1
          then show ?thesis using rest [OF s1(2)] s1 Inr Some \<open>get_name _ _ _ = Inr name\<close> at sc moves_length(1) [OF s1(2)]
            by (cases "prune_fields loc ignore_case p ts") (auto simp: bump_0)
        next
          case 2
          have "length (schema_map s1) > length (schema_map s)" using moves_length(1) [OF s1(2)] 2 by simp
          then show ?thesis using rest [OF s1(2)] s1 Inr Some \<open>get_name _ _ _ = Inr name\<close> at sc 2
            by (cases "prune_fields loc ignore_case p ts") (auto simp: bump_def)
        qed
      qed (use im Some \<open>get_name _ _ _ = Inr name\<close> at sc in simp)
    qed
  qed
qed


lemma implements_struct:
  assumes "stands_at sch chunks s (flatten t) (leaf_payloads t)" "wf_tree t" "tag p = STRUCT"
    "\<forall>k q. om_find (children p) k = Some q \<longrightarrow> implemented loc ignore_case sch chunks q"
  shows "implements sch chunks s t (filter_schema_struct loc sch ignore_case p s) (prune loc ignore_case p t)"
proof (cases "isset_type (elem t)")
  case True
  then show ?thesis using assms(3)
    by (simp add: filter_schema_struct.simps stands_at_tree [OF assms(1)] prune.simps [of _ _ p])
next
  case False
  let ?pos = "length (schema_num_children s)"
  note n = wf_treeD(1) [OF assms(2)] and push = moves_push_tree [OF assms(1) False, of 0]
  have "?pos < length (schema_num_children (push_element 0 s))" by (simp add: push_element_def)
  note fields = struct_children_fields [where m = 0 and p = p, OF assms(4) _ push(2) this]
  show ?thesis
  proof (cases "prune_fields loc ignore_case p (subtrees t)")
    case (Inl e)
    then show ?thesis using fields wf_treeD(3) [OF assms(2)] False n assms(3)
      by (simp add: filter_schema_struct.simps stands_at_tree [OF assms(1)] prune.simps [of _ _ p])
  next
    case (Inr kept)
    obtain s' where s': "struct_children loc sch ignore_case p ?pos (length (subtrees t)) 0 (push_element 0 s)
        = Inr (length kept, bump ?pos (length kept) s')"
      "moves sch chunks (push_element 0 s) s' (flats (subtrees t)) (columns_of (subtrees t)) (flats kept) (columns_of kept)"
      using fields wf_treeD(3) [OF assms(2)] Inr by auto
    obtain ms ns ks where k: "schema_map s' = schema_map s @ current_input_schema_index s # ms"
      "schema_num_children s' = schema_num_children s @ 0 # ns" "chunk_map s' = chunk_map s @ ks"
      "gathers sch ms ns (flats kept)" "\<forall>k\<in>set ks. k < length chunks" "columns_of kept = map ((!) chunks) ks"
      using s'(2) by (auto simp: moves_def push_element_def)
    have i: "current_input_schema_index s' = current_input_schema_index s + length (flatten t)"
      "next_input_chunk_index s' = next_input_chunk_index s + length (leaf_payloads t)"
      using s'(2) False by (simp_all add: moves_def push_element_def flatten_elem leaves_elem)
    have fs: "filter_schema_struct loc sch ignore_case p s
      = Inr (if kept = [] then pop_element s' else bump ?pos (length kept) s')"
      using s'(1) False n by (simp add: filter_schema_struct.simps stands_at_tree [OF assms(1)] bump_0)
    have pr: "prune loc ignore_case p t
      = Inr (if kept = [] then [] else [Node (with_children (int (length kept)) (elem t)) (payload t) kept])"
      using Inr False assms(3) by (simp add: prune.simps [of _ _ p])
    show ?thesis
    proof (cases "kept = []")
      case True
      then have "ms = []" "ns = []" "ks = []" using k(4,6) by (cases ms; cases ns; simp add: gathers_def)+
      then show ?thesis using True i k fs pr by (simp add: implements_def moves_def pop_element_def gathers_def)
    next
      case F: False
      have "gathers sch (current_input_schema_index s # ms) (int (length kept) # ns)
        (with_children (int (length kept)) (elem t) # flats kept)"
        using k(4) stands_at_tree [OF assms(1)] by (simp add: gathers_def)
      then have "moves sch chunks s (bump ?pos (length kept) s') (flatten t) (leaf_payloads t)
        (with_children (int (length kept)) (elem t) # flats kept) (columns_of kept)"
        unfolding moves_def
        by (intro conjI exI [of _ "current_input_schema_index s # ms"] exI [of _ "int (length kept) # ns"] exI [of _ ks])
          (simp_all add: i k)
      then show ?thesis using F False fs pr by (simp add: implements_def)
    qed
  qed
qed

lemma implemented_all: "implemented loc ignore_case sch chunks p"
proof (induction "size p" arbitrary: p rule: less_induct)
  case less
  have q: "\<forall>k q. om_find (children p) k = Some q \<longrightarrow> implemented loc ignore_case sch chunks q"
    "at_child p k = Inr q \<Longrightarrow> implemented loc ignore_case sch chunks q" for k q
    using less size_child at_child_size by blast+
  show ?case unfolding implemented_def
  proof (intro allI impI)
    fix t s
    assume t: "wf_tree t" "stands_at sch chunks s (flatten t) (leaf_payloads t)"
    show "implements sch chunks s t (filter_schema loc sch ignore_case p s) (prune loc ignore_case p t)"
    proof (cases "tag p")
      case VALUE
      then show ?thesis using implements_value [OF t(2,1)] by (simp add: filter_schema.simps prune.simps [of _ _ p])
    next
      case STRUCT
      then show ?thesis using implements_struct [OF t(2,1) STRUCT q(1)] by (simp add: filter_schema.simps)
    next
      case LIST
      then show ?thesis using implements_list [OF t(2,1) LIST q(2)] by (simp add: filter_schema.simps)
    next
      case MAP
      then show ?thesis using implements_map [OF t(2,1) MAP q(2)] by (simp add: filter_schema.simps)
    next
      case (UNEXPECTED n)
      then show ?thesis by (simp add: filter_schema.simps prune.simps [of _ _ p])
    qed
  qed
qed

end
