(* ===== verification/ParquetProps.thy ===== *)
theory ParquetProps
  imports ParquetPrune
begin

text \<open>
  What the pruning of a footer guarantees: the pruner is the tree that was flattened, every row group
  belongs to exactly one part of the file, and the footer that is left is the pruned tree.
\<close>

section \<open>The request\<close>

text \<open>The request as Spark flattens it: a tree whose fields have an order of their own.\<close>

primrec names_of :: "column_pruner \<Rightarrow> string list" where
  "names_of (Pruner cs t) = concat (map (\<lambda>(k, ns). k # ns) (map (map_prod id names_of) cs))"

primrec counts_of :: "column_pruner \<Rightarrow> int list" where
  "counts_of (Pruner cs t) = concat (map (\<lambda>(k, ns). ns) (map (map_prod id (\<lambda>c. int (length (children c)) # counts_of c)) cs))"

primrec tags_of :: "column_pruner \<Rightarrow> Tag list" where
  "tags_of (Pruner cs t) = concat (map (\<lambda>(k, ns). ns) (map (map_prod id (\<lambda>c. tag c # tags_of c)) cs))"

primrec distinct_names :: "column_pruner \<Rightarrow> bool" where
  "distinct_names (Pruner cs t) \<longleftrightarrow>
     distinct (map fst (map (map_prod id distinct_names) cs)) \<and> list_all snd (map (map_prod id distinct_names) cs)"

primrec as_map :: "column_pruner \<Rightarrow> column_pruner" where
  "as_map (Pruner cs t) = Pruner (fold (\<lambda>(k, c). om_emplace k c) (map (map_prod id as_map) cs) []) t"


lemma request_simps:
  "names_of p = concat (map (\<lambda>(k, c). k # names_of c) (children p))"
  "counts_of p = concat (map (\<lambda>(k, c). int (length (children c)) # counts_of c) (children p))"
  "tags_of p = concat (map (\<lambda>(k, c). tag c # tags_of c) (children p))"
  "distinct_names p \<longleftrightarrow> distinct (map fst (children p)) \<and> (\<forall>(k, c)\<in>set (children p). distinct_names c)"
  "as_map p = Pruner (fold (\<lambda>(k, c). om_emplace k (as_map c)) (children p) []) (tag p)"
proof -
  obtain cs t where p: "p = Pruner cs t" by (cases p)
  show "names_of p = concat (map (\<lambda>(k, c). k # names_of c) (children p))"
    "counts_of p = concat (map (\<lambda>(k, c). int (length (children c)) # counts_of c) (children p))"
    "tags_of p = concat (map (\<lambda>(k, c). tag c # tags_of c) (children p))"
    by (simp_all add: p comp_def case_prod_beta')
  show "distinct_names p \<longleftrightarrow> distinct (map fst (children p)) \<and> (\<forall>(k, c)\<in>set (children p). distinct_names c)"
    by (simp add: p comp_def case_prod_beta list_all_iff)
  show "as_map p = Pruner (fold (\<lambda>(k, c). om_emplace k (as_map c)) (children p) []) (tag p)"
    by (simp add: p fold_map comp_def case_prod_beta')
qed

declare names_of.simps [simp del] counts_of.simps [simp del] tags_of.simps [simp del]
  distinct_names.simps [simp del] as_map.simps [simp del]

fun lookup_at :: "string list \<Rightarrow> column_pruner \<Rightarrow> column_pruner option" where
  "lookup_at [] p = Some p"
| "lookup_at (k # ks) p = Option.bind (om_find (children p) k) (lookup_at ks)"

lemma om_set_set: "om_set k v (om_set k w m) = om_set k v m"
  by (induction m) (auto simp: om_set_def)

lemma om_set_fresh: "k \<notin> set (om_keys m) \<Longrightarrow> om_set k v m = m"
  by (induction m) (auto simp: om_set_def om_keys_def)

lemma om_set_emplace: "k \<notin> set (om_keys m) \<Longrightarrow> om_set k v (om_emplace k w m) = om_emplace k v m"
proof (induction m)
  case (Cons e m)
  then show ?case using om_set_fresh [of k m v]
    by (cases e) (auto simp: om_set_def om_keys_def)
qed (simp add: om_set_def)

lemma modify_at_append: "modify_at (ks @ ls) f p = modify_at ks (modify_at ls f) p"
  by (induction ks arbitrary: p) (auto split: option.split)

lemma modify_at_modify_at: "modify_at ks f (modify_at ks g p) = modify_at ks (\<lambda>q. f (g q)) p"
  by (induction ks arbitrary: p) (auto simp: om_find_set om_set_set split: option.split)

lemma modify_at_cong: "lookup_at ks p = Some q \<Longrightarrow> f q = g q \<Longrightarrow> modify_at ks f p = modify_at ks g p"
  by (induction ks arbitrary: p) (auto split: option.split bind_splits)

lemma lookup_modify_at: "lookup_at (ks @ ls) (modify_at ks f p) = Option.bind (lookup_at ks p) (\<lambda>q. lookup_at ls (f q))"
  by (induction ks arbitrary: p) (auto simp: om_find_set split: option.split bind_splits)

lemma lookup_modify: "lookup_at ks (modify_at ks f p) = map_option f (lookup_at ks p)"
  using lookup_modify_at [of ks "[]" f p] by (cases "lookup_at ks p") simp_all

section \<open>Building the pruner\<close>

definition emplace_all :: "(string \<times> column_pruner) list \<Rightarrow> column_pruner \<Rightarrow> column_pruner" where
  "emplace_all cs q = Pruner (fold (\<lambda>(k, c). om_emplace k (as_map c)) cs (children q)) (tag q)"

definition adds :: "column_pruner \<Rightarrow> bool" where
  "adds c \<longleftrightarrow> (\<forall>p ks n stack q k names counts tags.
     lookup_at ks p = Some q \<longrightarrow> om_ok (children q) \<longrightarrow> k \<notin> set (om_keys (children q)) \<longrightarrow>
     add_names_loop (k # names_of c @ names) (int (length (children c)) # counts_of c @ counts) (tag c # tags_of c @ tags) ((ks, n) # stack) p
       = add_names_loop names counts tags (go_back_up ((ks, n) # stack)) (modify_at ks (emplace_all [(k, c)]) p))"

lemma add_forest:
  assumes "\<forall>(k, c)\<in>set cs. adds c" "distinct (map fst cs)" "cs \<noteq> []"
    and "lookup_at ks p = Some q" "om_ok (children q)" "set (map fst cs) \<inter> set (om_keys (children q)) = {}"
  shows "add_names_loop (concat (map (\<lambda>(k, c). k # names_of c) cs) @ names)
      (concat (map (\<lambda>(k, c). int (length (children c)) # counts_of c) cs) @ counts)
      (concat (map (\<lambda>(k, c). tag c # tags_of c) cs) @ tags) ((ks, int (length cs)) # stack) p
    = add_names_loop names counts tags (go_back_up ((ks, 1) # stack)) (modify_at ks (emplace_all cs) p)"
  using assms
proof (induction cs arbitrary: p q)
  case (Cons x cs)
  obtain k c where x: "x = (k, c)" by fastforce
  have a: "adds c" and k: "k \<notin> set (om_keys (children q))" using Cons.prems(1,6) x by auto
  let ?p = "modify_at ks (emplace_all [(k, c)]) p"
  have l: "lookup_at ks ?p = Some (emplace_all [(k, c)] q)" using Cons.prems(4) by (simp add: lookup_modify)
  have first: "add_names_loop (k # names_of c @ ns) (int (length (children c)) # counts_of c @ ms) (tag c # tags_of c @ ts)
      ((ks, int (length (x # cs))) # stack) p = add_names_loop ns ms ts (go_back_up ((ks, int (length (x # cs))) # stack)) ?p" for ns ms ts
    using a Cons.prems(4,5) k unfolding adds_def by blast
  show ?case
  proof (cases "cs = []")
    case True
    then show ?thesis using first x by simp
  next
    case False
    have "k \<notin> set (map fst cs)" using Cons.prems(2) x by simp
    then have d: "set (map fst cs) \<inter> set (om_keys (children (emplace_all [(k, c)] q))) = {}"
      using Cons.prems(6) by (auto simp: emplace_all_def om_keys_emplace)
    have ok: "om_ok (children (emplace_all [(k, c)] q))" using Cons.prems(5) by (simp add: emplace_all_def om_ok_emplace)
    have "modify_at ks (emplace_all cs) ?p = modify_at ks (emplace_all (x # cs)) p"
      by (simp add: modify_at_modify_at emplace_all_def [abs_def] x)
    with Cons.IH [OF _ _ False l ok d] Cons.prems(1,2) first show ?thesis
      using False x by (simp add: Suc_le_eq)
  qed
qed simp

lemma lookup_at_snoc: "lookup_at (ks @ [k]) p = Option.bind (lookup_at ks p) (\<lambda>q. om_find (children q) k)"
  by (induction ks arbitrary: p) (auto split: bind_splits)

lemma adds_request: "distinct_names c \<Longrightarrow> adds c"
proof (induction c)
  case (Pruner cs t)
  have sub: "\<forall>(k, c)\<in>set cs. adds c"
    using Pruner request_simps(4) [of "Pruner cs t"] by fastforce
  have d: "distinct (map fst cs)" using Pruner.prems request_simps(4) [of "Pruner cs t"] by simp
  show ?case unfolding adds_def
  proof (intro allI impI)
    fix p ks n stack q k names counts tags
    assume q: "lookup_at ks p = Some q" "om_ok (children q)" "k \<notin> set (om_keys (children q))"
    let ?c = "Pruner cs t" and ?p = "modify_at ks (try_emplace k t) p"
    show "add_names_loop (k # names_of ?c @ names) (int (length (children ?c)) # counts_of ?c @ counts) (tag ?c # tags_of ?c @ tags)
        ((ks, n) # stack) p
      = add_names_loop names counts tags (go_back_up ((ks, n) # stack)) (modify_at ks (emplace_all [(k, ?c)]) p)"
    proof (cases "cs = []")
      case True
      then show ?thesis by (simp add: emplace_all_def [abs_def] try_emplace_def [abs_def] names_of.simps counts_of.simps tags_of.simps as_map.simps)
    next
      case False
      have l: "lookup_at (ks @ [k]) ?p = Some (Pruner [] t)"
        using q by (simp add: lookup_modify_at try_emplace_def om_find_emplace om_find_None_iff split: option.split)
          (metis om_find_None_iff option.distinct(1))
      have "modify_at (ks @ [k]) (emplace_all cs) ?p = modify_at ks (\<lambda>r. modify_at [k] (emplace_all cs) (try_emplace k t r)) p"
        by (simp add: modify_at_append modify_at_modify_at)
      also have "\<dots> = modify_at ks (emplace_all [(k, ?c)]) p"
      proof (rule modify_at_cong [OF q(1)])
        have "om_find (om_emplace k (Pruner [] t) (children q)) k = Some (Pruner [] t)"
          using om_find_emplace [OF q(2), of k "Pruner [] t" k] q(3) by (simp add: om_find_None_iff [symmetric])
        then show "modify_at [k] (emplace_all cs) (try_emplace k t q) = emplace_all [(k, ?c)] q"
          using q(3) by (simp add: try_emplace_def emplace_all_def om_set_emplace request_simps(5) [of ?c])
      qed
      finally have m: "modify_at (ks @ [k]) (emplace_all cs) ?p = modify_at ks (emplace_all [(k, ?c)]) p" .
      have "add_names_loop (concat (map (\<lambda>(k, c). k # names_of c) cs) @ names)
          (concat (map (\<lambda>(k, c). int (length (children c)) # counts_of c) cs) @ counts)
          (concat (map (\<lambda>(k, c). tag c # tags_of c) cs) @ tags) ((ks @ [k], int (length cs)) # (ks, n) # stack) ?p
        = add_names_loop names counts tags (go_back_up ((ks, n) # stack)) (modify_at ks (emplace_all [(k, ?c)]) p)"
        using add_forest [OF sub d False l, of names counts tags "(ks, n) # stack"] m by (simp add: om_ok_def om_keys_def)
      then show ?thesis using False
        by (simp add: request_simps(1) [of ?c] request_simps(2) [of ?c] request_simps(3) [of ?c] Let_def del: go_back_up.simps)
    qed
  qed
qed

lemma pruner_of_request:
  assumes "distinct_names r" "tag r = STRUCT"
  shows "new_column_pruner (names_of r) (counts_of r) (tags_of r) (int (length (children r))) = Inr (as_map r)"
proof (cases "children r = []")
  case True
  then show ?thesis using assms(2) by (simp add: new_column_pruner_def add_depth_first_def request_simps(5) [of r])
next
  case False
  have sub: "\<forall>(k, c)\<in>set (children r). adds c" "distinct (map fst (children r))"
    using assms(1) adds_request request_simps(4) [of r] by auto
  have "add_names_loop (names_of r) (counts_of r) (tags_of r) [([], int (length (children r)))] (Pruner [] STRUCT) = Inr ([], as_map r)"
    using add_forest [OF sub False, of "[]" "Pruner [] STRUCT" "Pruner [] STRUCT" "[]" "[]" "[]" "[]"] assms(2)
    by (simp add: request_simps(1) [of r] request_simps(2) [of r] request_simps(3) [of r] request_simps(5) [of r]
        emplace_all_def om_ok_def om_keys_def)
  then show ?thesis using False by (simp add: new_column_pruner_def add_depth_first_def)
qed


section \<open>Row groups\<close>

text \<open>The middle of every row group, by which it is assigned to a part of the file.\<close>

fun mid_points :: "bool \<Rightarrow> int \<times> int \<Rightarrow> row_group list \<Rightarrow> int list" where
  "mid_points first_column_with_metadata pre [] = []"
| "mid_points first_column_with_metadata pre (rg # rgs) =
     (case group_start first_column_with_metadata rg (hd (columns rg)) pre of (start_index, pre) \<Rightarrow>
        s64 (start_index + group_size rg sdiv 2) # mid_points first_column_with_metadata pre rgs)"

definition mids :: "file_metadata \<Rightarrow> int list" where
  "mids meta = mid_points (isset_meta_data (hd (columns (hd (row_groups meta))))) (0, 0) (row_groups meta)"

definition groups_between :: "file_metadata \<Rightarrow> int \<Rightarrow> int \<Rightarrow> row_group list" where
  "groups_between meta a b = map fst (filter (\<lambda>(rg, m). a \<le> m \<and> m < b) (zip (row_groups meta) (mids meta)))"

lemma filter_groups_loop_mids:
  "\<forall>rg\<in>set rgs. columns rg \<noteq> [] \<Longrightarrow>
     filter_groups_loop first a l pre rgs =
       Inr (map fst (filter (\<lambda>(rg, m). a \<le> m \<and> m < s64 (a + l)) (zip rgs (mid_points first pre rgs))))"
  by (induction rgs arbitrary: pre) (auto simp: Let_def split: list.split prod.split)

lemma filter_groups_between:
  assumes "\<forall>rg\<in>set (row_groups meta). columns rg \<noteq> []"
  shows "filter_groups meta a l = Inr (groups_between meta a (s64 (a + l)))"
proof (cases "row_groups meta")
  case (Cons rg rgs)
  then obtain c cs where "columns rg = c # cs" using assms by (cases "columns rg") auto
  with Cons filter_groups_loop_mids [OF assms] show ?thesis
    by (simp add: filter_groups_def groups_between_def mids_def del: mid_points.simps filter_groups_loop.simps)
qed (simp add: filter_groups_def groups_between_def)

lemma groups_between_split:
  "a \<le> b \<Longrightarrow> b \<le> c \<Longrightarrow> mset (groups_between meta a c) = mset (groups_between meta a b) + mset (groups_between meta b c)"
proof -
  assume "a \<le> b" "b \<le> c"
  then have "mset (map fst (filter (\<lambda>(rg, m). a \<le> m \<and> m < c) xs))
    = mset (map fst (filter (\<lambda>(rg, m). a \<le> m \<and> m < b) xs)) + mset (map fst (filter (\<lambda>(rg, m). b \<le> m \<and> m < c) xs))"
    for xs :: "(row_group \<times> int) list" by (induction xs) auto
  then show ?thesis by (simp add: groups_between_def)
qed

lemma length_mid_points: "length (mid_points first pre rgs) = length rgs"
  by (induction rgs arbitrary: pre) (auto split: prod.split)

lemma groups_between_all:
  assumes "\<forall>m\<in>set (mids meta). a \<le> m \<and> m < b"
  shows "groups_between meta a b = row_groups meta"
proof -
  have "filter (\<lambda>(rg, m). a \<le> m \<and> m < b) (zip (row_groups meta) (mids meta)) = zip (row_groups meta) (mids meta)"
    using assms by (auto intro!: filter_True dest: set_zip_rightD)
  then show ?thesis by (simp add: groups_between_def mids_def length_mid_points)
qed

lemma groups_partition:
  "sorted (a # bs) \<Longrightarrow> mset (groups_between meta a (last (a # bs)))
     = (\<Sum>(x, y)\<leftarrow>zip (a # bs) bs. mset (groups_between meta x y))"
proof (induction bs arbitrary: a)
  case Nil
  have "filter (\<lambda>(rg, m). a \<le> m \<and> m < a) xs = []" for xs :: "(row_group \<times> int) list" by (induction xs) auto
  then show ?case by (simp add: groups_between_def)
next
  case (Cons b bs)
  have "a \<le> b" "b \<le> last (b # bs)" using Cons.prems by auto
  then have "mset (groups_between meta a (last (a # b # bs)))
    = mset (groups_between meta a b) + mset (groups_between meta b (last (b # bs)))"
    using groups_between_split [of a b "last (b # bs)" meta] by simp
  then show ?case using Cons.IH [of b] Cons.prems by simp
qed

section \<open>The footer\<close>

lemma filter_columns_map:
  "\<forall>rg\<in>set rgs. \<forall>k\<in>set ks. k < length (columns rg) \<Longrightarrow>
     filter_columns rgs ks = Inr (map (\<lambda>rg. rg\<lparr>columns := map ((!) (columns rg)) ks\<rparr>) rgs)"
  by (induction rgs) (auto simp: gather_vector_def)

text \<open>A footer describes a tree of \<open>n\<close> columns: the leaves are numbered, and every row group has a chunk for each.\<close>

definition describes :: "file_metadata \<Rightarrow> nat schema_tree \<Rightarrow> nat \<Rightarrow> bool" where
  "describes meta t n \<longleftrightarrow> schema meta = flatten t \<and> wf_tree t \<and> leaf_payloads t = [0..<n] \<and> 0 < n
     \<and> (\<forall>rg\<in>set (row_groups meta). length (columns rg) = n)
     \<and> (isset_column_orders meta \<longrightarrow> length (column_orders meta) = n)"

definition pruned_footer :: "file_metadata \<Rightarrow> int \<Rightarrow> int \<Rightarrow> nat schema_tree list \<Rightarrow> file_metadata" where
  "pruned_footer meta part_offset part_length out =
     meta\<lparr>schema := flats out,
       column_orders := (if isset_column_orders meta then map ((!) (column_orders meta)) (columns_of out) else column_orders meta),
       row_groups := map (\<lambda>rg. rg\<lparr>columns := map ((!) (columns rg)) (columns_of out)\<rparr>)
         (if part_length \<ge> 0 then groups_between meta part_offset (s64 (part_offset + part_length)) else row_groups meta)\<rparr>"

lemma whole_schema_pruned:
  assumes "wf_tree t" "leaf_payloads t = [0..<n]"
  shows "case prune loc ignore_case p t of
      Inl e \<Rightarrow> filter_whole_schema loc (flatten t) ignore_case p = Inl e
    | Inr out \<Rightarrow> \<exists>m. filter_whole_schema loc (flatten t) ignore_case p = Inr m
        \<and> gather_schema (flatten t) (the_schema_map m) (the_schema_num_children m) = Inr (flats out)
        \<and> the_chunk_map m = columns_of out \<and> (\<forall>k\<in>set (the_chunk_map m). k < n)"
proof -
  let ?s = "\<lparr>current_input_schema_index = 0, next_input_chunk_index = 0, chunk_map = [], schema_map = [],
    schema_num_children = []\<rparr>"
  have "stands_at (flatten t) (leaf_payloads t) ?s (flatten t) (leaf_payloads t)" by (simp add: stands_at_def)
  then have im: "implements (flatten t) (leaf_payloads t) ?s t (filter_schema loc (flatten t) ignore_case p ?s) (prune loc ignore_case p t)"
    using implementedD [OF implemented_all] assms(1) by blast
  show ?thesis
  proof (cases "prune loc ignore_case p t")
    case (Inr out)
    then obtain s' where s': "filter_schema loc (flatten t) ignore_case p ?s = Inr s'"
      "moves (flatten t) (leaf_payloads t) ?s s' (flatten t) (leaf_payloads t) (flats out) (columns_of out)"
      using im by (auto simp: implements_def)
    have "columns_of out = map ((!) [0..<n]) (chunk_map s')" "\<forall>k\<in>set (chunk_map s'). k < n"
      "gathers (flatten t) (schema_map s') (schema_num_children s') (flats out)"
      using s'(2) assms(2) by (auto simp: moves_def)
    moreover from this(1,2) have "columns_of out = chunk_map s'" by (simp add: map_idI)
    ultimately show ?thesis using s'(1) Inr
      by (simp add: filter_whole_schema_def gather_schema_def gather_vector_def gathers_def with_children_def zip_map1 comp_def case_prod_beta)
  qed (use im in \<open>simp add: filter_whole_schema_def\<close>)
qed

lemma read_and_filter_pruned:
  assumes "thrift_read buffer = Inr meta" "describes meta t n"
    "distinct_names r" "tag r = STRUCT" "map to_tag tags = tags_of r"
  shows "read_and_filter thrift_read loc buffer part_offset part_length (names_of r) (counts_of r) tags
      (int (length (children r))) ignore_case
    = and_then (prune loc ignore_case (as_map r) t) (\<lambda>out. Inr (pruned_footer meta part_offset part_length out))"
proof -
  note d = assms(2) [unfolded describes_def]
  have ne: "\<forall>rg\<in>set (row_groups meta). columns rg \<noteq> []" using d by auto
  note w = whole_schema_pruned [of t n loc ignore_case "as_map r"]
  show ?thesis
  proof (cases "prune loc ignore_case (as_map r) t")
    case (Inl e)
    then show ?thesis using w d assms(1,5) pruner_of_request [OF assms(3,4)]
      by (simp add: read_and_filter_def deserialize_parquet_footer_def)
  next
    case (Inr out)
    then obtain m where m: "filter_whole_schema loc (flatten t) ignore_case (as_map r) = Inr m"
      "gather_schema (flatten t) (the_schema_map m) (the_schema_num_children m) = Inr (flats out)"
      "the_chunk_map m = columns_of out" "\<forall>k\<in>set (columns_of out). k < n"
      using w d by auto
    have o: "isset_column_orders meta \<Longrightarrow> gather_vector (column_orders meta) (columns_of out)
      = Inr (map ((!) (column_orders meta)) (columns_of out))" using d m(4) by (simp add: gather_vector_def)
    have between: "set (groups_between meta a b) \<subseteq> set (row_groups meta)" for a b
      by (auto simp: groups_between_def dest: set_zip_leftD)
    have same: "groups_between (meta\<lparr>schema := x, column_orders := y\<rparr>) a b = groups_between meta a b"
      "filter_groups (meta\<lparr>schema := x, column_orders := y\<rparr>) a b = filter_groups meta a b"
      "filter_groups (meta\<lparr>schema := x\<rparr>) a b = filter_groups meta a b" for x y a b
      by (simp_all add: groups_between_def mids_def filter_groups_def cong: list.case_cong)
    have c: "filter_columns rgs (columns_of out) = Inr (map (\<lambda>rg. rg\<lparr>columns := map ((!) (columns rg)) (columns_of out)\<rparr>) rgs)"
      if "set rgs \<subseteq> set (row_groups meta)" for rgs
      using that d m(4) by (intro filter_columns_map) auto
    show ?thesis
      using Inr m o c [OF between] c [OF subset_refl] d assms(1,5) pruner_of_request [OF assms(3,4)] filter_groups_between [OF ne] same
      by (simp add: read_and_filter_def deserialize_parquet_footer_def pruned_footer_def Let_def)
  qed
qed



section \<open>The columns that are kept\<close>

text \<open>
  For a request of structs and values: a column is requested when the names on the way to it lead to
  a value of the request. The request fits the file when it asks for a value where the file has a
  leaf, and for a struct where the file has a group.
\<close>

fun requested :: "column_pruner \<Rightarrow> string list \<Rightarrow> bool" where
  "requested p [] \<longleftrightarrow> tag p = VALUE"
| "requested p (k # ks) \<longleftrightarrow> tag p = STRUCT \<and> (case om_find (children p) k of None \<Rightarrow> False | Some q \<Rightarrow> requested q ks)"

primrec leaf_paths :: "'c schema_tree \<Rightarrow> (string list \<times> 'c) list" where
  "leaf_paths (Node e c ts) = (if isset_type e then [([], c)] else [])
     @ concat (map (\<lambda>(k, ls). map (\<lambda>(ks, d). (k # ks, d)) ls) (map (\<lambda>u. (elem_name (elem u), leaf_paths u)) ts))"

function request_fits :: "column_pruner \<Rightarrow> 'c schema_tree \<Rightarrow> bool" where
  "request_fits p t \<longleftrightarrow>
     (case tag p of
        VALUE \<Rightarrow> isset_type (elem t)
      | STRUCT \<Rightarrow> \<not> isset_type (elem t) \<and>
          list_all (\<lambda>u. case om_find (children p) (elem_name (elem u)) of None \<Rightarrow> True | Some q \<Rightarrow> request_fits q u) (subtrees t)
      | _ \<Rightarrow> False)"
  by pat_completeness auto

termination
  by (relation "measure (\<lambda>(p, t). size p)") (auto simp: size_child)

declare request_fits.simps [simp del]

definition kept_columns :: "column_pruner \<Rightarrow> (string list \<times> 'c) list \<Rightarrow> 'c list" where
  "kept_columns p ls = map snd (filter (\<lambda>(ks, _). requested p ks) ls)"

lemma leaf_paths_elem:
  "leaf_paths t = (if isset_type (elem t) then [([], payload t)] else [])
     @ concat (map (\<lambda>u. map (\<lambda>(ks, d). (elem_name (elem u) # ks, d)) (leaf_paths u)) (subtrees t))"
  by (cases t) (simp add: comp_def)

lemma leaf_paths_leaves: "map snd (leaf_paths t) = leaf_payloads t"
  by (induction t) (auto simp: map_concat comp_def case_prod_beta cong: map_cong)

lemma kept_columns_child:
  assumes "tag p = STRUCT"
  shows "kept_columns p (map (\<lambda>(ks, d). (k # ks, d)) ls)
    = (case om_find (children p) k of None \<Rightarrow> [] | Some q \<Rightarrow> kept_columns q ls)"
  using assms by (induction ls) (auto simp: kept_columns_def split: option.split)

lemma kept_columns_append: "kept_columns p (xs @ ys) = kept_columns p xs @ kept_columns p ys"
  by (simp add: kept_columns_def)

lemma prune_fields_kept:
  assumes "tag p = STRUCT"
    and "\<And>u q. u \<in> set ts \<Longrightarrow> om_find (children p) (elem_name (elem u)) = Some q \<Longrightarrow>
      \<exists>out. prune loc False q u = Inr out \<and> columns_of out = kept_columns q (leaf_paths u)"
  shows "\<exists>out. prune_fields loc False p ts = Inr out \<and> columns_of out
    = kept_columns p (concat (map (\<lambda>u. map (\<lambda>(ks, d). (elem_name (elem u) # ks, d)) (leaf_paths u)) ts))"
  using assms(2)
proof (induction ts)
  case (Cons u ts)
  obtain rest where r: "prune_fields loc False p ts = Inr rest" "columns_of rest
    = kept_columns p (concat (map (\<lambda>u. map (\<lambda>(ks, d). (elem_name (elem u) # ks, d)) (leaf_paths u)) ts))"
    using Cons by fastforce
  obtain k where "(case om_find (children p) (elem_name (elem u)) of None \<Rightarrow> Inr [] | Some q \<Rightarrow> prune loc False q u) = Inr k"
    "columns_of k = (case om_find (children p) (elem_name (elem u)) of None \<Rightarrow> [] | Some q \<Rightarrow> kept_columns q (leaf_paths u))"
    using Cons.prems [of u] by (cases "om_find (children p) (elem_name (elem u))") auto
  then show ?case using r assms(1) by (simp add: get_name_def kept_columns_append kept_columns_child)
qed (simp add: kept_columns_def)

lemma prune_kept:
  fixes t :: "'c schema_tree"
  shows "request_fits p t \<Longrightarrow> wf_tree t \<Longrightarrow>
    \<exists>out. prune loc False p t = Inr out \<and> columns_of out = kept_columns p (leaf_paths t)"
proof (induction p t rule: request_fits.induct)
  case (1 p t)
  show ?case
  proof (cases "tag p")
    case VALUE
    then show ?thesis using 1(2) [unfolded request_fits.simps [of p t]] wf_treeD [OF 1(3)]
      by (auto simp: prune.simps [of loc False p t] prune_leaf_def leaf_paths_elem [of t] kept_columns_def)
  next
    case STRUCT
    have struct: "\<not> isset_type (elem t)"
      "\<And>u q. u \<in> set (subtrees t) \<Longrightarrow> om_find (children p) (elem_name (elem u)) = Some q \<Longrightarrow> request_fits q u"
      using 1(2) [unfolded request_fits.simps [of p t]] STRUCT by (auto simp: list_all_iff split: option.splits)
    obtain kept where k: "prune_fields loc False p (subtrees t) = Inr kept" "columns_of kept
      = kept_columns p (concat (map (\<lambda>u. map (\<lambda>(ks, d). (elem_name (elem u) # ks, d)) (leaf_paths u)) (subtrees t)))"
      using prune_fields_kept [OF STRUCT, of "subtrees t" loc] 1(1) [OF STRUCT] struct wf_treeD(3) [OF 1(3)] by blast
    then show ?thesis using STRUCT struct(1)
      by (auto simp: prune.simps [of loc False p t] leaf_paths_elem [of t])
  qed (use 1(2) [unfolded request_fits.simps [of p t]] in simp_all)
qed

text \<open>The pruner asks for what the request asks for.\<close>

lemma om_find_fold_emplace:
  "om_ok m \<Longrightarrow> distinct (map fst cs) \<Longrightarrow> set (map fst cs) \<inter> set (om_keys m) = {} \<Longrightarrow>
     om_find (fold (\<lambda>(k, c). om_emplace k (as_map c)) cs m) k
       = (case om_find cs k of None \<Rightarrow> om_find m k | Some c \<Rightarrow> Some (as_map c))"
proof (induction cs arbitrary: m)
  case (Cons e cs)
  obtain j c where e: "e = (j, c)" by fastforce
  have j: "om_find m j = None" "j \<notin> set (map fst cs)" using Cons.prems(2,3) e by (auto simp: om_find_None_iff)
  have "om_find cs j = None" using j(2) by (simp add: om_find_None_iff om_keys_def)
  then show ?case using Cons.IH [of "om_emplace j (as_map c) m"] Cons.prems e j
    by (auto simp: om_ok_emplace om_keys_emplace om_find_emplace split: option.split)
qed simp

lemma as_map_find:
  assumes "distinct_names r"
  shows "om_find (children (as_map r)) k = map_option as_map (om_find (children r) k)"
proof -
  have "distinct (map fst (children r))" using assms request_simps(4) [of r] by simp
  then have "om_find (fold (\<lambda>(k, c). om_emplace k (as_map c)) (children r) []) k
    = (case om_find (children r) k of None \<Rightarrow> om_find [] k | Some c \<Rightarrow> Some (as_map c))"
    by (intro om_find_fold_emplace) (auto simp: om_ok_def om_keys_def)
  then show ?thesis by (simp add: request_simps(5) [of r] split: option.split)
qed

lemma as_map_tag [simp]: "tag (as_map r) = tag r"
  by (simp add: request_simps(5) [of r])

lemma distinct_names_child: "distinct_names r \<Longrightarrow> om_find (children r) k = Some q \<Longrightarrow> distinct_names q"
  using request_simps(4) [of r] om_find_in_set [of "children r" k q] by auto

lemma as_map_requested: "distinct_names r \<Longrightarrow> requested (as_map r) ks = requested r ks"
proof (induction ks arbitrary: r)
  case (Cons k ks)
  then show ?case using distinct_names_child by (auto simp: as_map_find split: option.split)
qed simp

lemma as_map_fits: "distinct_names r \<Longrightarrow> request_fits r t \<Longrightarrow> request_fits (as_map r) t"
proof (induction r t rule: request_fits.induct)
  case (1 r t)
  show ?case
  proof (cases "tag r")
    case STRUCT
    have "request_fits (as_map q) u" if "u \<in> set (subtrees t)" "om_find (children r) (elem_name (elem u)) = Some q" for u q
      using 1(1) [OF STRUCT that(1) that(2) distinct_names_child [OF 1(2) that(2)]] 1(3) [unfolded request_fits.simps [of r t]] STRUCT that
      by (auto simp: list_all_iff split: option.splits)
    then show ?thesis using 1(3) [unfolded request_fits.simps [of r t]] STRUCT
      by (auto simp: request_fits.simps [of "as_map r" t] as_map_find [OF 1(2)] list_all_iff split: option.split)
  qed (use 1(3) [unfolded request_fits.simps [of r t]] in \<open>simp_all add: request_fits.simps [of "as_map r" t]\<close>)
qed

lemma kept_by_position:
  assumes "map snd ls = [0..<length xs]"
  shows "map ((!) xs) (kept_columns p ls) = kept_columns p (zip (map fst ls) xs)"
proof -
  have "zip (map fst ls) xs = zip (map fst ls) (map ((!) xs) (map snd ls))" using assms by (simp add: map_nth)
  also have "\<dots> = map (\<lambda>(ks, i). (ks, xs ! i)) ls" by (induction ls) auto
  finally show ?thesis by (simp add: kept_columns_def filter_map comp_def case_prod_unfold)
qed

section \<open>The properties on a file\<close>

text \<open>A file of four columns in three row groups, and a request for two of them.\<close>

definition sample_element :: "string \<Rightarrow> int \<Rightarrow> schema_element" where
  "sample_element name n =
     \<lparr>elem_name = name, isset_type = (n = 0), isset_num_children = (n > 0), elem_num_children = n,
      isset_repetition_type = False, elem_repetition_type = OTHER_REPETITION 0,
      isset_converted_type = False, elem_converted_type = OTHER_CONVERTED 0\<rparr>"

definition sample_tree :: "nat schema_tree" where
  "sample_tree = Node (sample_element ''root'' 3) 0
     [Node (sample_element ''a'' 0) 0 [],
      Node (sample_element ''s'' 2) 0 [Node (sample_element ''x'' 0) 1 [], Node (sample_element ''y'' 0) 2 []],
      Node (sample_element ''b'' 0) 3 []]"

definition sample_request :: column_pruner where
  "sample_request = Pruner [(''s'', Pruner [(''y'', Pruner [] VALUE)] STRUCT), (''a'', Pruner [] VALUE)] STRUCT"

definition sample_chunk :: "int \<Rightarrow> column_chunk" where
  "sample_chunk offset =
     \<lparr>isset_meta_data = True,
      meta_data = \<lparr>data_page_offset = offset, isset_dictionary_page_offset = False,
        dictionary_page_offset = 0, md_total_compressed_size = 10\<rparr>\<rparr>"

definition sample_group :: "int \<Rightarrow> row_group" where
  "sample_group offset =
     \<lparr>columns = map (\<lambda>i. sample_chunk (offset + 10 * i)) [0, 1, 2, 3], num_rows = 5, file_offset = offset,
      isset_total_compressed_size = False, total_compressed_size = 0\<rparr>"

definition sample_footer :: file_metadata where
  "sample_footer =
     \<lparr>schema = flatten sample_tree, row_groups = map sample_group [4, 44, 84],
      isset_column_orders = True, column_orders = [7, 8, 9, 10]\<rparr>"

definition sample_locale :: c_locale where
  "sample_locale = \<lparr>mbsrtowcs = (\<lambda>s. Some (map of_char s)), towlower = id, wcsrtombs = (\<lambda>w. Some (map (\<lambda>c. char_of (unat c)) w))\<rparr>"

lemma sample_request_simps:
  "names_of sample_request = [''s'', ''y'', ''a'']" "counts_of sample_request = [1, 0, 0]"
  "tags_of sample_request = [STRUCT, VALUE, VALUE]" "distinct_names sample_request" "tag sample_request = STRUCT"
  "children sample_request = [(''s'', Pruner [(''y'', Pruner [] VALUE)] STRUCT), (''a'', Pruner [] VALUE)]"
  by (simp_all add: sample_request_def names_of.simps counts_of.simps tags_of.simps distinct_names.simps)

lemma sample_describes: "describes sample_footer sample_tree 4"
  by (simp add: describes_def sample_footer_def sample_tree_def sample_element_def get_num_children_def sample_group_def
      eval_nat_numeral upt_conv_Cons)

lemma sample_pruned:
  "prune sample_locale False (as_map sample_request) sample_tree
     = Inr [Node (with_children 2 (sample_element ''root'' 3)) 0
            [Node (with_children 0 (sample_element ''a'' 0)) 0 [],
             Node (with_children 1 (sample_element ''s'' 2)) 0 [Node (with_children 0 (sample_element ''y'' 0)) 2 []]]]"
proof -
  have "as_map sample_request
    = Pruner [(''a'', Pruner [] VALUE), (''s'', Pruner [(''y'', Pruner [] VALUE)] STRUCT)] STRUCT"
    by (simp add: sample_request_def as_map.simps)
  then show ?thesis by (simp add: sample_tree_def prune.simps prune_leaf_def get_name_def sample_element_def)
qed

lemma sample_fits: "request_fits sample_request sample_tree"
  by (simp add: sample_request_def sample_tree_def sample_element_def request_fits.simps)

text \<open>
  C33: A request that is flattened depth first, as the Java side sends it, with distinct names among
  the children of every node, is rebuilt: the tree of pruners has the same nodes, its children in the
  order of the map. Nothing is left on the stack.
\<close>

theorem request_rebuilt:
  assumes "distinct_names r" "tag r = STRUCT"
  shows "new_column_pruner (names_of r) (counts_of r) (tags_of r) (int (length (children r))) = Inr (as_map r)"
  by (rule pruner_of_request [OF assms])

lemma request_rebuilt_witness:
  "new_column_pruner [''s'', ''y'', ''a''] [1, 0, 0] [STRUCT, VALUE, VALUE] 2
     = Inr (Pruner [(''a'', Pruner [] VALUE), (''s'', Pruner [(''y'', Pruner [] VALUE)] STRUCT)] STRUCT)"
proof -
  have "as_map sample_request
    = Pruner [(''a'', Pruner [] VALUE), (''s'', Pruner [(''y'', Pruner [] VALUE)] STRUCT)] STRUCT"
    by (simp add: sample_request_def as_map.simps)
  then show ?thesis using request_rebuilt [of sample_request] by (simp add: sample_request_simps)
qed

text \<open>
  C32: Row groups and parts of the file: when consecutive parts are read, as the tasks of a job do, every
  row group belongs to exactly one of them. The row groups of the parts are together those of the
  whole range, and all row groups of the file when their middles lie in the range.
\<close>

theorem row_groups_partitioned:
  assumes "\<forall>rg\<in>set (row_groups meta). columns rg \<noteq> []" "sorted (a # bs)"
    "\<forall>x\<in>set (a # bs). - (2 ^ 63) \<le> x \<and> x < 2 ^ 63"
  shows "\<exists>parts whole. map2 (\<lambda>x y. filter_groups meta x (y - x)) (a # bs) bs = map Inr parts
    \<and> filter_groups meta a (last (a # bs) - a) = Inr whole
    \<and> mset whole = sum_list (map mset parts)
    \<and> ((\<forall>m\<in>set (mids meta). a \<le> m \<and> m < last (a # bs)) \<longrightarrow> whole = row_groups meta)"
proof -
  have f: "filter_groups meta x (y - x) = Inr (groups_between meta x y)" if "y \<in> set (a # bs)" for x y
  proof -
    have "s64 y = y" using assms(3) that by (intro s64_id) auto
    then show ?thesis using filter_groups_between [OF assms(1), of x "y - x"] by simp
  qed
  let ?parts = "map2 (groups_between meta) (a # bs) bs"
  have "map2 (\<lambda>x y. filter_groups meta x (y - x)) (a # bs) bs = map Inr ?parts"
    using f by (auto dest!: set_zip_rightD)
  moreover have "mset (groups_between meta a (last (a # bs))) = sum_list (map mset ?parts)"
    using groups_partition [OF assms(2)] by (simp add: comp_def case_prod_beta')
  moreover have "filter_groups meta a (last (a # bs) - a) = Inr (groups_between meta a (last (a # bs)))"
    by (rule f) (metis last_in_set list.distinct(1))
  ultimately show ?thesis using groups_between_all [of meta a "last (a # bs)"] by blast
qed

lemma row_groups_partitioned_witness:
  "\<exists>g1 g2. filter_groups sample_footer 0 64 = Inr g1 \<and> filter_groups sample_footer 64 60 = Inr g2
     \<and> mset (row_groups sample_footer) = mset g1 + mset g2"
proof -
  have "mids sample_footer = [24, 64, 104]"
    by (simp add: mids_def sample_footer_def sample_group_def sample_chunk_def group_start_def get_offset_def group_size_def s64_id signed_divide_int_def)
  then show ?thesis
    using row_groups_partitioned [of sample_footer 0 "[64, 124]"]
    by (auto simp: sample_footer_def sample_group_def)
qed

text \<open>
  C31: The footer is pruned as the tree that it describes: for a request with distinct names, the schema
  that is left is the flattened pruned tree, the column orders and the chunks of every row group are
  those of the leaves that are kept, and the row groups are those of the part; when the tree cannot be
  pruned, because it has another shape than the request, the error is that of the tree.
\<close>

theorem footer_pruned:
  assumes "thrift_read buffer = Inr meta" "describes meta t n"
    "distinct_names r" "tag r = STRUCT" "map to_tag tags = tags_of r"
  shows "read_and_filter thrift_read loc buffer part_offset part_length (names_of r) (counts_of r) tags
      (int (length (children r))) ignore_case
    = and_then (prune loc ignore_case (as_map r) t) (\<lambda>out. Inr (pruned_footer meta part_offset part_length out))"
  by (rule read_and_filter_pruned) (fact assms)+

lemma footer_pruned_witness:
  "read_and_filter (\<lambda>_. Inr sample_footer) sample_locale [] 40 (- 1) [''s'', ''y'', ''a''] [1, 0, 0] [1, 0, 0] 2 False
     = Inr (pruned_footer sample_footer 40 (- 1)
         [Node (with_children 2 (sample_element ''root'' 3)) 0
            [Node (with_children 0 (sample_element ''a'' 0)) 0 [],
             Node (with_children 1 (sample_element ''s'' 2)) 0 [Node (with_children 0 (sample_element ''y'' 0)) 2 []]]])"
  using footer_pruned [of "\<lambda>_. Inr sample_footer" "[]" sample_footer sample_tree 4 sample_request "[1, 0, 0]"
      sample_locale 40 "- 1" False]
  by (simp add: sample_request_simps sample_describes sample_pruned to_tag_def)

text \<open>
  C30: A request of structs and values that fits the file is served, when names are compared as they are
  (\<open>ignore_case\<close> off): the footer is read, and every row group of the part keeps the chunks of the columns
  that are requested, in the order of the file, and no others.
\<close>

theorem requested_columns_kept:
  assumes "thrift_read buffer = Inr meta" "describes meta t n"
    "distinct_names r" "tag r = STRUCT" "map to_tag tags = tags_of r" "request_fits r t"
  shows "\<exists>pruned. read_and_filter thrift_read loc buffer part_offset part_length (names_of r) (counts_of r) tags
        (int (length (children r))) False = Inr pruned
    \<and> row_groups pruned = map (\<lambda>rg. rg\<lparr>columns := kept_columns r (zip (map fst (leaf_paths t)) (columns rg))\<rparr>)
        (if part_length \<ge> 0 then groups_between meta part_offset (s64 (part_offset + part_length)) else row_groups meta)"
proof -
  note d = assms(2) [unfolded describes_def]
  obtain out where out: "prune loc False (as_map r) t = Inr out"
    "columns_of out = kept_columns (as_map r) (leaf_paths t)"
    using prune_kept [OF as_map_fits [OF assms(3,6)]] d by blast
  have "kept_columns (as_map r) ls = kept_columns r ls" for ls :: "(string list \<times> nat) list"
    by (simp add: kept_columns_def as_map_requested [OF assms(3)])
  then have c: "map ((!) (columns rg)) (columns_of out) = kept_columns r (zip (map fst (leaf_paths t)) (columns rg))"
    if "rg \<in> set (row_groups meta)" for rg
    using d that out(2) by (auto simp: leaf_paths_leaves intro!: kept_by_position)
  have "rg \<in> set (groups_between meta a b) \<Longrightarrow> rg \<in> set (row_groups meta)" for rg a b
    by (auto simp: groups_between_def dest: set_zip_leftD)
  with c show ?thesis
    using read_and_filter_pruned [of thrift_read buffer meta t n r tags, OF assms(1-5), of loc part_offset part_length False] out(1)
    by (auto simp: pruned_footer_def)
qed

lemma requested_columns_kept_witness:
  "\<exists>pruned. read_and_filter (\<lambda>_. Inr sample_footer) sample_locale [] 40 40 [''s'', ''y'', ''a''] [1, 0, 0] [1, 0, 0] 2 False
      = Inr pruned
    \<and> map columns (row_groups pruned) = [map sample_chunk [44, 64]]"
proof -
  have "groups_between sample_footer 40 80 = [sample_group 44]"
    by (simp add: groups_between_def mids_def sample_footer_def sample_group_def sample_chunk_def group_start_def
        get_offset_def group_size_def s64_id signed_divide_int_def)
  moreover have "leaf_paths sample_tree = [([''a''], 0), ([''s'', ''x''], 1), ([''s'', ''y''], 2), ([''b''], 3)]"
    by (simp add: sample_tree_def sample_element_def)
  ultimately show ?thesis
    using requested_columns_kept [of "\<lambda>_. Inr sample_footer" "[]" sample_footer sample_tree 4 sample_request "[1, 0, 0]"
        sample_locale 40 40]
    by (auto simp: sample_request_simps sample_describes sample_fits to_tag_def kept_columns_def sample_group_def s64_id)
qed

section \<open>Two limits of the walk\<close>

text \<open>
  When no field of the struct in a list is requested, the struct is removed but the list and its
  repeated group stay with one child each: the schema that is left is not a tree.
\<close>

lemma empty_list_element:
  "filter_whole_schema sample_locale
     [sample_element ''root'' 1, sample_element ''l'' 1,
      (sample_element ''list'' 1)\<lparr>isset_repetition_type := True, elem_repetition_type := REPEATED\<rparr>,
      sample_element ''element'' 1, sample_element ''x'' 0] False
     (Pruner [(''l'', Pruner [(''element'', Pruner [(''y'', Pruner [] VALUE)] STRUCT)] LIST)] STRUCT)
   = Inr \<lparr>the_schema_map = [0, 1, 2], the_schema_num_children = [1, 1, 1], the_chunk_map = []\<rparr>"
  by (simp add: filter_whole_schema_def filter_schema.simps filter_schema_struct.simps struct_children.simps
      filter_schema_list.simps schema_at_def sample_element_def at_child_def get_name_def get_num_children_def
      push_element_def pop_element_def is_repeated_def skip_def)

text \<open>
  A name that is no valid sequence of the C locale is not rejected: the tests against negative sizes
  never hold, and the code goes on with a vector that has no element, or with a string of
  \<open>(size_t)-1\<close> characters.
\<close>

lemma invalid_sequence_undefined:
  "mbsrtowcs loc (takeWhile (\<lambda>c. c \<noteq> CHR 0x00) input) = None \<Longrightarrow> unicode_to_lower loc input = Inl undefined_behaviour"
  by (simp add: unicode_to_lower_def)

end
