(* ===== verification/Spec2Isabelle.thy ===== *)
theory Spec2Isabelle
  imports AdaptorProps DecimalProps Truncate TimeZone BloomFilter CastDecimal GetJsonProps ParquetProps
begin

text \<open>
  A verification of the native core of spark-rapids-jni, the library under the Spark plugin for
  GPUs. The native code has three kinds of parts: the allocation arbiter that keeps concurrent
  Spark tasks from deadlocking on GPU memory; kernels that compute what Spark's CPU expressions
  compute, bit for bit, on columns of cuDF; and glue. Modelled here are the arbiter, the decimal
  kernels, the date and time kernels, the Murmur hash, the bloom filter, the casts of strings to
  integers and decimals, the JSON parser with the evaluation of JSON paths, and the pruning of
  Parquet footers. Paths below are relative to \<^verbatim>\<open>src/src/main/cpp/src/\<close>.

  \<^bold>\<open>The resource adaptor\<close> (\<^verbatim>\<open>SparkResourceAdaptorJni.cpp\<close>, \<^verbatim>\<open>TaskPriorityJni.cpp\<close>).
  Threads of tasks allocate through the adaptor; one whose allocation fails is blocked, later rolled
  back (BUFN) or told to split its input, so that some task always goes on.
  \<^item> \<open>Prelude\<close>: C++ integer conversions on \<open>int\<close>, and \<open>std::map\<close> as a sorted association list.
  \<^item> \<open>TaskPriority\<close>: the priority service and \<open>thread_priority\<close>; a locale for what the adaptor relies on
    (distinct priorities, earlier tasks first), interpreted on the two functions of the service.
  \<^item> \<open>ThreadState\<close>: the states, the metrics and \<open>full_thread_state\<close>.
  \<^item> \<open>Adaptor\<close>: class \<open>spark_resource_adaptor\<close> as a record, transitions with their log, the choice of the
    thread to wake, roll back or split, and deadlock detection.
  \<^item> \<open>AdaptorOps\<close>: \<open>block_thread_until_ready\<close>, the steps before and after an allocation and on a free, and
    every public call.
  \<^item> \<open>AdaptorInv\<close>: the invariant and that every critical section keeps it, logs only known
    transitions and notifies every thread that it takes out of a blocked state. \<open>documented\<close> has the
    edges of \<^verbatim>\<open>docs/img/memory_state_machine.png\<close>, \<open>edge\<close> those that the code takes: the code lacks the
    one from \<open>THREAD_ALLOC_FREE\<close> to \<open>THREAD_ALLOC\<close> and has one more, from \<open>THREAD_ALLOC\<close> to
    \<open>THREAD_BUFN_THROW\<close>.
  \<^item> \<open>AdaptorSys\<close>: the interleavings of all threads as a step relation over critical sections, with
    waiting, spurious wake-ups and allocation; a locale for invariants of such systems, interpreted
    on it.
  \<^item> \<open>AdaptorChoice\<close>: a locale for scans that keep the best thread, interpreted for the lowest and the
    highest priority; deadlock detection against its declarative meaning.
  \<^item> \<open>AdaptorProps\<close>: the properties.
  A mutex section is one atomic step. The loop of \<open>block_thread_until_ready\<close> has fuel 3: a round
  that does not wait, return or throw leads to a state in which the next round does, and
  \<open>block_thread_until_ready_ends\<close> shows that the fuel is never exhausted. Counters and nanoseconds are
  unbounded integers. Two members are there for the proofs only: \<open>woken\<close>, in an entry of the log of
  transitions, says whether the thread had been notified, and \<open>since\<close> counts for a waiting thread
  how often its entry had been erased when it began to wait. Any thread may call at any time and
  may unregister a thread that waits; such a thread goes on with the end iterator of the map, which is
  undefined behaviour (\<open>waiting_thread_erased\<close>).

  \<^bold>\<open>Decimals\<close> (\<^verbatim>\<open>decimal_utils.cu\<close>).
  \<^item> \<open>Chunked256\<close>: struct \<open>chunked256\<close> as four 64-bit words, its arithmetic, schoolbook multiplication, long
    division and rounding; their values modulo \<open>2 ^ 256\<close>. A locale for wrapping integers is
    interpreted on them, and the decimal proofs use only its laws.
  \<^item> \<open>Decimal128\<close>: the table of powers of ten, \<open>precision10\<close>, scaling, the row functors and the column
    functions for all six operations.
  \<^item> \<open>DecimalProps\<close>: each operation equals exact arithmetic followed by one half-up rounding (two in the
    legacy mode of the product, the default of the Java side), with overflow reported exactly beyond 38 digits, under hypotheses
    on the scales that Spark's types satisfy; and three inputs where the code departs from this.
  The loops run over 4 chunks or 256 bits and are structural recursions.

  \<^bold>\<open>Dates and times\<close> (\<^verbatim>\<open>datetime_utils.cuh\<close>, \<^verbatim>\<open>integer_utils.cuh\<close>, \<^verbatim>\<open>datetime_rebase.cu\<close>, \<^verbatim>\<open>datetime_truncate.cu\<close>,
  \<^verbatim>\<open>timezones.cu\<close>).
  \<^item> \<open>Calendar\<close>: the locale \<open>civil\<close> of calendars counted from March, with both round trips between days and
    dates, validity, order and the step to the next date, proved once.
  \<^item> \<open>DateTimeUtils\<close>: \<open>date_time_utils\<close>, \<open>date_segments\<close> and \<open>overflow_checker\<close> with every 32-bit and 64-bit
    wrap written out; the Gregorian instance of the locale.
  \<^item> \<open>Rebase\<close>: rebasing days and microseconds between calendars; the Julian instance of the locale.
  \<^item> \<open>Truncate\<close>: parsing of formats and truncation of dates and timestamps.
  \<^item> \<open>TimeZone\<close>: daylight saving rules, conversion to and from UTC, and ORC time zones.
  What the code uses of \<^verbatim>\<open>cuda::std::chrono\<close> follows the C++ standard: dates are proleptic Gregorian,
  a year has 16 bits, and the difference of two weekdays is taken modulo 7. \<^verbatim>\<open>thrust::upper_bound\<close> is
  modelled on sorted ranges, where it is specified. The theorems on dates that go through chrono are for
  the years that it can hold, -32767 to 32767; beyond them the code is wrong (\<open>far_days_wrong\<close>,
  \<open>far_timestamps_wrong\<close>). The round trip through a time zone is for zones without daylight saving rules,
  and for fractions of a second only after 1970.

  \<^bold>\<open>Hash and bloom filter\<close> (\<^verbatim>\<open>hash.cuh\<close>, \<^verbatim>\<open>murmur_hash.cuh\<close>, \<^verbatim>\<open>murmur_hash.cu\<close>, \<^verbatim>\<open>bloom_filter.cu\<close>).
  \<^item> \<open>Hash\<close>: the Murmur hash of every element type and of a row; the bytes of a Java \<open>BigDecimal\<close>.
  \<^item> \<open>Interleaving\<close>: threads that execute lists of atomic operations; a locale for memories whose
    operations commute, where every schedule has the same result.
  \<^item> \<open>BloomFilter\<close>: the buffer with its big-endian header, insertion, probe and merge; the locale is
    interpreted on the atomic disjunction of words. A filter implements the set of bits that Spark
    reads from the serialized form; inserted values are found under every schedule of the threads.

  \<^bold>\<open>Casts of strings\<close> (\<^verbatim>\<open>cast_string.cu\<close>).
  \<^item> \<open>CastString\<close>: the integer and the decimal kernel with their column functions; the integer cast
    against the value of a literal, row by row.
  \<^item> \<open>CastDecimal\<close>: on plain decimal notation the decimal kernel is one rounding of the exact value; on every
    input its result fits the storage type; and inputs where it departs from Spark.

  \<^bold>\<open>JSON\<close> (\<^verbatim>\<open>json_parser.cuh\<close>, \<^verbatim>\<open>get_json_object.cu\<close>, \<^verbatim>\<open>get_json_object.hpp\<close>).
  \<^item> \<open>JsonString\<close>: scanning, matching and writing of quoted strings. \<open>JsonStringProps\<close>: the same against a
    reference that splits a string into characters and escapes. \<open>JsonUtf8\<close>: the encoder of code points is
    UTF-8.
  \<^item> \<open>JsonParser\<close>: the class \<open>json_parser\<close> as a record, with one function per method.
  \<^item> \<open>JsonText\<close>, \<open>JsonTokens\<close>: the grammar of JSON as a relation between values and texts, and what each
    step of the parser does at each place of a text. \<open>JsonCopy\<close>: skipping and copying a value.
  \<^item> \<open>GetJsonObject\<close>: the generator, the stack machine with its twelve case paths, the kernel, the two
    launches of a batch, and the loop over the batches.
  \<^item> \<open>GetJsonEnds\<close>: the evaluation returns on every row. \<open>GetJsonPaths\<close>, \<open>GetJsonEval\<close>: on the text of a value
    a path of names and indices succeeds exactly when it leads to a value, and writes that value.
    \<open>GetJsonDepth\<close>: a row within the depth limit never reports it exceeded.
  \<^item> \<open>GetJsonColumn\<close>, \<open>GetJsonProps\<close>: the columns: on rows that hold values the results do not depend on
    the budget, on the number of paths per batch or on whether a second launch is needed; and rows
    where the code departs from Spark.
  The limits are those of the code: a stack of 64 contexts in one 64-bit word and at most 16
  instructions in a path. Loops that might run forever are \<open>partial_function\<close>s, and
  \<open>get_json_object_returns\<close> shows that they all end, with no fuel. The normalization of floating point
  numbers is the parameter \<open>norm\<close>. What the code leaves undetermined, the members that the constructor
  does not initialize and the byte behind a row, is the parameter \<open>garbage\<close>, and the theorems hold for
  each of its values. The output buffer is a function from addresses to bytes, positions and
  lengths are natural numbers. The threads of a kernel, which run at the same time on the device, run
  one after the other here. For rows that hold values this is no restriction: each thread writes its
  result to its own place (\<open>cell_writes_commute\<close>). A row whose evaluation fails after it has written
  something may write into the place of the next row (\<open>failed_copy_overruns\<close>), always so in a second
  launch, where its place is empty; then the bytes of the next row are not determined by the code, and
  nothing but termination is stated. A field name is a range at an address that is not null: the copying
  of the names to the device (\<^verbatim>\<open>construct_path_commands\<close>) is not modelled, and when all names of a
  batch are empty the pointer may be null and the name is never found. Paths with wildcards are modelled, and the theorems on
  termination, budgets and depth cover them; the values they produce are not characterized.

  \<^bold>\<open>Parquet footers\<close> (\<^verbatim>\<open>NativeParquetJni.cpp\<close>).
  \<^item> \<open>ParquetFooter\<close>: class \<open>column_pruner\<close> as a tree, its construction from depth first lists, the walk
    over the flattened schema with one function per tag, the choice of row groups, the gathering of
    the footer and the calls of the JNI class. Reading and writing Thrift and the C locale are
    parameters.
  \<^item> \<open>ParquetPrune\<close>: a schema as a tree, the reference \<open>prune\<close> on trees, and that the walk with its two
    positions and three maps implements it for every tag, errors included.
  \<^item> \<open>ParquetProps\<close>: the pruner is the tree that was flattened; the whole call implements the pruning of
    the tree; requested columns are kept and no others; consecutive parts share out the row groups;
    and two limits of the walk.
  The walks recurse on the pruner and on the number of children and need no fuel. The counters of the
  walk do not wrap, offsets and sizes of row groups are 64-bit integers.

  \<^bold>\<open>Conventions.\<close> Device code that runs once per row is a function of the row, and a column is a list
  with its validity. A failed \<^verbatim>\<open>CUDF_EXPECTS\<close> is an \<open>Inl\<close> of an error type; undefined behaviour that a
  caller must avoid (an exponent or an index out of range) is \<open>None\<close>. Signed overflow wraps around,
  as on the device. Each theorem with hypotheses is followed by a witness on concrete data.

  \<^bold>\<open>Not modelled.\<close> The conversion of floating point columns to decimal, the casts of strings to
  floating point, the floating point formatters and histograms (device floating point); the row
  hasher of nested columns, xxHash and the Hive hash; the URI parser, number bases, row conversion,
  shuffle, Iceberg and hyperloglog kernels, which are left; code whose work is
  done by cuDF; the JNI glue, logging, the profiler, fault injection, benchmarks and tests.
\<close>

end
